(* ===== verification/Prelude.thy ===== *)
theory Prelude
imports Main "HOL-Library.Word" "HOL-Library.Multiset"
begin

section \<open>Machine integers, checked arithmetic, results and byte strings\<close>

text \<open>
  What every component shares.  Rust's unsigned integers are words of their
  width, so \<open>+\<close>, \<open>-\<close> and \<open>*\<close> wrap exactly as the \<open>wrapping_\<close> operations do;
  the \<open>checked_\<close> and \<open>saturating_\<close> operations, widening casts
  (\<open>u128::from\<close>), narrowing conversions (\<open>u64::try_from\<close>) and \<open>div_ceil\<close> are
  defined on top of them.  The collection \<open>word_nat\<close> moves statements about
  words to the naturals.  A \<open>Result<T, E>\<close> is the sum type \<open>'e + 'a\<close> with the
  error on the left; \<open>rbind\<close> is the question mark operator, \<open>ensure\<close> an early
  return, \<open>ok_or\<close> the method of that name.  A fixed 32-byte array that the code
  only stores, compares or splits into two little-endian \<open>u128\<close> halves is a
  256-bit word; \<open>le_bytes\<close> gives its bytes.
\<close>

named_theorems word_nat \<open>facts that move word statements to the naturals\<close>
named_theorems result_simps \<open>inversion of results, for safety proofs\<close>

subsection \<open>The integer types of the source\<close>

type_synonym u8 = "8 word"
type_synonym u16 = "16 word"
type_synonym u32 = "32 word"
type_synonym u64 = "64 word"
type_synonym u128 = "128 word"
type_synonym bytes32 = "256 word"
type_synonym bytes = "u8 list"

definition widen :: "u64 \<Rightarrow> u128" where
  "widen a = ucast a"

definition narrow :: "u128 \<Rightarrow> u64 option" where
  "narrow a = (if unat a < 2 ^ 64 then Some (ucast a) else None)"

definition checked_add :: "'a::len word \<Rightarrow> 'a word \<Rightarrow> 'a word option" where
  "checked_add a b = (if unat a + unat b < 2 ^ LENGTH('a) then Some (a + b) else None)"

definition checked_sub :: "'a::len word \<Rightarrow> 'a word \<Rightarrow> 'a word option" where
  "checked_sub a b = (if b \<le> a then Some (a - b) else None)"

definition checked_mul :: "'a::len word \<Rightarrow> 'a word \<Rightarrow> 'a word option" where
  "checked_mul a b = (if unat a * unat b < 2 ^ LENGTH('a) then Some (a * b) else None)"

definition saturating_add :: "'a::len word \<Rightarrow> 'a word \<Rightarrow> 'a word" where
  "saturating_add a b = (if unat a + unat b < 2 ^ LENGTH('a) then a + b else - 1)"

definition saturating_sub :: "'a::len word \<Rightarrow> 'a word \<Rightarrow> 'a word" where
  "saturating_sub a b = (if b \<le> a then a - b else 0)"

definition saturating_mul :: "'a::len word \<Rightarrow> 'a word \<Rightarrow> 'a word" where
  "saturating_mul a b = (if unat a * unat b < 2 ^ LENGTH('a) then a * b else - 1)"

definition div_ceil :: "'a::len word \<Rightarrow> 'a word \<Rightarrow> 'a word" where
  "div_ceil a b = (if a mod b = 0 then a div b else a div b + 1)"

subsection \<open>Results\<close>

definition rbind :: "'e + 'a \<Rightarrow> ('a \<Rightarrow> 'e + 'b) \<Rightarrow> 'e + 'b" where
  "rbind m f = (case m of Inl e \<Rightarrow> Inl e | Inr x \<Rightarrow> f x)"

definition ensure :: "bool \<Rightarrow> 'e \<Rightarrow> 'e + unit" where
  "ensure c e = (if c then Inr () else Inl e)"

definition ok_or :: "'e \<Rightarrow> 'a option \<Rightarrow> 'e + 'a" where
  "ok_or e x = (case x of None \<Rightarrow> Inl e | Some y \<Rightarrow> Inr y)"

definition is_ok :: "'e + 'a \<Rightarrow> bool" where
  "is_ok r = (case r of Inl _ \<Rightarrow> False | Inr _ \<Rightarrow> True)"

primrec rmap :: "('a \<Rightarrow> 'e + 'b) \<Rightarrow> 'a list \<Rightarrow> 'e + 'b list" where
  "rmap f [] = Inr []"
| "rmap f (x # xs) = rbind (f x) (\<lambda>y. rbind (rmap f xs) (\<lambda>ys. Inr (y # ys)))"

primrec rfold :: "('s \<Rightarrow> 'a \<Rightarrow> 'e + 's) \<Rightarrow> 's \<Rightarrow> 'a list \<Rightarrow> 'e + 's" where
  "rfold f s [] = Inr s"
| "rfold f s (x # xs) = rbind (f s x) (\<lambda>t. rfold f t xs)"

primrec for_each :: "('a \<Rightarrow> 'e + unit) \<Rightarrow> 'a list \<Rightarrow> 'e + unit" where
  "for_each f [] = Inr ()"
| "for_each f (x # xs) = rbind (f x) (\<lambda>_. for_each f xs)"

text \<open>\<open>count_ones\<close> of a word.\<close>

definition count_ones :: "'a::len word \<Rightarrow> nat" where
  "count_ones w = length (filter (bit w) [0..<LENGTH('a)])"

subsection \<open>Little-endian bytes\<close>

primrec le_bytes :: "nat \<Rightarrow> 'a::len word \<Rightarrow> bytes" where
  "le_bytes 0 w = []"
| "le_bytes (Suc n) w = ucast w # le_bytes n (drop_bit 8 w)"

primrec of_le_bytes :: "bytes \<Rightarrow> 'a::len word" where
  "of_le_bytes [] = 0"
| "of_le_bytes (b # bs) = or (ucast b) (push_bit 8 (of_le_bytes bs))"

definition take_bytes :: "nat \<Rightarrow> bytes \<Rightarrow> (bytes \<times> bytes) option" where
  "take_bytes n bs = (if n \<le> length bs then Some (take n bs, drop n bs) else None)"

text \<open>The two little-endian 128-bit halves of a 32-byte array.\<close>

definition lo_half :: "bytes32 \<Rightarrow> u128" where
  "lo_half d = ucast d"

definition hi_half :: "bytes32 \<Rightarrow> u128" where
  "hi_half d = ucast (drop_bit 128 d)"

definition join_halves :: "u128 \<Rightarrow> u128 \<Rightarrow> bytes32" where
  "join_halves lo hi = or (ucast lo) (push_bit 128 (ucast hi))"

section \<open>Shared lemmas\<close>

subsection \<open>Words as naturals\<close>

lemmas [word_nat] = word_le_nat_alt word_less_nat_alt unat_div_distrib unat_mod_distrib

lemma unat_lt_exp: "unat (a :: 'a::len word) < 2 ^ LENGTH('a)"
  by (rule unsigned_less)

lemma unat_add_exact [word_nat]:
  "unat a + unat b < 2 ^ LENGTH('a) \<Longrightarrow> unat (a + b :: 'a::len word) = unat a + unat b"
  by (simp add: unat_word_ariths)

lemma unat_mul_exact [word_nat]:
  "unat a * unat b < 2 ^ LENGTH('a) \<Longrightarrow> unat (a * b :: 'a::len word) = unat a * unat b"
  by (simp add: unat_word_ariths)

lemma unat_sub_exact [word_nat]:
  "b \<le> a \<Longrightarrow> unat (a - b :: 'a::len word) = unat a - unat b"
  by (simp add: unat_sub)

lemma unat_eq_zero_iff: "unat (a :: 'a::len word) = 0 \<longleftrightarrow> a = 0"
  by (simp add: unat_eq_zero)

lemma unat_u64_bound: "unat (a :: u64) < 2 ^ 64"
  using unat_lt_exp [of a] by simp

lemma unat_u128_bound: "unat (a :: u128) < 2 ^ 128"
  using unat_lt_exp [of a] by simp

lemma unat_ucast_up:
  assumes "LENGTH('a) \<le> LENGTH('b)"
  shows "unat (ucast (a :: 'a::len word) :: 'b::len word) = unat a"
proof -
  have "(2 :: nat) ^ LENGTH('a) \<le> 2 ^ LENGTH('b)" using assms by (intro power_increasing) auto
  then have "unat a < 2 ^ LENGTH('b)" using unat_lt_exp [of a] by linarith
  then show ?thesis by (simp add: unsigned_ucast_eq take_bit_nat_eq_self)
qed

lemma ucast_up_inj:
  "LENGTH('a) \<le> LENGTH('b) \<Longrightarrow> (ucast a :: 'b::len word) = ucast b \<longleftrightarrow> a = (b :: 'a::len word)"
  by (metis unat_ucast_up word_unat_eq_iff)

lemma unat_widen [simp, word_nat]: "unat (widen a) = unat a"
  using unat_u64_bound [of a] by (simp add: widen_def unsigned_ucast_eq take_bit_nat_eq_self)

lemma widen_less: "unat (widen a) < 2 ^ 64"
  using unat_u64_bound by simp

lemma unat_narrow: "narrow a = Some b \<Longrightarrow> unat b = unat a"
  by (auto simp: narrow_def unsigned_ucast_eq take_bit_nat_eq_self split: if_splits)

lemma narrow_eq_Some [result_simps]: "narrow a = Some b \<longleftrightarrow> unat a = unat b"
proof
  assume "unat a = unat b"
  then show "narrow a = Some b"
    using unat_u64_bound [of b]
    by (auto simp: narrow_def word_unat_eq_iff unsigned_ucast_eq take_bit_nat_eq_self)
qed (simp add: unat_narrow)

lemma narrow_eq_None: "narrow a = None \<longleftrightarrow> 2 ^ 64 \<le> unat a"
  by (simp add: narrow_def not_less)

lemma narrow_widen [simp]: "narrow (widen a) = Some a"
  by (simp add: narrow_eq_Some)

lemma widen_inj [simp]: "widen a = widen b \<longleftrightarrow> a = b"
  by (metis narrow_widen option.inject)

lemma checked_add_eq_Some [result_simps]:
  "checked_add a b = Some c \<longleftrightarrow> unat c = unat a + unat (b :: 'a::len word)"
proof
  assume "unat c = unat a + unat b"
  then show "checked_add a b = Some c"
    using unat_lt_exp [of c] by (simp add: checked_add_def word_unat_eq_iff unat_add_exact)
qed (auto simp: checked_add_def unat_add_exact split: if_splits)

lemma checked_add_eq_None:
  "checked_add a b = None \<longleftrightarrow> 2 ^ LENGTH('a) \<le> unat a + unat (b :: 'a::len word)"
  by (simp add: checked_add_def not_less)

lemma checked_sub_eq_Some [result_simps]:
  "checked_sub a b = Some c \<longleftrightarrow> unat a = unat c + unat (b :: 'a::len word)"
proof
  assume "unat a = unat c + unat b"
  then show "checked_sub a b = Some c"
    by (simp add: checked_sub_def word_unat_eq_iff unat_sub_exact word_le_nat_alt)
qed (auto simp: checked_sub_def unat_sub_exact word_le_nat_alt split: if_splits)

lemma checked_sub_eq_None:
  "checked_sub a b = None \<longleftrightarrow> unat a < unat (b :: 'a::len word)"
  by (simp add: checked_sub_def word_le_nat_alt not_le)

lemma checked_mul_eq_Some [result_simps]:
  "checked_mul a b = Some c \<longleftrightarrow> unat c = unat a * unat (b :: 'a::len word)"
proof
  assume "unat c = unat a * unat b"
  then show "checked_mul a b = Some c"
    using unat_lt_exp [of c] by (simp add: checked_mul_def word_unat_eq_iff unat_mul_exact)
qed (auto simp: checked_mul_def unat_mul_exact split: if_splits)

lemma checked_mul_eq_None:
  "checked_mul a b = None \<longleftrightarrow> 2 ^ LENGTH('a) \<le> unat a * unat (b :: 'a::len word)"
  by (simp add: checked_mul_def not_less)

lemma unat_max_word: "unat (- 1 :: 'a::len word) = 2 ^ LENGTH('a) - 1"
  by (simp add: unsigned_minus_1_eq_mask mask_eq_exp_minus_1)

lemma unat_saturating_add [word_nat]:
  "unat (saturating_add a b) = min (unat a + unat b) (2 ^ LENGTH('a) - 1)"
  for a b :: "'a::len word"
  by (auto simp: saturating_add_def unat_add_exact unat_max_word)

lemma unat_saturating_sub [word_nat]: "unat (saturating_sub a b) = unat a - unat b"
  by (simp add: saturating_sub_def unat_sub_exact word_le_nat_alt)

lemma unat_saturating_mul [word_nat]:
  "unat (saturating_mul a b) = min (unat a * unat b) (2 ^ LENGTH('a) - 1)"
  for a b :: "'a::len word"
  by (auto simp: saturating_mul_def unat_mul_exact unat_max_word)

text \<open>Products and sums of widened 64-bit values never wrap in 128 bits.\<close>

lemma unat_widen_mul [word_nat]: "unat (widen a * widen b) = unat a * unat b"
proof -
  have "unat a * unat b < 2 ^ 64 * 2 ^ 64"
    using unat_u64_bound by (intro mult_strict_mono) auto
  then show ?thesis by (simp add: unat_mul_exact)
qed

lemma unat_widen_add [word_nat]: "unat (widen a + widen b) = unat a + unat b"
  using unat_u64_bound [of a] unat_u64_bound [of b] by (simp add: unat_add_exact)

lemma nat_div_ceil_mod:
  fixes m n :: nat
  assumes "0 < n"
  shows "(if m mod n = 0 then m div n else m div n + 1) = (m + n - 1) div n"
proof (cases "m mod n = 0")
  case True
  then obtain q where m: "m = n * q" by (auto elim: dvdE)
  have "(m + n - 1) div n = (n * q + (n - 1)) div n"
    using assms m by simp
  also have "\<dots> = q"
    using assms by (simp only: div_mult_self4) simp
  finally show ?thesis using True m assms by simp
next
  case False
  define q r where "q = m div n" and "r = m mod n"
  have m: "m = n * q + r" and r: "0 < r" "r < n"
    using False assms by (auto simp: q_def r_def)
  then have "(m + n - 1) div n = q + 1"
    by (intro div_nat_eqI) (auto simp: algebra_simps)
  then show ?thesis using False by (simp add: q_def)
qed

lemma unat_div_ceil [word_nat]:
  fixes a b :: "'a::len word"
  assumes "b \<noteq> 0"
  shows "unat (div_ceil a b) = (unat a + unat b - 1) div unat b"
proof -
  have b: "0 < unat b" using assms by (simp add: unat_gt_0)
  have bound: "unat a div unat b + 1 < 2 ^ LENGTH('a)" if "unat a mod unat b \<noteq> 0"
  proof -
    have "unat b \<noteq> 1" using that by auto
    then have "1 < unat b" using b by linarith
    then have "unat a div unat b < unat a"
      using that by (intro div_less_dividend) (auto intro: Nat.gr0I)
    with unat_lt_exp [of a] show ?thesis by linarith
  qed
  have "unat (div_ceil a b) = (if unat a mod unat b = 0 then unat a div unat b else unat a div unat b + 1)"
    using bound by (auto simp: div_ceil_def word_unat_eq_iff unat_div_distrib unat_mod_distrib
        unat_add_exact simp flip: unat_eq_zero_iff)
  also have "\<dots> = (unat a + unat b - 1) div unat b"
    using b by (rule nat_div_ceil_mod)
  finally show ?thesis .
qed

subsection \<open>Inversion of results\<close>

lemma rbind_simps [simp]:
  "rbind (Inr x) f = f x"
  "rbind (Inl e) f = Inl e"
  by (simp_all add: rbind_def)

lemma rbind_eq_Inr [result_simps]:
  "rbind m f = Inr y \<longleftrightarrow> (\<exists>x. m = Inr x \<and> f x = Inr y)"
  by (cases m) auto

lemma rbind_eq_Inl:
  "rbind m f = Inl e \<longleftrightarrow> m = Inl e \<or> (\<exists>x. m = Inr x \<and> f x = Inl e)"
  by (cases m) auto

lemma ensure_simps [simp]: "ensure True e = Inr ()" "ensure False e = Inl e"
  by (simp_all add: ensure_def)

lemma ensure_eq_Inr [simp, result_simps]: "ensure c e = Inr u \<longleftrightarrow> c"
  by (simp add: ensure_def)

lemma ensure_eq_Inl [simp]: "ensure c e = Inl e' \<longleftrightarrow> \<not> c \<and> e' = e"
  by (auto simp: ensure_def)

lemma rbind_unit_eq_Inr [result_simps]:
  "rbind m (\<lambda>_ :: unit. f) = Inr y \<longleftrightarrow> m = Inr () \<and> f = Inr y"
  by (cases m) auto

lemma rbind_ensure: "rbind (ensure c e) f = (if c then f () else Inl e)"
  by (simp add: ensure_def)

lemma ok_or_simps [simp]: "ok_or e (Some x) = Inr x" "ok_or e None = Inl e"
  by (simp_all add: ok_or_def)

lemma ok_or_eq_Inr [result_simps]: "ok_or e x = Inr y \<longleftrightarrow> x = Some y"
  by (simp add: ok_or_def split: option.split)

lemma ok_or_eq_Inl: "ok_or e x = Inl e' \<longleftrightarrow> x = None \<and> e' = e"
  by (auto simp: ok_or_def split: option.split)

lemma is_ok_simps [simp]: "is_ok (Inr x)" "\<not> is_ok (Inl e)"
  by (simp_all add: is_ok_def)

lemma is_ok_iff: "is_ok r \<longleftrightarrow> (\<exists>x. r = Inr x)"
  by (cases r) auto

lemma rmap_eq_Inr: "rmap f xs = Inr ys \<longleftrightarrow> list_all2 (\<lambda>x y. f x = Inr y) xs ys"
  by (induction xs arbitrary: ys)
    (auto simp: result_simps list_all2_Cons1)

lemma rfold_append: "rfold f s (xs @ ys) = rbind (rfold f s xs) (\<lambda>t. rfold f t ys)"
proof (induction xs arbitrary: s)
  case (Cons x xs)
  then show ?case by (cases "f s x") simp_all
qed simp

lemma for_each_eq_Inr [result_simps]:
  "for_each f xs = Inr u \<longleftrightarrow> (\<forall>x \<in> set xs. f x = Inr ())"
  by (induction xs) (auto simp: rbind_eq_Inr)

lemma set_enumerate_image: "set (enumerate 0 xs) = (\<lambda>k. (k, xs ! k)) ` {..<length xs}"
  by (auto simp: in_set_enumerate_eq)

lemma for_each_enumerate:
  "for_each (\<lambda>(k, x). ensure (P k x) (e k)) (enumerate 0 xs) = Inr u \<longleftrightarrow> (\<forall>k < length xs. P k (xs ! k))"
  by (auto simp: for_each_eq_Inr set_enumerate_image)

lemma rfold_pure: "(\<And>s x. x \<in> set xs \<Longrightarrow> f s x = Inr (h s x)) \<Longrightarrow> rfold f s xs = Inr (foldl h s xs)"
  by (induction xs arbitrary: s) simp_all

lemma rfold_eq_Inl:
  "rfold f s xs = Inl e \<longleftrightarrow> (\<exists>k < length xs. \<exists>t. rfold f s (take k xs) = Inr t \<and> f t (xs ! k) = Inl e)"
proof (induction xs arbitrary: s)
  case (Cons x xs)
  show ?case
  proof (cases "f s x")
    case (Inl e')
    then show ?thesis unfolding Ex_less_Suc2 length_Cons by simp
  next
    case (Inr u)
    have "(\<exists>k < length (x # xs). \<exists>t. rfold f s (take k (x # xs)) = Inr t \<and> f t ((x # xs) ! k) = Inl e) \<longleftrightarrow>
        (\<exists>k < length xs. \<exists>t. rfold f u (take k xs) = Inr t \<and> f t (xs ! k) = Inl e)"
      unfolding Ex_less_Suc2 length_Cons using Inr by simp
    then show ?thesis using Cons.IH [of u] Inr by simp
  qed
qed simp

lemma for_each_eq_Inl:
  "for_each f xs = Inl e \<longleftrightarrow> (\<exists>k < length xs. (\<forall>j < k. f (xs ! j) = Inr ()) \<and> f (xs ! k) = Inl e)"
proof (induction xs)
  case (Cons x xs)
  show ?case
  proof (cases "f x")
    case (Inl e')
    then show ?thesis unfolding Ex_less_Suc2 length_Cons by (simp add: All_less_Suc2)
  next
    case (Inr u)
    have "(\<exists>k < length (x # xs). (\<forall>j < k. f ((x # xs) ! j) = Inr ()) \<and> f ((x # xs) ! k) = Inl e) \<longleftrightarrow>
        (\<exists>k < length xs. (\<forall>j < k. f (xs ! j) = Inr ()) \<and> f (xs ! k) = Inl e)"
      unfolding Ex_less_Suc2 length_Cons using Inr by (auto simp: All_less_Suc2)
    then show ?thesis using Cons.IH Inr by simp
  qed
qed simp

text \<open>An invariant that every successful step keeps holds after the fold.\<close>

lemma rfold_invariant:
  assumes "rfold f s xs = Inr t" "I s"
    and "\<And>s x t. x \<in> set xs \<Longrightarrow> I s \<Longrightarrow> f s x = Inr t \<Longrightarrow> I t"
  shows "I t"
  using assms
proof (induction xs arbitrary: s)
  case (Cons x xs)
  from Cons.prems(1) obtain u where u: "f s x = Inr u" "rfold f u xs = Inr t"
    by (auto simp: rbind_eq_Inr)
  have "I u" using Cons.prems u(1) by auto
  then show ?case using Cons.IH [OF u(2)] Cons.prems(3) by auto
qed simp

text \<open>The same with the consumed prefix as a parameter of the invariant.\<close>

lemma rfold_prefix_invariant:
  assumes "rfold f s xs = Inr t" "I [] s"
    and step: "\<And>pre x post s t. xs = pre @ x # post \<Longrightarrow> I pre s \<Longrightarrow> f s x = Inr t \<Longrightarrow> I (pre @ [x]) t"
  shows "I xs t"
proof -
  have "rfold f u post = Inr t \<Longrightarrow> xs = pre @ post \<Longrightarrow> I pre u \<Longrightarrow> I xs t" for pre post u
  proof (induction post arbitrary: pre u)
    case (Cons x post)
    then obtain v where v: "f u x = Inr v" "rfold f v post = Inr t" by (auto simp: rbind_eq_Inr)
    have "I (pre @ [x]) v" using step [OF Cons.prems(2,3) v(1)] .
    then show ?case using Cons.IH [OF v(2), of "pre @ [x]"] Cons.prems(2) by simp
  qed simp
  then show ?thesis using assms(1,2) by (metis append_Nil)
qed

text \<open>A loop that inserts keys into a set and fails on a repeated one succeeds
  exactly on distinct keys.\<close>

lemma rfold_insert_fresh:
  "rfold (\<lambda>seen x. if k x \<in> seen then Inl (e x) else Inr (insert (k x) seen)) S xs = Inr T \<longleftrightarrow>
     distinct (map k xs) \<and> k ` set xs \<inter> S = {} \<and> T = k ` set xs \<union> S"
proof (induction xs arbitrary: S)
  case (Cons x xs)
  then show ?case by (auto simp: rbind_eq_Inr)
qed auto

text \<open>A loop of checked additions computes the sum of the naturals, and fails only
  when that sum leaves the type.\<close>

lemma rfold_checked_add:
  fixes f :: "'b \<Rightarrow> 'a::len word"
  shows "rfold (\<lambda>acc x. ok_or e (checked_add acc (f x))) s xs = Inr t \<longleftrightarrow>
     unat t = unat s + (\<Sum>x\<leftarrow>xs. unat (f x))"
proof (induction xs arbitrary: s)
  case (Cons x xs)
  have "rfold (\<lambda>acc x. ok_or e (checked_add acc (f x))) s (x # xs) = Inr t \<longleftrightarrow>
      (\<exists>u :: 'a word. unat u = unat s + unat (f x) \<and> unat t = unat u + (\<Sum>x\<leftarrow>xs. unat (f x)))"
    by (simp add: result_simps Cons.IH)
  also have "\<dots> \<longleftrightarrow> unat t = unat s + (\<Sum>x\<leftarrow>x # xs. unat (f x))"
  proof
    assume t: "unat t = unat s + (\<Sum>x\<leftarrow>x # xs. unat (f x))"
    then have "unat s + unat (f x) < 2 ^ LENGTH('a)" using unat_lt_exp [of t] by simp
    then have "unat (s + f x) = unat s + unat (f x)" by (rule unat_add_exact)
    with t show "\<exists>u :: 'a word. unat u = unat s + unat (f x) \<and> unat t = unat u + (\<Sum>x\<leftarrow>xs. unat (f x))"
      by (intro exI [of _ "s + f x"]) simp
  qed auto
  finally show ?case .
qed (auto simp: word_unat_eq_iff)

lemma rfold_checked_add_total:
  fixes f :: "'b \<Rightarrow> 'a::len word"
  assumes "unat s + (\<Sum>x\<leftarrow>xs. unat (f x)) < 2 ^ LENGTH('a)"
  shows "\<exists>t. rfold (\<lambda>acc x. ok_or e (checked_add acc (f x))) s xs = Inr t"
proof -
  have "unat (of_nat (unat s + (\<Sum>x\<leftarrow>xs. unat (f x))) :: 'a word) = unat s + (\<Sum>x\<leftarrow>xs. unat (f x))"
    using assms by (simp add: unat_of_nat del: of_nat_add)
  then show ?thesis unfolding rfold_checked_add by blast
qed

lemma sum_list_bound:
  fixes f :: "'a \<Rightarrow> nat"
  assumes "\<And>x. x \<in> set xs \<Longrightarrow> f x \<le> b"
  shows "(\<Sum>x\<leftarrow>xs. f x) \<le> length xs * b"
  using assms by (induction xs) (auto intro: add_mono)

lemma sum_list_u64_bound: "(\<Sum>x\<leftarrow>xs. unat (f x :: u64)) \<le> length xs * (2 ^ 64 - 1)"
proof (rule sum_list_bound)
  fix x show "unat (f x) \<le> 2 ^ 64 - 1" using unat_u64_bound [of "f x"] by simp
qed

subsection \<open>Byte strings\<close>

lemma length_le_bytes [simp]: "length (le_bytes n w) = n"
  by (induction n arbitrary: w) simp_all

lemma ucast_or_push_bit:
  "8 \<le> LENGTH('a) \<Longrightarrow> (ucast (or (ucast (b :: u8)) (push_bit 8 w) :: 'a::len word) :: u8) = b"
  by (rule bit_word_eqI) (auto simp: bit_simps)

lemma drop_bit_zero_bit:
  assumes "drop_bit k w = 0" "k \<le> n"
  shows "\<not> bit (w :: 'a::len word) n"
proof -
  have "bit (drop_bit k w) (n - k) = bit w n" using assms(2) by (simp add: bit_simps)
  then show ?thesis using assms(1) by simp
qed

lemma drop_bit_or_push_bit:
  assumes "drop_bit (LENGTH('a) - 8) w = 0" "8 \<le> LENGTH('a)"
  shows "drop_bit 8 (or (ucast (b :: u8)) (push_bit 8 w) :: 'a::len word) = w"
proof (rule bit_word_eqI)
  fix n assume "n < LENGTH('a)"
  have "\<not> bit w n" if "LENGTH('a) - 8 \<le> n"
    using assms(1) that by (rule drop_bit_zero_bit)
  then show "bit (drop_bit 8 (or (ucast b) (push_bit 8 w))) n = bit w n"
    using bit_imp_le_length [of b "8 + n"] by (cases "8 + n < LENGTH('a)") (auto simp: bit_simps)
qed

lemma of_le_bytes_bound:
  assumes "8 * length bs \<le> n" "n \<le> LENGTH('a)"
  shows "drop_bit n (of_le_bytes bs :: 'a::len word) = 0"
  using assms
proof (induction bs arbitrary: n)
  case (Cons b bs)
  have "drop_bit (n - 8) (of_le_bytes bs :: 'a word) = 0"
    using Cons.prems by (intro Cons.IH) auto
  then have "\<not> bit (of_le_bytes bs :: 'a word) (n + k - 8)" for k
    using Cons.prems by (intro drop_bit_zero_bit) auto
  then show ?case
    using Cons.prems by (intro bit_word_eqI) (auto simp: bit_simps dest!: bit_imp_le_length)
qed simp

lemma le_bytes_of_le_bytes:
  assumes "8 * length bs \<le> LENGTH('a)"
  shows "le_bytes (length bs) (of_le_bytes bs :: 'a::len word) = bs"
  using assms
proof (induction bs)
  case (Cons b bs)
  have "drop_bit (LENGTH('a) - 8) (of_le_bytes bs :: 'a word) = 0"
    using Cons.prems by (intro of_le_bytes_bound) auto
  then show ?case
    using Cons by (simp add: ucast_or_push_bit drop_bit_or_push_bit del: drop_bit_or)
qed simp

lemma of_le_bytes_le_bytes_take:
  "of_le_bytes (le_bytes n w) = (take_bit (8 * n) w :: 'a::len word)"
proof (induction n arbitrary: w)
  case (Suc n)
  show ?case
  proof (rule bit_word_eqI)
    fix k assume "k < LENGTH('a)"
    then show "bit (of_le_bytes (le_bytes (Suc n) w) :: 'a word) k = bit (take_bit (8 * Suc n) w) k"
      by (cases "k < 8") (auto simp: Suc.IH bit_simps not_less dest: bit_imp_le_length)
  qed
qed simp

lemma of_le_bytes_le_bytes:
  "LENGTH('a) \<le> 8 * n \<Longrightarrow> of_le_bytes (le_bytes n w) = (w :: 'a::len word)"
  by (simp add: of_le_bytes_le_bytes_take take_bit_word_eq_self)

lemma take_bytes_append [simp]:
  "length xs = n \<Longrightarrow> take_bytes n (xs @ ys) = Some (xs, ys)"
  by (simp add: take_bytes_def)

lemma take_bytes_eq_Some [result_simps]:
  "take_bytes n bs = Some (xs, ys) \<longleftrightarrow> bs = xs @ ys \<and> length xs = n"
  by (auto simp: take_bytes_def)

lemma le_bytes_eq_iff:
  "LENGTH('a) \<le> 8 * n \<Longrightarrow> le_bytes n v = le_bytes n w \<longleftrightarrow> v = (w :: 'a::len word)"
  by (metis of_le_bytes_le_bytes)


lemma join_halves_lo_hi [simp]: "join_halves (lo_half d) (hi_half d) = d"
proof (rule bit_word_eqI)
  fix n assume "n < LENGTH(256)"
  then show "bit (join_halves (lo_half d) (hi_half d)) n = bit d n"
    by (cases "n < 128") (auto simp add: join_halves_def lo_half_def hi_half_def bit_simps)
qed

lemma lo_half_join [simp]: "lo_half (join_halves l h) = l"
proof (rule bit_word_eqI)
  fix n assume "n < LENGTH(128)"
  then show "bit (lo_half (join_halves l h)) n = bit l n"
    by (simp add: join_halves_def lo_half_def bit_simps)
qed

lemma hi_half_join [simp]: "hi_half (join_halves l h) = h"
proof (rule bit_word_eqI)
  fix n assume "n < LENGTH(128)"
  then show "bit (hi_half (join_halves l h)) n = bit h n"
    using bit_imp_le_length [of l "128 + n"]
    by (auto simp add: join_halves_def hi_half_def bit_simps)
qed

lemma halves_eq_iff: "d = e \<longleftrightarrow> lo_half d = lo_half e \<and> hi_half d = hi_half e"
  by (metis join_halves_lo_hi)

end
