(* ===== verification/Codec.thy ===== *)
theory Codec
imports Prelude
begin

section \<open>Byte codecs\<close>

text \<open>
  The readers that \<open>noid_tx/src/wire.rs\<close> and the other fixed-layout formats share,
  and the contract of a format.  A reader takes the remaining input and returns a
  value with the rest, or an error; \<open>decode_all\<close> is the \<open>from_bytes\<close> pattern that
  refuses trailing bytes and \<open>decode_n\<close> the loop that fills a fixed array.  The
  locale \<open>codec\<close> states both round trips as one law; what follows from it (equal
  encodings have equal values, a decoded string is the only one with that value,
  arrays of a format form a format) is proved once and reached by interpretation.
\<close>

type_synonym ('e, 'a) reader = "bytes \<Rightarrow> 'e + 'a \<times> bytes"

definition take_len :: "'e \<Rightarrow> nat \<Rightarrow> ('e, bytes) reader" where
  "take_len truncated n bs = ok_or truncated (take_bytes n bs)"

definition take_word :: "'e \<Rightarrow> nat \<Rightarrow> ('e, 'a::len word) reader" where
  "take_word truncated n bs = rbind (take_len truncated n bs) (\<lambda>(xs, rest). Inr (of_le_bytes xs, rest))"

definition take_bool :: "'e \<Rightarrow> 'e \<Rightarrow> ('e, bool) reader" where
  "take_bool truncated invalid bs =
     rbind (take_len truncated 1 bs) (\<lambda>(xs, rest).
       if xs ! 0 = 0 then Inr (False, rest)
       else if xs ! 0 = 1 then Inr (True, rest)
       else Inl invalid)"

definition bool_bytes :: "bool \<Rightarrow> bytes" where
  "bool_bytes c = [if c then 1 else 0]"

primrec decode_n :: "('e, 'a) reader \<Rightarrow> nat \<Rightarrow> ('e, 'a list) reader" where
  "decode_n dec 0 bs = Inr ([], bs)"
| "decode_n dec (Suc n) bs =
     rbind (dec bs) (\<lambda>(x, rest). rbind (decode_n dec n rest) (\<lambda>(xs, rest'). Inr (x # xs, rest')))"

definition decode_all :: "'e \<Rightarrow> ('e, 'a) reader \<Rightarrow> bytes \<Rightarrow> 'e + 'a" where
  "decode_all trailing dec bs =
     rbind (dec bs) (\<lambda>(x, rest). rbind (ensure (rest = []) trailing) (\<lambda>_. Inr x))"

section \<open>Lemmas\<close>

locale codec =
  fixes enc :: "'a \<Rightarrow> bytes"
    and dec :: "('e, 'a) reader"
    and valid :: "'a \<Rightarrow> bool"
  assumes dec_iff: "dec bs = Inr (x, rest) \<longleftrightarrow> valid x \<and> bs = enc x @ rest"
begin

lemma dec_enc: "valid x \<Longrightarrow> dec (enc x @ rest) = Inr (x, rest)"
  by (simp add: dec_iff)

lemma enc_prefix_free:
  assumes "valid x" "valid y" "enc x @ r = enc y @ s"
  shows "x = y \<and> r = s"
proof -
  have "Inr (x, r) = dec (enc x @ r)" by (rule dec_enc [OF assms(1), symmetric])
  also have "\<dots> = Inr (y, s)" unfolding assms(3) by (rule dec_enc [OF assms(2)])
  finally show ?thesis by simp
qed

lemma enc_inj: "valid x \<Longrightarrow> valid y \<Longrightarrow> enc x = enc y \<longleftrightarrow> x = y"
  using enc_prefix_free [of x y "[]" "[]"] by auto

lemma decode_all_iff: "decode_all t dec bs = Inr x \<longleftrightarrow> valid x \<and> bs = enc x"
  by (auto simp: decode_all_def rbind_eq_Inr dec_iff)

lemma decode_n_iff:
  "decode_n dec n bs = Inr (xs, rest) \<longleftrightarrow> length xs = n \<and> list_all valid xs \<and> bs = concat (map enc xs) @ rest"
proof (induction n arbitrary: bs xs)
  case 0
  show ?case by (cases xs) auto
next
  case (Suc n)
  have "decode_n dec (Suc n) bs = Inr (xs, rest) \<longleftrightarrow>
      (\<exists>y ys r. valid y \<and> bs = enc y @ r \<and> decode_n dec n r = Inr (ys, rest) \<and> xs = y # ys)"
    by (auto simp: rbind_eq_Inr dec_iff split: prod.splits)
  also have "\<dots> \<longleftrightarrow> length xs = Suc n \<and> list_all valid xs \<and> bs = concat (map enc xs) @ rest"
    unfolding Suc.IH by (cases xs) auto
  finally show ?case .
qed

end

lemma take_len_iff: "take_len e n bs = Inr (xs, rest) \<longleftrightarrow> bs = xs @ rest \<and> length xs = n"
  by (simp add: take_len_def ok_or_eq_Inr take_bytes_eq_Some)

lemma word_codec:
  assumes "LENGTH('a) = 8 * n"
  shows "codec (le_bytes n :: 'a::len word \<Rightarrow> bytes) (take_word e n) (\<lambda>_. True)"
proof
  fix bs rest and x :: "'a word"
  show "take_word e n bs = Inr (x, rest) \<longleftrightarrow> True \<and> bs = le_bytes n x @ rest"
  proof
    assume "take_word e n bs = Inr (x, rest)"
    then obtain xs where "take_len e n bs = Inr (xs, rest)" "x = of_le_bytes xs"
      by (auto simp: take_word_def rbind_eq_Inr)
    then show "True \<and> bs = le_bytes n x @ rest"
      using assms le_bytes_of_le_bytes [of xs, where 'a = 'a] by (simp add: take_len_iff)
  next
    assume "True \<and> bs = le_bytes n x @ rest"
    then have "take_len e n bs = Inr (le_bytes n x, rest)" by (simp add: take_len_iff)
    then show "take_word e n bs = Inr (x, rest)"
      using assms by (simp add: take_word_def of_le_bytes_le_bytes)
  qed
qed

interpretation u8_codec: codec "le_bytes 1 :: u8 \<Rightarrow> bytes" "take_word e 1" "\<lambda>_. True"
  by (rule word_codec) simp

interpretation u16_codec: codec "le_bytes 2 :: u16 \<Rightarrow> bytes" "take_word e 2" "\<lambda>_. True"
  by (rule word_codec) simp

interpretation u32_codec: codec "le_bytes 4 :: u32 \<Rightarrow> bytes" "take_word e 4" "\<lambda>_. True"
  by (rule word_codec) simp

interpretation u64_codec: codec "le_bytes 8 :: u64 \<Rightarrow> bytes" "take_word e 8" "\<lambda>_. True"
  by (rule word_codec) simp

interpretation u128_codec: codec "le_bytes 16 :: u128 \<Rightarrow> bytes" "take_word e 16" "\<lambda>_. True"
  by (rule word_codec) simp

interpretation digest_codec: codec "le_bytes 32 :: bytes32 \<Rightarrow> bytes" "take_word e 32" "\<lambda>_. True"
  by (rule word_codec) simp

interpretation bool_codec: codec bool_bytes "take_bool e e'" "\<lambda>_. True"
proof
  fix bs rest x
  show "take_bool e e' bs = Inr (x, rest) \<longleftrightarrow> True \<and> bs = bool_bytes x @ rest"
    by (cases bs) (auto simp: take_bool_def take_len_def take_bytes_def bool_bytes_def)
qed

lemma u8_dec_iff: "take_word e (Suc 0) bs = Inr (x :: u8, rest) \<longleftrightarrow> bs = x # rest"
  using u8_codec.dec_iff [of e bs x rest] by simp

lemmas reader_iffs =
  u8_dec_iff u16_codec.dec_iff u32_codec.dec_iff u64_codec.dec_iff u128_codec.dec_iff digest_codec.dec_iff bool_codec.dec_iff

end
