(* ===== verification/Sponge.thy ===== *)
theory Sponge
imports Prelude
begin

section \<open>The Poseidon2b sponge and its domain separation\<close>

text \<open>
  \<open>noid_poseidon2b/src/native/compression.rs\<close>, \<open>native/domain.rs\<close> and the
  digest helpers of \<open>primitives.rs\<close>.  The 128-bit field elements are words
  (addition in the binary tower field is exclusive or).  The permutation itself
  is the argument \<open>perm\<close> of every definition, so each theorem holds for the
  round function the code ships.  The state array of four lanes is a tuple; the
  32-byte buffer with its stale tail and the fill counter are kept as the code
  has them.  The theory shows that the block-wise \<open>update\<close> equals absorbing one
  byte at a time, which makes absorption independent of how a message is cut,
  and that the byte-hash framing determines the domain and every piece.
\<close>

type_synonym block128 = u128
type_synonym state4 = "block128 \<times> block128 \<times> block128 \<times> block128"
type_synonym permutation = "state4 \<Rightarrow> state4"
type_synonym digest = bytes32

record sponge =
  sp_state :: state4
  sp_buffer :: bytes
  filled_bytes :: nat

subsection \<open>Domain tags\<close>

text \<open>A tag is its eight ASCII bytes.\<close>

type_synonym domain_tag = bytes

definition ascii :: "string \<Rightarrow> bytes" where
  "ascii s = map of_char s"

definition domain_tag_new :: "bytes \<Rightarrow> domain_tag option" where
  "domain_tag_new label = (if length label = 8 \<and> list_all (\<lambda>b. b < 128) label then Some label else None)"

definition as_u64 :: "domain_tag \<Rightarrow> u64" where
  "as_u64 tag = of_le_bytes (rev tag)"

definition capacity_iv :: "domain_tag \<Rightarrow> block128 \<times> block128" where
  "capacity_iv tag = (let label = widen (as_u64 tag) in (push_bit 64 label, label))"

definition TAG_LEAF :: domain_tag where "TAG_LEAF = ascii ''LEAF____''"
definition TAG_COMMIT :: domain_tag where "TAG_COMMIT = ascii ''COMMIT__''"
definition TAG_ADDRFIX :: domain_tag where "TAG_ADDRFIX = ascii ''ADDRFIX_''"
definition TAG_TX8X2 :: domain_tag where "TAG_TX8X2 = ascii ''TX8X2___''"
definition TAG_COMPRESS :: domain_tag where "TAG_COMPRESS = ascii ''COMPRESS''"
definition TAG_CLAIMS :: domain_tag where "TAG_CLAIMS = ascii ''CLAIMS__''"
definition TAG_BYTEHASH :: domain_tag where "TAG_BYTEHASH = ascii ''BYTEHASH''"

subsection \<open>Absorbing\<close>

definition sponge_new :: sponge where
  "sponge_new = \<lparr>sp_state = (0, 0, 0, 0), sp_buffer = replicate 32 0, filled_bytes = 0\<rparr>"

definition with_iv :: "block128 \<times> block128 \<Rightarrow> sponge" where
  "with_iv iv = \<lparr>sp_state = (0, 0, fst iv, snd iv), sp_buffer = replicate 32 0, filled_bytes = 0\<rparr>"

definition permute_buffer :: "permutation \<Rightarrow> sponge \<Rightarrow> sponge" where
  "permute_buffer perm s =
     (case sp_state s of (s0, s1, s2, s3) \<Rightarrow>
       s\<lparr>sp_state := perm (xor s0 (of_le_bytes (take 16 (sp_buffer s))),
                           xor s1 (of_le_bytes (take 16 (drop 16 (sp_buffer s)))), s2, s3)\<rparr>)"

text \<open>\<open>buffer[at .. at + len].copy_from_slice(data)\<close>.\<close>

definition copy_at :: "nat \<Rightarrow> bytes \<Rightarrow> bytes \<Rightarrow> bytes" where
  "copy_at at data buffer = take at buffer @ data @ drop (at + length data) buffer"

function update_chunks :: "permutation \<Rightarrow> bytes \<Rightarrow> sponge \<Rightarrow> sponge" where
  "update_chunks perm data s =
     (if length data < 32
      then (if data = [] then s
            else s\<lparr>sp_buffer := copy_at 0 data (sp_buffer s), filled_bytes := length data\<rparr>)
      else update_chunks perm (drop 32 data) (permute_buffer perm (s\<lparr>sp_buffer := take 32 data\<rparr>)))"
  by pat_completeness auto
termination
  by (relation "measure (\<lambda>(_, data, _). length data)") auto

declare update_chunks.simps [simp del]

definition sponge_update :: "permutation \<Rightarrow> bytes \<Rightarrow> sponge \<Rightarrow> sponge" where
  "sponge_update perm data s =
     (if filled_bytes s \<noteq> 0 then
        let to_copy = min (length data) (32 - filled_bytes s);
            s1 = s\<lparr>sp_buffer := copy_at (filled_bytes s) (take to_copy data) (sp_buffer s),
                   filled_bytes := filled_bytes s + to_copy\<rparr>;
            s2 = (if filled_bytes s1 = 32 then (permute_buffer perm s1)\<lparr>filled_bytes := 0\<rparr> else s1)
        in update_chunks perm (drop to_copy data) s2
      else update_chunks perm data s)"

definition absorb :: "permutation \<Rightarrow> block128 \<Rightarrow> sponge \<Rightarrow> sponge" where
  "absorb perm x s = sponge_update perm (le_bytes 16 x) s"

definition absorb_pair :: "permutation \<Rightarrow> block128 \<Rightarrow> block128 \<Rightarrow> sponge \<Rightarrow> sponge" where
  "absorb_pair perm a b s = sponge_update perm (le_bytes 16 a @ le_bytes 16 b) s"

subsection \<open>Squeezing\<close>

definition fill_padding :: "bytes \<Rightarrow> bytes" where
  "fill_padding data =
     (let z = replicate (length data) 0;
          y = z[0 := or (z ! 0) 0x80]
      in y[length data - 1 := or (y ! (length data - 1)) 0x01])"

definition pad_buffer :: "sponge \<Rightarrow> sponge" where
  "pad_buffer s =
     s\<lparr>sp_buffer := take (filled_bytes s) (sp_buffer s) @ fill_padding (drop (filled_bytes s) (sp_buffer s))\<rparr>"

definition squeeze_32 :: "sponge \<Rightarrow> digest" where
  "squeeze_32 s = (case sp_state s of (s0, s1, _, _) \<Rightarrow> join_halves s0 s1)"

definition finalize :: "permutation \<Rightarrow> sponge \<Rightarrow> digest" where
  "finalize perm s = squeeze_32 (permute_buffer perm (pad_buffer s))"

definition finalize_no_pad :: "sponge \<Rightarrow> digest" where
  "finalize_no_pad s = squeeze_32 s"

definition squeeze :: "permutation \<Rightarrow> sponge \<Rightarrow> (block128 \<times> block128) \<times> sponge" where
  "squeeze perm s =
     (case sp_state s of (s0, s1, _, _) \<Rightarrow> ((s0, s1), s\<lparr>sp_state := perm (sp_state s)\<rparr>))"

definition flush_to_squeeze :: "permutation \<Rightarrow> sponge \<Rightarrow> sponge" where
  "flush_to_squeeze perm s =
     (if filled_bytes s \<noteq> 0 then (permute_buffer perm (pad_buffer s))\<lparr>filled_bytes := 0\<rparr> else s)"

subsection \<open>Derived hashes\<close>

definition compress_with_tag :: "permutation \<Rightarrow> domain_tag \<Rightarrow> digest \<Rightarrow> digest \<Rightarrow> digest" where
  "compress_with_tag perm tag a b =
     (let (iv_hi, iv_lo) = capacity_iv tag;
          (s0, s1, s2, s3) = perm (lo_half a, hi_half a, iv_hi, iv_lo);
          (t0, t1, t2, t3) = perm (xor s0 (lo_half b), xor s1 (hi_half b), s2, s3)
      in join_halves t0 t1)"

definition compress :: "permutation \<Rightarrow> digest \<Rightarrow> digest \<Rightarrow> digest" where
  "compress perm a b = compress_with_tag perm TAG_COMPRESS a b"

definition update_piece :: "permutation \<Rightarrow> sponge \<Rightarrow> bytes \<Rightarrow> sponge" where
  "update_piece perm s piece =
     sponge_update perm piece (sponge_update perm (le_bytes 8 (of_nat (length piece) :: u64)) s)"

definition poseidon2b_hash_byte_slices :: "permutation \<Rightarrow> bytes \<Rightarrow> bytes list \<Rightarrow> digest" where
  "poseidon2b_hash_byte_slices perm domain pieces =
     (let s = update_piece perm (with_iv (capacity_iv TAG_BYTEHASH)) domain;
          s = sponge_update perm (le_bytes 8 (of_nat (length pieces) :: u64)) s;
          s = foldl (update_piece perm) s pieces
      in finalize perm s)"

definition poseidon2b_hash_bytes :: "permutation \<Rightarrow> bytes \<Rightarrow> bytes \<Rightarrow> digest" where
  "poseidon2b_hash_bytes perm domain bs = poseidon2b_hash_byte_slices perm domain [bs]"

definition hash_sponge :: "domain_tag \<Rightarrow> sponge" where
  "hash_sponge tag = with_iv (capacity_iv tag)"

fun absorb_fields :: "permutation \<Rightarrow> block128 list \<Rightarrow> sponge \<Rightarrow> sponge" where
  "absorb_fields perm (a # b # rest) s = absorb_fields perm rest (absorb_pair perm a b s)"
| "absorb_fields perm [a] s = absorb perm a s"
| "absorb_fields perm [] s = s"

definition hash_leaf :: "permutation \<Rightarrow> block128 list \<Rightarrow> digest" where
  "hash_leaf perm fs = finalize perm (absorb_fields perm fs (hash_sponge TAG_LEAF))"

definition hash_utxo_leaf :: "permutation \<Rightarrow> u128 \<Rightarrow> digest \<Rightarrow> digest" where
  "hash_utxo_leaf perm v owner =
     finalize perm (absorb perm (hi_half owner) (absorb perm (lo_half owner)
       (absorb perm v (hash_sponge TAG_COMMIT))))"

definition derive_address :: "permutation \<Rightarrow> digest \<Rightarrow> digest" where
  "derive_address perm secret =
     finalize_no_pad (absorb_pair perm (lo_half secret) (hi_half secret) (hash_sponge TAG_ADDRFIX))"

definition tx8x2_wrap :: "permutation \<Rightarrow> digest \<Rightarrow> digest" where
  "tx8x2_wrap perm root =
     (let (iv_hi, iv_lo) = capacity_iv TAG_TX8X2;
          (s0, s1, _, _) = perm (lo_half root, hi_half root, iv_hi, iv_lo)
      in join_halves s0 s1)"

fun compress_level :: "permutation \<Rightarrow> digest list \<Rightarrow> digest list" where
  "compress_level perm (a # b # rest) = compress perm a b # compress_level perm rest"
| "compress_level perm _ = []"

definition hash_tx8x2_leaves :: "permutation \<Rightarrow> (block128 \<times> block128) list \<Rightarrow> digest" where
  "hash_tx8x2_leaves perm leaves =
     (let level = map (\<lambda>(a, b). join_halves a b) leaves
      in tx8x2_wrap perm (hd ((compress_level perm ^^ 4) level)))"

subsection \<open>Reference: one byte at a time\<close>

text \<open>The invariant every sponge keeps, the byte-wise reference of \<open>update\<close>, the
  padded message and the byte stream that the byte hash absorbs.\<close>

definition sponge_ok :: "sponge \<Rightarrow> bool" where
  "sponge_ok s \<longleftrightarrow> length (sp_buffer s) = 32 \<and> filled_bytes s < 32"

definition absorb_byte :: "permutation \<Rightarrow> sponge \<Rightarrow> u8 \<Rightarrow> sponge" where
  "absorb_byte perm s x =
     (let s1 = s\<lparr>sp_buffer := (sp_buffer s)[filled_bytes s := x], filled_bytes := filled_bytes s + 1\<rparr>
      in if filled_bytes s1 = 32 then (permute_buffer perm s1)\<lparr>filled_bytes := 0\<rparr> else s1)"

definition pad_stream :: "bytes \<Rightarrow> bytes" where
  "pad_stream m = m @ fill_padding (replicate (32 - length m mod 32) 0)"

definition frame_piece :: "bytes \<Rightarrow> bytes" where
  "frame_piece p = le_bytes 8 (of_nat (length p) :: u64) @ p"

definition frame_slices :: "bytes \<Rightarrow> bytes list \<Rightarrow> bytes" where
  "frame_slices domain pieces =
     frame_piece domain @ le_bytes 8 (of_nat (length pieces) :: u64) @ concat (map frame_piece pieces)"

section \<open>Absorption is independent of the chunking\<close>

lemma copy_at_Cons:
  "f < length b \<Longrightarrow> copy_at f (x # xs) b = copy_at (Suc f) xs (b[f := x])"
  by (simp add: copy_at_def take_Suc_conv_app_nth take_update_swap drop_update_cancel list_update_append)

lemma copy_at_snoc:
  "f + length d < length b \<Longrightarrow> (copy_at f d b)[f + length d := x] = copy_at f (d @ [x]) b"
  by (simp add: copy_at_def list_update_append flip: Cons_nth_drop_Suc)

lemma length_copy_at [simp]:
  "f + length d \<le> length b \<Longrightarrow> length (copy_at f d b) = length b"
  by (simp add: copy_at_def)

lemma copy_at_Nil [simp]: "copy_at f [] b = b"
  by (simp add: copy_at_def)

lemma foldl_absorb_byte_partial:
  assumes "sponge_ok s" "filled_bytes s + length d < 32"
  shows "foldl (absorb_byte perm) s d =
    s\<lparr>sp_buffer := copy_at (filled_bytes s) d (sp_buffer s), filled_bytes := filled_bytes s + length d\<rparr>"
  using assms
proof (induction d arbitrary: s)
  case (Cons x d)
  let ?t = "s\<lparr>sp_buffer := (sp_buffer s)[filled_bytes s := x], filled_bytes := filled_bytes s + 1\<rparr>"
  have "absorb_byte perm s x = ?t"
    using Cons.prems by (simp add: absorb_byte_def Let_def)
  moreover have "sponge_ok ?t" "filled_bytes ?t + length d < 32"
    using Cons.prems by (auto simp: sponge_ok_def)
  ultimately show ?case
    using Cons.IH [of ?t] Cons.prems by (simp add: copy_at_Cons sponge_ok_def)
qed simp

lemma foldl_absorb_byte_fill:
  assumes "sponge_ok s" "filled_bytes s + length d = 32"
  shows "foldl (absorb_byte perm) s d =
    (permute_buffer perm (s\<lparr>sp_buffer := copy_at (filled_bytes s) d (sp_buffer s), filled_bytes := 32\<rparr>))
      \<lparr>filled_bytes := 0\<rparr>"
proof -
  obtain d' x where d: "d = d' @ [x]"
    using assms by (cases d rule: rev_cases) (auto simp: sponge_ok_def)
  let ?t = "s\<lparr>sp_buffer := copy_at (filled_bytes s) d' (sp_buffer s), filled_bytes := filled_bytes s + length d'\<rparr>"
  have t: "foldl (absorb_byte perm) s d' = ?t"
    using assms d by (intro foldl_absorb_byte_partial) auto
  have "(copy_at (filled_bytes s) d' (sp_buffer s))[filled_bytes s + length d' := x]
      = copy_at (filled_bytes s) d (sp_buffer s)"
    using assms d copy_at_snoc [of "filled_bytes s" d' "sp_buffer s" x] by (simp add: sponge_ok_def)
  then show ?thesis
    using assms d t by (simp add: absorb_byte_def Let_def)
qed

lemma sponge_ok_permute [simp]: "sponge_ok (permute_buffer perm s) = sponge_ok s"
  by (simp add: sponge_ok_def permute_buffer_def split: prod.split)

lemma permute_buffer_sel [simp]:
  "filled_bytes (permute_buffer perm s) = filled_bytes s"
  "sp_buffer (permute_buffer perm s) = sp_buffer s"
  "permute_buffer perm (s\<lparr>filled_bytes := n\<rparr>) = (permute_buffer perm s)\<lparr>filled_bytes := n\<rparr>"
  by (simp_all add: permute_buffer_def split: prod.split)

lemma update_chunks_bytewise:
  "sponge_ok s \<Longrightarrow> filled_bytes s = 0 \<Longrightarrow> update_chunks perm data s = foldl (absorb_byte perm) s data"
proof (induction perm data s rule: update_chunks.induct)
  case (1 perm data s)
  show ?case
  proof (cases "length data < 32")
    case True
    then show ?thesis
      using 1 by (simp add: update_chunks.simps foldl_absorb_byte_partial)
  next
    case False
    let ?t = "permute_buffer perm (s\<lparr>sp_buffer := take 32 data\<rparr>)"
    have t: "?t = foldl (absorb_byte perm) s (take 32 data)"
      using 1 False
      by (subst foldl_absorb_byte_fill) (auto simp: sponge_ok_def copy_at_def permute_buffer_def split: prod.split)
    have "update_chunks perm data s = update_chunks perm (drop 32 data) ?t"
      using False by (subst update_chunks.simps) simp
    also have "\<dots> = foldl (absorb_byte perm) ?t (drop 32 data)"
      using 1 False by (intro "1.IH") (auto simp: sponge_ok_def)
    also have "\<dots> = foldl (absorb_byte perm) s (take 32 data @ drop 32 data)"
      by (simp add: t del: append_take_drop_id)
    finally show ?thesis by simp
  qed
qed

lemma sponge_update_bytewise:
  assumes "sponge_ok s"
  shows "sponge_update perm data s = foldl (absorb_byte perm) s data"
proof (cases "filled_bytes s = 0")
  case True
  then show ?thesis using assms by (simp add: sponge_update_def update_chunks_bytewise)
next
  case False
  show ?thesis
  proof (cases "filled_bytes s + length data < 32")
    case True
    then show ?thesis
      using assms False
      by (simp add: sponge_update_def Let_def foldl_absorb_byte_partial update_chunks.simps)
  next
    case short: False
    define k where "k = 32 - filled_bytes s"
    have k: "min (length data) (32 - filled_bytes s) = k" "filled_bytes s + length (take k data) = 32"
      using short assms by (auto simp: k_def sponge_ok_def)
    let ?s1 = "(permute_buffer perm (s\<lparr>sp_buffer := copy_at (filled_bytes s) (take k data) (sp_buffer s),
                  filled_bytes := 32\<rparr>))\<lparr>filled_bytes := 0\<rparr>"
    have s1: "foldl (absorb_byte perm) s (take k data) = ?s1"
      using assms k by (intro foldl_absorb_byte_fill) auto
    have ok: "sponge_ok ?s1" "filled_bytes ?s1 = 0"
      using assms k by (auto simp: sponge_ok_def)
    have "sponge_update perm data s = update_chunks perm (drop k data) ?s1"
      using False k by (simp add: sponge_update_def Let_def)
    also have "\<dots> = foldl (absorb_byte perm) ?s1 (drop k data)"
      using ok by (rule update_chunks_bytewise)
    also have "\<dots> = foldl (absorb_byte perm) s (take k data @ drop k data)"
      by (simp add: s1 del: append_take_drop_id)
    finally show ?thesis by simp
  qed
qed

lemma sponge_ok_absorb_byte: "sponge_ok s \<Longrightarrow> sponge_ok (absorb_byte perm s x)"
  by (auto simp: absorb_byte_def Let_def sponge_ok_def)

text \<open>The contract of an absorber: feeding a string is feeding its bytes.\<close>

locale stream_absorber =
  fixes upd :: "bytes \<Rightarrow> 's \<Rightarrow> 's"
    and step :: "'s \<Rightarrow> u8 \<Rightarrow> 's"
    and ok :: "'s \<Rightarrow> bool"
  assumes upd_bytewise: "ok s \<Longrightarrow> upd d s = foldl step s d"
    and ok_step: "ok s \<Longrightarrow> ok (step s x)"
begin

lemma ok_foldl: "ok s \<Longrightarrow> ok (foldl step s d)"
  by (induction d arbitrary: s) (auto simp: ok_step)

lemma ok_upd: "ok s \<Longrightarrow> ok (upd d s)"
  by (simp add: upd_bytewise ok_foldl)

lemma upd_append: "ok s \<Longrightarrow> upd b (upd a s) = upd (a @ b) s"
  by (simp add: upd_bytewise ok_foldl)

lemma upd_pieces: "ok s \<Longrightarrow> foldl (\<lambda>s d. upd d s) s ds = upd (concat ds) s"
  by (induction ds arbitrary: s) (simp_all add: upd_bytewise ok_foldl)

end

interpretation sponge: stream_absorber "sponge_update perm" "absorb_byte perm" sponge_ok
  by unfold_locales (simp_all add: sponge_update_bytewise sponge_ok_absorb_byte)

lemmas sponge_ok_foldl = sponge.ok_foldl
lemmas sponge_ok_update [simp] = sponge.ok_upd

lemma sponge_ok_with_iv [simp]: "sponge_ok (with_iv iv)"
  by (simp add: sponge_ok_def with_iv_def)

lemma absorb_pair_aligned:
  assumes "sponge_ok s" "filled_bytes s = 0" "sp_state s = (s0, s1, s2, s3)"
  shows "sp_state (absorb_pair perm a b s) = perm (xor s0 a, xor s1 b, s2, s3)"
    and "filled_bytes (absorb_pair perm a b s) = 0"
proof -
  have "absorb_pair perm a b s =
    (permute_buffer perm (s\<lparr>sp_buffer := le_bytes 16 a @ le_bytes 16 b, filled_bytes := 32\<rparr>))\<lparr>filled_bytes := 0\<rparr>"
    using assms by (simp add: absorb_pair_def sponge_update_bytewise foldl_absorb_byte_fill copy_at_def sponge_ok_def
        del: foldl_append)
  then show "sp_state (absorb_pair perm a b s) = perm (xor s0 a, xor s1 b, s2, s3)"
    and "filled_bytes (absorb_pair perm a b s) = 0"
    using assms by (simp_all add: permute_buffer_def of_le_bytes_le_bytes)
qed


subsection \<open>Padding and framing\<close>

lemma length_fill_padding [simp]: "length (fill_padding d) = length d"
  by (simp add: fill_padding_def Let_def)

lemma fill_padding_length: "length d = length e \<Longrightarrow> fill_padding d = fill_padding e"
  by (simp add: fill_padding_def)

lemma fill_padding_1: "length d = 1 \<Longrightarrow> fill_padding d = [0x81]"
  by (simp add: fill_padding_def Let_def)

lemma fill_padding_2:
  assumes "length d = Suc (Suc n)"
  shows "fill_padding d = 0x80 # replicate n 0 @ [1]"
proof -
  have "replicate (length d) (0 :: u8) = 0 # replicate n 0 @ [0]"
    using assms by (simp add: replicate_append_same)
  then show ?thesis
    using assms by (simp add: fill_padding_def Let_def nth_append list_update_append)
qed

lemma fill_padding_nonempty: "fill_padding d = [] \<longleftrightarrow> d = []"
  by (metis length_0_conv length_fill_padding)

lemma filled_bytes_foldl:
  assumes "sponge_ok s"
  shows "filled_bytes (foldl (absorb_byte perm) s d) = (filled_bytes s + length d) mod 32"
  using assms
proof (induction d rule: rev_induct)
  case (snoc x d)
  then show ?case
    by (simp add: absorb_byte_def Let_def mod_Suc)
qed (simp add: sponge_ok_def)

lemma finalize_bytewise:
  assumes "sponge_ok s" "filled_bytes s = 0"
  shows "finalize perm (foldl (absorb_byte perm) s m) = squeeze_32 (foldl (absorb_byte perm) s (pad_stream m))"
proof -
  let ?t = "foldl (absorb_byte perm) s m" and ?d = "fill_padding (replicate (32 - length m mod 32) 0)"
  have t: "sponge_ok ?t" "filled_bytes ?t = length m mod 32"
    using assms by (auto simp: sponge_ok_foldl filled_bytes_foldl)
  have "fill_padding (drop (filled_bytes ?t) (sp_buffer ?t)) = ?d"
    using t by (intro fill_padding_length) (simp add: sponge_ok_def)
  then have "foldl (absorb_byte perm) ?t ?d = (permute_buffer perm ((pad_buffer ?t)\<lparr>filled_bytes := 32\<rparr>))\<lparr>filled_bytes := 0\<rparr>"
    using t by (subst foldl_absorb_byte_fill) (auto simp: pad_buffer_def copy_at_def sponge_ok_def)
  then show ?thesis
    by (simp add: finalize_def pad_stream_def squeeze_32_def)
qed

lemma pad_suffix_unique:
  assumes "m @ fill_padding (replicate k 0) = m' @ fill_padding (replicate k' 0)" "0 < k" "k \<le> k'"
  shows "k = k'"
proof (rule ccontr)
  assume "k \<noteq> k'"
  with assms have less: "k < k'" by simp
  then have j: "k' = Suc (Suc (k' - 2))" using assms(2) by simp
  have last: "last (fill_padding (replicate k 0)) = last (fill_padding (replicate k' 0))"
    using arg_cong [OF assms(1), of last] assms(2) less
    by (simp add: last_append fill_padding_nonempty)
  moreover have "last (fill_padding (replicate k' 0)) = 1"
    using j by (simp add: fill_padding_2 [of _ "k' - 2"])
  ultimately have "k \<noteq> 1" by (auto simp: fill_padding_1)
  with assms(2) have i: "k = Suc (Suc (k - 2))" by simp
  have len: "length m + k = length m' + k'"
    using arg_cong [OF assms(1), of length] by simp
  have "(m @ fill_padding (replicate k 0)) ! length m = 0x80"
    using i by (simp add: fill_padding_2 [of _ "k - 2"])
  moreover have "(m' @ fill_padding (replicate k' 0)) ! length m = 0"
    using i j len less by (simp add: fill_padding_2 [of _ "k' - 2"] nth_append nth_Cons')
  ultimately show False using assms(1) by simp
qed

lemma pad_stream_inj: "pad_stream m = pad_stream m' \<Longrightarrow> m = m'"
proof -
  assume eq: "pad_stream m = pad_stream m'"
  let ?k = "32 - length m mod 32" and ?k' = "32 - length m' mod 32"
  have pos: "0 < ?k" "0 < ?k'" by simp_all
  have "?k = ?k'"
  proof (cases "?k \<le> ?k'")
    case True
    then show ?thesis using eq pos by (intro pad_suffix_unique) (auto simp: pad_stream_def)
  next
    case False
    then show ?thesis
      using eq pos pad_suffix_unique [of m' ?k' m ?k] by (simp add: pad_stream_def)
  qed
  then show ?thesis using eq by (simp add: pad_stream_def)
qed

lemma of_nat_u64_inj:
  "(of_nat a :: u64) = of_nat b \<Longrightarrow> a < 2 ^ 64 \<Longrightarrow> b < 2 ^ 64 \<Longrightarrow> a = b"
  by (drule arg_cong [of _ _ unat]) (simp add: unat_of_nat)

lemma frame_piece_inj:
  assumes "frame_piece p @ xs = frame_piece q @ ys" "length p < 2 ^ 64" "length q < 2 ^ 64"
  shows "p = q \<and> xs = ys"
proof -
  have "le_bytes 8 (of_nat (length p) :: u64) = le_bytes 8 (of_nat (length q) :: u64)"
    and rest: "p @ xs = q @ ys"
    using assms(1) by (auto simp: frame_piece_def append_eq_append_conv)
  then have "length p = length q"
    using assms(2,3) by (intro of_nat_u64_inj) (simp_all add: le_bytes_eq_iff)
  then show ?thesis using rest by simp
qed

lemma frame_pieces_inj:
  assumes "concat (map frame_piece ps) = concat (map frame_piece qs)" "length ps = length qs"
    and "\<forall>p \<in> set ps. length p < 2 ^ 64" "\<forall>q \<in> set qs. length q < 2 ^ 64"
  shows "ps = qs"
  using assms(2,1,3,4)
proof (induction ps qs rule: list_induct2)
  case (Cons p ps q qs)
  then show ?case using frame_piece_inj [of p "concat (map frame_piece ps)" q "concat (map frame_piece qs)"] by auto
qed simp

lemma frame_slices_inj:
  assumes "frame_slices d ps = frame_slices e qs"
    and "length d < 2 ^ 64" "length e < 2 ^ 64" "length ps < 2 ^ 64" "length qs < 2 ^ 64"
    and "\<forall>p \<in> set ps. length p < 2 ^ 64" "\<forall>q \<in> set qs. length q < 2 ^ 64"
  shows "d = e \<and> ps = qs"
proof -
  from assms(1) have d: "d = e"
    and rest: "le_bytes 8 (of_nat (length ps) :: u64) @ concat (map frame_piece ps)
             = le_bytes 8 (of_nat (length qs) :: u64) @ concat (map frame_piece qs)"
    using frame_piece_inj assms(2,3) unfolding frame_slices_def by blast+
  then have "le_bytes 8 (of_nat (length ps) :: u64) = le_bytes 8 (of_nat (length qs) :: u64)"
    and c: "concat (map frame_piece ps) = concat (map frame_piece qs)"
    by (auto simp: append_eq_append_conv)
  then have "length ps = length qs"
    using assms(4,5) by (intro of_nat_u64_inj) (simp_all add: le_bytes_eq_iff)
  then show ?thesis using d frame_pieces_inj [OF c _ assms(6,7)] by simp
qed

lemma hash_byte_slices_stream:
  "poseidon2b_hash_byte_slices perm domain pieces =
     squeeze_32 (foldl (absorb_byte perm) (with_iv (capacity_iv TAG_BYTEHASH)) (pad_stream (frame_slices domain pieces)))"
proof -
  have piece: "sponge_ok s \<Longrightarrow> update_piece perm s p = foldl (absorb_byte perm) s (frame_piece p)" for s p
    by (simp add: update_piece_def sponge_update_bytewise sponge_ok_foldl frame_piece_def)
  have fold: "sponge_ok s \<Longrightarrow> foldl (update_piece perm) s ps = foldl (absorb_byte perm) s (concat (map frame_piece ps))" for s ps
    by (induction ps arbitrary: s) (auto simp: piece sponge_ok_foldl)
  let ?s = "with_iv (capacity_iv TAG_BYTEHASH)"
  have "poseidon2b_hash_byte_slices perm domain pieces
      = finalize perm (foldl (absorb_byte perm) ?s (frame_slices domain pieces))"
    by (simp add: poseidon2b_hash_byte_slices_def Let_def piece fold frame_slices_def sponge_update_bytewise sponge_ok_foldl)
  moreover have "filled_bytes ?s = 0" by (simp add: with_iv_def)
  ultimately show ?thesis by (simp add: finalize_bytewise)
qed

section \<open>Properties\<close>

text \<open>However a message is cut into pieces, feeding the pieces to the sponge one
  \<open>update\<close> at a time leaves the sponge that one \<open>update\<close> of the whole message leaves.\<close>

theorem update_independent_of_chunking:
  "sponge_ok s \<Longrightarrow> foldl (\<lambda>s d. sponge_update perm d s) s ds = sponge_update perm (concat ds) s"
  by (rule sponge.upd_pieces)

theorem update_independent_of_chunking_witness:
  "sponge_update id (replicate 9 2) (sponge_update id (replicate 40 1) sponge_new)
     = sponge_update id (replicate 40 1 @ replicate 9 2) sponge_new"
proof -
  have "sponge_ok sponge_new" by (simp add: sponge_ok_def sponge_new_def)
  from update_independent_of_chunking [OF this, of id "[replicate 40 1, replicate 9 2]"]
  show ?thesis by simp
qed

text \<open>The byte hash absorbs one padded stream, and that stream determines the
  domain string and every piece: two calls that absorb the same blocks were given
  the same domain and the same list of pieces (lengths are 64-bit).\<close>

theorem byte_hash_framing_unambiguous:
  assumes "length d < 2 ^ 64" "length e < 2 ^ 64" "length ps < 2 ^ 64" "length qs < 2 ^ 64"
    and "\<forall>p \<in> set ps. length p < 2 ^ 64" "\<forall>q \<in> set qs. length q < 2 ^ 64"
  shows "poseidon2b_hash_byte_slices perm d ps
      = squeeze_32 (foldl (absorb_byte perm) (with_iv (capacity_iv TAG_BYTEHASH)) (pad_stream (frame_slices d ps))) \<and>
    (pad_stream (frame_slices d ps) = pad_stream (frame_slices e qs) \<longleftrightarrow> d = e \<and> ps = qs)"
  using frame_slices_inj [OF _ assms] by (auto simp: hash_byte_slices_stream dest: pad_stream_inj)

theorem byte_hash_framing_unambiguous_witness:
  "pad_stream (frame_slices [7] [[1, 2], [3]]) \<noteq> pad_stream (frame_slices [7] [[1], [2, 3]])"
  using byte_hash_framing_unambiguous [of "[7]" "[7]" "[[1, 2], [3]]" "[[1], [2, 3]]" id] by simp

end
