(* ===== verification/Transaction.thy ===== *)
theory Transaction
imports Sponge
begin

section \<open>Transaction bodies and their public rules\<close>

text \<open>
  \<open>noid_tx/src/types.rs\<close>, \<open>public_logic.rs\<close>, \<open>claims.rs\<close> and \<open>body_hash.rs\<close>: the
  fixed eight-input two-output body, the canonical checks every consumer of a
  body runs, the claims commitment and the sixteen leaves of the body hash.
  Rust's fixed arrays are lists; \<open>tx_body_typed\<close> is the type invariant that fixes
  their lengths.  The main result replaces the sequence of checks and loops of
  \<open>validate_body_semantics_no_hash\<close> by one declarative predicate over naturals.
\<close>

subsection \<open>Types\<close>

definition TX_INPUTS :: nat where "TX_INPUTS = 8"
definition TX_OUTPUTS :: nat where "TX_OUTPUTS = 2"
definition TX_ACTIONS :: nat where "TX_ACTIONS = TX_INPUTS + TX_OUTPUTS"
definition TX_VALIDITY_MASK :: u16 where "TX_VALIDITY_MASK = push_bit TX_ACTIONS 1 - 1"

type_synonym address = bytes32

definition output_bitmap_bit :: "nat \<Rightarrow> u16" where
  "output_bitmap_bit index = push_bit (TX_INPUTS + index) 1"

definition pack_amount_creation_id :: "u64 \<Rightarrow> u64 \<Rightarrow> block128" where
  "pack_amount_creation_id amount creation_id = or (push_bit 64 (widen creation_id)) (widen amount)"

definition unpack_amount_creation_id :: "block128 \<Rightarrow> u64 \<times> u64" where
  "unpack_amount_creation_id packed = (ucast packed, ucast (drop_bit 64 packed))"

record tx_input =
  in_slot_index :: u32
  in_amount :: u64
  in_creation_id :: u64

record tx_output =
  out_slot_index :: u32
  out_amount :: u64
  out_owner :: address

definition dummy_input :: tx_input where
  "dummy_input = \<lparr>in_slot_index = 0, in_amount = 0, in_creation_id = 0\<rparr>"

definition dummy_output :: tx_output where
  "dummy_output = \<lparr>out_slot_index = 0, out_amount = 0, out_owner = 0\<rparr>"

definition input_commitment :: "permutation \<Rightarrow> tx_input \<Rightarrow> address \<Rightarrow> digest" where
  "input_commitment perm i owner =
     hash_utxo_leaf perm (pack_amount_creation_id (in_amount i) (in_creation_id i)) owner"

definition commitment_with_creation_id :: "permutation \<Rightarrow> tx_output \<Rightarrow> u64 \<Rightarrow> digest" where
  "commitment_with_creation_id perm out creation_id =
     hash_utxo_leaf perm (pack_amount_creation_id (out_amount out) creation_id) (out_owner out)"

record tx_body =
  tx_epoch_anchor :: digest
  tx_fee :: u64
  tx_input_owner :: address
  tx_inputs :: "tx_input list"
  tx_outputs :: "tx_output list"
  tx_validity_bitmap :: u16
  tx_is_coinbase :: bool

definition tx_body_typed :: "tx_body \<Rightarrow> bool" where
  "tx_body_typed b \<longleftrightarrow> length (tx_inputs b) = TX_INPUTS \<and> length (tx_outputs b) = TX_OUTPUTS"

definition TX_EPOCH_BLOCKS :: u64 where "TX_EPOCH_BLOCKS = 144"

subsection \<open>Liveness\<close>

definition is_primary_coinbase_shape :: "tx_body \<Rightarrow> bool" where
  "is_primary_coinbase_shape b \<longleftrightarrow> tx_is_coinbase b \<and> tx_validity_bitmap b = output_bitmap_bit 0"

definition is_development_payout_shape :: "tx_body \<Rightarrow> bool" where
  "is_development_payout_shape b \<longleftrightarrow>
     tx_is_coinbase b \<and> tx_validity_bitmap b = or (output_bitmap_bit 0) (output_bitmap_bit 1)"

definition input_is_live :: "tx_body \<Rightarrow> nat \<Rightarrow> bool" where
  "input_is_live b index \<longleftrightarrow> index < TX_INPUTS \<and> and (tx_validity_bitmap b) (push_bit index 1) \<noteq> 0"

definition output_is_live :: "tx_body \<Rightarrow> nat \<Rightarrow> bool" where
  "output_is_live b index \<longleftrightarrow> index < TX_OUTPUTS \<and> and (tx_validity_bitmap b) (output_bitmap_bit index) \<noteq> 0"

definition live_inputs :: "tx_body \<Rightarrow> (nat \<times> tx_input) list" where
  "live_inputs b = filter (\<lambda>(index, _). input_is_live b index) (enumerate 0 (tx_inputs b))"

definition live_outputs :: "tx_body \<Rightarrow> (nat \<times> tx_output) list" where
  "live_outputs b = filter (\<lambda>(index, _). output_is_live b index) (enumerate 0 (tx_outputs b))"

definition live_input_count :: "tx_body \<Rightarrow> nat" where
  "live_input_count b = count_ones (and (tx_validity_bitmap b) 0x00ff)"

definition live_output_count :: "tx_body \<Rightarrow> nat" where
  "live_output_count b = count_ones (and (drop_bit TX_INPUTS (tx_validity_bitmap b)) 0x0003)"

subsection \<open>Body hash and claims commitment\<close>

definition digest_fields :: "digest \<Rightarrow> block128 \<times> block128" where
  "digest_fields d = (lo_half d, hi_half d)"

definition bool_word :: "bool \<Rightarrow> 'a::len word" where
  "bool_word c = (if c then 1 else 0)"

definition body_hash_leaves :: "tx_body \<Rightarrow> (block128 \<times> block128) list" where
  "body_hash_leaves b =
     [digest_fields (tx_epoch_anchor b), (widen (tx_fee b), 0), digest_fields (tx_input_owner b)]
     @ map (\<lambda>i. (ucast (in_slot_index i), pack_amount_creation_id (in_amount i) (in_creation_id i))) (tx_inputs b)
     @ [(ucast (out_slot_index (tx_outputs b ! 0)), widen (out_amount (tx_outputs b ! 0))),
        digest_fields (out_owner (tx_outputs b ! 0)),
        (ucast (out_slot_index (tx_outputs b ! 1)), widen (out_amount (tx_outputs b ! 1))),
        digest_fields (out_owner (tx_outputs b ! 1)),
        (ucast (tx_validity_bitmap b), bool_word (tx_is_coinbase b))]"

definition hash_tx_body :: "permutation \<Rightarrow> tx_body \<Rightarrow> digest" where
  "hash_tx_body perm b = hash_tx8x2_leaves perm (body_hash_leaves b)"

definition txid :: "permutation \<Rightarrow> tx_body \<Rightarrow> digest" where
  "txid perm b = hash_tx_body perm b"

definition claim_input :: "permutation \<Rightarrow> sponge \<Rightarrow> nat \<times> tx_input \<Rightarrow> sponge" where
  "claim_input perm s = (\<lambda>(index, i).
     absorb perm (pack_amount_creation_id (in_amount i) (in_creation_id i))
       (absorb_pair perm (of_nat index) (ucast (in_slot_index i)) s))"

definition claim_output :: "permutation \<Rightarrow> sponge \<Rightarrow> nat \<times> tx_output \<Rightarrow> sponge" where
  "claim_output perm s = (\<lambda>(index, out).
     absorb_pair perm (lo_half (out_owner out)) (hi_half (out_owner out))
       (absorb perm (widen (out_amount out))
         (absorb_pair perm (of_nat (TX_INPUTS + index)) (ucast (out_slot_index out)) s)))"

definition compute_claims_commitment :: "permutation \<Rightarrow> tx_body \<Rightarrow> digest" where
  "compute_claims_commitment perm b =
     (let s = with_iv (capacity_iv TAG_CLAIMS);
          s = absorb perm (ucast (tx_validity_bitmap b)) s;
          s = absorb_pair perm (lo_half (tx_input_owner b)) (hi_half (tx_input_owner b)) s;
          s = foldl (claim_input perm) s (live_inputs b);
          s = foldl (claim_output perm) s (live_outputs b)
      in finalize perm s)"

subsection \<open>Public logic\<close>

record public_logic_facts =
  tx_body_hash :: digest
  fee_u64 :: u64
  n_live_inputs :: u8
  n_live_outputs :: u8
  facts_input_sum :: u128
  facts_output_sum :: u128

datatype public_logic_error =
    Coinbase
  | BitmapHighBits u16
  | DeadInputNotZero nat
  | DeadOutputNotZero nat
  | NoLiveInputs
  | CoinbaseInputOwner
  | CoinbaseBitmap u16
  | DuplicateInputSlot u32
  | DuplicateOutputSlot u32
  | InputOutputSlotOverlap u32
  | InputSumOverflow
  | OutputSumOverflow
  | OutputPlusFeeOverflow
  | BalanceMismatch u128 u128 u64

definition unique_slots :: "tx_body \<Rightarrow> public_logic_error + unit" where
  "unique_slots b =
     rbind (rfold (\<lambda>seen (_, i). if in_slot_index i \<in> seen then Inl (DuplicateInputSlot (in_slot_index i))
                                 else Inr (insert (in_slot_index i) seen)) {} (live_inputs b))
       (\<lambda>ins. rbind (rfold (\<lambda>seen (_, out).
                if out_slot_index out \<in> seen then Inl (DuplicateOutputSlot (out_slot_index out))
                else if out_slot_index out \<in> ins then Inl (InputOutputSlotOverlap (out_slot_index out))
                else Inr (insert (out_slot_index out) seen)) {} (live_outputs b))
         (\<lambda>_. Inr ()))"

definition sums :: "tx_body \<Rightarrow> public_logic_error + u8 \<times> u8 \<times> u128 \<times> u128" where
  "sums b =
     rbind (rfold (\<lambda>acc (_, i). ok_or InputSumOverflow (checked_add acc (widen (in_amount i)))) 0 (live_inputs b))
       (\<lambda>input_sum.
     rbind (rfold (\<lambda>acc (_, out). ok_or OutputSumOverflow (checked_add acc (widen (out_amount out)))) 0 (live_outputs b))
       (\<lambda>output_sum.
     Inr (of_nat (live_input_count b), of_nat (live_output_count b), input_sum, output_sum)))"

definition validate_body_semantics_no_hash :: "tx_body \<Rightarrow> public_logic_error + unit" where
  "validate_body_semantics_no_hash b =
     rbind (ensure (and (tx_validity_bitmap b) (not TX_VALIDITY_MASK) = 0) (BitmapHighBits (tx_validity_bitmap b))) (\<lambda>_.
     rbind (for_each (\<lambda>(index, i). ensure (input_is_live b index \<or> i = dummy_input) (DeadInputNotZero index))
              (enumerate 0 (tx_inputs b))) (\<lambda>_.
     rbind (for_each (\<lambda>(index, out). ensure (output_is_live b index \<or> out = dummy_output) (DeadOutputNotZero index))
              (enumerate 0 (tx_outputs b))) (\<lambda>_.
     if tx_is_coinbase b then
       rbind (ensure (tx_input_owner b = 0) CoinbaseInputOwner) (\<lambda>_.
       let primary = output_bitmap_bit 0;
           development = or (output_bitmap_bit 0) (output_bitmap_bit 1)
       in rbind (ensure ((tx_validity_bitmap b = primary \<or> tx_validity_bitmap b = development) \<and> tx_fee b = 0)
                   (CoinbaseBitmap (tx_validity_bitmap b))) (\<lambda>_.
          unique_slots b))
     else
       rbind (ensure (live_input_count b \<noteq> 0) NoLiveInputs) (\<lambda>_.
       rbind (unique_slots b) (\<lambda>_.
       rbind (sums b) (\<lambda>(_, _, input_sum, output_sum).
       rbind (ok_or OutputPlusFeeOverflow (checked_add output_sum (widen (tx_fee b)))) (\<lambda>expected.
       ensure (input_sum = expected) (BalanceMismatch input_sum output_sum (tx_fee b)))))))))"

definition validate_public_tx_logic :: "permutation \<Rightarrow> tx_body \<Rightarrow> public_logic_error + public_logic_facts" where
  "validate_public_tx_logic perm b =
     rbind (ensure (\<not> tx_is_coinbase b) Coinbase) (\<lambda>_.
     rbind (validate_body_semantics_no_hash b) (\<lambda>_.
     rbind (sums b) (\<lambda>(n_in, n_out, input_sum, output_sum).
     Inr \<lparr>tx_body_hash = txid perm b, fee_u64 = tx_fee b, n_live_inputs = n_in, n_live_outputs = n_out,
          facts_input_sum = input_sum, facts_output_sum = output_sum\<rparr>)))"

subsection \<open>The abstract rule\<close>

definition input_total :: "tx_body \<Rightarrow> nat" where
  "input_total b = (\<Sum>(_, i)\<leftarrow>live_inputs b. unat (in_amount i))"

definition output_total :: "tx_body \<Rightarrow> nat" where
  "output_total b = (\<Sum>(_, out)\<leftarrow>live_outputs b. unat (out_amount out))"

definition slots_disjoint :: "tx_body \<Rightarrow> bool" where
  "slots_disjoint b \<longleftrightarrow>
     distinct (map (in_slot_index \<circ> snd) (live_inputs b) @ map (out_slot_index \<circ> snd) (live_outputs b))"

definition canonical_body :: "tx_body \<Rightarrow> bool" where
  "canonical_body b \<longleftrightarrow>
     unat (tx_validity_bitmap b) < 2 ^ TX_ACTIONS \<and>
     (\<forall>k < length (tx_inputs b). input_is_live b k \<or> tx_inputs b ! k = dummy_input) \<and>
     (\<forall>k < length (tx_outputs b). output_is_live b k \<or> tx_outputs b ! k = dummy_output) \<and>
     slots_disjoint b \<and>
     (if tx_is_coinbase b
      then (is_primary_coinbase_shape b \<or> is_development_payout_shape b) \<and> tx_fee b = 0 \<and> tx_input_owner b = 0
      else live_inputs b \<noteq> [] \<and> input_total b = output_total b + unat (tx_fee b))"

subsection \<open>Reference notions and sample data\<close>

definition sample_body :: tx_body where
  "sample_body = \<lparr>tx_epoch_anchor = 5, tx_fee = 3, tx_input_owner = 9,
     tx_inputs = [\<lparr>in_slot_index = 4, in_amount = 10, in_creation_id = 1\<rparr>, dummy_input, dummy_input, dummy_input,
       dummy_input, dummy_input, dummy_input, dummy_input],
     tx_outputs = [\<lparr>out_slot_index = 6, out_amount = 7, out_owner = 8\<rparr>, dummy_output],
     tx_validity_bitmap = 0x101, tx_is_coinbase = False\<rparr>"

section \<open>Lemmas\<close>

lemmas tx_const_defs = TX_INPUTS_def TX_OUTPUTS_def TX_ACTIONS_def TX_VALIDITY_MASK_def

lemma and_push_bit_one: "and w (push_bit n 1) \<noteq> 0 \<longleftrightarrow> bit (w :: 'a::len word) n"
proof -
  have "and w (push_bit n 1) = (if bit w n then push_bit n 1 else 0)"
    by (rule bit_word_eqI) (auto simp: bit_simps)
  then show ?thesis
    using bit_imp_le_length [of w n] by (auto simp: push_bit_eq_0_iff) 
qed

lemma input_is_live_bit: "input_is_live b k \<longleftrightarrow> k < 8 \<and> bit (tx_validity_bitmap b) k"
  by (simp only: input_is_live_def tx_const_defs and_push_bit_one)

lemma output_is_live_bit: "output_is_live b k \<longleftrightarrow> k < 2 \<and> bit (tx_validity_bitmap b) (8 + k)"
  by (simp only: output_is_live_def output_bitmap_bit_def tx_const_defs and_push_bit_one)

lemma validity_mask_eq: "TX_VALIDITY_MASK = mask 10"
  by (simp add: tx_const_defs mask_eq_exp_minus_1)

lemma bitmap_high_bits_iff:
  "and w (not TX_VALIDITY_MASK) = 0 \<longleftrightarrow> unat w < 2 ^ TX_ACTIONS"
proof -
  have "and w (not (mask 10)) = 0 \<longleftrightarrow> (\<forall>n. bit w n \<longrightarrow> n < 10)"
    using bit_imp_le_length [of w] by (auto simp: bit_eq_iff [where b = 0] bit_simps)
  also have "\<dots> \<longleftrightarrow> take_bit 10 w = w"
    using bit_imp_le_length [of w] by (auto simp: bit_eq_iff [where b = w] bit_simps)
  finally have "and w (not TX_VALIDITY_MASK) = 0 \<longleftrightarrow> take_bit 10 w = w"
    by (simp only: validity_mask_eq)
  also have "\<dots> \<longleftrightarrow> unat w < 2 ^ 10"
    by (simp add: word_unat_eq_iff unsigned_take_bit_eq take_bit_nat_eq_self_iff)
  finally show ?thesis by (simp add: tx_const_defs)
qed

lemma live_inputs_nonempty_iff:
  assumes "tx_body_typed b"
  shows "live_inputs b \<noteq> [] \<longleftrightarrow> live_input_count b \<noteq> 0"
proof -
  have "live_inputs b \<noteq> [] \<longleftrightarrow> (\<exists>k<8. bit (tx_validity_bitmap b) k)"
    using assms
    by (auto simp: live_inputs_def filter_empty_conv in_set_enumerate_eq input_is_live_bit tx_body_typed_def tx_const_defs)
  also have "\<dots> \<longleftrightarrow> (\<exists>k\<in>{0..<16}. bit (and (tx_validity_bitmap b) 0x00ff) k)"
  proof -
    have "and (tx_validity_bitmap b) 0x00ff = take_bit 8 (tx_validity_bitmap b)"
      by (simp add: take_bit_eq_mask mask_eq_exp_minus_1)
    moreover have "(\<exists>k<8. P k) \<longleftrightarrow> (\<exists>k\<in>{0..<16}. k < 8 \<and> P k)" for P :: "nat \<Rightarrow> bool"
      by (force simp: Bex_def)
    ultimately show ?thesis by (simp add: bit_simps)
  qed
  also have "\<dots> \<longleftrightarrow> live_input_count b \<noteq> 0"
    by (auto simp: live_input_count_def count_ones_def filter_empty_conv)
  finally show ?thesis .
qed

lemma unique_slots_iff: "unique_slots b = Inr () \<longleftrightarrow> slots_disjoint b"
proof -
  let ?ins = "(in_slot_index \<circ> snd) ` set (live_inputs b)"
  have outs: "rfold (\<lambda>seen (_, out).
        if out_slot_index out \<in> seen then Inl (DuplicateOutputSlot (out_slot_index out))
        else if out_slot_index out \<in> I then Inl (InputOutputSlotOverlap (out_slot_index out))
        else Inr (insert (out_slot_index out) seen)) S xs = Inr T \<longleftrightarrow>
      distinct (map (out_slot_index \<circ> snd) xs) \<and> (out_slot_index \<circ> snd) ` set xs \<inter> (S \<union> I) = {}
        \<and> T = (out_slot_index \<circ> snd) ` set xs \<union> S" for S T I and xs :: "(nat \<times> tx_output) list"
    by (induction xs arbitrary: S) (auto simp: rbind_eq_Inr split: prod.splits)
  have ins: "rfold (\<lambda>seen (_, i). if in_slot_index i \<in> seen then Inl (DuplicateInputSlot (in_slot_index i))
        else Inr (insert (in_slot_index i) seen)) {} (live_inputs b) = Inr T \<longleftrightarrow>
      distinct (map (in_slot_index \<circ> snd) (live_inputs b)) \<and> T = ?ins" for T
    using rfold_insert_fresh [of "\<lambda>x. in_slot_index (snd x)" "\<lambda>x. DuplicateInputSlot (in_slot_index (snd x))" "{}" "live_inputs b" T]
    by (simp add: case_prod_unfold comp_def)
  show ?thesis
    by (auto simp: unique_slots_def slots_disjoint_def rbind_eq_Inr ins outs)
qed

lemma length_live_inputs: "tx_body_typed b \<Longrightarrow> length (live_inputs b) \<le> 8"
  unfolding live_inputs_def using length_filter_le [of _ "enumerate 0 (tx_inputs b)"]
  by (simp add: tx_body_typed_def tx_const_defs)

lemma length_live_outputs: "tx_body_typed b \<Longrightarrow> length (live_outputs b) \<le> 2"
  unfolding live_outputs_def using length_filter_le [of _ "enumerate 0 (tx_outputs b)"]
  by (simp add: tx_body_typed_def tx_const_defs)

lemma input_total_bound: "tx_body_typed b \<Longrightarrow> input_total b < 2 ^ 67"
proof -
  assume "tx_body_typed b"
  then have "length (live_inputs b) * (2 ^ 64 - 1) \<le> 8 * (2 ^ 64 - 1)"
    using length_live_inputs by (intro mult_right_mono) auto
  moreover have "input_total b \<le> length (live_inputs b) * (2 ^ 64 - 1)"
    unfolding input_total_def case_prod_unfold by (rule sum_list_u64_bound)
  ultimately show ?thesis by simp
qed

lemma output_total_bound: "tx_body_typed b \<Longrightarrow> output_total b < 2 ^ 65"
proof -
  assume "tx_body_typed b"
  then have "length (live_outputs b) * (2 ^ 64 - 1) \<le> 2 * (2 ^ 64 - 1)"
    using length_live_outputs by (intro mult_right_mono) auto
  moreover have "output_total b \<le> length (live_outputs b) * (2 ^ 64 - 1)"
    unfolding output_total_def case_prod_unfold by (rule sum_list_u64_bound)
  ultimately show ?thesis by simp
qed

lemma sums_eq_Inr:
  "sums b = Inr (n_in, n_out, i_sum, o_sum) \<longleftrightarrow>
     n_in = of_nat (live_input_count b) \<and> n_out = of_nat (live_output_count b) \<and>
     unat i_sum = input_total b \<and> unat o_sum = output_total b"
  using rfold_checked_add [of InputSumOverflow "\<lambda>x. widen (in_amount (snd x))" 0 "live_inputs b"]
    rfold_checked_add [of OutputSumOverflow "\<lambda>x. widen (out_amount (snd x))" 0 "live_outputs b"]
  by (auto simp: sums_def rbind_eq_Inr case_prod_unfold input_total_def output_total_def)

lemma sums_total:
  assumes "tx_body_typed b"
  shows "\<exists>i_sum o_sum. sums b = Inr (of_nat (live_input_count b), of_nat (live_output_count b), i_sum, o_sum)
    \<and> unat i_sum = input_total b \<and> unat o_sum = output_total b"
proof -
  have "unat (of_nat (input_total b) :: u128) = input_total b"
    "unat (of_nat (output_total b) :: u128) = output_total b"
    using input_total_bound [OF assms] output_total_bound [OF assms] by (simp_all add: unat_of_nat)
  then show ?thesis unfolding sums_eq_Inr by blast
qed

lemma balance_check_iff:
  assumes "tx_body_typed b"
  shows "rbind (sums b) (\<lambda>(_, _, input_sum, output_sum).
       rbind (ok_or OutputPlusFeeOverflow (checked_add output_sum (widen (tx_fee b)))) (\<lambda>expected.
       ensure (input_sum = expected) (BalanceMismatch input_sum output_sum (tx_fee b)))) = Inr u \<longleftrightarrow>
     input_total b = output_total b + unat (tx_fee b)"
proof -
  obtain i_sum o_sum where s: "sums b = Inr (of_nat (live_input_count b), of_nat (live_output_count b), i_sum, o_sum)"
    "unat i_sum = input_total b" "unat o_sum = output_total b"
    using sums_total [OF assms] by blast
  show ?thesis
    using s by (auto simp: rbind_eq_Inr ok_or_eq_Inr checked_add_eq_Some)
qed

lemma validate_body_iff:
  assumes "tx_body_typed b"
  shows "validate_body_semantics_no_hash b = Inr () \<longleftrightarrow> canonical_body b"
  using live_inputs_nonempty_iff [OF assms]
  by (cases "tx_is_coinbase b")
    (auto simp: validate_body_semantics_no_hash_def canonical_body_def Let_def rbind_unit_eq_Inr bitmap_high_bits_iff
      for_each_enumerate balance_check_iff [OF assms] unique_slots_iff
      is_primary_coinbase_shape_def is_development_payout_shape_def)


lemma unpack_pack_amount_creation_id [simp]:
  "unpack_amount_creation_id (pack_amount_creation_id a c) = (a, c)"
proof -
  have "ucast (pack_amount_creation_id a c) = a"
    by (rule bit_word_eqI) (simp add: pack_amount_creation_id_def widen_def bit_simps)
  moreover have "ucast (drop_bit 64 (pack_amount_creation_id a c)) = c"
  proof (rule bit_word_eqI)
    fix n assume "n < LENGTH(64)"
    then show "bit (ucast (drop_bit 64 (pack_amount_creation_id a c)) :: u64) n = bit c n"
      using bit_imp_le_length [of a "64 + n"]
      by (auto simp: pack_amount_creation_id_def widen_def bit_simps)
  qed
  ultimately show ?thesis by (simp add: unpack_amount_creation_id_def)
qed

lemma pack_amount_creation_id_inj:
  "pack_amount_creation_id a c = pack_amount_creation_id a' c' \<longleftrightarrow> a = a' \<and> c = c'"
  by (metis prod.inject unpack_pack_amount_creation_id)

lemma pack_unpack_amount_creation_id:
  "(case unpack_amount_creation_id p of (a, c) \<Rightarrow> pack_amount_creation_id a c) = p"
proof -
  have "pack_amount_creation_id (ucast p) (ucast (drop_bit 64 p)) = p"
  proof (rule bit_word_eqI)
    fix n assume "n < LENGTH(128)"
    then show "bit (pack_amount_creation_id (ucast p) (ucast (drop_bit 64 p))) n = bit p n"
      by (cases "n < 64") (auto simp: pack_amount_creation_id_def widen_def bit_simps)
  qed
  then show ?thesis by (simp add: unpack_amount_creation_id_def)
qed

lemma length_body_hash_leaves:
  "tx_body_typed b \<Longrightarrow> length (body_hash_leaves b) = 16"
  by (simp add: body_hash_leaves_def tx_body_typed_def tx_const_defs)

lemma bool_word_inj: "(bool_word a :: 'a::len word) = bool_word b \<longleftrightarrow> a = b"
  by (simp add: bool_word_def)

lemma two_outputs_eq:
  "length xs = 2 \<Longrightarrow> length ys = 2 \<Longrightarrow> xs ! 0 = ys ! 0 \<Longrightarrow> xs ! 1 = ys ! 1 \<Longrightarrow> xs = ys"
  by (auto simp: list_eq_iff_nth_eq less_2_cases_iff)

lemma input_leaf_inj:
  "inj (\<lambda>i :: tx_input. (ucast (in_slot_index i) :: u128, pack_amount_creation_id (in_amount i) (in_creation_id i)))"
  by (rule injI, rule tx_input.equality) (auto simp: pack_amount_creation_id_inj ucast_up_inj)

lemma body_hash_leaves_inj:
  assumes "tx_body_typed b" "tx_body_typed c" "body_hash_leaves b = body_hash_leaves c"
  shows "b = c"
proof -
  have len: "length (tx_inputs b) = length (tx_inputs c)"
    "length (tx_outputs b) = 2" "length (tx_outputs c) = 2"
    using assms by (auto simp: tx_body_typed_def tx_const_defs)
  let ?m = "map (\<lambda>i. (ucast (in_slot_index i) :: u128, pack_amount_creation_id (in_amount i) (in_creation_id i)))"
  have "length (?m (tx_inputs b)) = length (?m (tx_inputs c))" using len by simp
  note parts = assms(3) [unfolded body_hash_leaves_def digest_fields_def, simplified append_eq_append_conv this
      append_Cons append_Nil list.inject prod.inject inj_map_eq_map [OF input_leaf_inj] ucast_up_inj bool_word_inj
      widen_inj simp_thms]
  have "tx_outputs b ! 0 = tx_outputs c ! 0" "tx_outputs b ! 1 = tx_outputs c ! 1"
    using parts by (simp_all add: tx_output.equality halves_eq_iff ucast_up_inj)
  moreover have "tx_epoch_anchor b = tx_epoch_anchor c" "tx_input_owner b = tx_input_owner c"
    using parts by (simp_all add: halves_eq_iff)
  moreover have "tx_inputs b = tx_inputs c" "tx_fee b = tx_fee c"
    "tx_validity_bitmap b = tx_validity_bitmap c" "tx_is_coinbase b = tx_is_coinbase c"
    using parts by (simp_all add: ucast_up_inj)
  ultimately show ?thesis
    using len by (simp add: tx_body.equality two_outputs_eq)
qed


lemma length_filter_enumerate:
  "length (filter (\<lambda>(k, _). P k) (enumerate n xs)) = length (filter P [n..<n + length xs])"
proof (induction xs arbitrary: n)
  case (Cons x xs)
  then show ?case by (simp add: upt_conv_Cons del: upt_Suc)
qed simp

lemma live_input_count_length:
  assumes "tx_body_typed b"
  shows "live_input_count b = length (live_inputs b)"
proof -
  let ?w = "tx_validity_bitmap b"
  have "and ?w 0x00ff = take_bit 8 ?w" by (simp add: take_bit_eq_mask mask_eq_exp_minus_1)
  then have "live_input_count b = length (filter (\<lambda>k. k < 8 \<and> bit ?w k) [0..<16])"
    by (simp add: live_input_count_def count_ones_def bit_take_bit_iff cong: filter_cong)
  also have "[0..<16] = [0..<8] @ [8..<16]" using upt_add_eq_append [of 0 8 8] by simp
  also have "filter (\<lambda>k. k < 8 \<and> bit ?w k) ([0..<8] @ [8..<16]) = filter (input_is_live b) [0..<8]"
    by (auto simp: input_is_live_bit intro: filter_cong)
  also have "length \<dots> = length (live_inputs b)"
    using assms by (simp add: live_inputs_def length_filter_enumerate tx_body_typed_def tx_const_defs)
  finally show ?thesis .
qed

section \<open>Properties\<close>

text \<open>C8: The chain of checks and loops in \<open>validate_body_semantics_no_hash\<close> accepts a
  body exactly when the body is canonical: no stray bitmap bit, dead records zero, all
  live slots pairwise different, and either a system mint of one of the two fixed
  shapes or a spend whose inputs equal its outputs plus the fee as naturals.\<close>

theorem validate_body_iff_canonical:
  "tx_body_typed b \<Longrightarrow> validate_body_semantics_no_hash b = Inr () \<longleftrightarrow> canonical_body b"
  by (rule validate_body_iff)

lemma sample_body_typed: "tx_body_typed sample_body"
  by (simp add: tx_body_typed_def sample_body_def tx_const_defs)

lemma sample_body_accepted: "validate_body_semantics_no_hash sample_body = Inr ()"
  by (simp add: validate_body_semantics_no_hash_def unique_slots_def sums_def live_inputs_def live_outputs_def
      live_input_count_def count_ones_def input_is_live_def output_is_live_def output_bitmap_bit_def
      sample_body_def tx_const_defs rbind_ensure ensure_def checked_add_def widen_def filter_empty_conv bit_1_iff)

theorem validate_body_iff_canonical_witness: "canonical_body sample_body"
proof -
  from sample_body_accepted show ?thesis using validate_body_iff_canonical [OF sample_body_typed] by simp
qed

text \<open>A spend that passes the public logic conserves value without any wrap-around:
  the reported sums are the true sums of the live amounts, the inputs pay exactly the
  outputs and the fee, the reported counts are the numbers of live inputs and the
  body's live slots are pairwise different.\<close>

theorem public_logic_conserves_value:
  assumes "tx_body_typed b" "validate_public_tx_logic perm b = Inr f"
  shows "unat (facts_input_sum f) = input_total b \<and> unat (facts_output_sum f) = output_total b \<and>
    input_total b = output_total b + unat (tx_fee b) \<and>
    n_live_inputs f = of_nat (length (live_inputs b)) \<and> live_inputs b \<noteq> [] \<and> slots_disjoint b"
proof -
  from assms(2) obtain n_in n_out i_sum o_sum where
    nc: "\<not> tx_is_coinbase b" and v: "validate_body_semantics_no_hash b = Inr ()"
    and s: "sums b = Inr (n_in, n_out, i_sum, o_sum)"
    and f: "f = \<lparr>tx_body_hash = txid perm b, fee_u64 = tx_fee b, n_live_inputs = n_in, n_live_outputs = n_out,
          facts_input_sum = i_sum, facts_output_sum = o_sum\<rparr>"
    by (auto simp: validate_public_tx_logic_def rbind_eq_Inr)
  from v have "canonical_body b" using validate_body_iff assms(1) by blast
  with nc s f show ?thesis
    by (simp add: canonical_body_def sums_eq_Inr live_input_count_length [OF assms(1)])
qed

theorem public_logic_conserves_value_witness:
  "\<exists>f. validate_public_tx_logic id sample_body = Inr f \<and> input_total sample_body = output_total sample_body + 3"
proof -
  have "\<not> tx_is_coinbase sample_body" by (simp add: sample_body_def)
  then obtain f where f: "validate_public_tx_logic id sample_body = Inr f"
    using sums_total [OF sample_body_typed] sample_body_accepted by (auto simp: validate_public_tx_logic_def)
  from public_logic_conserves_value [OF sample_body_typed f] show ?thesis
    using f by (simp add: sample_body_def)
qed

text \<open>C22: The sixteen leaves that the transaction id hashes bind the whole body: two
  bodies with the same leaves are equal in every field.\<close>

theorem body_hash_leaves_bind_body:
  "tx_body_typed b \<Longrightarrow> tx_body_typed c \<Longrightarrow> body_hash_leaves b = body_hash_leaves c \<longleftrightarrow> b = c"
  using body_hash_leaves_inj by blast

theorem body_hash_leaves_bind_body_witness:
  "body_hash_leaves sample_body \<noteq> body_hash_leaves (sample_body\<lparr>tx_fee := 4\<rparr>)"
proof -
  have "tx_body_typed (sample_body\<lparr>tx_fee := 4\<rparr>)"
    using sample_body_typed by (simp add: tx_body_typed_def)
  from body_hash_leaves_bind_body [OF sample_body_typed this] show ?thesis
    by (simp add: sample_body_def)
qed

end
