(* ===== verification/Wire.thy ===== *)
theory Wire
imports Codec Transaction
begin

section \<open>The canonical transaction wire format\<close>

text \<open>
  \<open>noid_tx/src/wire.rs\<close>: the 323-byte little-endian encoding of a body.  The
  encoder refuses (panics on) a body that is not canonical, which is the option
  \<open>None\<close> here; the decoder validates what it read.  Inputs, outputs and bodies are
  interpretations of the codec contract, so encoding and decoding are inverse to
  each other and every accepted byte string is the only encoding of its body.
\<close>

definition TX_INPUT_WIRE_SIZE :: nat where "TX_INPUT_WIRE_SIZE = 4 + 8 + 8"
definition TX_OUTPUT_WIRE_SIZE :: nat where "TX_OUTPUT_WIRE_SIZE = 4 + 8 + 32"
definition TX_BODY_WIRE_SIZE :: nat where
  "TX_BODY_WIRE_SIZE = 32 + 8 + 32 + TX_INPUTS * TX_INPUT_WIRE_SIZE + TX_OUTPUTS * TX_OUTPUT_WIRE_SIZE + 2 + 1"

datatype wire_error = Truncated | TrailingBytes | InvalidBool | BadMarker | NonCanonicalBody | LengthOverflow

definition encode_input :: "tx_input \<Rightarrow> bytes" where
  "encode_input i = le_bytes 4 (in_slot_index i) @ le_bytes 8 (in_amount i) @ le_bytes 8 (in_creation_id i)"

definition decode_input :: "(wire_error, tx_input) reader" where
  "decode_input bs =
     rbind (take_word Truncated 4 bs) (\<lambda>(slot, bs).
     rbind (take_word Truncated 8 bs) (\<lambda>(amount, bs).
     rbind (take_word Truncated 8 bs) (\<lambda>(creation_id, bs).
     Inr (\<lparr>in_slot_index = slot, in_amount = amount, in_creation_id = creation_id\<rparr>, bs))))"

definition encode_output :: "tx_output \<Rightarrow> bytes" where
  "encode_output out = le_bytes 4 (out_slot_index out) @ le_bytes 8 (out_amount out) @ le_bytes 32 (out_owner out)"

definition decode_output :: "(wire_error, tx_output) reader" where
  "decode_output bs =
     rbind (take_word Truncated 4 bs) (\<lambda>(slot, bs).
     rbind (take_word Truncated 8 bs) (\<lambda>(amount, bs).
     rbind (take_word Truncated 32 bs) (\<lambda>(owner, bs).
     Inr (\<lparr>out_slot_index = slot, out_amount = amount, out_owner = owner\<rparr>, bs))))"

text \<open>The field order that the body encoder and the page encoder share.\<close>

definition body_fields_bytes :: "tx_body \<Rightarrow> bytes" where
  "body_fields_bytes b =
     le_bytes 32 (tx_epoch_anchor b) @ le_bytes 8 (tx_fee b) @ le_bytes 32 (tx_input_owner b)
     @ concat (map encode_input (tx_inputs b)) @ concat (map encode_output (tx_outputs b))
     @ le_bytes 2 (tx_validity_bitmap b) @ bool_bytes (tx_is_coinbase b)"

definition read_body_fields :: "(wire_error, tx_body) reader" where
  "read_body_fields bs =
     rbind (take_word Truncated 32 bs) (\<lambda>(epoch_anchor, bs).
     rbind (take_word Truncated 8 bs) (\<lambda>(fee, bs).
     rbind (take_word Truncated 32 bs) (\<lambda>(input_owner, bs).
     rbind (decode_n decode_input TX_INPUTS bs) (\<lambda>(inputs, bs).
     rbind (decode_n decode_output TX_OUTPUTS bs) (\<lambda>(outputs, bs).
     rbind (take_word Truncated 2 bs) (\<lambda>(bitmap, bs).
     rbind (take_bool Truncated InvalidBool bs) (\<lambda>(coinbase, bs).
     Inr (\<lparr>tx_epoch_anchor = epoch_anchor, tx_fee = fee, tx_input_owner = input_owner, tx_inputs = inputs,
           tx_outputs = outputs, tx_validity_bitmap = bitmap, tx_is_coinbase = coinbase\<rparr>, bs))))))))"

definition tx_body_to_bytes :: "tx_body \<Rightarrow> bytes option" where
  "tx_body_to_bytes b =
     (if is_ok (validate_body_semantics_no_hash b) then Some (body_fields_bytes b) else None)"

definition tx_body_decode :: "(wire_error, tx_body) reader" where
  "tx_body_decode bs =
     rbind (read_body_fields bs) (\<lambda>(b, bs).
     if is_ok (validate_body_semantics_no_hash b) then Inr (b, bs) else Inl NonCanonicalBody)"

definition tx_body_from_bytes :: "bytes \<Rightarrow> wire_error + tx_body" where
  "tx_body_from_bytes bs = decode_all TrailingBytes tx_body_decode bs"

section \<open>Lemmas\<close>

interpretation input_codec: codec encode_input decode_input "\<lambda>_. True"
proof
  fix bs rest x
  show "decode_input bs = Inr (x, rest) \<longleftrightarrow> True \<and> bs = encode_input x @ rest"
    by (cases x) (auto simp: decode_input_def encode_input_def rbind_eq_Inr reader_iffs)
qed

interpretation output_codec: codec encode_output decode_output "\<lambda>_. True"
proof
  fix bs rest x
  show "decode_output bs = Inr (x, rest) \<longleftrightarrow> True \<and> bs = encode_output x @ rest"
    by (cases x) (auto simp: decode_output_def encode_output_def rbind_eq_Inr reader_iffs)
qed

lemma list_all_True: "list_all (\<lambda>_. True) xs"
  by (simp add: list_all_iff)

interpretation fields_codec: codec body_fields_bytes read_body_fields tx_body_typed
proof
  fix bs rest x
  show "read_body_fields bs = Inr (x, rest) \<longleftrightarrow> tx_body_typed x \<and> bs = body_fields_bytes x @ rest"
    by (cases x) (auto simp: read_body_fields_def body_fields_bytes_def rbind_eq_Inr reader_iffs
        input_codec.decode_n_iff output_codec.decode_n_iff tx_body_typed_def list_all_True)
qed

lemma length_encode_input [simp]: "length (encode_input i) = TX_INPUT_WIRE_SIZE"
  by (simp add: encode_input_def TX_INPUT_WIRE_SIZE_def)

lemma length_encode_output [simp]: "length (encode_output out) = TX_OUTPUT_WIRE_SIZE"
  by (simp add: encode_output_def TX_OUTPUT_WIRE_SIZE_def)

lemma length_concat_const: "(\<And>x. length (f x) = n) \<Longrightarrow> length (concat (map f xs)) = length xs * n"
  by (induction xs) simp_all

lemma length_body_fields_bytes:
  "tx_body_typed b \<Longrightarrow> length (body_fields_bytes b) = TX_BODY_WIRE_SIZE"
  by (simp add: body_fields_bytes_def tx_body_typed_def TX_BODY_WIRE_SIZE_def bool_bytes_def
      length_concat_const [OF length_encode_input] length_concat_const [OF length_encode_output])

interpretation body_codec: codec body_fields_bytes tx_body_decode "\<lambda>b. tx_body_typed b \<and> canonical_body b"
proof
  fix bs rest x
  show "tx_body_decode bs = Inr (x, rest) \<longleftrightarrow> (tx_body_typed x \<and> canonical_body x) \<and> bs = body_fields_bytes x @ rest"
    by (auto simp: tx_body_decode_def rbind_eq_Inr fields_codec.dec_iff is_ok_iff validate_body_iff [symmetric]
        split: prod.splits)
qed

section \<open>Properties\<close>

text \<open>C17: A byte string decodes to a body exactly when it is the 323-byte encoding of a
  canonical body; so decoding inverts encoding, no byte string other than the encoding
  is accepted for a body, and the encoder succeeds exactly on canonical bodies.\<close>

theorem tx_body_wire_roundtrip:
  "tx_body_from_bytes bs = Inr b \<longleftrightarrow>
     tx_body_typed b \<and> tx_body_to_bytes b = Some bs \<and> canonical_body b \<and> length bs = 323"
proof -
  have "tx_body_typed b \<and> canonical_body b \<longleftrightarrow> tx_body_typed b \<and> is_ok (validate_body_semantics_no_hash b)"
    by (auto simp: is_ok_iff validate_body_iff)
  then show ?thesis
    using length_body_fields_bytes [of b]
    by (auto simp: tx_body_from_bytes_def body_codec.decode_all_iff tx_body_to_bytes_def TX_BODY_WIRE_SIZE_def
        tx_const_defs TX_INPUT_WIRE_SIZE_def TX_OUTPUT_WIRE_SIZE_def)
qed

end
