(* ===== verification/PagedSpend.thy ===== *)
theory PagedSpend
imports Wire
begin

section \<open>Multi-page spends\<close>

text \<open>
  \<open>noid_tx/src/paged_spend.rs\<close>: pages of the fixed body format joined by start and
  end markers into one logical spend, its validation, its transaction id and the
  relay encoding of a spend with its authorization.  The validation scan is the
  code's: one pass over the pages with slot sets, counters, sums and gap flags in
  a record.  A hash set's iteration order is not specified, so the slot that the
  overlap error names is chosen by the argument \<open>pick\<close>.
\<close>

definition TAG_PAGED_SPEND :: domain_tag where "TAG_PAGED_SPEND = ascii ''PAGEDTX_''"
definition PAGED_SPEND_VERSION :: u16 where "PAGED_SPEND_VERSION = 1"
definition MAX_TX_AUTHORIZATION_BYTES :: nat where "MAX_TX_AUTHORIZATION_BYTES = 256 * 1024"
definition PAGED_SPEND_START_BIT :: u16 where "PAGED_SPEND_START_BIT = push_bit 10 1"
definition PAGED_SPEND_END_BIT :: u16 where "PAGED_SPEND_END_BIT = push_bit 11 1"
definition PAGED_SPEND_CONTRACT_BIT :: u16 where "PAGED_SPEND_CONTRACT_BIT = push_bit 12 1"
definition PAGED_SPEND_TERMINAL_BIT :: u16 where "PAGED_SPEND_TERMINAL_BIT = push_bit 13 1"
definition PAGED_SPEND_MARKER_MASK :: u16 where
  "PAGED_SPEND_MARKER_MASK = or PAGED_SPEND_START_BIT PAGED_SPEND_END_BIT"
definition PAGED_SPEND_V2_CONTRACT_MASK :: u16 where
  "PAGED_SPEND_V2_CONTRACT_MASK = or PAGED_SPEND_CONTRACT_BIT PAGED_SPEND_TERMINAL_BIT"
definition PAGED_SPEND_VALIDITY_MASK :: u16 where
  "PAGED_SPEND_VALIDITY_MASK = or TX_VALIDITY_MASK (or PAGED_SPEND_MARKER_MASK PAGED_SPEND_V2_CONTRACT_MASK)"

definition MAX_PAGED_SPEND_PAGES :: nat where "MAX_PAGED_SPEND_PAGES = 128"
definition MAX_PAGED_SPEND_INPUTS :: nat where "MAX_PAGED_SPEND_INPUTS = 1020"
definition MAX_PAGED_SPEND_OUTPUTS :: nat where "MAX_PAGED_SPEND_OUTPUTS = MAX_PAGED_SPEND_PAGES * TX_OUTPUTS"
definition PAGED_SPEND_INTENT_MARKER :: u8 where "PAGED_SPEND_INTENT_MARKER = 0xA3"
definition PAGED_SPEND_INTENT_FIXED_OVERHEAD :: nat where "PAGED_SPEND_INTENT_FIXED_OVERHEAD = 1 + 2 + 4"
definition MAX_PAGED_SPEND_INTENT_BYTES :: nat where
  "MAX_PAGED_SPEND_INTENT_BYTES =
     PAGED_SPEND_INTENT_FIXED_OVERHEAD + MAX_PAGED_SPEND_PAGES * TX_BODY_WIRE_SIZE + MAX_TX_AUTHORIZATION_BYTES"

text \<open>A page is its body.\<close>

type_synonym tx_page = tx_body

definition is_start :: "tx_page \<Rightarrow> bool" where
  "is_start p \<longleftrightarrow> and (tx_validity_bitmap p) PAGED_SPEND_START_BIT \<noteq> 0"

definition is_end :: "tx_page \<Rightarrow> bool" where
  "is_end p \<longleftrightarrow> and (tx_validity_bitmap p) PAGED_SPEND_END_BIT \<noteq> 0"

definition page_hash :: "permutation \<Rightarrow> tx_page \<Rightarrow> digest" where
  "page_hash perm p = txid perm p"

record paged_spend_facts =
  ps_logical_txid :: digest
  ps_input_owner :: address
  ps_epoch_anchor :: digest
  ps_fee :: u64
  ps_live_inputs :: u16
  ps_live_outputs :: u16
  ps_input_sum :: u128
  ps_output_sum :: u128

record paged_spend_intent =
  psi_pages :: "tx_page list"
  psi_authorization_bytes :: bytes

datatype paged_spend_error =
    PS_Wire wire_error
  | PS_PageCount nat
  | PS_ReservedBitmapBits nat u16
  | PS_CoinbasePage nat
  | PS_DeadInputNotZero nat nat
  | PS_DeadOutputNotZero nat nat
  | PS_MissingStart
  | PS_UnexpectedStart nat
  | PS_MissingEnd
  | PS_UnexpectedEnd nat
  | PS_OwnerMismatch nat
  | PS_EpochMismatch nat
  | PS_ContinuationFee nat
  | PS_SparseInputs nat nat
  | PS_SparseOutputs nat nat
  | PS_NoLiveInputs
  | PS_TooManyInputs nat
  | PS_TooManyOutputs nat
  | PS_NonMinimalPageCount nat nat
  | PS_DuplicateInputSlot u32
  | PS_DuplicateOutputSlot u32
  | PS_InputOutputSlotOverlap u32
  | PS_InputSumOverflow
  | PS_OutputSumOverflow
  | PS_OutputPlusFeeOverflow
  | PS_BalanceMismatch u128 u128 u64
  | PS_AuthorizationTooLarge nat
  | PS_IntentTooLarge nat

subsection \<open>Shape of one page\<close>

definition validate_page_count :: "nat \<Rightarrow> paged_spend_error + unit" where
  "validate_page_count n = ensure (1 \<le> n \<and> n \<le> MAX_PAGED_SPEND_PAGES) (PS_PageCount n)"

definition validate_page_shape :: "tx_body \<Rightarrow> nat \<Rightarrow> paged_spend_error + unit" where
  "validate_page_shape b page =
     rbind (ensure (and (tx_validity_bitmap b) (not PAGED_SPEND_VALIDITY_MASK) = 0)
              (PS_ReservedBitmapBits page (tx_validity_bitmap b))) (\<lambda>_.
     rbind (ensure (\<not> tx_is_coinbase b) (PS_CoinbasePage page)) (\<lambda>_.
     rbind (for_each (\<lambda>(slot, i). ensure (input_is_live b slot \<or> i = dummy_input) (PS_DeadInputNotZero page slot))
              (enumerate 0 (tx_inputs b))) (\<lambda>_.
     for_each (\<lambda>(slot, out). ensure (output_is_live b slot \<or> out = dummy_output) (PS_DeadOutputNotZero page slot))
       (enumerate 0 (tx_outputs b)))))"

definition tx_page_new :: "tx_body \<Rightarrow> paged_spend_error + tx_page" where
  "tx_page_new b = rbind (validate_page_shape b 0) (\<lambda>_. Inr b)"

subsection \<open>The logical transaction id\<close>

definition absorb_page :: "permutation \<Rightarrow> sponge \<Rightarrow> tx_page \<Rightarrow> sponge" where
  "absorb_page perm s p = absorb_pair perm (lo_half (page_hash perm p)) (hi_half (page_hash perm p)) s"

definition hash_paged_spend_unchecked :: "permutation \<Rightarrow> tx_page list \<Rightarrow> digest" where
  "hash_paged_spend_unchecked perm pages =
     (let s = with_iv (capacity_iv TAG_PAGED_SPEND);
          s = absorb_pair perm (ucast PAGED_SPEND_VERSION) (of_nat (length pages)) s
      in finalize perm (foldl (absorb_page perm) s pages))"

subsection \<open>Group validation\<close>

record scan =
  sc_input_slots :: "u32 set"
  sc_output_slots :: "u32 set"
  sc_live_inputs :: nat
  sc_live_outputs :: nat
  sc_input_sum :: u128
  sc_output_sum :: u128
  sc_input_gap :: bool
  sc_output_gap :: bool

definition scan_start :: scan where
  "scan_start = \<lparr>sc_input_slots = {}, sc_output_slots = {}, sc_live_inputs = 0, sc_live_outputs = 0,
     sc_input_sum = 0, sc_output_sum = 0, sc_input_gap = False, sc_output_gap = False\<rparr>"

definition scan_input :: "nat \<Rightarrow> tx_page \<Rightarrow> scan \<Rightarrow> nat \<times> tx_input \<Rightarrow> paged_spend_error + scan" where
  "scan_input page_index page s = (\<lambda>(slot, i).
     if input_is_live page slot then
       rbind (ensure (\<not> sc_input_gap s) (PS_SparseInputs page_index slot)) (\<lambda>_.
       let live = sc_live_inputs s + 1 in
       rbind (ensure (live \<le> MAX_PAGED_SPEND_INPUTS) (PS_TooManyInputs live)) (\<lambda>_.
       rbind (ensure (in_slot_index i \<notin> sc_input_slots s) (PS_DuplicateInputSlot (in_slot_index i))) (\<lambda>_.
       rbind (ok_or PS_InputSumOverflow (checked_add (sc_input_sum s) (widen (in_amount i)))) (\<lambda>sum.
       Inr (s\<lparr>sc_live_inputs := live, sc_input_slots := insert (in_slot_index i) (sc_input_slots s),
              sc_input_sum := sum\<rparr>)))))
     else Inr (s\<lparr>sc_input_gap := True\<rparr>))"

definition scan_output :: "nat \<Rightarrow> tx_page \<Rightarrow> scan \<Rightarrow> nat \<times> tx_output \<Rightarrow> paged_spend_error + scan" where
  "scan_output page_index page s = (\<lambda>(slot, out).
     if output_is_live page slot then
       rbind (ensure (\<not> sc_output_gap s) (PS_SparseOutputs page_index slot)) (\<lambda>_.
       let live = sc_live_outputs s + 1 in
       rbind (ensure (live \<le> MAX_PAGED_SPEND_OUTPUTS) (PS_TooManyOutputs live)) (\<lambda>_.
       rbind (ensure (out_slot_index out \<notin> sc_output_slots s) (PS_DuplicateOutputSlot (out_slot_index out))) (\<lambda>_.
       rbind (ok_or PS_OutputSumOverflow (checked_add (sc_output_sum s) (widen (out_amount out)))) (\<lambda>sum.
       Inr (s\<lparr>sc_live_outputs := live, sc_output_slots := insert (out_slot_index out) (sc_output_slots s),
              sc_output_sum := sum\<rparr>)))))
     else Inr (s\<lparr>sc_output_gap := True\<rparr>))"

definition scan_page :: "scan \<Rightarrow> nat \<times> tx_page \<Rightarrow> paged_spend_error + scan" where
  "scan_page s = (\<lambda>(page_index, page).
     rbind (rfold (scan_input page_index page) s (enumerate 0 (tx_inputs page))) (\<lambda>s.
     rfold (scan_output page_index page) s (enumerate 0 (tx_outputs page))))"

definition check_page_links :: "tx_page list \<Rightarrow> nat \<times> tx_page \<Rightarrow> paged_spend_error + unit" where
  "check_page_links pages = (\<lambda>(page_index, page).
     rbind (ensure (\<not> (page_index \<noteq> 0 \<and> is_start page)) (PS_UnexpectedStart page_index)) (\<lambda>_.
     rbind (ensure (\<not> (page_index + 1 \<noteq> length pages \<and> is_end page)) (PS_UnexpectedEnd page_index)) (\<lambda>_.
     rbind (ensure (tx_input_owner page = tx_input_owner (pages ! 0)) (PS_OwnerMismatch page_index)) (\<lambda>_.
     rbind (ensure (tx_epoch_anchor page = tx_epoch_anchor (pages ! 0)) (PS_EpochMismatch page_index)) (\<lambda>_.
     ensure (\<not> (page_index \<noteq> 0 \<and> tx_fee page \<noteq> 0)) (PS_ContinuationFee page_index))))))"

definition required_pages :: "nat \<Rightarrow> nat \<Rightarrow> nat" where
  "required_pages live_in live_out =
     max (max 1 ((live_in + TX_INPUTS - 1) div TX_INPUTS)) ((live_out + TX_OUTPUTS - 1) div TX_OUTPUTS)"

definition validate_paged_spend ::
  "permutation \<Rightarrow> (u32 set \<Rightarrow> u32) \<Rightarrow> tx_page list \<Rightarrow> paged_spend_error + paged_spend_facts" where
  "validate_paged_spend perm pick pages =
     rbind (validate_page_count (length pages)) (\<lambda>_.
     rbind (for_each (\<lambda>(page_index, page). validate_page_shape page page_index) (enumerate 0 pages)) (\<lambda>_.
     rbind (ensure (is_start (pages ! 0)) PS_MissingStart) (\<lambda>_.
     rbind (ensure (is_end (pages ! (length pages - 1))) PS_MissingEnd) (\<lambda>_.
     rbind (for_each (check_page_links pages) (enumerate 0 pages)) (\<lambda>_.
     rbind (rfold scan_page scan_start (enumerate 0 pages)) (\<lambda>s.
     rbind (ensure (sc_live_inputs s \<noteq> 0) PS_NoLiveInputs) (\<lambda>_.
     rbind (ensure (sc_input_slots s \<inter> sc_output_slots s = {})
              (PS_InputOutputSlotOverlap (pick (sc_input_slots s \<inter> sc_output_slots s)))) (\<lambda>_.
     let needed = required_pages (sc_live_inputs s) (sc_live_outputs s) in
     rbind (ensure (length pages = needed) (PS_NonMinimalPageCount (length pages) needed)) (\<lambda>_.
     let fee = tx_fee (pages ! 0) in
     rbind (ok_or PS_OutputPlusFeeOverflow (checked_add (sc_output_sum s) (widen fee))) (\<lambda>expected.
     rbind (ensure (sc_input_sum s = expected) (PS_BalanceMismatch (sc_input_sum s) (sc_output_sum s) fee)) (\<lambda>_.
     Inr \<lparr>ps_logical_txid = hash_paged_spend_unchecked perm pages,
          ps_input_owner = tx_input_owner (pages ! 0), ps_epoch_anchor = tx_epoch_anchor (pages ! 0),
          ps_fee = fee, ps_live_inputs = of_nat (sc_live_inputs s), ps_live_outputs = of_nat (sc_live_outputs s),
          ps_input_sum = sc_input_sum s, ps_output_sum = sc_output_sum s\<rparr>)))))))))))"

definition hash_paged_spend ::
  "permutation \<Rightarrow> (u32 set \<Rightarrow> u32) \<Rightarrow> tx_page list \<Rightarrow> paged_spend_error + digest" where
  "hash_paged_spend perm pick pages =
     rbind (validate_paged_spend perm pick pages) (\<lambda>_. Inr (hash_paged_spend_unchecked perm pages))"

subsection \<open>Relay encoding\<close>

text \<open>\<open>wire\<close> maps the errors of the body readers into \<open>PagedSpendError::Wire\<close>.\<close>

definition wire :: "wire_error + 'a \<Rightarrow> paged_spend_error + 'a" where
  "wire r = (case r of Inl e \<Rightarrow> Inl (PS_Wire e) | Inr x \<Rightarrow> Inr x)"

definition encode_page_body :: "tx_body \<Rightarrow> bytes" where
  "encode_page_body b = body_fields_bytes b"

definition decode_page_body :: "(paged_spend_error, tx_body) reader" where
  "decode_page_body bs = wire (read_body_fields bs)"

definition encode_page :: "tx_page \<Rightarrow> paged_spend_error + bytes" where
  "encode_page p = rbind (validate_page_shape p 0) (\<lambda>_. Inr (encode_page_body p))"

definition decode_page :: "(paged_spend_error, tx_page) reader" where
  "decode_page bs = rbind (decode_page_body bs) (\<lambda>(b, rest). rbind (tx_page_new b) (\<lambda>p. Inr (p, rest)))"

definition page_from_bytes :: "bytes \<Rightarrow> paged_spend_error + tx_page" where
  "page_from_bytes bs =
     (if length bs \<noteq> TX_BODY_WIRE_SIZE
      then Inl (PS_Wire (if length bs < TX_BODY_WIRE_SIZE then Truncated else TrailingBytes))
      else rbind (decode_page bs) (\<lambda>(p, _). Inr p))"

definition intent_new ::
  "permutation \<Rightarrow> (u32 set \<Rightarrow> u32) \<Rightarrow> tx_page list \<Rightarrow> bytes \<Rightarrow> paged_spend_error + paged_spend_intent" where
  "intent_new perm pick pages auth =
     rbind (validate_paged_spend perm pick pages) (\<lambda>_.
     rbind (ensure (length auth \<le> MAX_TX_AUTHORIZATION_BYTES) (PS_AuthorizationTooLarge (length auth))) (\<lambda>_.
     Inr \<lparr>psi_pages = pages, psi_authorization_bytes = auth\<rparr>))"

definition intent_to_bytes ::
  "permutation \<Rightarrow> (u32 set \<Rightarrow> u32) \<Rightarrow> paged_spend_intent \<Rightarrow> paged_spend_error + bytes" where
  "intent_to_bytes perm pick x =
     rbind (validate_paged_spend perm pick (psi_pages x)) (\<lambda>_.
     rbind (ensure (length (psi_authorization_bytes x) \<le> MAX_TX_AUTHORIZATION_BYTES)
              (PS_AuthorizationTooLarge (length (psi_authorization_bytes x)))) (\<lambda>_.
     rbind (rmap encode_page (psi_pages x)) (\<lambda>encoded.
     rbind (ensure (length (psi_authorization_bytes x) < 2 ^ 32) (PS_Wire LengthOverflow)) (\<lambda>_.
     Inr ([PAGED_SPEND_INTENT_MARKER] @ le_bytes 2 (of_nat (length (psi_pages x)) :: u16) @ concat encoded
          @ le_bytes 4 (of_nat (length (psi_authorization_bytes x)) :: u32) @ psi_authorization_bytes x)))))"

definition intent_decode ::
  "permutation \<Rightarrow> (u32 set \<Rightarrow> u32) \<Rightarrow> (paged_spend_error, paged_spend_intent) reader" where
  "intent_decode perm pick bs =
     rbind (take_len (PS_Wire Truncated) 1 bs) (\<lambda>(marker, bs).
     rbind (ensure (marker ! 0 = PAGED_SPEND_INTENT_MARKER) (PS_Wire BadMarker)) (\<lambda>_.
     rbind (take_word (PS_Wire Truncated) 2 bs) (\<lambda>(n_pages :: u16, bs).
     rbind (validate_page_count (unat n_pages)) (\<lambda>_.
     rbind (ensure (unat n_pages * TX_BODY_WIRE_SIZE \<le> length bs) (PS_Wire Truncated)) (\<lambda>_.
     rbind (decode_n decode_page (unat n_pages) bs) (\<lambda>(pages, bs).
     rbind (take_word (PS_Wire Truncated) 4 bs) (\<lambda>(auth_len :: u32, bs).
     rbind (ensure (unat auth_len \<le> MAX_TX_AUTHORIZATION_BYTES) (PS_AuthorizationTooLarge (unat auth_len))) (\<lambda>_.
     rbind (take_len (PS_Wire Truncated) (unat auth_len) bs) (\<lambda>(auth, bs).
     rbind (intent_new perm pick pages auth) (\<lambda>x. Inr (x, bs)))))))))))"

definition intent_from_bytes ::
  "permutation \<Rightarrow> (u32 set \<Rightarrow> u32) \<Rightarrow> bytes \<Rightarrow> paged_spend_error + paged_spend_intent" where
  "intent_from_bytes perm pick bs =
     rbind (ensure (length bs \<le> MAX_PAGED_SPEND_INTENT_BYTES) (PS_IntentTooLarge (length bs))) (\<lambda>_.
     decode_all (PS_Wire TrailingBytes) (intent_decode perm pick) bs)"

definition authorization_wire_offset :: "nat \<Rightarrow> paged_spend_error + nat" where
  "authorization_wire_offset page_count =
     rbind (validate_page_count page_count) (\<lambda>_. Inr (1 + 2 + page_count * TX_BODY_WIRE_SIZE + 4))"

subsection \<open>Reference notions\<close>

definition group_inputs :: "tx_page list \<Rightarrow> tx_input list" where
  "group_inputs pages = concat (map (\<lambda>p. map snd (live_inputs p)) pages)"

definition group_outputs :: "tx_page list \<Rightarrow> tx_output list" where
  "group_outputs pages = concat (map (\<lambda>p. map snd (live_outputs p)) pages)"

definition input_flags :: "tx_page list \<Rightarrow> bool list" where
  "input_flags pages = concat (map (\<lambda>p. map (input_is_live p) [0..<length (tx_inputs p)]) pages)"

definition output_flags :: "tx_page list \<Rightarrow> bool list" where
  "output_flags pages = concat (map (\<lambda>p. map (output_is_live p) [0..<length (tx_outputs p)]) pages)"

text \<open>Live records come first: no dead record before a live one.\<close>

definition dense :: "bool list \<Rightarrow> bool" where
  "dense flags \<longleftrightarrow> (\<exists>n m. flags = replicate n True @ replicate m False)"

subsection \<open>Scan invariants and sample data\<close>

definition in_inv :: "tx_input list \<Rightarrow> bool list \<Rightarrow> scan \<Rightarrow> bool" where
  "in_inv ins flags s \<longleftrightarrow>
     sc_input_slots s = in_slot_index ` set ins \<and> distinct (map in_slot_index ins) \<and>
     sc_live_inputs s = length ins \<and> length ins \<le> MAX_PAGED_SPEND_INPUTS \<and>
     unat (sc_input_sum s) = (\<Sum>i\<leftarrow>ins. unat (in_amount i)) \<and>
     (sc_input_gap s \<longleftrightarrow> False \<in> set flags) \<and> dense flags"

definition out_inv :: "tx_output list \<Rightarrow> bool list \<Rightarrow> scan \<Rightarrow> bool" where
  "out_inv outs flags s \<longleftrightarrow>
     sc_output_slots s = out_slot_index ` set outs \<and> distinct (map out_slot_index outs) \<and>
     sc_live_outputs s = length outs \<and> length outs \<le> MAX_PAGED_SPEND_OUTPUTS \<and>
     unat (sc_output_sum s) = (\<Sum>out\<leftarrow>outs. unat (out_amount out)) \<and>
     (sc_output_gap s \<longleftrightarrow> False \<in> set flags) \<and> dense flags"

definition intent_bytes :: "paged_spend_intent \<Rightarrow> bytes" where
  "intent_bytes x =
     [PAGED_SPEND_INTENT_MARKER] @ le_bytes 2 (of_nat (length (psi_pages x)) :: u16)
     @ concat (map encode_page_body (psi_pages x))
     @ le_bytes 4 (of_nat (length (psi_authorization_bytes x)) :: u32) @ psi_authorization_bytes x"

definition intent_valid :: "permutation \<Rightarrow> (u32 set \<Rightarrow> u32) \<Rightarrow> paged_spend_intent \<Rightarrow> bool" where
  "intent_valid perm pick x \<longleftrightarrow>
     (\<forall>p \<in> set (psi_pages x). tx_body_typed p) \<and> is_ok (validate_paged_spend perm pick (psi_pages x)) \<and>
     length (psi_authorization_bytes x) \<le> MAX_TX_AUTHORIZATION_BYTES"

definition sample_page :: tx_page where
  "sample_page = sample_body\<lparr>tx_validity_bitmap := 0xd01\<rparr>"

section \<open>Lemmas\<close>

subsection \<open>The validation scan\<close>

lemma dense_Nil [simp]: "dense []"
  unfolding dense_def by (rule exI [of _ 0], rule exI [of _ 0]) simp

lemma dense_snoc_False: "dense flags \<Longrightarrow> dense (flags @ [False])"
proof -
  assume "dense flags"
  then obtain n m where "flags = replicate n True @ replicate m False" by (auto simp: dense_def)
  then have "flags @ [False] = replicate n True @ replicate (Suc m) False"
    by (simp add: replicate_append_same)
  then show ?thesis unfolding dense_def by blast
qed

lemma dense_snoc_True: "False \<notin> set flags \<Longrightarrow> dense (flags @ [True])"
proof -
  assume "False \<notin> set flags"
  then have "\<And>y. y \<in> set flags \<Longrightarrow> y = True" by (metis (full_types))
  then have "flags = replicate (length flags) True" by (rule replicate_eqI [OF refl])
  then have "flags @ [True] = replicate (Suc (length flags)) True @ replicate 0 False"
    by (metis append_Nil2 replicate_0 replicate_Suc replicate_append_same)
  then show ?thesis unfolding dense_def by blast
qed

lemma scan_input_inv:
  assumes "in_inv ins flags s" "scan_input k page s (slot, i) = Inr t"
  shows "in_inv (ins @ (if input_is_live page slot then [i] else [])) (flags @ [input_is_live page slot]) t"
proof (cases "input_is_live page slot")
  case True
  then obtain sum where "\<not> sc_input_gap s" "sc_live_inputs s + 1 \<le> MAX_PAGED_SPEND_INPUTS"
    "in_slot_index i \<notin> sc_input_slots s" "unat sum = unat (sc_input_sum s) + unat (in_amount i)"
    and t: "t = s\<lparr>sc_live_inputs := sc_live_inputs s + 1,
      sc_input_slots := insert (in_slot_index i) (sc_input_slots s), sc_input_sum := sum\<rparr>"
    using assms(2) by (auto simp: scan_input_def Let_def rbind_eq_Inr result_simps)
  then show ?thesis
    using assms(1) True by (auto simp: in_inv_def dense_snoc_True)
next
  case False
  then show ?thesis using assms by (auto simp: scan_input_def in_inv_def dense_snoc_False)
qed

lemma scan_output_inv:
  assumes "out_inv outs flags s" "scan_output k page s (slot, out) = Inr t"
  shows "out_inv (outs @ (if output_is_live page slot then [out] else [])) (flags @ [output_is_live page slot]) t"
proof (cases "output_is_live page slot")
  case True
  then obtain sum where "\<not> sc_output_gap s" "sc_live_outputs s + 1 \<le> MAX_PAGED_SPEND_OUTPUTS"
    "out_slot_index out \<notin> sc_output_slots s" "unat sum = unat (sc_output_sum s) + unat (out_amount out)"
    and t: "t = s\<lparr>sc_live_outputs := sc_live_outputs s + 1,
      sc_output_slots := insert (out_slot_index out) (sc_output_slots s), sc_output_sum := sum\<rparr>"
    using assms(2) by (auto simp: scan_output_def Let_def rbind_eq_Inr result_simps)
  then show ?thesis
    using assms(1) True by (auto simp: out_inv_def dense_snoc_True)
next
  case False
  then show ?thesis using assms by (auto simp: scan_output_def out_inv_def dense_snoc_False)
qed

lemma scan_input_frame: "scan_input k page s x = Inr t \<Longrightarrow> out_inv outs flags s \<Longrightarrow> out_inv outs flags t"
  by (auto simp: scan_input_def out_inv_def Let_def rbind_eq_Inr split: prod.splits if_splits)

lemma scan_output_frame: "scan_output k page s x = Inr t \<Longrightarrow> in_inv ins flags s \<Longrightarrow> in_inv ins flags t"
  by (auto simp: scan_output_def in_inv_def Let_def rbind_eq_Inr split: prod.splits if_splits)

lemma map_fst_enumerate_0: "map (f \<circ> fst) (enumerate 0 xs) = map f [0..<length xs]"
  by (simp flip: map_map)

lemma scan_inputs_inv:
  assumes "rfold (scan_input k page) s (enumerate 0 (tx_inputs page)) = Inr t" "in_inv ins fi s" "out_inv outs fo s"
  shows "in_inv (ins @ map snd (live_inputs page)) (fi @ map (input_is_live page) [0..<length (tx_inputs page)]) t
    \<and> out_inv outs fo t"
proof -
  have "in_inv (ins @ map snd (filter (\<lambda>(slot, _). input_is_live page slot) (enumerate 0 (tx_inputs page))))
      (fi @ map (input_is_live page \<circ> fst) (enumerate 0 (tx_inputs page))) t \<and> out_inv outs fo t"
  proof (rule rfold_prefix_invariant [OF assms(1), where I =
        "\<lambda>pre s. in_inv (ins @ map snd (filter (\<lambda>(slot, _). input_is_live page slot) pre))
           (fi @ map (input_is_live page \<circ> fst) pre) s \<and> out_inv outs fo s"])
    fix pre x post s t
    assume I: "in_inv (ins @ map snd (filter (\<lambda>(slot, _). input_is_live page slot) pre))
        (fi @ map (input_is_live page \<circ> fst) pre) s \<and> out_inv outs fo s"
      and step: "scan_input k page s x = Inr t"
    obtain slot i where x: "x = (slot, i)" by fastforce
    show "in_inv (ins @ map snd (filter (\<lambda>(slot, _). input_is_live page slot) (pre @ [x])))
        (fi @ map (input_is_live page \<circ> fst) (pre @ [x])) t \<and> out_inv outs fo t"
      using scan_input_inv [OF _ step [unfolded x]] I scan_input_frame [OF step] x
      by (cases "input_is_live page slot") (fastforce simp: x)+
  qed (use assms in simp)
  then show ?thesis by (simp add: live_inputs_def map_fst_enumerate_0)
qed

lemma scan_outputs_inv:
  assumes "rfold (scan_output k page) s (enumerate 0 (tx_outputs page)) = Inr t" "in_inv ins fi s" "out_inv outs fo s"
  shows "in_inv ins fi t \<and>
    out_inv (outs @ map snd (live_outputs page)) (fo @ map (output_is_live page) [0..<length (tx_outputs page)]) t"
proof -
  have "in_inv ins fi t \<and> out_inv (outs @ map snd (filter (\<lambda>(slot, _). output_is_live page slot) (enumerate 0 (tx_outputs page))))
      (fo @ map (output_is_live page \<circ> fst) (enumerate 0 (tx_outputs page))) t"
  proof (rule rfold_prefix_invariant [OF assms(1), where I =
        "\<lambda>pre s. in_inv ins fi s \<and> out_inv (outs @ map snd (filter (\<lambda>(slot, _). output_is_live page slot) pre))
           (fo @ map (output_is_live page \<circ> fst) pre) s"])
    fix pre x post s t
    assume I: "in_inv ins fi s \<and> out_inv (outs @ map snd (filter (\<lambda>(slot, _). output_is_live page slot) pre))
        (fo @ map (output_is_live page \<circ> fst) pre) s"
      and step: "scan_output k page s x = Inr t"
    obtain slot i where x: "x = (slot, i)" by fastforce
    show "in_inv ins fi t \<and> out_inv (outs @ map snd (filter (\<lambda>(slot, _). output_is_live page slot) (pre @ [x])))
        (fo @ map (output_is_live page \<circ> fst) (pre @ [x])) t"
      using scan_output_inv [OF _ step [unfolded x]] I scan_output_frame [OF step] x
      by (cases "output_is_live page slot") (fastforce simp: x)+
  qed (use assms in simp)
  then show ?thesis by (simp add: live_outputs_def map_fst_enumerate_0)
qed

lemma scan_pages_inv:
  assumes "rfold scan_page scan_start (enumerate 0 pages) = Inr t"
  shows "in_inv (group_inputs pages) (input_flags pages) t \<and> out_inv (group_outputs pages) (output_flags pages) t"
proof -
  have "in_inv (group_inputs (map snd (enumerate 0 pages))) (input_flags (map snd (enumerate 0 pages))) t \<and>
      out_inv (group_outputs (map snd (enumerate 0 pages))) (output_flags (map snd (enumerate 0 pages))) t"
  proof (rule rfold_prefix_invariant [OF assms, where I =
        "\<lambda>pre s. in_inv (group_inputs (map snd pre)) (input_flags (map snd pre)) s \<and>
           out_inv (group_outputs (map snd pre)) (output_flags (map snd pre)) s"])
    fix pre post :: "(nat \<times> tx_page) list" and x s t
    assume I: "in_inv (group_inputs (map snd pre)) (input_flags (map snd pre)) s \<and>
           out_inv (group_outputs (map snd pre)) (output_flags (map snd pre)) s"
      and step: "scan_page s x = Inr t"
    obtain k page where x: "x = (k, page)" by fastforce
    from step obtain u where u: "rfold (scan_input k page) s (enumerate 0 (tx_inputs page)) = Inr u"
      "rfold (scan_output k page) u (enumerate 0 (tx_outputs page)) = Inr t"
      by (auto simp: scan_page_def x rbind_eq_Inr)
    note mid = scan_inputs_inv [OF u(1) conjunct1 [OF I] conjunct2 [OF I]]
    show "in_inv (group_inputs (map snd (pre @ [x]))) (input_flags (map snd (pre @ [x]))) t \<and>
           out_inv (group_outputs (map snd (pre @ [x]))) (output_flags (map snd (pre @ [x]))) t"
      using scan_outputs_inv [OF u(2)] conjunct1 [OF mid] conjunct2 [OF mid]
      by (simp add: x group_inputs_def group_outputs_def input_flags_def output_flags_def)
  qed (simp add: in_inv_def out_inv_def scan_start_def group_inputs_def group_outputs_def input_flags_def output_flags_def)
  then show ?thesis by simp
qed


lemma page_shape_index: "validate_page_shape b k = Inr () \<longleftrightarrow> validate_page_shape b 0 = Inr ()"
  by (simp add: validate_page_shape_def rbind_unit_eq_Inr for_each_enumerate)

lemma for_each_pages:
  "for_each (\<lambda>(k, p). validate_page_shape p k) (enumerate 0 pages) = Inr () \<longleftrightarrow>
     (\<forall>p \<in> set pages. validate_page_shape p 0 = Inr ())"
proof -
  have "for_each (\<lambda>(k, p). validate_page_shape p k) (enumerate 0 pages) = Inr () \<longleftrightarrow>
      (\<forall>k < length pages. validate_page_shape (pages ! k) k = Inr ())"
    by (auto simp: for_each_eq_Inr set_enumerate_image)
  also have "\<dots> \<longleftrightarrow> (\<forall>k < length pages. validate_page_shape (pages ! k) 0 = Inr ())"
    using page_shape_index by blast
  finally show ?thesis by (simp add: all_set_conv_all_nth)
qed

lemma check_page_links_iff:
  "for_each (check_page_links pages) (enumerate 0 pages) = Inr () \<longleftrightarrow>
     (\<forall>k < length pages. (k \<noteq> 0 \<longrightarrow> \<not> is_start (pages ! k)) \<and> (k + 1 \<noteq> length pages \<longrightarrow> \<not> is_end (pages ! k)) \<and>
        tx_input_owner (pages ! k) = tx_input_owner (pages ! 0) \<and>
        tx_epoch_anchor (pages ! k) = tx_epoch_anchor (pages ! 0) \<and> (k \<noteq> 0 \<longrightarrow> tx_fee (pages ! k) = 0))"
  by (simp add: for_each_eq_Inr set_enumerate_image check_page_links_def rbind_unit_eq_Inr Ball_def) blast

lemma validate_paged_spend_cases:
  assumes "validate_paged_spend perm pick pages = Inr f"
  obtains s where
    "1 \<le> length pages" "length pages \<le> MAX_PAGED_SPEND_PAGES"
    "\<And>p. p \<in> set pages \<Longrightarrow> validate_page_shape p 0 = Inr ()"
    "is_start (pages ! 0)" "is_end (pages ! (length pages - 1))"
    "for_each (check_page_links pages) (enumerate 0 pages) = Inr ()"
    "rfold scan_page scan_start (enumerate 0 pages) = Inr s"
    "sc_live_inputs s \<noteq> 0" "sc_input_slots s \<inter> sc_output_slots s = {}"
    "length pages = required_pages (sc_live_inputs s) (sc_live_outputs s)"
    "unat (sc_input_sum s) = unat (sc_output_sum s) + unat (tx_fee (pages ! 0))"
    "f = \<lparr>ps_logical_txid = hash_paged_spend_unchecked perm pages,
          ps_input_owner = tx_input_owner (pages ! 0), ps_epoch_anchor = tx_epoch_anchor (pages ! 0),
          ps_fee = tx_fee (pages ! 0), ps_live_inputs = of_nat (sc_live_inputs s), ps_live_outputs = of_nat (sc_live_outputs s),
          ps_input_sum = sc_input_sum s, ps_output_sum = sc_output_sum s\<rparr>"
proof -
  from assms obtain s where
    a: "validate_page_count (length pages) = Inr ()"
      "for_each (\<lambda>(k, p). validate_page_shape p k) (enumerate 0 pages) = Inr ()"
      "is_start (pages ! 0)" "is_end (pages ! (length pages - 1))"
      "for_each (check_page_links pages) (enumerate 0 pages) = Inr ()"
      "rfold scan_page scan_start (enumerate 0 pages) = Inr s"
      "sc_live_inputs s \<noteq> 0" "sc_input_slots s \<inter> sc_output_slots s = {}"
      "length pages = required_pages (sc_live_inputs s) (sc_live_outputs s)"
      "checked_add (sc_output_sum s) (widen (tx_fee (pages ! 0))) = Some (sc_input_sum s)"
      "f = \<lparr>ps_logical_txid = hash_paged_spend_unchecked perm pages,
          ps_input_owner = tx_input_owner (pages ! 0), ps_epoch_anchor = tx_epoch_anchor (pages ! 0),
          ps_fee = tx_fee (pages ! 0), ps_live_inputs = of_nat (sc_live_inputs s), ps_live_outputs = of_nat (sc_live_outputs s),
          ps_input_sum = sc_input_sum s, ps_output_sum = sc_output_sum s\<rparr>"
    unfolding validate_paged_spend_def Let_def rbind_eq_Inr ensure_eq_Inr ok_or_eq_Inr by auto
  show ?thesis
    by (rule that [of s]) (use a in \<open>auto simp: validate_page_count_def for_each_pages checked_add_eq_Some\<close>)
qed

lemma group_fee_total:
  assumes "\<forall>k < length pages. k \<noteq> 0 \<longrightarrow> tx_fee (pages ! k) = 0" "pages \<noteq> []"
  shows "(\<Sum>p\<leftarrow>pages. unat (tx_fee p)) = unat (tx_fee (pages ! 0))"
proof (cases pages)
  case (Cons p ps)
  have "tx_fee (ps ! i) = 0" if "i < length ps" for i
    using assms(1) Cons that by (auto dest: spec [of _ "Suc i"])
  then have "\<forall>q \<in> set ps. tx_fee q = 0" by (simp add: all_set_conv_all_nth)
  then have "(\<Sum>q\<leftarrow>ps. unat (tx_fee q)) = 0" by (induction ps) auto
  then show ?thesis using Cons by simp
qed (use assms in simp)

subsection \<open>Relay encoding\<close>

lemma wire_eq_Inr [simp]: "wire r = Inr x \<longleftrightarrow> r = Inr x"
  by (simp add: wire_def split: sum.split)

interpretation page_codec: codec encode_page_body decode_page "\<lambda>b. tx_body_typed b \<and> validate_page_shape b 0 = Inr ()"
proof
  fix bs rest x
  show "decode_page bs = Inr (x, rest) \<longleftrightarrow>
      (tx_body_typed x \<and> validate_page_shape x 0 = Inr ()) \<and> bs = encode_page_body x @ rest"
    by (auto simp: decode_page_def decode_page_body_def encode_page_body_def tx_page_new_def rbind_eq_Inr
        rbind_unit_eq_Inr fields_codec.dec_iff)
qed

lemma validated_shapes:
  assumes "is_ok (validate_paged_spend perm pick pages)" "p \<in> set pages"
  shows "validate_page_shape p 0 = Inr ()"
  using assms by (auto simp: is_ok_iff elim!: validate_paged_spend_cases)

lemma validated_page_count:
  assumes "is_ok (validate_paged_spend perm pick pages)"
  shows "1 \<le> length pages \<and> length pages \<le> 128"
  using assms by (auto simp: is_ok_iff MAX_PAGED_SPEND_PAGES_def elim!: validate_paged_spend_cases)

lemma length_encoded_pages:
  "\<forall>p \<in> set pages. tx_body_typed p \<Longrightarrow> length (concat (map encode_page_body pages)) = length pages * TX_BODY_WIRE_SIZE"
  by (induction pages) (simp_all add: encode_page_body_def length_body_fields_bytes)

lemma rmap_encode_pages:
  "\<forall>p \<in> set pages. validate_page_shape p 0 = Inr () \<Longrightarrow> rmap encode_page pages = Inr (map encode_page_body pages)"
  by (induction pages) (simp_all add: encode_page_def)

lemma intent_to_bytes_iff:
  assumes "\<forall>p \<in> set (psi_pages x). tx_body_typed p"
  shows "intent_to_bytes perm pick x = Inr bs \<longleftrightarrow> intent_valid perm pick x \<and> bs = intent_bytes x"
proof -
  have "is_ok (validate_paged_spend perm pick (psi_pages x)) \<Longrightarrow>
      rmap encode_page (psi_pages x) = Inr (map encode_page_body (psi_pages x))"
    using validated_shapes by (intro rmap_encode_pages) blast
  then show ?thesis
    using assms
    by (auto simp: intent_to_bytes_def intent_valid_def intent_bytes_def is_ok_iff rbind_eq_Inr
        MAX_TX_AUTHORIZATION_BYTES_def)
qed

lemma intent_new_iff:
  "intent_new perm pick pages auth = Inr x \<longleftrightarrow>
     is_ok (validate_paged_spend perm pick pages) \<and> length auth \<le> MAX_TX_AUTHORIZATION_BYTES \<and>
     x = \<lparr>psi_pages = pages, psi_authorization_bytes = auth\<rparr>"
  by (auto simp: intent_new_def rbind_eq_Inr is_ok_iff)

interpretation intent_codec: codec intent_bytes "intent_decode perm pick" "intent_valid perm pick"
proof
  fix bs rest x
  show "intent_decode perm pick bs = Inr (x, rest) \<longleftrightarrow> intent_valid perm pick x \<and> bs = intent_bytes x @ rest"
  proof
    assume "intent_decode perm pick bs = Inr (x, rest)"
    then obtain m n pages al auth where
      d: "bs = m @ le_bytes 2 (n :: u16) @ concat (map encode_page_body pages) @ le_bytes 4 (al :: u32) @ auth @ rest"
        "length m = 1" "m ! 0 = PAGED_SPEND_INTENT_MARKER" "length pages = unat n" "length auth = unat al"
        "list_all (\<lambda>b. tx_body_typed b \<and> validate_page_shape b 0 = Inr ()) pages"
        "intent_new perm pick pages auth = Inr x"
      by (auto simp: intent_decode_def rbind_eq_Inr take_len_iff reader_iffs page_codec.decode_n_iff)
    from d(2,3) have "m = [PAGED_SPEND_INTENT_MARKER]" by (cases m) auto
    moreover have "of_nat (length pages) = n" "of_nat (length auth) = al" using d(4,5) by simp_all
    ultimately show "intent_valid perm pick x \<and> bs = intent_bytes x @ rest"
      using d by (auto simp: intent_new_iff intent_valid_def intent_bytes_def list_all_iff)
  next
    assume v: "intent_valid perm pick x \<and> bs = intent_bytes x @ rest"
    let ?n = "of_nat (length (psi_pages x)) :: u16" and ?al = "of_nat (length (psi_authorization_bytes x)) :: u32"
    have n: "unat ?n = length (psi_pages x)" "1 \<le> length (psi_pages x)" "length (psi_pages x) \<le> MAX_PAGED_SPEND_PAGES"
      using v validated_page_count [of perm pick "psi_pages x"]
      by (auto simp: intent_valid_def unat_of_nat MAX_PAGED_SPEND_PAGES_def)
    have al: "unat ?al = length (psi_authorization_bytes x)" "length (psi_authorization_bytes x) \<le> MAX_TX_AUTHORIZATION_BYTES"
      using v by (auto simp: intent_valid_def unat_of_nat MAX_TX_AUTHORIZATION_BYTES_def)
    let ?tail = "le_bytes 4 ?al @ psi_authorization_bytes x @ rest"
    have pages: "decode_n decode_page (length (psi_pages x)) (concat (map encode_page_body (psi_pages x)) @ ?tail) = Inr (psi_pages x, ?tail)"
      using v n validated_shapes [of perm pick "psi_pages x"]
      by (auto simp: page_codec.decode_n_iff list_all_iff intent_valid_def)
    have word2: "take_word e 2 (le_bytes 2 ?n @ r) = Inr (?n, r)" for e r by (simp add: u16_codec.dec_iff)
    have word4: "take_word e 4 (le_bytes 4 ?al @ r) = Inr (?al, r)" for e r by (simp add: u32_codec.dec_iff)
    have auth: "take_len e (length (psi_authorization_bytes x)) (psi_authorization_bytes x @ rest) = Inr (psi_authorization_bytes x, rest)" for e
      using al by (simp add: take_len_iff)
    have mark: "take_len e 1 ([PAGED_SPEND_INTENT_MARKER] @ r) = Inr ([PAGED_SPEND_INTENT_MARKER], r)" for e r
      by (simp only: take_len_iff) simp
    have len: "unat ?n * TX_BODY_WIRE_SIZE \<le> length (concat (map encode_page_body (psi_pages x)) @ ?tail)"
      using v n length_encoded_pages [of "psi_pages x"] by (simp add: intent_valid_def)
    have "intent_new perm pick (psi_pages x) (psi_authorization_bytes x) = Inr x"
      using v by (simp add: intent_new_iff intent_valid_def)
    then show "intent_decode perm pick bs = Inr (x, rest)"
      using v n(2,3) al(2) len [unfolded n(1)]
      unfolding intent_decode_def intent_bytes_def
      by (simp only: append_assoc mark rbind_simps prod.case word2 word4 n(1) al(1) pages auth validate_page_count_def nth_Cons_0
          ensure_simps simp_thms) 
  qed
qed

lemma paged_spend_facts:
  assumes "validate_paged_spend perm pick pages = Inr f"
  shows "(\<Sum>i\<leftarrow>group_inputs pages. unat (in_amount i))
      = (\<Sum>out\<leftarrow>group_outputs pages. unat (out_amount out)) + (\<Sum>p\<leftarrow>pages. unat (tx_fee p)) \<and>
    distinct (map in_slot_index (group_inputs pages) @ map out_slot_index (group_outputs pages)) \<and>
    (\<forall>p \<in> set pages. tx_input_owner p = ps_input_owner f \<and> tx_epoch_anchor p = ps_epoch_anchor f \<and> \<not> tx_is_coinbase p) \<and>
    dense (input_flags pages) \<and> dense (output_flags pages) \<and> group_inputs pages \<noteq> [] \<and>
    length (group_inputs pages) \<le> 1020 \<and>
    length pages = required_pages (length (group_inputs pages)) (length (group_outputs pages))"
proof -
  from assms obtain s where s:
    "1 \<le> length pages" "\<And>p. p \<in> set pages \<Longrightarrow> validate_page_shape p 0 = Inr ()"
    "for_each (check_page_links pages) (enumerate 0 pages) = Inr ()"
    "rfold scan_page scan_start (enumerate 0 pages) = Inr s"
    "sc_live_inputs s \<noteq> 0" "sc_input_slots s \<inter> sc_output_slots s = {}"
    "length pages = required_pages (sc_live_inputs s) (sc_live_outputs s)"
    "unat (sc_input_sum s) = unat (sc_output_sum s) + unat (tx_fee (pages ! 0))"
    and f: "ps_input_owner f = tx_input_owner (pages ! 0)" "ps_epoch_anchor f = tx_epoch_anchor (pages ! 0)"
    by (rule validate_paged_spend_cases) auto
  have inv: "in_inv (group_inputs pages) (input_flags pages) s" "out_inv (group_outputs pages) (output_flags pages) s"
    using scan_pages_inv [OF s(4)] by auto
  have fees: "(\<Sum>p\<leftarrow>pages. unat (tx_fee p)) = unat (tx_fee (pages ! 0))"
    using s(1,3) by (intro group_fee_total) (auto simp: check_page_links_iff)
  have owner: "\<forall>p \<in> set pages. tx_input_owner p = ps_input_owner f \<and> tx_epoch_anchor p = ps_epoch_anchor f"
    using s(3) f by (auto simp: check_page_links_iff in_set_conv_nth)
  have nc: "\<forall>p \<in> set pages. \<not> tx_is_coinbase p"
    using s(2) by (auto simp: validate_page_shape_def rbind_unit_eq_Inr)
  show ?thesis
    using inv s(5-8) fees owner nc
    by (auto simp: in_inv_def out_inv_def MAX_PAGED_SPEND_INPUTS_def)
qed

lemma ceil_div_le: "0 < m \<Longrightarrow> (a + m - 1) div m \<le> n \<longleftrightarrow> a \<le> m * (n :: nat)"
proof -
  assume m: "0 < m"
  have "(a + m - 1) div m \<le> n \<longleftrightarrow> a + m - 1 < m * Suc n"
    using m by (simp add: div_less_iff_less_mult mult.commute flip: less_Suc_eq_le)
  also have "\<dots> \<longleftrightarrow> a \<le> m * n" using m by auto
  finally show ?thesis .
qed

lemma required_pages_le:
  "required_pages live_in live_out \<le> n \<longleftrightarrow> 1 \<le> n \<and> live_in \<le> 8 * n \<and> live_out \<le> 2 * n"
  by (auto simp: required_pages_def tx_const_defs ceil_div_le [of 8, simplified] ceil_div_le [of 2, simplified])

lemma intent_from_bytes_iff:
  "intent_from_bytes perm pick bs = Inr x \<longleftrightarrow>
     (\<forall>p \<in> set (psi_pages x). tx_body_typed p) \<and> intent_to_bytes perm pick x = Inr bs"
proof -
  have "length (intent_bytes x) \<le> MAX_PAGED_SPEND_INTENT_BYTES" if "intent_valid perm pick x"
  proof -
    have "length (psi_pages x) * TX_BODY_WIRE_SIZE \<le> 128 * TX_BODY_WIRE_SIZE"
      using that validated_page_count [of perm pick "psi_pages x"] by (intro mult_right_mono) (auto simp: intent_valid_def)
    moreover have "length (intent_bytes x) = 7 + length (psi_pages x) * TX_BODY_WIRE_SIZE + length (psi_authorization_bytes x)"
      using that length_encoded_pages [of "psi_pages x"] by (simp add: intent_bytes_def intent_valid_def)
    moreover have "MAX_PAGED_SPEND_INTENT_BYTES = 7 + 128 * TX_BODY_WIRE_SIZE + MAX_TX_AUTHORIZATION_BYTES"
      by (simp add: MAX_PAGED_SPEND_INTENT_BYTES_def MAX_PAGED_SPEND_PAGES_def PAGED_SPEND_INTENT_FIXED_OVERHEAD_def)
    moreover have "length (psi_authorization_bytes x) \<le> MAX_TX_AUTHORIZATION_BYTES"
      using that by (simp add: intent_valid_def)
    ultimately show ?thesis by linarith
  qed
  then have "intent_from_bytes perm pick bs = Inr x \<longleftrightarrow> intent_valid perm pick x \<and> bs = intent_bytes x"
    by (auto simp: intent_from_bytes_def rbind_unit_eq_Inr intent_codec.decode_all_iff)
  also have "\<dots> \<longleftrightarrow> (\<forall>p \<in> set (psi_pages x). tx_body_typed p) \<and> intent_to_bytes perm pick x = Inr bs"
    using intent_to_bytes_iff [of x perm pick bs] by (auto simp: intent_valid_def)
  finally show ?thesis .
qed

section \<open>Properties\<close>

text \<open>C9: An accepted multi-page spend conserves value across all its pages as naturals:
  the live inputs of all pages pay exactly the live outputs of all pages and the fees.
  All live slots of the group, inputs and outputs together, are pairwise different, all
  pages share one owner and one epoch anchor, live records are packed without gaps, and
  the group has as few pages as its records allow: its length is the least positive number of pages, of eight inputs
  and two outputs each, that can hold them.\<close>

theorem paged_spend_sound:
  assumes "validate_paged_spend perm pick pages = Inr f"
  shows "(\<Sum>i\<leftarrow>group_inputs pages. unat (in_amount i))
      = (\<Sum>out\<leftarrow>group_outputs pages. unat (out_amount out)) + (\<Sum>p\<leftarrow>pages. unat (tx_fee p)) \<and>
    distinct (map in_slot_index (group_inputs pages) @ map out_slot_index (group_outputs pages)) \<and>
    (\<forall>p \<in> set pages. tx_input_owner p = ps_input_owner f \<and> tx_epoch_anchor p = ps_epoch_anchor f \<and> \<not> tx_is_coinbase p) \<and>
    dense (input_flags pages) \<and> dense (output_flags pages) \<and> group_inputs pages \<noteq> [] \<and>
    length (group_inputs pages) \<le> 1020 \<and>
    length pages = required_pages (length (group_inputs pages)) (length (group_outputs pages)) \<and>
    (\<forall>n. length pages \<le> n \<longleftrightarrow> 1 \<le> n \<and> length (group_inputs pages) \<le> 8 * n \<and> length (group_outputs pages) \<le> 2 * n)"
  using paged_spend_facts [OF assms] required_pages_le [of "length (group_inputs pages)" "length (group_outputs pages)"] by simp


lemma sample_page_accepted: "\<exists>f. validate_paged_spend perm pick [sample_page] = Inr f"
  by (simp add: validate_paged_spend_def validate_page_count_def validate_page_shape_def sample_page_def sample_body_def
      MAX_PAGED_SPEND_PAGES_def PAGED_SPEND_VALIDITY_MASK_def PAGED_SPEND_MARKER_MASK_def PAGED_SPEND_V2_CONTRACT_MASK_def
      PAGED_SPEND_START_BIT_def PAGED_SPEND_END_BIT_def PAGED_SPEND_CONTRACT_BIT_def PAGED_SPEND_TERMINAL_BIT_def
      tx_const_defs input_is_live_def output_is_live_def output_bitmap_bit_def is_start_def is_end_def check_page_links_def
      scan_page_def scan_input_def scan_output_def scan_start_def MAX_PAGED_SPEND_INPUTS_def MAX_PAGED_SPEND_OUTPUTS_def
      checked_add_def widen_def required_pages_def Let_def)

theorem paged_spend_sound_witness:
  "(\<Sum>i\<leftarrow>group_inputs [sample_page]. unat (in_amount i)) = (\<Sum>out\<leftarrow>group_outputs [sample_page]. unat (out_amount out)) + 3"
proof -
  obtain f where "validate_paged_spend id (\<lambda>_. 0) [sample_page] = Inr f" using sample_page_accepted by blast
  from paged_spend_sound [OF this] show ?thesis by (simp add: sample_page_def sample_body_def)
qed


text \<open>C18: The relay encoding of a spend with its authorization round-trips: a byte string
  decodes to an intent exactly when it is what the encoder produces for that intent, so
  a relayed intent has one wire form and no other byte string is accepted for it.\<close>

theorem intent_relay_roundtrip:
  "intent_from_bytes perm pick bs = Inr x \<longleftrightarrow>
     (\<forall>p \<in> set (psi_pages x). tx_body_typed p) \<and> intent_to_bytes perm pick x = Inr bs"
  by (rule intent_from_bytes_iff)

theorem intent_relay_roundtrip_witness:
  "\<exists>bs. intent_to_bytes id (\<lambda>_. 0) \<lparr>psi_pages = [sample_page], psi_authorization_bytes = [1, 2, 3]\<rparr> = Inr bs \<and>
     intent_from_bytes id (\<lambda>_. 0) bs = Inr \<lparr>psi_pages = [sample_page], psi_authorization_bytes = [1, 2, 3]\<rparr>"
proof -
  let ?x = "\<lparr>psi_pages = [sample_page], psi_authorization_bytes = [1, 2, 3]\<rparr> :: paged_spend_intent"
  have typed: "\<forall>p \<in> set (psi_pages ?x). tx_body_typed p"
    using sample_body_typed by (simp add: sample_page_def tx_body_typed_def)
  have "intent_valid id (\<lambda>_. 0) ?x"
    using typed sample_page_accepted [of id "\<lambda>_. 0"]
    by (simp add: intent_valid_def is_ok_iff MAX_TX_AUTHORIZATION_BYTES_def)
  then have "intent_to_bytes id (\<lambda>_. 0) ?x = Inr (intent_bytes ?x)"
    using intent_to_bytes_iff [OF typed] by blast
  then show ?thesis
    using intent_relay_roundtrip [of id "\<lambda>_. 0" "intent_bytes ?x" ?x] typed by blast
qed

end
