(* ===== verification/IntegerProgram.thy ===== *)
theory IntegerProgram
imports PagedSpend
begin

section \<open>Bounded integer programs of contracts\<close>

text \<open>
  \<open>noid_tx/src/experimental_object/integer_program.rs\<close>: the sixteen-step machine
  that a contract call runs.  The enums keep the source's discriminants (\<open>code\<close>
  functions and \<open>ALL\<close> tables), an instruction is packed into a 20-bit descriptor
  and a 64-bit immediate, and execution is a fold over the committed steps with
  every early return as an error.  \<open>exact_step\<close> is the reference: the same machine
  over unbounded naturals.  The main results are that the instruction encoding is
  canonical in both directions, that execution computes exactly what the
  reference computes (no addition or subtraction ever wraps), and that an error
  names the first step that fails.
\<close>

definition PROGRAM_STEPS :: nat where "PROGRAM_STEPS = 16"
definition INSTRUCTION_BITS :: nat where "INSTRUCTION_BITS = 20"

type_synonym instruction_fields = "block128 \<times> block128"
type_synonym program = "instruction_fields list"

definition EMPTY_PROGRAM :: program where
  "EMPTY_PROGRAM = replicate PROGRAM_STEPS (0, 0)"

subsection \<open>Instruction set\<close>

datatype register = R_State0 | R_State1 | R_Scratch0 | R_Scratch1

fun register_code :: "register \<Rightarrow> nat" where
  "register_code R_State0 = 0"
| "register_code R_State1 = 1"
| "register_code R_Scratch0 = 2"
| "register_code R_Scratch1 = 3"

definition register_decode :: "nat \<Rightarrow> register option" where
  "register_decode v =
     (if v = 0 then Some R_State0 else if v = 1 then Some R_State1
      else if v = 2 then Some R_Scratch0 else if v = 3 then Some R_Scratch1 else None)"

datatype operand =
    O_State0 | O_State1 | O_Scratch0 | O_Scratch1 | O_Immediate | O_Height | O_Fee | O_Payout
  | O_Retained | O_InputAmount | O_BeforeDeadline | O_Terminal | O_HasPayout | O_Zero | O_One
  | O_AfterDeadline | O_PayoutOwner0 | O_PayoutOwner1 | O_PayoutOwner2 | O_PayoutOwner3
  | O_InputCreationId | O_InputSlot | O_RetainedSlot | O_PayoutSlot

definition OPERAND_ALL :: "operand list" where
  "OPERAND_ALL =
     [O_State0, O_State1, O_Scratch0, O_Scratch1, O_Immediate, O_Height, O_Fee, O_Payout,
      O_Retained, O_InputAmount, O_BeforeDeadline, O_Terminal, O_HasPayout, O_Zero, O_One,
      O_AfterDeadline, O_PayoutOwner0, O_PayoutOwner1, O_PayoutOwner2, O_PayoutOwner3,
      O_InputCreationId, O_InputSlot, O_RetainedSlot, O_PayoutSlot]"

fun operand_code :: "operand \<Rightarrow> nat" where
  "operand_code O_State0 = 0"
| "operand_code O_State1 = 1"
| "operand_code O_Scratch0 = 2"
| "operand_code O_Scratch1 = 3"
| "operand_code O_Immediate = 4"
| "operand_code O_Height = 5"
| "operand_code O_Fee = 6"
| "operand_code O_Payout = 7"
| "operand_code O_Retained = 8"
| "operand_code O_InputAmount = 9"
| "operand_code O_BeforeDeadline = 10"
| "operand_code O_Terminal = 11"
| "operand_code O_HasPayout = 12"
| "operand_code O_Zero = 13"
| "operand_code O_One = 14"
| "operand_code O_AfterDeadline = 15"
| "operand_code O_PayoutOwner0 = 16"
| "operand_code O_PayoutOwner1 = 17"
| "operand_code O_PayoutOwner2 = 18"
| "operand_code O_PayoutOwner3 = 19"
| "operand_code O_InputCreationId = 20"
| "operand_code O_InputSlot = 21"
| "operand_code O_RetainedSlot = 22"
| "operand_code O_PayoutSlot = 23"

datatype opcode = Keep | Move | Add | Subtract | Min | Max | LessThan | Equal | AssertEqual | AssertLessOrEqual

definition OPCODE_ALL :: "opcode list" where
  "OPCODE_ALL = [Keep, Move, Add, Subtract, Min, Max, LessThan, Equal, AssertEqual, AssertLessOrEqual]"

fun opcode_code :: "opcode \<Rightarrow> nat" where
  "opcode_code Keep = 0"
| "opcode_code Move = 1"
| "opcode_code Add = 2"
| "opcode_code Subtract = 3"
| "opcode_code Min = 4"
| "opcode_code Max = 5"
| "opcode_code LessThan = 6"
| "opcode_code Equal = 7"
| "opcode_code AssertEqual = 8"
| "opcode_code AssertLessOrEqual = 9"

datatype predicate_source = P_Always | P_BeforeDeadline | P_Terminal | P_HasPayout | P_Scratch0 | P_Scratch1

definition PREDICATE_ALL :: "predicate_source list" where
  "PREDICATE_ALL = [P_Always, P_BeforeDeadline, P_Terminal, P_HasPayout, P_Scratch0, P_Scratch1]"

fun predicate_code :: "predicate_source \<Rightarrow> nat" where
  "predicate_code P_Always = 0"
| "predicate_code P_BeforeDeadline = 1"
| "predicate_code P_Terminal = 2"
| "predicate_code P_HasPayout = 3"
| "predicate_code P_Scratch0 = 4"
| "predicate_code P_Scratch1 = 5"

record predicate =
  pred_source :: predicate_source
  pred_inverted :: bool

definition PRED_ALWAYS :: predicate where
  "PRED_ALWAYS = \<lparr>pred_source = P_Always, pred_inverted = False\<rparr>"

definition PRED_BEFORE_DEADLINE :: predicate where
  "PRED_BEFORE_DEADLINE = \<lparr>pred_source = P_BeforeDeadline, pred_inverted = False\<rparr>"

definition pred_not :: "predicate \<Rightarrow> predicate" where
  "pred_not p = p\<lparr>pred_inverted := \<not> pred_inverted p\<rparr>"

record instruction =
  ins_opcode :: opcode
  ins_destination :: register
  ins_left :: operand
  ins_right :: operand
  ins_predicate :: predicate
  ins_immediate :: u64

definition instruction_new :: "opcode \<Rightarrow> register \<Rightarrow> operand \<Rightarrow> operand \<Rightarrow> u64 \<Rightarrow> instruction" where
  "instruction_new opcode destination left right immediate =
     \<lparr>ins_opcode = opcode, ins_destination = destination, ins_left = left, ins_right = right,
      ins_predicate = PRED_ALWAYS, ins_immediate = immediate\<rparr>"

definition ins_when :: "instruction \<Rightarrow> predicate \<Rightarrow> instruction" where
  "ins_when i p = i\<lparr>ins_predicate := p\<rparr>"

subsection \<open>Instruction encoding\<close>

definition to_fields :: "instruction \<Rightarrow> instruction_fields" where
  "to_fields i =
     (or (of_nat (opcode_code (ins_opcode i)))
      (or (push_bit 4 (of_nat (register_code (ins_destination i))))
      (or (push_bit 6 (of_nat (operand_code (ins_left i))))
      (or (push_bit 11 (of_nat (operand_code (ins_right i))))
      (or (push_bit 16 (of_nat (predicate_code (pred_source (ins_predicate i)))))
          (push_bit 19 (bool_word (pred_inverted (ins_predicate i)))))))),
      widen (ins_immediate i))"

definition list_get :: "'a list \<Rightarrow> nat \<Rightarrow> 'a option" where
  "list_get xs k = (if k < length xs then Some (xs ! k) else None)"

definition from_fields :: "instruction_fields \<Rightarrow> instruction option" where
  "from_fields fs =
     (let word = fst fs in
      if drop_bit INSTRUCTION_BITS word \<noteq> 0 \<or> snd fs > widen (- 1) then None
      else Option.bind (list_get OPCODE_ALL (unat (and word 15))) (\<lambda>opcode.
           Option.bind (register_decode (unat (and (drop_bit 4 word) 3))) (\<lambda>destination.
           Option.bind (list_get OPERAND_ALL (unat (and (drop_bit 6 word) 31))) (\<lambda>left.
           Option.bind (list_get OPERAND_ALL (unat (and (drop_bit 11 word) 31))) (\<lambda>right.
           Option.bind (list_get PREDICATE_ALL (unat (and (drop_bit 16 word) 7))) (\<lambda>source.
           Some \<lparr>ins_opcode = opcode, ins_destination = destination, ins_left = left, ins_right = right,
                 ins_predicate = \<lparr>pred_source = source, pred_inverted = (and word (push_bit 19 1) \<noteq> 0)\<rparr>,
                 ins_immediate = ucast (snd fs)\<rparr>))))))"

subsection \<open>Execution context\<close>

record exec_context =
  ctx_height :: u64
  ctx_fee :: u64
  ctx_payout :: u64
  ctx_retained :: u64
  ctx_input_amount :: u64
  ctx_before_deadline :: bool
  ctx_terminal :: bool
  ctx_has_payout :: bool
  ctx_payout_owner :: "u64 list"
  ctx_input_creation_id :: u64
  ctx_input_slot :: u32
  ctx_retained_slot :: u32
  ctx_payout_slot :: u32

definition context_from_body :: "tx_body \<Rightarrow> u64 \<Rightarrow> u64 \<Rightarrow> exec_context" where
  "context_from_body b height deadline =
     \<lparr>ctx_height = height,
      ctx_fee = tx_fee b,
      ctx_payout = out_amount (tx_outputs b ! 1),
      ctx_retained = out_amount (tx_outputs b ! 0),
      ctx_input_amount = in_amount (tx_inputs b ! 0),
      ctx_before_deadline = (height < deadline),
      ctx_terminal = (and (tx_validity_bitmap b) PAGED_SPEND_TERMINAL_BIT \<noteq> 0),
      ctx_has_payout = (and (tx_validity_bitmap b) (output_bitmap_bit 1) \<noteq> 0),
      ctx_payout_owner = map (\<lambda>word. ucast (drop_bit (64 * word) (out_owner (tx_outputs b ! 1)))) [0, 1, 2, 3],
      ctx_input_creation_id = in_creation_id (tx_inputs b ! 0),
      ctx_input_slot = in_slot_index (tx_inputs b ! 0),
      ctx_retained_slot = out_slot_index (tx_outputs b ! 0),
      ctx_payout_slot = out_slot_index (tx_outputs b ! 1)\<rparr>"

definition operands :: "exec_context \<Rightarrow> u64 list \<Rightarrow> u64 \<Rightarrow> u64 list" where
  "operands c registers immediate =
     [registers ! 0, registers ! 1, registers ! 2, registers ! 3, immediate,
      ctx_height c, ctx_fee c, ctx_payout c, ctx_retained c, ctx_input_amount c,
      bool_word (ctx_before_deadline c), bool_word (ctx_terminal c), bool_word (ctx_has_payout c),
      0, 1, bool_word (\<not> ctx_before_deadline c),
      ctx_payout_owner c ! 0, ctx_payout_owner c ! 1, ctx_payout_owner c ! 2, ctx_payout_owner c ! 3,
      ctx_input_creation_id c, ucast (ctx_input_slot c), ucast (ctx_retained_slot c), ucast (ctx_payout_slot c)]"

definition predicates :: "exec_context \<Rightarrow> u64 list \<Rightarrow> u64 list" where
  "predicates c registers =
     [1, bool_word (ctx_before_deadline c), bool_word (ctx_terminal c), bool_word (ctx_has_payout c),
      registers ! 2, registers ! 3]"

subsection \<open>Execution\<close>

datatype program_error =
    Encoding nat
  | NonBooleanPredicate nat
  | Overflow nat
  | Underflow nat
  | Assertion nat

definition program_validate :: "program \<Rightarrow> program_error + unit" where
  "program_validate p =
     for_each (\<lambda>(step, fs). ensure (from_fields fs \<noteq> None) (Encoding step)) (enumerate 0 p)"

definition unpack_state :: "block128 \<Rightarrow> u64 \<times> u64" where
  "unpack_state state = (ucast state, ucast (drop_bit 64 state))"

definition pack_state :: "u64 \<times> u64 \<Rightarrow> block128" where
  "pack_state state = or (widen (fst state)) (push_bit 64 (widen (snd state)))"

fun eval_opcode :: "opcode \<Rightarrow> nat \<Rightarrow> u64 \<Rightarrow> u64 \<Rightarrow> u64 \<Rightarrow> program_error + u64" where
  "eval_opcode Keep step left right old = Inr old"
| "eval_opcode Move step left right old = Inr left"
| "eval_opcode Add step left right old = ok_or (Overflow step) (checked_add left right)"
| "eval_opcode Subtract step left right old = ok_or (Underflow step) (checked_sub left right)"
| "eval_opcode Min step left right old = Inr (min left right)"
| "eval_opcode Max step left right old = Inr (max left right)"
| "eval_opcode LessThan step left right old = Inr (bool_word (left < right))"
| "eval_opcode Equal step left right old = Inr (bool_word (left = right))"
| "eval_opcode AssertEqual step left right old = (if left \<noteq> right then Inl (Assertion step) else Inr old)"
| "eval_opcode AssertLessOrEqual step left right old = (if left > right then Inl (Assertion step) else Inr old)"

definition exec_instruction :: "exec_context \<Rightarrow> nat \<Rightarrow> instruction \<Rightarrow> u64 list \<Rightarrow> program_error + u64 list" where
  "exec_instruction c step i registers =
     (let p = predicates c registers ! predicate_code (pred_source (ins_predicate i)) in
      if p > 1 then Inl (NonBooleanPredicate step)
      else if (p = 1) = pred_inverted (ins_predicate i) then Inr registers
      else let ops = operands c registers (ins_immediate i);
               destination = register_code (ins_destination i)
           in rbind (eval_opcode (ins_opcode i) step (ops ! operand_code (ins_left i)) (ops ! operand_code (ins_right i))
                       (registers ! destination))
                (\<lambda>v. Inr (registers[destination := v])))"

definition exec_step :: "exec_context \<Rightarrow> u64 list \<Rightarrow> nat \<times> instruction_fields \<Rightarrow> program_error + u64 list" where
  "exec_step c registers = (\<lambda>(step, fs).
     case from_fields fs of
       None \<Rightarrow> Inl (Encoding step)
     | Some i \<Rightarrow> exec_instruction c step i registers)"

definition execute :: "program \<Rightarrow> block128 \<Rightarrow> exec_context \<Rightarrow> program_error + block128" where
  "execute p current c =
     rbind (program_validate p) (\<lambda>_.
     let (s0, s1) = unpack_state current in
     rbind (rfold (exec_step c) [s0, s1, 0, 0] (enumerate 0 p)) (\<lambda>registers.
     Inr (pack_state (registers ! 0, registers ! 1))))"

subsection \<open>The exact reference machine\<close>

text \<open>The same machine over unbounded integers; a step that leaves the 64-bit range stops it.
  \<open>exact_fault\<close> says, on the unbounded values, which error a step deserves: a predicate
  other than 0 and 1, a sum of \<open>2 ^ 64\<close> or more, a negative difference, a false assertion.\<close>

definition in_u64 :: "int \<Rightarrow> bool" where
  "in_u64 v \<longleftrightarrow> 0 \<le> v \<and> v < 2 ^ 64"

fun exact_eval :: "opcode \<Rightarrow> int \<Rightarrow> int \<Rightarrow> int \<Rightarrow> int option" where
  "exact_eval Keep l r old = Some old"
| "exact_eval Move l r old = Some l"
| "exact_eval Add l r old = Some (l + r)"
| "exact_eval Subtract l r old = Some (l - r)"
| "exact_eval Min l r old = Some (min l r)"
| "exact_eval Max l r old = Some (max l r)"
| "exact_eval LessThan l r old = Some (of_bool (l < r))"
| "exact_eval Equal l r old = Some (of_bool (l = r))"
| "exact_eval AssertEqual l r old = (if l = r then Some old else None)"
| "exact_eval AssertLessOrEqual l r old = (if l \<le> r then Some old else None)"

definition exact_operands :: "exec_context \<Rightarrow> int list \<Rightarrow> u64 \<Rightarrow> int list" where
  "exact_operands c regs immediate = take 4 regs @ map uint (drop 4 (operands c [0, 0, 0, 0] immediate))"

definition exact_predicates :: "exec_context \<Rightarrow> int list \<Rightarrow> int list" where
  "exact_predicates c regs =
     [1, of_bool (ctx_before_deadline c), of_bool (ctx_terminal c), of_bool (ctx_has_payout c), regs ! 2, regs ! 3]"

definition exact_step :: "exec_context \<Rightarrow> instruction \<Rightarrow> int list \<Rightarrow> int list option" where
  "exact_step c i regs =
     (let p = exact_predicates c regs ! predicate_code (pred_source (ins_predicate i)) in
      if p \<noteq> 0 \<and> p \<noteq> 1 then None
      else if (p = 1) = pred_inverted (ins_predicate i) then Some regs
      else let ops = exact_operands c regs (ins_immediate i); d = register_code (ins_destination i)
           in case exact_eval (ins_opcode i) (ops ! operand_code (ins_left i)) (ops ! operand_code (ins_right i)) (regs ! d) of
                None \<Rightarrow> None
              | Some v \<Rightarrow> if in_u64 v then Some (regs[d := v]) else None)"

definition KEEP_INSTRUCTION :: instruction where
  "KEEP_INSTRUCTION = instruction_new Keep R_State0 O_State0 O_State0 0"

definition run_instructions :: "exec_context \<Rightarrow> instruction list \<Rightarrow> u64 list \<Rightarrow> program_error + u64 list" where
  "run_instructions c is regs = rfold (\<lambda>regs (k, i). exec_instruction c k i regs) regs (enumerate 0 is)"

primrec exact_run :: "exec_context \<Rightarrow> instruction list \<Rightarrow> int list \<Rightarrow> int list option" where
  "exact_run c [] regs = Some regs"
| "exact_run c (i # is) regs = Option.bind (exact_step c i regs) (exact_run c is)"

fun eval_fault :: "opcode \<Rightarrow> nat \<Rightarrow> int \<Rightarrow> int \<Rightarrow> program_error option" where
  "eval_fault Add k l r = (if l + r \<ge> 2 ^ 64 then Some (Overflow k) else None)"
| "eval_fault Subtract k l r = (if l - r < 0 then Some (Underflow k) else None)"
| "eval_fault AssertEqual k l r = (if l \<noteq> r then Some (Assertion k) else None)"
| "eval_fault AssertLessOrEqual k l r = (if l > r then Some (Assertion k) else None)"
| "eval_fault _ k l r = None"

definition exact_fault :: "exec_context \<Rightarrow> nat \<Rightarrow> instruction \<Rightarrow> int list \<Rightarrow> program_error option" where
  "exact_fault c k i regs =
     (let p = exact_predicates c regs ! predicate_code (pred_source (ins_predicate i));
          ops = exact_operands c regs (ins_immediate i)
      in if p \<noteq> 0 \<and> p \<noteq> 1 then Some (NonBooleanPredicate k)
         else if (p = 1) = pred_inverted (ins_predicate i) then None
         else eval_fault (ins_opcode i) k (ops ! operand_code (ins_left i)) (ops ! operand_code (ins_right i)))"

section \<open>Lemmas\<close>

subsection \<open>Instruction encoding\<close>

lemma register_decode_code [simp]: "register_decode (register_code r) = Some r"
  by (cases r) (simp_all add: register_decode_def)

lemma register_code_decode: "register_decode v = Some r \<Longrightarrow> register_code r = v"
  by (auto simp: register_decode_def split: if_splits)

lemma operand_get [simp]: "list_get OPERAND_ALL (operand_code x) = Some x"
  by (cases x) (simp_all add: list_get_def OPERAND_ALL_def)

lemma opcode_get [simp]: "list_get OPCODE_ALL (opcode_code x) = Some x"
  by (cases x) (simp_all add: list_get_def OPCODE_ALL_def)

lemma predicate_get [simp]: "list_get PREDICATE_ALL (predicate_code x) = Some x"
  by (cases x) (simp_all add: list_get_def PREDICATE_ALL_def)

lemma list_get_map_upt:
  "map f xs = [0..<length xs] \<Longrightarrow> list_get xs k = Some x \<Longrightarrow> f x = k"
proof -
  assume m: "map f xs = [0..<length xs]" and g: "list_get xs k = Some x"
  from g have k: "k < length xs" "x = xs ! k" by (auto simp: list_get_def split: if_splits)
  then have "f x = map f xs ! k" by simp
  then show ?thesis using m k by simp
qed

lemma operand_code_get: "list_get OPERAND_ALL k = Some x \<Longrightarrow> operand_code x = k"
  by (rule list_get_map_upt [of operand_code]) (simp_all add: OPERAND_ALL_def upt_rec)

lemma opcode_code_get: "list_get OPCODE_ALL k = Some x \<Longrightarrow> opcode_code x = k"
  by (rule list_get_map_upt [of opcode_code]) (simp_all add: OPCODE_ALL_def upt_rec)

lemma predicate_code_get: "list_get PREDICATE_ALL k = Some x \<Longrightarrow> predicate_code x = k"
  by (rule list_get_map_upt [of predicate_code]) (simp_all add: PREDICATE_ALL_def upt_rec)

lemma opcode_code_less: "opcode_code x < 2 ^ 4" by (cases x) simp_all
lemma register_code_less: "register_code x < 2 ^ 2" by (cases x) simp_all
lemma operand_code_less: "operand_code x < 2 ^ 5" by (cases x) simp_all
lemma predicate_code_less: "predicate_code x < 2 ^ 3" by (cases x) simp_all

lemma bit_of_nat_less:
  assumes "v < 2 ^ k" "bit (of_nat v :: 'a::len word) n"
  shows "n < k"
proof -
  have "take_bit k (of_nat v :: 'a word) = of_nat v"
    using assms(1) by (simp add: take_bit_of_nat take_bit_nat_eq_self)
  then show ?thesis using assms(2) by (metis bit_take_bit_iff)
qed

lemma unat_of_nat_small: "v < 2 ^ k \<Longrightarrow> k \<le> LENGTH('a) \<Longrightarrow> unat (of_nat v :: 'a::len word) = v"
proof -
  assume "v < 2 ^ k" "k \<le> LENGTH('a)"
  then have "v < 2 ^ LENGTH('a)" by (meson one_le_numeral order_less_le_trans power_increasing)
  then show ?thesis by (simp add: unat_of_nat)
qed

lemma packed_descriptor:
  fixes a b c d e f :: u128
  assumes a: "\<And>n. bit a n \<Longrightarrow> n < 4" and b: "\<And>n. bit b n \<Longrightarrow> n < 2" and c: "\<And>n. bit c n \<Longrightarrow> n < 5"
    and d: "\<And>n. bit d n \<Longrightarrow> n < 5" and e: "\<And>n. bit e n \<Longrightarrow> n < 3" and f: "\<And>n. bit f n \<Longrightarrow> n < 1"
  defines "w \<equiv> or a (or (push_bit 4 b) (or (push_bit 6 c) (or (push_bit 11 d) (or (push_bit 16 e) (push_bit 19 f)))))"
  shows "drop_bit 20 w = 0" "take_bit 4 w = a" "take_bit 2 (drop_bit 4 w) = b" "take_bit 5 (drop_bit 6 w) = c"
    "take_bit 5 (drop_bit 11 w) = d" "take_bit 3 (drop_bit 16 w) = e" "bit w 19 = bit f 0"
proof -
  have w: "bit w n = (bit a n \<or> 4 \<le> n \<and> bit b (n - 4) \<or> 6 \<le> n \<and> bit c (n - 6) \<or> 11 \<le> n \<and> bit d (n - 11)
      \<or> 16 \<le> n \<and> bit e (n - 16) \<or> 19 \<le> n \<and> bit f (n - 19))" for n
  proof -
    have "bit b (n - 4) \<Longrightarrow> n < 128" "bit c (n - 6) \<Longrightarrow> n < 128" "bit d (n - 11) \<Longrightarrow> n < 128"
      "bit e (n - 16) \<Longrightarrow> n < 128" "bit f (n - 19) \<Longrightarrow> n < 128"
      by (drule b c d e f, simp)+
    then show ?thesis by (auto simp: w_def bit_simps)
  qed
  show "drop_bit 20 w = 0"
    by (rule bit_word_eqI) (auto simp: bit_simps w dest: a b c d e f)
  show "take_bit 4 w = a"
    by (rule bit_word_eqI) (auto simp: bit_simps w dest: a)
  show "take_bit 2 (drop_bit 4 w) = b"
    by (rule bit_word_eqI) (auto simp: bit_simps w dest: a b)
  show "take_bit 5 (drop_bit 6 w) = c"
    by (rule bit_word_eqI) (auto simp: bit_simps w dest: a b c)
  show "take_bit 5 (drop_bit 11 w) = d"
    by (rule bit_word_eqI) (auto simp: bit_simps w dest: a b c d)
  show "take_bit 3 (drop_bit 16 w) = e"
    by (rule bit_word_eqI) (auto simp: bit_simps w dest: a b c d e)
  show "bit w 19 = bit f 0"
    by (auto simp: w dest: a b c d e)
qed

lemma repacked_descriptor:
  fixes w :: u128
  assumes "drop_bit 20 w = 0"
  shows "or (take_bit 4 w) (or (push_bit 4 (take_bit 2 (drop_bit 4 w))) (or (push_bit 6 (take_bit 5 (drop_bit 6 w)))
      (or (push_bit 11 (take_bit 5 (drop_bit 11 w))) (or (push_bit 16 (take_bit 3 (drop_bit 16 w)))
        (push_bit 19 (bool_word (bit w 19))))))) = w"
proof (rule bit_word_eqI)
  fix n assume n: "n < LENGTH(128)"
  have high: "\<not> bit w n" if "20 \<le> n"
    using drop_bit_zero_bit [OF assms that] .
  show "bit (or (take_bit 4 w) (or (push_bit 4 (take_bit 2 (drop_bit 4 w))) (or (push_bit 6 (take_bit 5 (drop_bit 6 w)))
      (or (push_bit 11 (take_bit 5 (drop_bit 11 w))) (or (push_bit 16 (take_bit 3 (drop_bit 16 w)))
        (push_bit 19 (bool_word (bit w 19)))))))) n = bit w n"
  proof (cases "n < 20")
    case False
    then show ?thesis using high n by (auto simp: bit_simps bool_word_def)
  next
    case True
    then consider "n < 4" | "4 \<le> n \<and> n < 6" | "6 \<le> n \<and> n < 11" | "11 \<le> n \<and> n < 16" | "16 \<le> n \<and> n < 19" | "n = 19"
      by linarith
    then show ?thesis
      by cases (auto simp: bit_simps bool_word_def)
  qed
qed


lemma and_low_masks:
  "and w 15 = take_bit 4 w" "and w 3 = take_bit 2 w" "and w 31 = take_bit 5 w" "and w 7 = take_bit 3 w"
  for w :: u128
  by (simp_all add: take_bit_eq_mask mask_eq_exp_minus_1)

lemma and_inverted_bit: "and w 524288 = 0 \<longleftrightarrow> \<not> bit (w :: u128) 19"
  using and_push_bit_one [of w 19] by auto

lemma unat_widen_max: "unat (widen (- 1)) = 2 ^ 64 - 1"
  by (simp add: unat_max_word)

lemma immediate_in_range: "\<not> widen (- 1) < x \<longleftrightarrow> unat x < 2 ^ 64"
  unfolding word_less_nat_alt unat_widen_max by auto

lemma ucast_widen [simp]: "ucast (widen a) = a"
  using narrow_widen [of a] by (simp add: narrow_def split: if_splits)

lemma widen_ucast: "unat x < 2 ^ 64 \<Longrightarrow> widen (ucast x) = x"
  by (simp add: word_unat_eq_iff unsigned_ucast_eq take_bit_nat_eq_self)

lemma from_to_fields [simp]: "from_fields (to_fields i) = Some i"
proof -
  let ?w = "fst (to_fields i)"
  have bits: "drop_bit 20 ?w = 0" "take_bit 4 ?w = of_nat (opcode_code (ins_opcode i))"
    "take_bit 2 (drop_bit 4 ?w) = of_nat (register_code (ins_destination i))"
    "take_bit 5 (drop_bit 6 ?w) = of_nat (operand_code (ins_left i))"
    "take_bit 5 (drop_bit 11 ?w) = of_nat (operand_code (ins_right i))"
    "take_bit 3 (drop_bit 16 ?w) = of_nat (predicate_code (pred_source (ins_predicate i)))"
    "bit ?w 19 = bit (bool_word (pred_inverted (ins_predicate i)) :: u128) 0"
    unfolding to_fields_def fst_conv
    by (intro packed_descriptor bit_of_nat_less [OF opcode_code_less] bit_of_nat_less [OF register_code_less]
        bit_of_nat_less [OF operand_code_less] bit_of_nat_less [OF predicate_code_less];
        auto simp: bool_word_def bit_1_iff split: if_splits)+
  have imm: "snd (to_fields i) = widen (ins_immediate i)" by (simp add: to_fields_def)
  have small: "unat (of_nat (opcode_code x) :: u128) = opcode_code x" "unat (of_nat (register_code r) :: u128) = register_code r"
    "unat (of_nat (operand_code y) :: u128) = operand_code y" "unat (of_nat (predicate_code z) :: u128) = predicate_code z"
    for x r y z
    by (simp_all add: unat_of_nat_small [OF opcode_code_less] unat_of_nat_small [OF register_code_less]
        unat_of_nat_small [OF operand_code_less] unat_of_nat_small [OF predicate_code_less])
  have inv: "bit (bool_word c :: u128) 0 = c" for c by (simp add: bool_word_def)
  have rng: "\<not> widen (- 1) < widen (ins_immediate i)"
    unfolding immediate_in_range using unat_u64_bound by simp
  show ?thesis
    using rng by (simp add: from_fields_def Let_def INSTRUCTION_BITS_def and_low_masks bits imm small and_inverted_bit inv)
qed

lemma to_from_fields:
  assumes "from_fields fs = Some i"
  shows "to_fields i = fs"
proof -
  let ?w = "fst fs"
  from assms have d: "drop_bit 20 ?w = 0" and r: "unat (snd fs) < 2 ^ 64"
    using immediate_in_range [of "snd fs"] by (auto simp: from_fields_def Let_def INSTRUCTION_BITS_def split: if_splits)
  from assms d r obtain op ds l rt sr where
    "list_get OPCODE_ALL (unat (take_bit 4 ?w)) = Some op"
    "register_decode (unat (take_bit 2 (drop_bit 4 ?w))) = Some ds"
    "list_get OPERAND_ALL (unat (take_bit 5 (drop_bit 6 ?w))) = Some l"
    "list_get OPERAND_ALL (unat (take_bit 5 (drop_bit 11 ?w))) = Some rt"
    "list_get PREDICATE_ALL (unat (take_bit 3 (drop_bit 16 ?w))) = Some sr"
    and i: "i = \<lparr>ins_opcode = op, ins_destination = ds, ins_left = l, ins_right = rt,
                 ins_predicate = \<lparr>pred_source = sr, pred_inverted = bit ?w 19\<rparr>,
                 ins_immediate = ucast (snd fs)\<rparr>"
    by (auto simp: from_fields_def Let_def INSTRUCTION_BITS_def and_low_masks and_inverted_bit bind_eq_Some_conv
        split: if_splits)
  then have "opcode_code op = unat (take_bit 4 ?w)" "register_code ds = unat (take_bit 2 (drop_bit 4 ?w))"
    "operand_code l = unat (take_bit 5 (drop_bit 6 ?w))" "operand_code rt = unat (take_bit 5 (drop_bit 11 ?w))"
    "predicate_code sr = unat (take_bit 3 (drop_bit 16 ?w))"
    by (blast dest: opcode_code_get register_code_decode operand_code_get predicate_code_get)+
  then show ?thesis
    using repacked_descriptor [OF d] widen_ucast [OF r] i
    by (simp add: to_fields_def prod_eq_iff)
qed


subsection \<open>State packing\<close>

lemma pack_state_eq: "pack_state (a, b) = pack_amount_creation_id a b"
  by (simp add: pack_state_def pack_amount_creation_id_def or.commute)

lemma unpack_pack_state [simp]: "unpack_state (pack_state s) = s"
  using unpack_pack_amount_creation_id [of "fst s" "snd s"]
  by (cases s) (simp add: pack_state_eq unpack_state_def unpack_amount_creation_id_def)

lemma pack_unpack_state [simp]: "pack_state (unpack_state w) = w"
  using pack_unpack_amount_creation_id [of w]
  by (simp add: unpack_state_def pack_state_eq unpack_amount_creation_id_def)

subsection \<open>Simulation by the exact machine\<close>

lemma exact_operands_uint:
  "length regs = 4 \<Longrightarrow> exact_operands c (map uint regs) imm = map uint (operands c regs imm)"
  by (auto simp: exact_operands_def operands_def numeral_eq_Suc length_Suc_conv)

lemma length_operands [simp]: "length (operands c regs imm) = 24"
  by (simp add: operands_def)

lemma length_predicates [simp]: "length (predicates c regs) = 6"
  by (simp add: predicates_def)

lemma exact_predicates_uint:
  "length regs = 4 \<Longrightarrow> exact_predicates c (map uint regs) = map uint (predicates c regs)"
  by (simp add: exact_predicates_def predicates_def bool_word_def)

lemma operand_code_lt: "operand_code x < 24" by (cases x) simp_all
lemma predicate_code_lt: "predicate_code x < 6" by (cases x) simp_all
lemma register_code_lt: "register_code x < 4" by (cases x) simp_all

lemma in_u64_uint [simp]: "in_u64 (uint (w :: u64))"
  using unsigned_less [of w, where 'a = int] by (simp add: in_u64_def)

lemma uint_bool_word: "uint (bool_word c :: u64) = of_bool c"
  by (simp add: bool_word_def)

lemma uint_eq_unat: "uint (w :: 'a::len word) = int (unat w)"
  by simp

lemma eval_opcode_exact:
  "eval_opcode op step l r old = Inr v \<longleftrightarrow> exact_eval op (uint l) (uint r) (uint old) = Some (uint v)"
proof (cases op)
  case Add
  have "unat v = unat l + unat r \<longleftrightarrow> uint l + uint r = uint v"
    unfolding uint_eq_unat by linarith
  then show ?thesis using Add by (auto simp: ok_or_eq_Inr checked_add_eq_Some)
next
  case Subtract
  have "unat l = unat v + unat r \<longleftrightarrow> uint l - uint r = uint v"
    unfolding uint_eq_unat by linarith
  then show ?thesis using Subtract by (auto simp: ok_or_eq_Inr checked_sub_eq_Some)
next
  case Min
  have "min (uint l) (uint r) = uint (min l r)" by (simp add: min_def word_le_def)
  then show ?thesis using Min by (auto simp: word_uint_eq_iff)
next
  case Max
  have "max (uint l) (uint r) = uint (max l r)" by (simp add: max_def word_le_def)
  then show ?thesis using Max by (auto simp: word_uint_eq_iff)
qed (auto simp: word_uint_eq_iff uint_bool_word word_less_def not_less word_le_def)

lemma word_gt_1_iff: "1 < (w :: u64) \<longleftrightarrow> uint w \<noteq> 0 \<and> uint w \<noteq> 1"
proof -
  have "0 \<le> uint w" by simp
  then have "1 < uint w \<longleftrightarrow> uint w \<noteq> 0 \<and> uint w \<noteq> 1" by linarith
  then show ?thesis by (simp add: word_less_def)
qed

lemma in_u64_lift: "in_u64 z \<Longrightarrow> \<exists>v :: u64. z = uint v"
  by (intro exI [of _ "word_of_int z"]) (simp add: in_u64_def uint_word_of_int)

lemma exact_step_range:
  assumes "exact_step c i (map uint (regs :: u64 list)) = Some zs" "length regs = 4"
  shows "\<exists>t :: u64 list. zs = map uint t \<and> length t = 4"
proof -
  have "zs = map uint regs \<or> (\<exists>d v. zs = (map uint regs)[d := v] \<and> in_u64 v)"
    using assms(1) by (auto simp: exact_step_def Let_def split: if_splits option.splits)
  then show ?thesis
  proof
    assume "\<exists>d v. zs = (map uint regs)[d := v] \<and> in_u64 v"
    then obtain d v where z: "zs = (map uint regs)[d := v]" "in_u64 v" by blast
    then obtain w :: u64 where "v = uint w" using in_u64_lift by blast
    with z have "zs = map uint (regs[d := w])" by (simp add: map_update)
    then show ?thesis using assms(2) by (intro exI [of _ "regs[d := w]"]) simp
  qed (use assms(2) in blast)
qed

lemma exec_instruction_exact:
  assumes "length regs = 4"
  shows "exec_instruction c step i regs = Inr regs' \<longleftrightarrow>
    length regs' = 4 \<and> exact_step c i (map uint regs) = Some (map uint regs')"
proof -
  let ?k = "predicate_code (pred_source (ins_predicate i))" and ?d = "register_code (ins_destination i)"
  let ?p = "predicates c regs ! ?k"
  let ?l = "operands c regs (ins_immediate i) ! operand_code (ins_left i)"
    and ?r = "operands c regs (ins_immediate i) ! operand_code (ins_right i)"
  let ?ev = "exact_eval (ins_opcode i) (uint ?l) (uint ?r) (uint (regs ! ?d))"
  have p: "exact_predicates c (map uint regs) ! ?k = uint ?p"
    using predicate_code_lt by (simp add: exact_predicates_uint [OF assms])
  have ops: "exact_operands c (map uint regs) (ins_immediate i) ! operand_code x = uint (operands c regs (ins_immediate i) ! operand_code x)" for x
    using operand_code_lt by (simp add: exact_operands_uint [OF assms])
  have nonbool: "?p > 1 \<longleftrightarrow> uint ?p \<noteq> 0 \<and> uint ?p \<noteq> 1" and one: "?p = 1 \<longleftrightarrow> uint ?p = 1"
    by (rule word_gt_1_iff) (simp add: word_uint_eq_iff)
  have old: "map uint regs ! ?d = uint (regs ! ?d)"
    using register_code_lt assms by simp
  have eval: "rbind (eval_opcode (ins_opcode i) step ?l ?r (regs ! ?d)) (\<lambda>v. Inr (regs[?d := v])) = Inr regs' \<longleftrightarrow>
      (\<exists>v. exact_eval (ins_opcode i) (uint ?l) (uint ?r) (uint (regs ! ?d)) = Some (uint v) \<and> regs' = regs[?d := v])"
    by (auto simp: rbind_eq_Inr eval_opcode_exact)
  have inj: "map uint xs = map uint ys \<longleftrightarrow> xs = (ys :: u64 list)" for xs ys
    by (intro inj_map_eq_map injI) (simp add: word_uint_eq_iff)
  show ?thesis
  proof (cases "uint ?p \<noteq> 0 \<and> uint ?p \<noteq> 1")
    case True
    then show ?thesis by (simp add: exec_instruction_def exact_step_def Let_def p nonbool)
  next
    case bool: False
    show ?thesis
    proof (cases "(uint ?p = 1) = pred_inverted (ins_predicate i)")
      case True
      then show ?thesis
        using bool assms inj [of regs regs']
        by (auto simp: exec_instruction_def exact_step_def Let_def p nonbool one)
    next
      case False
      have "exec_instruction c step i regs = Inr regs' \<longleftrightarrow>
          (\<exists>v. exact_eval (ins_opcode i) (uint ?l) (uint ?r) (uint (regs ! ?d)) = Some (uint v) \<and> regs' = regs[?d := v])"
        unfolding eval [symmetric] using bool False by (auto simp: exec_instruction_def Let_def nonbool one)
      also have "\<dots> \<longleftrightarrow> (\<exists>z. exact_eval (ins_opcode i) (uint ?l) (uint ?r) (uint (regs ! ?d)) = Some z \<and> in_u64 z \<and>
          length regs' = 4 \<and> map uint regs' = (map uint regs)[?d := z])"
      proof
        assume "\<exists>v. ?ev = Some (uint v) \<and> regs' = regs[?d := v]"
        then obtain v where "?ev = Some (uint v)" "regs' = regs[?d := v]" by blast
        then show "\<exists>z. ?ev = Some z \<and> in_u64 z \<and> length regs' = 4 \<and> map uint regs' = (map uint regs)[?d := z]"
          using assms by (intro exI [of _ "uint v"]) (simp add: map_update)
      next
        assume "\<exists>z. ?ev = Some z \<and> in_u64 z \<and> length regs' = 4 \<and> map uint regs' = (map uint regs)[?d := z]"
        then obtain z where z: "?ev = Some z" "in_u64 z" "map uint regs' = (map uint regs)[?d := z]" by blast
        then obtain v :: u64 where v: "z = uint v" using in_u64_lift by blast
        with z(3) have "regs' = regs[?d := v]" by (simp add: inj flip: map_update)
        then show "\<exists>v. ?ev = Some (uint v) \<and> regs' = regs[?d := v]" using z v by blast
      qed
      also have "\<dots> \<longleftrightarrow> length regs' = 4 \<and> exact_step c i (map uint regs) = Some (map uint regs')"
        using bool False by (auto simp: exact_step_def Let_def p ops old split: option.splits)
      finally show ?thesis .
    qed
  qed
qed

subsection \<open>Whole programs\<close>

lemma program_validate_iff: "program_validate p = Inr () \<longleftrightarrow> (\<forall>fs \<in> set p. from_fields fs \<noteq> None)"
  by (simp add: program_validate_def for_each_enumerate all_set_conv_all_nth)

lemma exec_steps_exact:
  assumes "list_all2 (\<lambda>fs i. from_fields fs = Some i) p is" "length regs = 4"
  shows "rfold (exec_step c) regs (enumerate k p) = Inr regs' \<longleftrightarrow>
    length regs' = 4 \<and> exact_run c is (map uint regs) = Some (map uint regs')"
  using assms
proof (induction p "is" arbitrary: regs k rule: list_all2_induct)
  case Nil
  have "inj (uint :: u64 \<Rightarrow> int)" by (intro injI) (simp add: word_uint_eq_iff)
  then show ?case using Nil by (auto simp: inj_map_eq_map)
next
  case (Cons fs p i "is")
  have step: "exec_step c regs (k, fs) = exec_instruction c k i regs"
    using Cons by (simp add: exec_step_def)
  show ?case
  proof
    assume "rfold (exec_step c) regs (enumerate k (fs # p)) = Inr regs'"
    then obtain t where t: "exec_instruction c k i regs = Inr t" "rfold (exec_step c) t (enumerate (Suc k) p) = Inr regs'"
      by (auto simp: rbind_eq_Inr step)
    then show "length regs' = 4 \<and> exact_run c (i # is) (map uint regs) = Some (map uint regs')"
      using Cons by (auto simp: exec_instruction_exact)
  next
    assume run: "length regs' = 4 \<and> exact_run c (i # is) (map uint regs) = Some (map uint regs')"
    then obtain zs where zs: "exact_step c i (map uint regs) = Some zs" "exact_run c is zs = Some (map uint regs')"
      by (auto simp: bind_eq_Some_conv)
    have "\<exists>t :: u64 list. zs = map uint t \<and> length t = 4"
      using exact_step_range [OF zs(1)] Cons.prems by blast
    then obtain t :: "u64 list" where t: "zs = map uint t" "length t = 4" by blast
    then have "exec_instruction c k i regs = Inr t"
      using zs(1) Cons.prems by (simp add: exec_instruction_exact)
    then show "rfold (exec_step c) regs (enumerate k (fs # p)) = Inr regs'"
      using Cons.IH [OF t(2), of "Suc k"] zs(2) run t by (simp add: step)
  qed
qed


lemma execute_exact:
  assumes "list_all2 (\<lambda>fs i. from_fields fs = Some i) p is"
  shows "execute p current c = Inr next \<longleftrightarrow>
    (\<exists>x y. exact_run c is [uint (fst (unpack_state current)), uint (snd (unpack_state current)), 0, 0]
        = Some [uint (fst (unpack_state next)), uint (snd (unpack_state next)), x, y] \<and> in_u64 x \<and> in_u64 y)"
proof -
  obtain s0 s1 where s: "unpack_state current = (s0, s1)" by fastforce
  have v: "program_validate p = Inr ()"
    using assms by (auto simp: program_validate_iff list_all2_conv_all_nth all_set_conv_all_nth)
  have "execute p current c = Inr next \<longleftrightarrow>
      (\<exists>regs. rfold (exec_step c) [s0, s1, 0, 0] (enumerate 0 p) = Inr regs \<and> pack_state (regs ! 0, regs ! 1) = next)"
    by (auto simp: execute_def v s rbind_eq_Inr)
  also have "\<dots> \<longleftrightarrow> (\<exists>regs. length regs = 4 \<and> exact_run c is [uint s0, uint s1, 0, 0] = Some (map uint regs)
      \<and> unpack_state next = (regs ! 0, regs ! 1))"
    using exec_steps_exact [OF assms, of "[s0, s1, 0, 0]" c 0]
    by (auto simp: ) (metis pack_unpack_state unpack_pack_state)+
  also have "\<dots> \<longleftrightarrow> (\<exists>x y. exact_run c is [uint s0, uint s1, 0, 0]
        = Some [uint (fst (unpack_state next)), uint (snd (unpack_state next)), x, y] \<and> in_u64 x \<and> in_u64 y)"
    (is "?L \<longleftrightarrow> ?R")
  proof
    assume ?L
    then obtain regs where r: "length regs = 4" "exact_run c is [uint s0, uint s1, 0, 0] = Some (map uint regs)"
      "unpack_state next = (regs ! 0, regs ! 1)" by blast
    then obtain a b x y where "regs = [a, b, x, y]" by (auto simp: numeral_eq_Suc length_Suc_conv)
    with r show ?R by (intro exI [of _ "uint x"] exI [of _ "uint y"]) simp
  next
    assume ?R
    then obtain x y where r: "exact_run c is [uint s0, uint s1, 0, 0]
        = Some [uint (fst (unpack_state next)), uint (snd (unpack_state next)), x, y]" "in_u64 x" "in_u64 y" by blast
    then obtain x' y' :: u64 where "x = uint x'" "y = uint y'" using in_u64_lift by metis
    with r show ?L
      by (intro exI [of _ "[fst (unpack_state next), snd (unpack_state next), x', y']"]) simp
  qed
  finally show ?thesis by (simp add: s)
qed


subsection \<open>Programs given as instruction lists\<close>

lemma zero_fields: "(0, 0) = to_fields KEEP_INSTRUCTION"
  by (simp add: KEEP_INSTRUCTION_def to_fields_def instruction_new_def PRED_ALWAYS_def bool_word_def widen_def)

lemma exec_keep: "exec_instruction c k KEEP_INSTRUCTION regs = Inr regs"
  by (simp add: exec_instruction_def KEEP_INSTRUCTION_def instruction_new_def PRED_ALWAYS_def predicates_def Let_def)

lemma rfold_keep:
  "rfold (\<lambda>regs (k, i). exec_instruction c k i regs) regs (enumerate n (replicate m KEEP_INSTRUCTION)) = Inr regs"
  by (induction m arbitrary: n) (simp_all add: exec_keep)

lemma rfold_encoded:
  "rfold (exec_step c) regs (enumerate n (map to_fields is)) =
     rfold (\<lambda>regs (k, i). exec_instruction c k i regs) regs (enumerate n is)"
proof (induction "is" arbitrary: n regs)
  case (Cons i "is")
  then show ?case by (cases "exec_instruction c n i regs") (simp_all add: exec_step_def)
qed simp

lemma execute_encoded:
  "execute (map to_fields is @ replicate m (0, 0)) current c =
     rbind (run_instructions c is [fst (unpack_state current), snd (unpack_state current), 0, 0])
       (\<lambda>regs. Inr (pack_state (regs ! 0, regs ! 1)))"
proof -
  let ?r = "[fst (unpack_state current), snd (unpack_state current), 0, 0]"
  have p: "map to_fields is @ replicate m (0, 0) = map to_fields (is @ replicate m KEEP_INSTRUCTION)"
    by (simp add: zero_fields)
  have "program_validate (map to_fields (is @ replicate m KEEP_INSTRUCTION)) = Inr ()"
    unfolding program_validate_iff by (auto simp del: map_append)
  moreover have "rfold (exec_step c) ?r (enumerate 0 (map to_fields (is @ replicate m KEEP_INSTRUCTION))) = run_instructions c is ?r"
    unfolding rfold_encoded run_instructions_def enumerate_append_eq rfold_append
    by (cases "rfold (\<lambda>regs (k, i). exec_instruction c k i regs) ?r (enumerate 0 is)") (simp_all add: rfold_keep)
  ultimately show ?thesis
    unfolding p execute_def by (simp add: case_prod_unfold Let_def)
qed

lemma execute_empty: "execute EMPTY_PROGRAM current c = Inr current"
  using execute_encoded [of "[]" PROGRAM_STEPS current c]
  by (simp add: EMPTY_PROGRAM_def run_instructions_def)

lemma encoded_programs_valid: "fs \<in> set (map to_fields is @ replicate m (0, 0)) \<Longrightarrow> from_fields fs \<noteq> None"
  by (auto simp: zero_fields)

subsection \<open>Errors\<close>

lemma nth_enumerate_0: "k < length p \<Longrightarrow> enumerate 0 p ! k = (k, p ! k)"
  by (simp add: nth_enumerate_eq)

lemma eval_opcode_fault:
  "eval_opcode op k l r old = Inl e \<longleftrightarrow> eval_fault op k (uint l) (uint r) = Some e"
proof (cases op)
  case Add
  have "2 ^ 64 \<le> unat l + unat r \<longleftrightarrow> 2 ^ 64 \<le> uint l + uint r"
    unfolding uint_eq_unat using of_nat_le_iff [of "2 ^ 64" "unat l + unat r", where ?'a = int] by simp
  then show ?thesis using Add by (auto simp: ok_or_eq_Inl checked_add_eq_None)
next
  case Subtract
  have "unat l < unat r \<longleftrightarrow> uint l - uint r < 0"
    unfolding uint_eq_unat by linarith
  then show ?thesis using Subtract by (auto simp: ok_or_eq_Inl checked_sub_eq_None)
qed (auto simp: word_uint_eq_iff word_less_def)

lemma exec_instruction_fault:
  assumes "length regs = 4"
  shows "exec_instruction c k i regs = Inl e \<longleftrightarrow> exact_fault c k i (map uint regs) = Some e"
proof -
  let ?k = "predicate_code (pred_source (ins_predicate i))"
  let ?p = "predicates c regs ! ?k"
  have p: "exact_predicates c (map uint regs) ! ?k = uint ?p"
    using predicate_code_lt by (simp add: exact_predicates_uint [OF assms])
  have ops: "exact_operands c (map uint regs) (ins_immediate i) ! operand_code x = uint (operands c regs (ins_immediate i) ! operand_code x)" for x
    using operand_code_lt by (simp add: exact_operands_uint [OF assms])
  have nonbool: "?p > 1 \<longleftrightarrow> uint ?p \<noteq> 0 \<and> uint ?p \<noteq> 1" and one: "uint ?p = 1 \<longleftrightarrow> ?p = 1"
    by (rule word_gt_1_iff) (simp add: word_uint_eq_iff)
  show ?thesis
    unfolding exec_instruction_def exact_fault_def Let_def p ops nonbool
    by (simp add: one rbind_eq_Inl eval_opcode_fault)
qed

lemma exact_run_range:
  assumes "exact_run c is (map uint (regs :: u64 list)) = Some zs" "length regs = 4"
  shows "\<exists>t :: u64 list. zs = map uint t \<and> length t = 4"
  using assms
proof (induction "is" arbitrary: regs)
  case (Cons i "is")
  then show ?case using exact_step_range [of c i regs] by (auto simp: bind_eq_Some_conv)
qed auto

lemma take_enumerate0: "take k (enumerate n xs) = enumerate n (take k xs)"
  by (cases "k \<le> length xs") (simp_all add: enumerate_eq_zip take_zip take_upt)

lemma exec_steps_fault:
  assumes "list_all2 (\<lambda>fs i. from_fields fs = Some i) p is" "length regs = 4"
  shows "rfold (exec_step c) regs (enumerate 0 p) = Inl e \<longleftrightarrow>
    (\<exists>k < length p. \<exists>zs. exact_run c (take k is) (map uint regs) = Some zs \<and> exact_fault c k (is ! k) zs = Some e)"
proof -
  have run: "rfold (exec_step c) regs (take k (enumerate 0 p)) = Inr t \<longleftrightarrow>
      length t = 4 \<and> exact_run c (take k is) (map uint regs) = Some (map uint t)" for k t
    using exec_steps_exact [OF list_all2_takeI [OF assms(1)] assms(2), of c 0] unfolding take_enumerate0 .
  have step: "exec_step c t (enumerate 0 p ! k) = exec_instruction c k (is ! k) t" if "k < length p" for k t
    using assms(1) that by (simp add: nth_enumerate_0 exec_step_def list_all2_conv_all_nth)
  have "(\<exists>t. rfold (exec_step c) regs (take k (enumerate 0 p)) = Inr t \<and> exec_step c t (enumerate 0 p ! k) = Inl e) \<longleftrightarrow>
      (\<exists>zs. exact_run c (take k is) (map uint regs) = Some zs \<and> exact_fault c k (is ! k) zs = Some e)"
    if "k < length p" for k
    unfolding run step [OF that] using exact_run_range [OF _ assms(2), of c "take k is"]
    by (fastforce simp: exec_instruction_fault)
  then show ?thesis unfolding rfold_eq_Inl length_enumerate by blast
qed

lemma validate_error_iff:
  "program_validate p = Inl e \<longleftrightarrow>
     (\<exists>k < length p. (\<forall>j < k. from_fields (p ! j) \<noteq> None) \<and> from_fields (p ! k) = None \<and> e = Encoding k)"
  by (auto simp: program_validate_def for_each_eq_Inl nth_enumerate_0)

lemma decodes_iff:
  "(\<exists>is. list_all2 (\<lambda>fs i. from_fields fs = Some i) p is) \<longleftrightarrow> (\<forall>fs \<in> set p. from_fields fs \<noteq> None)"
  by (induction p) (auto simp: list_all2_Cons1)

section \<open>Properties\<close>

text \<open>The instruction encoding is canonical: a pair of field elements decodes to an
  instruction exactly when it is the encoding of that instruction, so decoding inverts
  encoding and no second bit pattern stands for the same instruction.\<close>

theorem instruction_encoding_canonical: "from_fields fs = Some i \<longleftrightarrow> fs = to_fields i"
  by (metis from_to_fields to_from_fields)

text \<open>C7: For a well-encoded program, \<open>execute\<close> returns a next state exactly when the same
  program over unbounded integers, stopped at any step that leaves the 64-bit range,
  fails an assertion or branches on a non-boolean, reaches that state; so no addition or
  subtraction of a contract ever wraps around.\<close>

theorem execute_matches_exact_machine:
  assumes "list_all2 (\<lambda>fs i. from_fields fs = Some i) p is"
  shows "execute p current c = Inr next \<longleftrightarrow>
    (\<exists>x y. exact_run c is [uint (fst (unpack_state current)), uint (snd (unpack_state current)), 0, 0]
        = Some [uint (fst (unpack_state next)), uint (snd (unpack_state next)), x, y] \<and> in_u64 x \<and> in_u64 y)"
  by (rule execute_exact [OF assms])

theorem execute_matches_exact_machine_witness:
  "\<forall>c. execute [to_fields (instruction_new Add R_State0 O_State0 O_Immediate 5)] (pack_state (7, 3)) c
     = Inr (pack_state (12, 3))"
proof
  fix c :: exec_context
  let ?i = "instruction_new Add R_State0 O_State0 O_Immediate 5"
  have "list_all2 (\<lambda>fs i. from_fields fs = Some i) [to_fields ?i] [?i]" by simp
  moreover have "exact_run c [?i] [7, 3, 0, 0] = Some [12, 3, 0, 0]"
    by (simp add: exact_step_def exact_predicates_def exact_operands_def operands_def instruction_new_def
        PRED_ALWAYS_def in_u64_def)
  ultimately show "execute [to_fields ?i] (pack_state (7, 3)) c = Inr (pack_state (12, 3))"
    using execute_matches_exact_machine [of "[to_fields ?i]" "[?i]" "pack_state (7, 3)" c "pack_state (12, 3)"]
    by (simp add: in_u64_def)
qed

text \<open>C21: \<open>execute\<close> fails with an error exactly when that error is due.  Either the program
  has an undecodable instruction and the error is \<open>Encoding\<close> with the index of the first
  one, before anything runs; or every instruction decodes, the instructions before some
  step run on the machine over unbounded integers, and at that step the predicate is
  neither 0 nor 1 (\<open>NonBooleanPredicate\<close>), or the step is enabled and its sum reaches
  \<open>2 ^ 64\<close> (\<open>Overflow\<close>), its difference is negative (\<open>Underflow\<close>) or its assertion is
  false (\<open>Assertion\<close>), and the error carries that step's index.\<close>

theorem execute_error_exact:
  "execute p current c = Inl e \<longleftrightarrow>
    (\<exists>k < length p. (\<forall>j < k. from_fields (p ! j) \<noteq> None) \<and> from_fields (p ! k) = None \<and> e = Encoding k) \<or>
    (\<exists>is. list_all2 (\<lambda>fs i. from_fields fs = Some i) p is \<and>
      (\<exists>k < length p. \<exists>regs.
        exact_run c (take k is) [uint (fst (unpack_state current)), uint (snd (unpack_state current)), 0, 0] = Some regs \<and>
        exact_fault c k (is ! k) regs = Some e))"
proof (cases "program_validate p")
  case (Inl e')
  then have "\<not> (\<exists>is. list_all2 (\<lambda>fs i. from_fields fs = Some i) p is)"
    unfolding decodes_iff program_validate_iff [symmetric] by simp
  moreover have "execute p current c = Inl e \<longleftrightarrow> program_validate p = Inl e"
    using Inl by (simp add: execute_def)
  ultimately show ?thesis unfolding validate_error_iff by blast
next
  case (Inr u)
  then have "program_validate p = Inr ()" by simp
  then obtain "is" where dec: "list_all2 (\<lambda>fs i. from_fields fs = Some i) p is"
    unfolding program_validate_iff decodes_iff [symmetric] by blast
  have uniq: "is' = is" if "list_all2 (\<lambda>fs i. from_fields fs = Some i) p is'" for is'
    using dec that by (intro nth_equalityI) (auto simp: list_all2_conv_all_nth)
  have "\<not> (\<exists>k < length p. (\<forall>j < k. from_fields (p ! j) \<noteq> None) \<and> from_fields (p ! k) = None \<and> e = Encoding k)"
    using Inr validate_error_iff [of p e] by simp
  moreover have "execute p current c = Inl e \<longleftrightarrow>
      rfold (exec_step c) [fst (unpack_state current), snd (unpack_state current), 0, 0] (enumerate 0 p) = Inl e"
    using Inr by (auto simp: execute_def rbind_eq_Inl case_prod_unfold Let_def)
  moreover note exec_steps_fault [OF dec, of "[fst (unpack_state current), snd (unpack_state current), 0, 0]" c e, simplified]
  ultimately show ?thesis using dec uniq by blast
qed

theorem execute_error_exact_witness:
  "\<forall>c. execute [to_fields (instruction_new Add R_State0 O_State0 O_Immediate 5),
                to_fields (instruction_new Subtract R_State1 O_State1 O_State0 0)] (pack_state (7, 10)) c
     = Inl (Underflow 1)"
proof
  fix c :: exec_context
  let ?i = "instruction_new Add R_State0 O_State0 O_Immediate 5"
    and ?j = "instruction_new Subtract R_State1 O_State1 O_State0 0"
  have "list_all2 (\<lambda>fs i. from_fields fs = Some i) [to_fields ?i, to_fields ?j] [?i, ?j]" by simp
  moreover have "exact_run c (take 1 [?i, ?j]) [7, 10, 0, 0] = Some [12, 10, 0, 0]"
    by (simp add: exact_step_def exact_predicates_def exact_operands_def operands_def instruction_new_def
        PRED_ALWAYS_def in_u64_def)
  moreover have "exact_fault c 1 ([?i, ?j] ! 1) [12, 10, 0, 0] = Some (Underflow 1)"
    by (simp add: exact_fault_def exact_predicates_def exact_operands_def operands_def instruction_new_def PRED_ALWAYS_def)
  ultimately show "execute [to_fields ?i, to_fields ?j] (pack_state (7, 10)) c = Inl (Underflow 1)"
    unfolding execute_error_exact
    by (intro disjI2 exI [of _ "[?i, ?j]"] conjI exI [of _ "1 :: nat"] exI [of _ "[12, 10, 0, 0]"]) simp_all
qed
end
