(* ===== verification/ContractObject.thy ===== *)
theory ContractObject
imports IntegerProgram
begin

section \<open>Contract objects\<close>

text \<open>
  \<open>noid_tx/src/experimental_object.rs\<close> and \<open>experimental_object/policy.rs\<close>: the
  opening of a contract object (program, state, authorities, deadline, recipients
  and spending rules), its root commitment, the admission check of a call, the
  builders of calls and payments, and the byte formats of openings and intents.
  \<open>perm\<close> is the hash permutation and \<open>pick\<close> the slot choice of the page validation.
  An \<open>ObjectError::Page\<close> carries the page error itself instead of its rendering.
\<close>

definition BODY_CONTEXT_FIELDS :: nat where "BODY_CONTEXT_FIELDS = 8"
definition OBJECT_VERSION :: u16 where "OBJECT_VERSION = 3"
definition OPENING_MAGIC :: bytes where "OPENING_MAGIC = ascii ''NOIDOBJ3''"
definition INTENT_MAGIC :: bytes where "INTENT_MAGIC = ascii ''NOIDV2TX''"
definition RULE_BYTES :: nat where "RULE_BYTES = 8 + 8 + 8 + 1"
definition OPENING_BYTES :: nat where
  "OPENING_BYTES = 8 + 2 + PROGRAM_STEPS * 32 + 16 + 4 * 32 + 8 + RULE_BYTES"
definition INTENT_PREFIX_BYTES :: nat where "INTENT_PREFIX_BYTES = length INTENT_MAGIC + OPENING_BYTES"
definition MAX_INTENT_BYTES :: nat where
  "MAX_INTENT_BYTES = INTENT_PREFIX_BYTES + 7 + TX_BODY_WIRE_SIZE + MAX_TX_AUTHORIZATION_BYTES"

datatype object_error =
    OE_Encoding
  | OE_Version
  | OE_Opcode nat
  | OE_Shape
  | OE_OldObject
  | OE_Successor
  | OE_Recipient
  | OE_Balance
  | OE_Policy
  | OE_FeeLimit
  | OE_ReserveLimit
  | OE_PayoutLimit
  | OE_Program program_error
  | OE_Page paged_spend_error

subsection \<open>Spending rules\<close>

definition CLAIM_CONTINUE :: u8 where "CLAIM_CONTINUE = 1"
definition CLAIM_CLOSE :: u8 where "CLAIM_CLOSE = 2"
definition RECOVERY_CONTINUE :: u8 where "RECOVERY_CONTINUE = 4"
definition RECOVERY_CLOSE :: u8 where "RECOVERY_CLOSE = 8"
definition ANY_PAYOUT_RECIPIENT :: u8 where "ANY_PAYOUT_RECIPIENT = 16"
definition VALID_MODES :: u8 where "VALID_MODES = 31"

record object_rules =
  max_fee :: u64
  min_retained :: u64
  max_payout :: u64
  modes :: u8

definition rules_validate :: "object_rules \<Rightarrow> object_error + unit" where
  "rules_validate r = ensure (and (modes r) (not VALID_MODES) = 0) OE_Policy"

definition rules_fields :: "object_rules \<Rightarrow> block128 list" where
  "rules_fields r = [widen (max_fee r), widen (min_retained r), widen (max_payout r), ucast (modes r)]"

definition mode_bit :: "bool \<Rightarrow> bool \<Rightarrow> u8" where
  "mode_bit before_deadline terminal =
     (if before_deadline then (if terminal then CLAIM_CLOSE else CLAIM_CONTINUE)
      else (if terminal then RECOVERY_CLOSE else RECOVERY_CONTINUE))"

definition permits :: "object_rules \<Rightarrow> bool \<Rightarrow> bool \<Rightarrow> bool" where
  "permits r before_deadline terminal \<longleftrightarrow> and (modes r) (mode_bit before_deadline terminal) \<noteq> 0"

subsection \<open>Openings\<close>

record object_opening =
  oo_program :: program
  oo_state :: block128
  oo_claim_authority :: address
  oo_recovery_authority :: address
  oo_deadline :: u64
  oo_claim_recipient :: address
  oo_recovery_recipient :: address
  oo_rules :: object_rules

definition opening_typed :: "object_opening \<Rightarrow> bool" where
  "opening_typed o1 \<longleftrightarrow> length (oo_program o1) = PROGRAM_STEPS"

record checked_transition =
  ct_next :: block128
  ct_contexts :: "block128 list"
  ct_authority :: address
  ct_terminal :: bool

definition opening_validate :: "object_opening \<Rightarrow> object_error + unit" where
  "opening_validate o1 =
     rbind (rules_validate (oo_rules o1)) (\<lambda>_.
     for_each (\<lambda>(step, fs). ensure (from_fields fs \<noteq> None) (OE_Opcode step)) (enumerate 0 (oo_program o1)))"

definition absorb_pairs :: "permutation \<Rightarrow> (block128 \<times> block128) list \<Rightarrow> sponge \<Rightarrow> sponge" where
  "absorb_pairs perm ps s = foldl (\<lambda>s (a, b). absorb_pair perm a b s) s ps"

definition code_id :: "permutation \<Rightarrow> object_opening \<Rightarrow> digest" where
  "code_id perm o1 =
     finalize_no_pad (absorb_pairs perm (oo_program o1) (with_iv (capacity_iv (ascii ''CNTCODE_''))))"

definition policy_pairs :: "permutation \<Rightarrow> object_opening \<Rightarrow> (block128 \<times> block128) list" where
  "policy_pairs perm o1 =
     (let code = code_id perm o1; claim = oo_claim_authority o1; recovery = oo_recovery_authority o1;
          recipient = oo_claim_recipient o1; refund = oo_recovery_recipient o1; rules = rules_fields (oo_rules o1)
      in [(lo_half code, hi_half code),
          (widen (oo_deadline o1), lo_half claim),
          (hi_half claim, lo_half recovery),
          (hi_half recovery, lo_half recipient),
          (hi_half recipient, lo_half refund),
          (hi_half refund, ucast OBJECT_VERSION),
          (rules ! 0, rules ! 1),
          (rules ! 2, rules ! 3)])"

definition opening_root :: "permutation \<Rightarrow> object_opening \<Rightarrow> address" where
  "opening_root perm o1 =
     (let policy = finalize_no_pad (absorb_pairs perm (policy_pairs perm o1) (with_iv (capacity_iv (ascii ''CNTPOL__''))))
      in finalize_no_pad (absorb_pairs perm [(lo_half policy, hi_half policy), (oo_state o1, 0)]
           (with_iv (capacity_iv (ascii ''CNTOBJ__'')))))"

definition authority_at :: "object_opening \<Rightarrow> u64 \<Rightarrow> address" where
  "authority_at o1 height = (if height < oo_deadline o1 then oo_claim_authority o1 else oo_recovery_authority o1)"

definition recipient_at :: "object_opening \<Rightarrow> u64 \<Rightarrow> address" where
  "recipient_at o1 height = (if height < oo_deadline o1 then oo_claim_recipient o1 else oo_recovery_recipient o1)"

definition successor :: "object_opening \<Rightarrow> block128 \<Rightarrow> object_opening" where
  "successor o1 next = o1\<lparr>oo_state := next\<rparr>"

definition map_program_error :: "program_error + 'a \<Rightarrow> object_error + 'a" where
  "map_program_error r = (case r of Inl e \<Rightarrow> Inl (OE_Program e) | Inr x \<Rightarrow> Inr x)"

definition map_page_error :: "paged_spend_error + 'a \<Rightarrow> object_error + 'a" where
  "map_page_error r = (case r of Inl e \<Rightarrow> Inl (OE_Page e) | Inr x \<Rightarrow> Inr x)"

definition opening_execute :: "object_opening \<Rightarrow> tx_body \<Rightarrow> u64 \<Rightarrow> object_error + block128" where
  "opening_execute o1 b height =
     rbind (opening_validate o1) (\<lambda>_.
     map_program_error (execute (oo_program o1) (oo_state o1) (context_from_body b height (oo_deadline o1))))"

definition transaction_contexts :: "tx_body \<Rightarrow> block128 list" where
  "transaction_contexts b =
     (let leaves = body_hash_leaves b
      in [fst (leaves ! 0), snd (leaves ! 0), fst (leaves ! 1), snd (leaves ! 11), snd (leaves ! 13),
          fst (leaves ! 14), snd (leaves ! 14), fst (leaves ! 15)])"

subsection \<open>Admission of a call\<close>

definition call_base_bitmap :: u16 where
  "call_base_bitmap =
     or 1 (or (output_bitmap_bit 0) (or PAGED_SPEND_START_BIT (or PAGED_SPEND_END_BIT PAGED_SPEND_CONTRACT_BIT)))"

definition is_terminal :: "tx_body \<Rightarrow> bool" where
  "is_terminal b \<longleftrightarrow> and (tx_validity_bitmap b) PAGED_SPEND_TERMINAL_BIT \<noteq> 0"

definition has_payout :: "tx_body \<Rightarrow> bool" where
  "has_payout b \<longleftrightarrow> and (tx_validity_bitmap b) (output_bitmap_bit 1) \<noteq> 0"

definition check_limits :: "object_opening \<Rightarrow> tx_body \<Rightarrow> u64 \<Rightarrow> object_error + unit" where
  "check_limits o1 b height =
     (if is_terminal b then Inr ()
      else rbind (ensure (out_amount (tx_outputs b ! 0) \<ge> min_retained (oo_rules o1)) OE_ReserveLimit) (\<lambda>_.
           rbind (ensure (out_amount (tx_outputs b ! 1) \<le> max_payout (oo_rules o1)) OE_PayoutLimit) (\<lambda>_.
           ensure (\<not> (has_payout b \<and> and (modes (oo_rules o1)) ANY_PAYOUT_RECIPIENT = 0 \<and>
                      out_owner (tx_outputs b ! 1) \<noteq> recipient_at o1 height)) OE_Recipient)))"

definition check_call ::
  "permutation \<Rightarrow> (u32 set \<Rightarrow> u32) \<Rightarrow> object_opening \<Rightarrow> tx_page \<Rightarrow> u64 \<Rightarrow> object_error + checked_transition" where
  "check_call perm pick o1 page height =
     rbind (opening_validate o1) (\<lambda>_.
     rbind (map_page_error (validate_paged_spend perm pick [page])) (\<lambda>_.
     let terminal = is_terminal page;
         expected = or call_base_bitmap (if terminal then PAGED_SPEND_TERMINAL_BIT
                                         else and (tx_validity_bitmap page) (output_bitmap_bit 1))
     in
     rbind (ensure (\<not> tx_is_coinbase page \<and> tx_validity_bitmap page = expected) OE_Shape) (\<lambda>_.
     rbind (ensure (tx_input_owner page = opening_root perm o1) OE_OldObject) (\<lambda>_.
     rbind (ensure (permits (oo_rules o1) (height < oo_deadline o1) terminal) OE_Policy) (\<lambda>_.
     rbind (ensure (tx_fee page \<le> max_fee (oo_rules o1)) OE_FeeLimit) (\<lambda>_.
     rbind (check_limits o1 page height) (\<lambda>_.
     rbind (opening_execute o1 page height) (\<lambda>next.
     rbind (if terminal then ensure (out_owner (tx_outputs page ! 0) = recipient_at o1 height) OE_Recipient
            else ensure (out_owner (tx_outputs page ! 0) = opening_root perm (successor o1 next)) OE_Successor) (\<lambda>_.
     Inr \<lparr>ct_next = next, ct_contexts = transaction_contexts page, ct_authority = authority_at o1 height,
          ct_terminal = terminal\<rparr>)))))))))"

subsection \<open>Building calls\<close>

definition call_body ::
  "permutation \<Rightarrow> object_opening \<Rightarrow> tx_input \<Rightarrow> u32 \<Rightarrow> u64 \<Rightarrow> u64 \<Rightarrow> digest \<Rightarrow> bool \<Rightarrow> tx_output option \<Rightarrow> tx_body" where
  "call_body perm o1 inp output_slot retained fee epoch_anchor terminal payout =
     \<lparr>tx_epoch_anchor = epoch_anchor, tx_fee = fee, tx_input_owner = opening_root perm o1,
      tx_inputs = (replicate TX_INPUTS dummy_input)[0 := inp],
      tx_outputs = [\<lparr>out_slot_index = output_slot, out_amount = retained, out_owner = 0\<rparr>,
                    case payout of None \<Rightarrow> dummy_output | Some out \<Rightarrow> out],
      tx_validity_bitmap = or call_base_bitmap (or (if payout \<noteq> None then output_bitmap_bit 1 else 0)
                             (if terminal then PAGED_SPEND_TERMINAL_BIT else 0)),
      tx_is_coinbase = False\<rparr>"

definition set_output0_owner :: "tx_body \<Rightarrow> address \<Rightarrow> tx_body" where
  "set_output0_owner b owner = b\<lparr>tx_outputs := (tx_outputs b)[0 := (tx_outputs b ! 0)\<lparr>out_owner := owner\<rparr>]\<rparr>"

definition build_call_inner ::
  "permutation \<Rightarrow> (u32 set \<Rightarrow> u32) \<Rightarrow> object_opening \<Rightarrow> tx_input \<Rightarrow> u32 \<Rightarrow> u64 \<Rightarrow> digest \<Rightarrow> u64 \<Rightarrow> bool \<Rightarrow>
     tx_output option \<Rightarrow> object_error + tx_page" where
  "build_call_inner perm pick o1 inp output_slot fee epoch_anchor height terminal payout =
     rbind (opening_validate o1) (\<lambda>_.
     rbind (ok_or OE_Balance (Option.bind (checked_sub (in_amount inp) fee)
              (\<lambda>a. checked_sub a (case payout of None \<Rightarrow> 0 | Some out \<Rightarrow> out_amount out)))) (\<lambda>retained.
     let b = call_body perm o1 inp output_slot retained fee epoch_anchor terminal payout in
     rbind (if terminal then Inr (recipient_at o1 height)
            else rbind (opening_execute o1 b height) (\<lambda>next. Inr (opening_root perm (successor o1 next)))) (\<lambda>owner.
     rbind (map_page_error (tx_page_new (set_output0_owner b owner))) (\<lambda>page.
     rbind (check_call perm pick o1 page height) (\<lambda>_. Inr page)))))"

definition build_call ::
  "permutation \<Rightarrow> (u32 set \<Rightarrow> u32) \<Rightarrow> object_opening \<Rightarrow> tx_input \<Rightarrow> u32 \<Rightarrow> u64 \<Rightarrow> digest \<Rightarrow> u64 \<Rightarrow> bool \<Rightarrow>
     object_error + tx_page" where
  "build_call perm pick o1 inp output_slot fee epoch_anchor height terminal =
     build_call_inner perm pick o1 inp output_slot fee epoch_anchor height terminal None"

definition build_payment ::
  "permutation \<Rightarrow> (u32 set \<Rightarrow> u32) \<Rightarrow> object_opening \<Rightarrow> tx_input \<Rightarrow> u32 \<Rightarrow> u64 \<Rightarrow> digest \<Rightarrow> u64 \<Rightarrow> tx_output \<Rightarrow>
     object_error + tx_page" where
  "build_payment perm pick o1 inp successor_slot fee epoch_anchor height payout =
     build_call_inner perm pick o1 inp successor_slot fee epoch_anchor height False (Some payout)"

definition funding_output :: "permutation \<Rightarrow> object_opening \<Rightarrow> u32 \<Rightarrow> u64 \<Rightarrow> object_error + tx_output" where
  "funding_output perm o1 slot_index amount =
     rbind (opening_validate o1) (\<lambda>_.
     Inr \<lparr>out_slot_index = slot_index, out_amount = amount, out_owner = opening_root perm o1\<rparr>)"

subsection \<open>Byte formats\<close>

definition opening_field_bytes :: "object_opening \<Rightarrow> bytes" where
  "opening_field_bytes o1 =
     concat (map (\<lambda>(a, b). le_bytes 16 a @ le_bytes 16 b) (oo_program o1)) @ le_bytes 16 (oo_state o1)
     @ le_bytes 32 (oo_claim_authority o1) @ le_bytes 32 (oo_recovery_authority o1) @ le_bytes 8 (oo_deadline o1)
     @ le_bytes 32 (oo_claim_recipient o1) @ le_bytes 32 (oo_recovery_recipient o1)
     @ le_bytes 8 (max_fee (oo_rules o1)) @ le_bytes 8 (min_retained (oo_rules o1))
     @ le_bytes 8 (max_payout (oo_rules o1)) @ le_bytes 1 (modes (oo_rules o1))"

definition opening_to_bytes :: "object_opening \<Rightarrow> object_error + bytes" where
  "opening_to_bytes o1 =
     rbind (opening_validate o1) (\<lambda>_.
     Inr (OPENING_MAGIC @ le_bytes 2 OBJECT_VERSION @ opening_field_bytes o1))"

definition read_instruction :: "(object_error, instruction_fields) reader" where
  "read_instruction bs =
     rbind (take_word OE_Encoding 16 bs) (\<lambda>(a, bs).
     rbind (take_word OE_Encoding 16 bs) (\<lambda>(b, bs). Inr ((a, b), bs)))"

definition read_opening_fields :: "(object_error, object_opening) reader" where
  "read_opening_fields bs =
     rbind (decode_n read_instruction PROGRAM_STEPS bs) (\<lambda>(p, bs).
     rbind (take_word OE_Encoding 16 bs) (\<lambda>(state, bs).
     rbind (take_word OE_Encoding 32 bs) (\<lambda>(claim, bs).
     rbind (take_word OE_Encoding 32 bs) (\<lambda>(recovery, bs).
     rbind (take_word OE_Encoding 8 bs) (\<lambda>(deadline, bs).
     rbind (take_word OE_Encoding 32 bs) (\<lambda>(recipient, bs).
     rbind (take_word OE_Encoding 32 bs) (\<lambda>(refund, bs).
     rbind (take_word OE_Encoding 8 bs) (\<lambda>(fee, bs).
     rbind (take_word OE_Encoding 8 bs) (\<lambda>(retained, bs).
     rbind (take_word OE_Encoding 8 bs) (\<lambda>(payout, bs).
     rbind (take_word OE_Encoding 1 bs) (\<lambda>(m, bs).
     Inr (\<lparr>oo_program = p, oo_state = state, oo_claim_authority = claim, oo_recovery_authority = recovery,
           oo_deadline = deadline, oo_claim_recipient = recipient, oo_recovery_recipient = refund,
           oo_rules = \<lparr>max_fee = fee, min_retained = retained, max_payout = payout, modes = m\<rparr>\<rparr>, bs))))))))))))"

definition opening_from_bytes :: "bytes \<Rightarrow> object_error + object_opening" where
  "opening_from_bytes bs =
     rbind (ensure (length bs = OPENING_BYTES \<and> take 8 bs = OPENING_MAGIC) OE_Encoding) (\<lambda>_.
     rbind (ensure (of_le_bytes (take 2 (drop 8 bs)) = OBJECT_VERSION) OE_Version) (\<lambda>_.
     rbind (read_opening_fields (drop 10 bs)) (\<lambda>(o1, _).
     rbind (opening_validate o1) (\<lambda>_. Inr o1))))"

record object_intent =
  oi_opening :: object_opening
  oi_spend :: paged_spend_intent

definition object_intent_to_bytes ::
  "permutation \<Rightarrow> (u32 set \<Rightarrow> u32) \<Rightarrow> object_intent \<Rightarrow> object_error + bytes" where
  "object_intent_to_bytes perm pick x =
     rbind (ensure (length (psi_pages (oi_spend x)) = 1) OE_Shape) (\<lambda>_.
     rbind (opening_to_bytes (oi_opening x)) (\<lambda>opening.
     rbind (map_page_error (intent_to_bytes perm pick (oi_spend x))) (\<lambda>spend.
     Inr (INTENT_MAGIC @ opening @ spend))))"

definition object_intent_from_bytes ::
  "permutation \<Rightarrow> (u32 set \<Rightarrow> u32) \<Rightarrow> bytes \<Rightarrow> object_error + object_intent" where
  "object_intent_from_bytes perm pick bs =
     rbind (ensure (INTENT_PREFIX_BYTES + 330 \<le> length bs \<and> length bs \<le> MAX_INTENT_BYTES \<and> take 8 bs = INTENT_MAGIC)
              OE_Encoding) (\<lambda>_.
     let inner = drop INTENT_PREFIX_BYTES bs in
     rbind (ensure (take 2 (drop 1 inner) = le_bytes 2 (1 :: u16)) OE_Shape) (\<lambda>_.
     rbind (opening_from_bytes (take OPENING_BYTES (drop 8 bs))) (\<lambda>opening.
     rbind (map_page_error (intent_from_bytes perm pick inner)) (\<lambda>spend.
     Inr \<lparr>oi_opening = opening, oi_spend = spend\<rparr>))))"

subsection \<open>Reference notions and sample data\<close>

definition payout_amount :: "tx_output option \<Rightarrow> u64" where
  "payout_amount payout = (case payout of None \<Rightarrow> 0 | Some out \<Rightarrow> out_amount out)"

definition call_allowed :: "object_opening \<Rightarrow> u64 \<Rightarrow> u64 \<Rightarrow> tx_output option \<Rightarrow> u64 \<Rightarrow> bool \<Rightarrow> bool" where
  "call_allowed o1 fee retained payout height terminal \<longleftrightarrow>
     permits (oo_rules o1) (height < oo_deadline o1) terminal \<and> fee \<le> max_fee (oo_rules o1) \<and>
     (if terminal then payout = None
      else min_retained (oo_rules o1) \<le> retained \<and> payout_amount payout \<le> max_payout (oo_rules o1) \<and>
           (\<forall>out. payout = Some out \<longrightarrow> and (modes (oo_rules o1)) ANY_PAYOUT_RECIPIENT \<noteq> 0 \<or>
                   out_owner out = recipient_at o1 height))"

definition call_slots_ok :: "tx_input \<Rightarrow> u32 \<Rightarrow> tx_output option \<Rightarrow> bool" where
  "call_slots_ok inp output_slot payout \<longleftrightarrow>
     in_slot_index inp \<noteq> output_slot \<and>
     (\<forall>out. payout = Some out \<longrightarrow> out_slot_index out \<noteq> output_slot \<and> out_slot_index out \<noteq> in_slot_index inp)"

definition sample_opening :: object_opening where
  "sample_opening = \<lparr>oo_program = EMPTY_PROGRAM, oo_state = 9, oo_claim_authority = 1, oo_recovery_authority = 2,
     oo_deadline = 100, oo_claim_recipient = 3, oo_recovery_recipient = 4,
     oo_rules = \<lparr>max_fee = 5, min_retained = 0, max_payout = 50, modes = 31\<rparr>\<rparr>"

section \<open>Lemmas\<close>

lemmas bitmap_defs = PAGED_SPEND_START_BIT_def PAGED_SPEND_END_BIT_def PAGED_SPEND_CONTRACT_BIT_def
  PAGED_SPEND_TERMINAL_BIT_def output_bitmap_bit_def tx_const_defs

lemma call_base_bitmap_eq: "call_base_bitmap = 0x1D01"
  by (simp add: call_base_bitmap_def bitmap_defs)

lemma map_page_error_eq_Inr [simp]: "map_page_error r = Inr x \<longleftrightarrow> r = Inr x"
  by (simp add: map_page_error_def split: sum.split)

lemma map_program_error_eq_Inr [simp]: "map_program_error r = Inr x \<longleftrightarrow> r = Inr x"
  by (simp add: map_program_error_def split: sum.split)

lemma and_single_bit: "and (w :: u16) (push_bit n 1) = (if bit w n then push_bit n 1 else 0)"
  by (rule bit_word_eqI) (auto simp: bit_simps)

lemma call_bitmap_cases:
  assumes "tx_validity_bitmap b = or call_base_bitmap (if is_terminal b then PAGED_SPEND_TERMINAL_BIT
      else and (tx_validity_bitmap b) (output_bitmap_bit 1))"
  shows "is_terminal b \<and> tx_validity_bitmap b = 0x3D01 \<or>
    \<not> is_terminal b \<and> tx_validity_bitmap b = 0x1D01 \<or> \<not> is_terminal b \<and> tx_validity_bitmap b = 0x1F01"
proof (cases "is_terminal b")
  case True
  then show ?thesis using assms by (simp add: call_base_bitmap_eq bitmap_defs)
next
  case False
  have "and (tx_validity_bitmap b) (output_bitmap_bit 1) = 0x200 \<or> and (tx_validity_bitmap b) (output_bitmap_bit 1) = 0"
    unfolding output_bitmap_bit_def and_single_bit by (simp add: tx_const_defs)
  then show ?thesis using assms False by (auto simp: call_base_bitmap_eq)
qed

lemma check_call_cases:
  assumes "check_call perm pick o1 page height = Inr tr"
  obtains f where
    "opening_validate o1 = Inr ()" "validate_paged_spend perm pick [page] = Inr f" "\<not> tx_is_coinbase page"
    "tx_validity_bitmap page = or call_base_bitmap (if is_terminal page then PAGED_SPEND_TERMINAL_BIT
       else and (tx_validity_bitmap page) (output_bitmap_bit 1))"
    "tx_input_owner page = opening_root perm o1"
    "permits (oo_rules o1) (height < oo_deadline o1) (is_terminal page)"
    "tx_fee page \<le> max_fee (oo_rules o1)" "check_limits o1 page height = Inr ()"
    "execute (oo_program o1) (oo_state o1) (context_from_body page height (oo_deadline o1)) = Inr (ct_next tr)"
    "out_owner (tx_outputs page ! 0) =
       (if is_terminal page then recipient_at o1 height else opening_root perm (successor o1 (ct_next tr)))"
    "ct_authority tr = authority_at o1 height" "ct_terminal tr = is_terminal page"
  using assms unfolding check_call_def Let_def opening_execute_def rbind_eq_Inr ensure_eq_Inr
    map_page_error_eq_Inr map_program_error_eq_Inr
  by (auto split: if_splits)

lemma live_inputs_call:
  assumes "tx_body_typed b" "tx_validity_bitmap b \<in> {0x3D01, 0x1D01, 0x1F01}"
  shows "group_inputs [b] = [tx_inputs b ! 0]"
proof -
  have "length (tx_inputs b) = 8" using assms by (simp add: tx_body_typed_def tx_const_defs)
  then obtain a1 a2 a3 a4 a5 a6 a7 a8 where "tx_inputs b = [a1, a2, a3, a4, a5, a6, a7, a8]"
    by (auto simp: numeral_eq_Suc length_Suc_conv)
  then show ?thesis
    using assms(2) by (auto simp: group_inputs_def live_inputs_def input_is_live_def tx_const_defs)
qed

lemma live_outputs_call:
  assumes "tx_body_typed b" "tx_validity_bitmap b \<in> {0x3D01, 0x1D01, 0x1F01}"
  shows "group_outputs [b] = tx_outputs b ! 0 # (if tx_validity_bitmap b = 0x1F01 then [tx_outputs b ! 1] else [])"
proof -
  have "length (tx_outputs b) = 2" using assms by (simp add: tx_body_typed_def tx_const_defs)
  then obtain a1 a2 where "tx_outputs b = [a1, a2]"
    by (auto simp: numeral_eq_Suc length_Suc_conv)
  then show ?thesis
    using assms(2) by (auto simp: group_outputs_def live_outputs_def output_is_live_def output_bitmap_bit_def tx_const_defs)
qed

lemma dead_payout_zero:
  assumes "tx_body_typed b" "validate_page_shape b 0 = Inr ()" "tx_validity_bitmap b = 0x1D01 \<or> tx_validity_bitmap b = 0x3D01"
  shows "tx_outputs b ! 1 = dummy_output"
proof -
  have "\<not> output_is_live b 1"
    using assms(3) by (auto simp: output_is_live_def output_bitmap_bit_def tx_const_defs)
  moreover have "output_is_live b 1 \<or> tx_outputs b ! 1 = dummy_output"
    using assms(1,2) by (auto simp: validate_page_shape_def rbind_unit_eq_Inr for_each_enumerate tx_body_typed_def tx_const_defs)
  ultimately show ?thesis by blast
qed

lemma has_payout_bitmap: "tx_validity_bitmap b \<in> {0x3D01, 0x1D01, 0x1F01} \<Longrightarrow> has_payout b \<longleftrightarrow> tx_validity_bitmap b = 0x1F01"
  by (auto simp: has_payout_def output_bitmap_bit_def tx_const_defs)

lemma check_call_balance:
  assumes "tx_body_typed page" "check_call perm pick o1 page height = Inr tr"
  shows "unat (in_amount (tx_inputs page ! 0)) =
    unat (out_amount (tx_outputs page ! 0)) + unat (out_amount (tx_outputs page ! 1)) + unat (tx_fee page)"
proof -
  from assms(2) obtain f where
    v: "validate_paged_spend perm pick [page] = Inr f"
    and bm: "tx_validity_bitmap page = or call_base_bitmap (if is_terminal page then PAGED_SPEND_TERMINAL_BIT
       else and (tx_validity_bitmap page) (output_bitmap_bit 1))"
    by (rule check_call_cases)
  have mem: "tx_validity_bitmap page \<in> {0x3D01, 0x1D01, 0x1F01}"
    using call_bitmap_cases [OF bm] by auto
  have "validate_page_shape page 0 = Inr ()"
    using v by (auto elim!: validate_paged_spend_cases)
  then have dead: "tx_validity_bitmap page \<noteq> 0x1F01 \<Longrightarrow> out_amount (tx_outputs page ! 1) = 0"
    using dead_payout_zero [OF assms(1)] mem by (auto simp: dummy_output_def)
  have "(\<Sum>i\<leftarrow>group_inputs [page]. unat (in_amount i)) =
      (\<Sum>out\<leftarrow>group_outputs [page]. unat (out_amount out)) + unat (tx_fee page)"
    using paged_spend_facts [OF v] by simp
  then show ?thesis
    using dead by (simp add: live_inputs_call [OF assms(1) mem] live_outputs_call [OF assms(1) mem] split: if_splits)
qed


subsection \<open>Byte formats\<close>

interpretation instruction_codec: codec "\<lambda>(a :: block128, b :: block128). le_bytes 16 a @ le_bytes 16 b" read_instruction "\<lambda>_. True"
proof
  fix bs rest and x :: instruction_fields
  show "read_instruction bs = Inr (x, rest) \<longleftrightarrow> True \<and> bs = (case x of (a, b) \<Rightarrow> le_bytes 16 a @ le_bytes 16 b) @ rest"
    by (cases x) (auto simp: read_instruction_def rbind_eq_Inr reader_iffs)
qed

interpretation opening_codec: codec opening_field_bytes read_opening_fields opening_typed
proof
  fix bs rest and x :: object_opening
  show "read_opening_fields bs = Inr (x, rest) \<longleftrightarrow> opening_typed x \<and> bs = opening_field_bytes x @ rest"
    by (cases x, cases "oo_rules x")
      (auto simp: read_opening_fields_def opening_field_bytes_def rbind_eq_Inr reader_iffs
        instruction_codec.decode_n_iff opening_typed_def list_all_True u8_dec_iff)
qed

lemma length_opening_field_bytes:
  assumes "opening_typed x"
  shows "length (opening_field_bytes x) = OPENING_BYTES - 10"
proof -
  have "length (concat (map (\<lambda>(a :: block128, b :: block128). le_bytes 16 a @ le_bytes 16 b) ps)) = length ps * 32" for ps
    by (induction ps) (auto split: prod.splits)
  then show ?thesis
    using assms by (simp add: opening_field_bytes_def opening_typed_def PROGRAM_STEPS_def OPENING_BYTES_def RULE_BYTES_def)
qed

lemma length_magic [simp]: "length OPENING_MAGIC = 8" "length INTENT_MAGIC = 8"
  by (simp_all add: OPENING_MAGIC_def INTENT_MAGIC_def ascii_def)

lemma opening_to_bytes_iff:
  "opening_to_bytes x = Inr bs \<longleftrightarrow>
     opening_validate x = Inr () \<and> bs = OPENING_MAGIC @ le_bytes 2 OBJECT_VERSION @ opening_field_bytes x"
  by (auto simp: opening_to_bytes_def rbind_unit_eq_Inr)

lemma length_opening_to_bytes: "opening_typed x \<Longrightarrow> opening_to_bytes x = Inr bs \<Longrightarrow> length bs = OPENING_BYTES"
  by (auto simp: opening_to_bytes_iff length_opening_field_bytes OPENING_BYTES_def)

lemma version_bytes:
  "length xs = 2 \<Longrightarrow> of_le_bytes xs = OBJECT_VERSION \<longleftrightarrow> xs = le_bytes 2 OBJECT_VERSION"
  using le_bytes_of_le_bytes [of xs, where 'a = 16] by (auto simp: of_le_bytes_le_bytes)

lemma opening_from_bytes_iff:
  "opening_from_bytes bs = Inr x \<longleftrightarrow> opening_typed x \<and> opening_to_bytes x = Inr bs"
proof
  assume "opening_from_bytes bs = Inr x"
  then obtain rest where d: "length bs = OPENING_BYTES" "take 8 bs = OPENING_MAGIC"
    "of_le_bytes (take 2 (drop 8 bs)) = OBJECT_VERSION" "opening_typed x" "drop 10 bs = opening_field_bytes x @ rest"
    "opening_validate x = Inr ()"
    by (auto simp: opening_from_bytes_def rbind_eq_Inr opening_codec.dec_iff)
  have "rest = []"
    using arg_cong [OF d(5), of length] d(1) length_opening_field_bytes [OF d(4)] by (simp add: OPENING_BYTES_def)
  moreover have "take 2 (drop 8 bs) = le_bytes 2 OBJECT_VERSION"
    using d(1,3) by (subst (asm) version_bytes) (auto simp: OPENING_BYTES_def)
  moreover have "bs = take 8 bs @ take 2 (drop 8 bs) @ drop 10 bs"
    by (metis append_take_drop_id add.commute drop_drop eval_nat_numeral(3) numeral_Bit0 numeral_Bit1
        numeral_plus_numeral semiring_norm(2,3,4,5,6,7,8,9,10))
  ultimately show "opening_typed x \<and> opening_to_bytes x = Inr bs"
    using d by (simp add: opening_to_bytes_iff)
next
  assume a: "opening_typed x \<and> opening_to_bytes x = Inr bs"
  then have bs: "bs = OPENING_MAGIC @ le_bytes 2 OBJECT_VERSION @ opening_field_bytes x" "opening_validate x = Inr ()"
    by (auto simp: opening_to_bytes_iff)
  have "read_opening_fields (opening_field_bytes x) = Inr (x, [])"
    using a by (simp add: opening_codec.dec_iff)
  then show "opening_from_bytes bs = Inr x"
    using a bs length_opening_to_bytes [of x bs]
    by (simp add: opening_from_bytes_def of_le_bytes_le_bytes)
qed


lemma map_page_error_ok: "map_page_error (Inr x) = Inr x"
  by simp

lemma intent_bytes_one_page:
  assumes "\<forall>p \<in> set (psi_pages x). tx_body_typed p" "length (psi_pages x) = 1"
  shows "length (intent_bytes x) = 330 + length (psi_authorization_bytes x)"
    and "take 2 (drop 1 (intent_bytes x)) = le_bytes 2 (1 :: u16)"
proof -
  have "length (concat (map encode_page_body (psi_pages x))) = 323"
    using assms length_encoded_pages [of "psi_pages x"]
    by (simp add: TX_BODY_WIRE_SIZE_def TX_INPUT_WIRE_SIZE_def TX_OUTPUT_WIRE_SIZE_def tx_const_defs)
  then show "length (intent_bytes x) = 330 + length (psi_authorization_bytes x)"
    by (simp add: intent_bytes_def)
  show "take 2 (drop 1 (intent_bytes x)) = le_bytes 2 (1 :: u16)"
    using assms(2) by (simp add: intent_bytes_def)
qed

lemma intent_first_count:
  assumes "intent_valid perm pick x" "take 2 (drop 1 (intent_bytes x)) = le_bytes 2 (1 :: u16)"
  shows "length (psi_pages x) = 1"
proof -
  have "(of_nat (length (psi_pages x)) :: u16) = 1"
    using assms(2) by (simp add: intent_bytes_def le_bytes_eq_iff)
  then have "unat (of_nat (length (psi_pages x)) :: u16) = 1" by simp
  then show ?thesis
    using assms(1) validated_page_count [of perm pick "psi_pages x"] by (simp add: intent_valid_def unat_of_nat)
qed

lemma object_intent_from_bytes_iff:
  "object_intent_from_bytes perm pick bs = Inr x \<longleftrightarrow>
     opening_typed (oi_opening x) \<and> (\<forall>p \<in> set (psi_pages (oi_spend x)). tx_body_typed p) \<and>
     object_intent_to_bytes perm pick x = Inr bs"
proof
  assume "object_intent_from_bytes perm pick bs = Inr x"
  then obtain op spend where d:
    "INTENT_PREFIX_BYTES + 330 \<le> length bs" "take 8 bs = INTENT_MAGIC"
    "take 2 (drop 1 (drop INTENT_PREFIX_BYTES bs)) = le_bytes 2 (1 :: u16)"
    "opening_from_bytes (take OPENING_BYTES (drop 8 bs)) = Inr op"
    "intent_from_bytes perm pick (drop INTENT_PREFIX_BYTES bs) = Inr spend"
    "x = \<lparr>oi_opening = op, oi_spend = spend\<rparr>"
    by (auto simp: object_intent_from_bytes_def Let_def rbind_eq_Inr)
  have sp: "intent_valid perm pick spend" "drop INTENT_PREFIX_BYTES bs = intent_bytes spend"
    using d(5) by (auto simp: intent_from_bytes_def rbind_unit_eq_Inr intent_codec.decode_all_iff)
  then have typed: "\<forall>p \<in> set (psi_pages spend). tx_body_typed p"
    and enc: "intent_to_bytes perm pick spend = Inr (drop INTENT_PREFIX_BYTES bs)"
    by (auto simp: intent_valid_def intent_to_bytes_iff)
  have "length (psi_pages spend) = 1"
    using intent_first_count [OF sp(1)] d(3) sp(2) by simp
  moreover have "bs = take 8 bs @ take OPENING_BYTES (drop 8 bs) @ drop INTENT_PREFIX_BYTES bs"
    by (metis (no_types, lifting) INTENT_PREFIX_BYTES_def append_take_drop_id drop_drop length_magic(2) add.commute)
  ultimately show "opening_typed (oi_opening x) \<and> (\<forall>p \<in> set (psi_pages (oi_spend x)). tx_body_typed p) \<and>
      object_intent_to_bytes perm pick x = Inr bs"
    using d typed enc by (simp add: object_intent_to_bytes_def opening_from_bytes_iff map_page_error_ok)
next
  assume a: "opening_typed (oi_opening x) \<and> (\<forall>p \<in> set (psi_pages (oi_spend x)). tx_body_typed p) \<and>
     object_intent_to_bytes perm pick x = Inr bs"
  then obtain ob where ob: "length (psi_pages (oi_spend x)) = 1" "opening_to_bytes (oi_opening x) = Inr ob"
    "intent_valid perm pick (oi_spend x)" "bs = INTENT_MAGIC @ ob @ intent_bytes (oi_spend x)"
    by (auto simp: object_intent_to_bytes_def rbind_eq_Inr intent_to_bytes_iff)
  have len: "length ob = OPENING_BYTES" using a ob length_opening_to_bytes by blast
  have pages: "length (intent_bytes (oi_spend x)) = 330 + length (psi_authorization_bytes (oi_spend x))"
    "take 2 (drop 1 (intent_bytes (oi_spend x))) = le_bytes 2 (1 :: u16)"
    using intent_bytes_one_page a ob(1) by blast+
  have bound: "length (psi_authorization_bytes (oi_spend x)) \<le> MAX_TX_AUTHORIZATION_BYTES"
    using ob(3) by (simp add: intent_valid_def)
  have op: "opening_from_bytes ob = Inr (oi_opening x)" using a ob(2) by (simp add: opening_from_bytes_iff)
  have "intent_to_bytes perm pick (oi_spend x) = Inr (intent_bytes (oi_spend x))"
    using a ob(3) by (simp add: intent_to_bytes_iff)
  then have sp: "intent_from_bytes perm pick (intent_bytes (oi_spend x)) = Inr (oi_spend x)"
    using a by (simp add: intent_from_bytes_iff)
  show "object_intent_from_bytes perm pick bs = Inr x"
    using ob len pages bound op sp
    by (simp add: object_intent_from_bytes_def INTENT_PREFIX_BYTES_def MAX_INTENT_BYTES_def map_page_error_ok
        TX_BODY_WIRE_SIZE_def TX_INPUT_WIRE_SIZE_def TX_OUTPUT_WIRE_SIZE_def tx_const_defs)
qed


subsection \<open>Built calls are admitted\<close>

lemmas paged_eval = validate_paged_spend_def validate_page_count_def validate_page_shape_def
  MAX_PAGED_SPEND_PAGES_def PAGED_SPEND_VALIDITY_MASK_def PAGED_SPEND_MARKER_MASK_def PAGED_SPEND_V2_CONTRACT_MASK_def
  bitmap_defs input_is_live_def output_is_live_def is_start_def is_end_def check_page_links_def
  scan_page_def scan_input_def scan_output_def scan_start_def MAX_PAGED_SPEND_INPUTS_def MAX_PAGED_SPEND_OUTPUTS_def
  required_pages_def Let_def

lemma checked_add_widen:
  "checked_add (widen a) (widen b) = Some (widen a + widen b)"
  using unat_widen_add [of a b] by (simp add: checked_add_eq_Some)

lemma checked_add_zero: "checked_add 0 (a :: 'a::len word) = Some a" "checked_add a 0 = Some a"
  by (simp_all add: checked_add_eq_Some)

lemma single_page_accepted:
  assumes "tx_inputs b = [inp, dummy_input, dummy_input, dummy_input, dummy_input, dummy_input, dummy_input, dummy_input]"
    and "tx_outputs b = [kept, if tx_validity_bitmap b = 0x1F01 then paid else dummy_output]" "\<not> tx_is_coinbase b"
    and "tx_validity_bitmap b \<in> {0x3D01, 0x1D01, 0x1F01}"
    and "in_slot_index inp \<noteq> out_slot_index kept"
    and "tx_validity_bitmap b = 0x1F01 \<Longrightarrow> out_slot_index paid \<noteq> out_slot_index kept \<and> out_slot_index paid \<noteq> in_slot_index inp"
    and "unat (in_amount inp) = unat (out_amount kept) + (if tx_validity_bitmap b = 0x1F01 then unat (out_amount paid) else 0) + unat (tx_fee b)"
  shows "\<exists>f. validate_paged_spend perm pick [b] = Inr f"
proof -
  have three: "widen (in_amount inp) = widen (out_amount kept) + widen (out_amount paid) + widen (tx_fee b)"
    if "tx_validity_bitmap b = 0x1F01"
    using assms(7) that unat_u64_bound [of "out_amount kept"] unat_u64_bound [of "out_amount paid"] unat_u64_bound [of "tx_fee b"]
    by (simp add: word_unat_eq_iff unat_widen_add unat_add_exact)
  have ck3: "checked_add (widen (out_amount kept) + widen (out_amount paid)) (widen (tx_fee b))
      = Some (widen (out_amount kept) + widen (out_amount paid) + widen (tx_fee b))"
    using unat_u64_bound [of "out_amount kept"] unat_u64_bound [of "out_amount paid"] unat_u64_bound [of "tx_fee b"]
    by (simp add: checked_add_eq_Some unat_widen_add unat_add_exact)
  have two: "widen (in_amount inp) = widen (out_amount kept) + widen (tx_fee b)"
    if "tx_validity_bitmap b \<noteq> 0x1F01"
    using assms(7) that by (simp add: word_unat_eq_iff unat_widen_add)
  consider "tx_validity_bitmap b = 0x1F01" | "tx_validity_bitmap b = 0x1D01" | "tx_validity_bitmap b = 0x3D01"
    using assms(4) by auto
  then show ?thesis
  proof cases
    case 1
    then show ?thesis
      using assms(1-3,5,6) three ck3 by (simp add: paged_eval checked_add_widen checked_add_zero)
  next
    case 2
    then show ?thesis
      using assms(1-3,5,6) two by (simp add: paged_eval checked_add_widen checked_add_zero)
  next
    case 3
    then show ?thesis
      using assms(1-3,5,6) two by (simp add: paged_eval checked_add_widen checked_add_zero)
  qed
qed


lemma replicate_inputs:
  "(replicate TX_INPUTS dummy_input)[0 := i] =
     [i, dummy_input, dummy_input, dummy_input, dummy_input, dummy_input, dummy_input, dummy_input]"
  by (simp add: TX_INPUTS_def numeral_eq_Suc)

lemma call_body_bitmap:
  "\<not> (terminal \<and> payout \<noteq> None) \<Longrightarrow>
   tx_validity_bitmap (call_body perm o1 inp slot retained fee anchor terminal payout) =
     (if terminal then 0x3D01 else if payout = None then 0x1D01 else 0x1F01)"
  by (auto simp: call_body_def call_base_bitmap_eq bitmap_defs)

lemma set_owner_simps [simp]:
  "tx_validity_bitmap (set_output0_owner b a) = tx_validity_bitmap b"
  "tx_inputs (set_output0_owner b a) = tx_inputs b" "tx_fee (set_output0_owner b a) = tx_fee b"
  "tx_input_owner (set_output0_owner b a) = tx_input_owner b"
  "tx_is_coinbase (set_output0_owner b a) = tx_is_coinbase b"
  by (simp_all add: set_output0_owner_def)

lemma context_set_owner:
  "length (tx_outputs b) = 2 \<Longrightarrow> context_from_body (set_output0_owner b a) h d = context_from_body b h d"
  by (simp add: context_from_body_def set_output0_owner_def)

lemma built_page_accepted:
  assumes "\<not> (terminal \<and> payout \<noteq> None)" "call_slots_ok inp slot payout"
    and "unat (in_amount inp) = unat retained + unat (payout_amount payout) + unat fee"
  shows "\<exists>f. validate_paged_spend perm pick
    [set_output0_owner (call_body perm o1 inp slot retained fee anchor terminal payout) owner] = Inr f"
proof -
  define p where "p = set_output0_owner (call_body perm o1 inp slot retained fee anchor terminal payout) owner"
  let ?kept = "\<lparr>out_slot_index = slot, out_amount = retained, out_owner = owner\<rparr>"
  have bm: "tx_validity_bitmap p = (if terminal then 0x3D01 else if payout = None then 0x1D01 else 0x1F01)"
    unfolding p_def using call_body_bitmap [OF assms(1)] by simp
  have parts: "tx_inputs p = [inp, dummy_input, dummy_input, dummy_input, dummy_input, dummy_input, dummy_input, dummy_input]"
    "tx_outputs p = [?kept, case payout of None \<Rightarrow> dummy_output | Some out \<Rightarrow> out]" "tx_fee p = fee" "\<not> tx_is_coinbase p"
    by (simp_all add: p_def call_body_def set_output0_owner_def replicate_inputs)
  have "\<exists>f. validate_paged_spend perm pick [p] = Inr f"
    using assms
    by (intro single_page_accepted [where inp = inp and kept = ?kept and
          paid = "case payout of None \<Rightarrow> dummy_output | Some out \<Rightarrow> out"])
      (auto simp: bm parts call_slots_ok_def payout_amount_def split: option.splits if_splits)
  then show ?thesis by (simp add: p_def)
qed

lemma build_call_complete:
  assumes "opening_validate o1 = Inr ()" "call_allowed o1 fee retained payout height terminal"
    and "call_slots_ok inp slot payout"
    and "unat (in_amount inp) = unat retained + unat (payout_amount payout) + unat fee"
    and "execute (oo_program o1) (oo_state o1)
      (context_from_body (call_body perm o1 inp slot retained fee anchor terminal payout) height (oo_deadline o1)) = Inr next"
  shows "\<exists>page tr. build_call_inner perm pick o1 inp slot fee anchor height terminal payout = Inr page \<and>
    check_call perm pick o1 page height = Inr tr \<and> ct_next tr = next"
proof -
  let ?b = "call_body perm o1 inp slot retained fee anchor terminal payout"
  let ?owner = "if terminal then recipient_at o1 height else opening_root perm (successor o1 next)"
  let ?page = "set_output0_owner ?b ?owner"
  have np: "\<not> (terminal \<and> payout \<noteq> None)" using assms(2) by (auto simp: call_allowed_def)
  have outs: "tx_outputs ?b = [\<lparr>out_slot_index = slot, out_amount = retained, out_owner = 0\<rparr>,
      case payout of None \<Rightarrow> dummy_output | Some out \<Rightarrow> out]"
    by (simp add: call_body_def)
  have exec: "opening_execute o1 ?page height = Inr next" "opening_execute o1 ?b height = Inr next"
    using assms(1,5) outs by (simp_all add: opening_execute_def context_set_owner map_program_error_def)
  obtain f where f: "validate_paged_spend perm pick [?page] = Inr f"
    using built_page_accepted [OF np assms(3,4)] by blast
  then have shape: "tx_page_new ?page = Inr ?page"
    by (auto simp: tx_page_new_def elim!: validate_paged_spend_cases)
  have bm: "tx_validity_bitmap ?page = (if terminal then 0x3D01 else if payout = None then 0x1D01 else 0x1F01)"
    using call_body_bitmap [OF np] by simp
  have tm: "is_terminal ?page = terminal"
    unfolding is_terminal_def bm by (simp add: bitmap_defs)
  have pay: "has_payout ?page = (payout \<noteq> None)"
    using np unfolding has_payout_def bm by (auto simp: bitmap_defs)
  have expected: "tx_validity_bitmap ?page = or call_base_bitmap (if terminal then PAGED_SPEND_TERMINAL_BIT
      else and (tx_validity_bitmap ?page) (output_bitmap_bit 1))"
    unfolding bm by (simp add: call_base_bitmap_eq bitmap_defs)
  have limits: "check_limits o1 ?page height = Inr ()"
    using assms(2) outs tm pay
    by (auto simp: check_limits_def call_allowed_def set_output0_owner_def payout_amount_def rbind_unit_eq_Inr dummy_output_def
        split: option.splits)
  have owner: "out_owner (tx_outputs ?page ! 0) = ?owner" "tx_input_owner ?page = opening_root perm o1"
    "tx_fee ?page = fee" "\<not> tx_is_coinbase ?page"
    using outs by (simp_all add: set_output0_owner_def call_body_def)
  obtain tr where tr: "check_call perm pick o1 ?page height = Inr tr" "ct_next tr = next"
    using assms(1,2) f expected limits exec owner tm
    by (cases terminal) (simp_all add: check_call_def map_page_error_def call_allowed_def)
  have bal: "Option.bind (checked_sub (in_amount inp) fee)
      (\<lambda>a. checked_sub a (case payout of None \<Rightarrow> 0 | Some out \<Rightarrow> out_amount out)) = Some retained"
  proof -
    have "unat fee \<le> unat (in_amount inp)" using assms(4) by simp
    then have sub: "checked_sub (in_amount inp) fee = Some (in_amount inp - fee)" "unat (in_amount inp - fee) = unat (in_amount inp) - unat fee"
      by (simp_all add: checked_sub_def word_le_nat_alt unat_sub_exact)
    have "checked_sub (in_amount inp - fee) (case payout of None \<Rightarrow> 0 | Some out \<Rightarrow> out_amount out) = Some retained"
      using assms(4) sub(2) by (auto simp: payout_amount_def checked_sub_eq_Some split: option.splits)
    then show ?thesis using sub(1) by simp
  qed
  have "build_call_inner perm pick o1 inp slot fee anchor height terminal payout = Inr ?page"
    using assms(1) exec(2) shape tr(1)
    by (auto simp: build_call_inner_def bal Let_def map_page_error_def)
  then show ?thesis using tr by blast
qed


lemma opening_validate_iff:
  "opening_validate o1 = Inr () \<longleftrightarrow>
     and (modes (oo_rules o1)) (not VALID_MODES) = 0 \<and> (\<forall>fs \<in> set (oo_program o1). from_fields fs \<noteq> None)"
  by (simp add: opening_validate_def rules_validate_def rbind_unit_eq_Inr for_each_enumerate all_set_conv_all_nth)

lemma sample_opening_valid: "opening_validate sample_opening = Inr ()"
  using encoded_programs_valid [of _ "[]"]
  by (auto simp: opening_validate_iff sample_opening_def VALID_MODES_def EMPTY_PROGRAM_def)

lemma sample_opening_typed: "opening_typed sample_opening"
  by (simp add: opening_typed_def sample_opening_def EMPTY_PROGRAM_def)

lemma sample_call:
  "\<exists>page tr. build_call_inner perm pick sample_opening \<lparr>in_slot_index = 1, in_amount = 100, in_creation_id = 7\<rparr> 2 5 0 10 True None
     = Inr page \<and> check_call perm pick sample_opening page 10 = Inr tr \<and> ct_next tr = 9"
  using sample_opening_valid
  by (intro build_call_complete [where retained = 95])
    (auto simp: call_allowed_def call_slots_ok_def payout_amount_def permits_def mode_bit_def sample_opening_def
      CLAIM_CLOSE_def execute_empty)

lemma built_page_typed:
  assumes "build_call_inner perm pick o1 inp slot fee anchor height terminal payout = Inr page"
  shows "tx_body_typed page"
  using assms
  by (auto simp: build_call_inner_def Let_def rbind_eq_Inr tx_page_new_def tx_body_typed_def set_output0_owner_def
      call_body_def TX_OUTPUTS_def split: if_splits)

section \<open>Properties\<close>

text \<open>C6: An admitted call obeys the committed policy and conserves value.  It spends the
  object committed by the opening's root; its mode is permitted at this side of the
  deadline; its fee is capped; the old amount is exactly the kept amount plus the payout
  plus the fee.  A continuing call keeps the reserve, caps the payout, pays a fixed
  recipient unless the rules leave it open, and commits the successor with the state the
  program computed; a terminal call pays everything to the recipient of that side.\<close>

theorem check_call_sound:
  assumes "tx_body_typed page" "check_call perm pick o1 page height = Inr tr"
  shows "tx_input_owner page = opening_root perm o1 \<and>
    permits (oo_rules o1) (height < oo_deadline o1) (ct_terminal tr) \<and>
    unat (tx_fee page) \<le> unat (max_fee (oo_rules o1)) \<and>
    unat (in_amount (tx_inputs page ! 0)) =
      unat (out_amount (tx_outputs page ! 0)) + unat (out_amount (tx_outputs page ! 1)) + unat (tx_fee page) \<and>
    ct_authority tr = (if height < oo_deadline o1 then oo_claim_authority o1 else oo_recovery_authority o1) \<and>
    execute (oo_program o1) (oo_state o1) (context_from_body page height (oo_deadline o1)) = Inr (ct_next tr) \<and>
    (if ct_terminal tr
     then out_amount (tx_outputs page ! 1) = 0 \<and> out_owner (tx_outputs page ! 0) = recipient_at o1 height
     else unat (min_retained (oo_rules o1)) \<le> unat (out_amount (tx_outputs page ! 0)) \<and>
          unat (out_amount (tx_outputs page ! 1)) \<le> unat (max_payout (oo_rules o1)) \<and>
          (has_payout page \<longrightarrow> and (modes (oo_rules o1)) ANY_PAYOUT_RECIPIENT = 0 \<longrightarrow>
             out_owner (tx_outputs page ! 1) = recipient_at o1 height) \<and>
          out_owner (tx_outputs page ! 0) = opening_root perm (successor o1 (ct_next tr)))"
proof -
  note bal = check_call_balance [OF assms]
  from assms(2) obtain f where c:
    "validate_paged_spend perm pick [page] = Inr f"
    "tx_validity_bitmap page = or call_base_bitmap (if is_terminal page then PAGED_SPEND_TERMINAL_BIT
       else and (tx_validity_bitmap page) (output_bitmap_bit 1))"
    "tx_input_owner page = opening_root perm o1"
    "permits (oo_rules o1) (height < oo_deadline o1) (is_terminal page)"
    "tx_fee page \<le> max_fee (oo_rules o1)" "check_limits o1 page height = Inr ()"
    "execute (oo_program o1) (oo_state o1) (context_from_body page height (oo_deadline o1)) = Inr (ct_next tr)"
    "out_owner (tx_outputs page ! 0) =
       (if is_terminal page then recipient_at o1 height else opening_root perm (successor o1 (ct_next tr)))"
    "ct_authority tr = authority_at o1 height" "ct_terminal tr = is_terminal page"
    by (rule check_call_cases)
  have shape: "validate_page_shape page 0 = Inr ()"
    using c(1) by (auto elim!: validate_paged_spend_cases)
  have "is_terminal page \<Longrightarrow> out_amount (tx_outputs page ! 1) = 0"
    using call_bitmap_cases [OF c(2)] dead_payout_zero [OF assms(1) shape] by (auto simp: dummy_output_def)
  moreover have "\<not> is_terminal page \<Longrightarrow> unat (min_retained (oo_rules o1)) \<le> unat (out_amount (tx_outputs page ! 0)) \<and>
      unat (out_amount (tx_outputs page ! 1)) \<le> unat (max_payout (oo_rules o1)) \<and>
      (has_payout page \<longrightarrow> and (modes (oo_rules o1)) ANY_PAYOUT_RECIPIENT = 0 \<longrightarrow>
         out_owner (tx_outputs page ! 1) = recipient_at o1 height)"
    using c(6) by (auto simp: check_limits_def rbind_unit_eq_Inr word_le_nat_alt)
  ultimately show ?thesis
    using c bal by (auto simp: authority_at_def word_le_nat_alt)
qed

theorem check_call_sound_witness:
  "\<exists>page tr. check_call id (\<lambda>_. 0) sample_opening page 10 = Inr tr \<and>
     unat (in_amount (tx_inputs page ! 0)) =
       unat (out_amount (tx_outputs page ! 0)) + unat (out_amount (tx_outputs page ! 1)) + unat (tx_fee page)"
proof -
  obtain page tr where p: "build_call_inner id (\<lambda>_. 0) sample_opening
      \<lparr>in_slot_index = 1, in_amount = 100, in_creation_id = 7\<rparr> 2 5 0 10 True None = Inr page"
    "check_call id (\<lambda>_. 0) sample_opening page 10 = Inr tr"
    using sample_call by blast
  from check_call_sound [OF built_page_typed [OF p(1)] p(2)] p(2) show ?thesis by blast
qed

text \<open>C16: A holder who follows the rules can always act: for a valid opening, if the mode,
  fee, reserve, payout and recipient limits are met, the slots differ, the amounts add up
  and the program accepts the call, then the builder returns a page, the admission check
  accepts that page and the transition carries the state the program computed.\<close>

theorem rule_abiding_call_is_buildable:
  assumes "opening_validate o1 = Inr ()" "call_allowed o1 fee retained payout height terminal"
    and "call_slots_ok inp slot payout"
    and "unat (in_amount inp) = unat retained + unat (payout_amount payout) + unat fee"
    and "execute (oo_program o1) (oo_state o1)
      (context_from_body (call_body perm o1 inp slot retained fee anchor terminal payout) height (oo_deadline o1)) = Inr next"
  shows "\<exists>page tr. build_call_inner perm pick o1 inp slot fee anchor height terminal payout = Inr page \<and>
    check_call perm pick o1 page height = Inr tr \<and> ct_next tr = next"
  by (rule build_call_complete [OF assms])

theorem rule_abiding_call_is_buildable_witness:
  "\<exists>page tr. build_call_inner id (\<lambda>_. 0) sample_opening \<lparr>in_slot_index = 1, in_amount = 100, in_creation_id = 7\<rparr> 2 5 0 10 False
      (Some \<lparr>out_slot_index = 3, out_amount = 20, out_owner = 8\<rparr>) = Inr page \<and>
    check_call id (\<lambda>_. 0) sample_opening page 10 = Inr tr \<and> ct_next tr = 9"
  using sample_opening_valid
  by (intro rule_abiding_call_is_buildable [where retained = 75])
    (auto simp: call_allowed_def call_slots_ok_def payout_amount_def permits_def mode_bit_def sample_opening_def
      CLAIM_CONTINUE_def ANY_PAYOUT_RECIPIENT_def execute_empty)

text \<open>C19: The 699-byte encoding of an opening round-trips: a byte string is accepted as an
  opening exactly when it is what the encoder writes for it.\<close>

theorem opening_bytes_roundtrip:
  "opening_from_bytes bs = Inr o1 \<longleftrightarrow> opening_typed o1 \<and> opening_to_bytes o1 = Inr bs \<and> length bs = 699"
  using length_opening_to_bytes [of o1 bs]
  by (auto simp: opening_from_bytes_iff OPENING_BYTES_def PROGRAM_STEPS_def RULE_BYTES_def)

text \<open>C20: The envelope of one opening and one single-page spend round-trips in the same
  sense, with the pages and the opening of the array sizes of the source.\<close>

theorem object_intent_roundtrip:
  "object_intent_from_bytes perm pick bs = Inr x \<longleftrightarrow>
     opening_typed (oi_opening x) \<and> list_all tx_body_typed (psi_pages (oi_spend x)) \<and>
     object_intent_to_bytes perm pick x = Inr bs"
  by (simp add: object_intent_from_bytes_iff list_all_iff)

end
