(* ===== verification/Applications.thy ===== *)
theory Applications
imports ContractObject
begin

section \<open>Contract templates\<close>

text \<open>
  \<open>noid_tx/src/experimental_object/applications.rs\<close>: the reusable contract
  constructors, with the instruction lists of the source.  A history of a contract
  is a \<open>contract_run\<close>: a sequence of admitted continuing calls with nondecreasing
  heights, each spending the amount the previous one kept.  The locale
  \<open>paced_schedule\<close> is the contract of a program that keeps a due height: it bounds
  how often the due height can have been passed.  Its three interpretations give
  the lifetime bounds of the budget wallet, the recurring payment and the tranche
  vesting.  The other results are what the timelock and the refundable payment
  promise, and that a scheduled contract can always be closed after its deadline.
  \<open>install\<close> asserts that the instructions fit; the lists here have eight and four.
\<close>

subsection \<open>Static templates\<close>

definition KEEP_STATE :: program where
  "KEEP_STATE = replicate PROGRAM_STEPS (0, 0)"

definition refundable_payment :: "address \<Rightarrow> address \<Rightarrow> u64 \<Rightarrow> u64 \<Rightarrow> object_opening" where
  "refundable_payment payer payee expiry_height fee_cap =
     \<lparr>oo_program = KEEP_STATE, oo_state = 0, oo_claim_authority = payee, oo_recovery_authority = payer,
      oo_deadline = expiry_height, oo_claim_recipient = payee, oo_recovery_recipient = payer,
      oo_rules = \<lparr>max_fee = fee_cap, min_retained = 0, max_payout = 0, modes = or CLAIM_CLOSE RECOVERY_CLOSE\<rparr>\<rparr>"

definition timelocked_vault :: "address \<Rightarrow> u64 \<Rightarrow> u64 \<Rightarrow> object_opening" where
  "timelocked_vault owner unlock_height fee_cap =
     \<lparr>oo_program = KEEP_STATE, oo_state = 0, oo_claim_authority = owner, oo_recovery_authority = owner,
      oo_deadline = unlock_height, oo_claim_recipient = owner, oo_recovery_recipient = owner,
      oo_rules = \<lparr>max_fee = fee_cap, min_retained = 0, max_payout = 0, modes = RECOVERY_CLOSE\<rparr>\<rparr>"

definition allowance_wallet ::
  "address \<Rightarrow> address \<Rightarrow> address option \<Rightarrow> u64 \<Rightarrow> u64 \<Rightarrow> u64 \<Rightarrow> u64 \<Rightarrow> object_opening" where
  "allowance_wallet spending_key recovery_key payout_recipient recover_at fee_cap payout_cap reserve =
     \<lparr>oo_program = KEEP_STATE, oo_state = 0, oo_claim_authority = spending_key, oo_recovery_authority = recovery_key,
      oo_deadline = recover_at,
      oo_claim_recipient = (case payout_recipient of None \<Rightarrow> spending_key | Some a \<Rightarrow> a),
      oo_recovery_recipient = recovery_key,
      oo_rules = \<lparr>max_fee = fee_cap, min_retained = reserve, max_payout = payout_cap,
        modes = or CLAIM_CONTINUE (or RECOVERY_CLOSE (if payout_recipient = None then ANY_PAYOUT_RECIPIENT else 0))\<rparr>\<rparr>"

subsection \<open>Schedules\<close>

datatype schedule_error = EmptyPeriod | EmptyAmount | DeadlineBeforeStart | HeightOverflow | FeeExceedsBudget

definition validate_schedule :: "u64 \<Rightarrow> u64 \<Rightarrow> u64 \<Rightarrow> schedule_error + unit" where
  "validate_schedule start period deadline =
     rbind (ensure (period \<noteq> 0) EmptyPeriod) (\<lambda>_.
     rbind (ensure (\<not> start \<ge> deadline) DeadlineBeforeStart) (\<lambda>_.
     ensure (checked_add (deadline - 1) period \<noteq> None) HeightOverflow))"

definition install :: "object_opening \<Rightarrow> instruction list \<Rightarrow> object_opening" where
  "install o1 is = o1\<lparr>oo_program := map to_fields is @ drop (length is) (oo_program o1)\<rparr>"

record period_budget =
  pb_start_height :: u64
  pb_period_blocks :: u64
  pb_budget :: u64
  pb_recover_at :: u64
  pb_max_fee :: u64
  pb_max_payout :: u64
  pb_min_retained :: u64

definition reset_predicate :: predicate where
  "reset_predicate = \<lparr>pred_source = P_Scratch0, pred_inverted = True\<rparr>"

definition period_budget_instructions :: "period_budget \<Rightarrow> instruction list" where
  "period_budget_instructions terms =
     (let before = PRED_BEFORE_DEADLINE in
      [ins_when (instruction_new AssertLessOrEqual R_State0 O_Immediate O_Height (pb_start_height terms)) before,
       instruction_new LessThan R_Scratch0 O_Height O_State1 0,
       ins_when (instruction_new Move R_Scratch0 O_One O_Zero 0) (pred_not before),
       ins_when (instruction_new Move R_State0 O_Immediate O_Zero (pb_budget terms)) reset_predicate,
       ins_when (instruction_new Add R_State1 O_Height O_Immediate (pb_period_blocks terms)) reset_predicate,
       ins_when (instruction_new Add R_Scratch1 O_Fee O_Payout 0) before,
       ins_when (instruction_new AssertLessOrEqual R_State0 O_Scratch1 O_State0 0) before,
       ins_when (instruction_new Subtract R_State0 O_State0 O_Scratch1 0) before])"

definition period_budget_wallet ::
  "address \<Rightarrow> address \<Rightarrow> address option \<Rightarrow> period_budget \<Rightarrow> schedule_error + object_opening" where
  "period_budget_wallet spending_key recovery_key payout_recipient terms =
     rbind (validate_schedule (pb_start_height terms) (pb_period_blocks terms) (pb_recover_at terms)) (\<lambda>_.
     rbind (ensure (pb_budget terms \<noteq> 0) EmptyAmount) (\<lambda>_.
     rbind (ensure (\<not> pb_max_fee terms > pb_budget terms) FeeExceedsBudget) (\<lambda>_.
     let o1 = allowance_wallet spending_key recovery_key payout_recipient (pb_recover_at terms) (pb_max_fee terms)
                (pb_max_payout terms) (max (pb_min_retained terms) (pb_max_fee terms));
         o1 = o1\<lparr>oo_state := pack_state (pb_budget terms, pb_start_height terms + pb_period_blocks terms)\<rparr>
     in Inr (install o1 (period_budget_instructions terms)))))"

record recurring_payment_terms =
  rp_first_due_height :: u64
  rp_period_blocks :: u64
  rp_payment :: u64
  rp_recover_at :: u64
  rp_max_fee :: u64

definition recurring_payment_instructions :: "recurring_payment_terms \<Rightarrow> instruction list" where
  "recurring_payment_instructions terms =
     (let before = PRED_BEFORE_DEADLINE in
      [ins_when (instruction_new AssertLessOrEqual R_State0 O_State1 O_Height 0) before,
       ins_when (instruction_new AssertEqual R_State0 O_Payout O_Immediate (rp_payment terms)) before,
       ins_when (instruction_new Add R_State0 O_State0 O_One 0) before,
       ins_when (instruction_new Add R_State1 O_Height O_Immediate (rp_period_blocks terms)) before])"

definition recurring_payment ::
  "address \<Rightarrow> address \<Rightarrow> recurring_payment_terms \<Rightarrow> schedule_error + object_opening" where
  "recurring_payment payer payee terms =
     rbind (validate_schedule (rp_first_due_height terms) (rp_period_blocks terms) (rp_recover_at terms)) (\<lambda>_.
     rbind (ensure (rp_payment terms \<noteq> 0) EmptyAmount) (\<lambda>_.
     let o1 = allowance_wallet payee payer (Some payee) (rp_recover_at terms) (rp_max_fee terms)
                (rp_payment terms) (rp_max_fee terms);
         o1 = o1\<lparr>oo_state := pack_state (0, rp_first_due_height terms)\<rparr>
     in Inr (install o1 (recurring_payment_instructions terms))))"

record tranche_vesting_terms =
  tv_first_unlock_height :: u64
  tv_period_blocks :: u64
  tv_tranche_amount :: u64
  tv_mature_at :: u64
  tv_max_fee :: u64

definition tranche_vesting_instructions :: "tranche_vesting_terms \<Rightarrow> instruction list" where
  "tranche_vesting_instructions terms =
     (let before = PRED_BEFORE_DEADLINE in
      [ins_when (instruction_new AssertLessOrEqual R_State0 O_State1 O_Height 0) before,
       ins_when (instruction_new AssertEqual R_State0 O_Payout O_Immediate (tv_tranche_amount terms)) before,
       ins_when (instruction_new Add R_State0 O_State0 O_Payout 0) before,
       ins_when (instruction_new Add R_State1 O_State1 O_Immediate (tv_period_blocks terms)) before])"

definition tranche_vesting :: "address \<Rightarrow> tranche_vesting_terms \<Rightarrow> schedule_error + object_opening" where
  "tranche_vesting beneficiary terms =
     rbind (validate_schedule (tv_first_unlock_height terms) (tv_period_blocks terms) (tv_mature_at terms)) (\<lambda>_.
     rbind (ensure (tv_tranche_amount terms \<noteq> 0) EmptyAmount) (\<lambda>_.
     let o1 = allowance_wallet beneficiary beneficiary (Some beneficiary) (tv_mature_at terms) (tv_max_fee terms)
                (tv_tranche_amount terms) (tv_max_fee terms);
         o1 = o1\<lparr>oo_state := pack_state (0, tv_first_unlock_height terms)\<rparr>
     in Inr (install o1 (tranche_vesting_instructions terms))))"

subsection \<open>Histories of a contract\<close>

definition call_step ::
  "permutation \<Rightarrow> (u32 set \<Rightarrow> u32) \<Rightarrow> object_opening \<Rightarrow> block128 \<Rightarrow> u64 \<Rightarrow> tx_page \<Rightarrow> block128 \<Rightarrow> bool" where
  "call_step perm pick o1 s height page s' \<longleftrightarrow>
     tx_body_typed page \<and>
     (case check_call perm pick (o1\<lparr>oo_state := s\<rparr>) page height of
        Inl _ \<Rightarrow> False
      | Inr tr \<Rightarrow> \<not> ct_terminal tr \<and> ct_next tr = s')"

inductive contract_run ::
  "permutation \<Rightarrow> (u32 set \<Rightarrow> u32) \<Rightarrow> object_opening \<Rightarrow> u64 \<Rightarrow> (u64 \<times> tx_page) list \<Rightarrow> block128 \<Rightarrow> u64 \<Rightarrow> bool"
  for perm pick o1 amount where
  run_start: "contract_run perm pick o1 amount [] (oo_state o1) amount"
| run_call: "contract_run perm pick o1 amount calls s a \<Longrightarrow> call_step perm pick o1 s height page s' \<Longrightarrow>
    in_amount (tx_inputs page ! 0) = a \<Longrightarrow> \<forall>c \<in> set calls. fst c \<le> height \<Longrightarrow>
    contract_run perm pick o1 amount (calls @ [(height, page)]) s' (out_amount (tx_outputs page ! 0))"

definition payout_of :: "tx_page \<Rightarrow> nat" where
  "payout_of page = unat (out_amount (tx_outputs page ! 1))"

definition debit_of :: "tx_page \<Rightarrow> nat" where
  "debit_of page = unat (tx_fee page) + payout_of page"

text \<open>A run of a program that keeps a due height, with the number of times it was passed.\<close>

inductive paced_run :: "('s \<Rightarrow> nat \<Rightarrow> 's \<Rightarrow> bool) \<Rightarrow> ('s \<Rightarrow> nat) \<Rightarrow> 's \<Rightarrow> nat list \<Rightarrow> nat \<Rightarrow> 's \<Rightarrow> bool"
  for step due s where
  paced_start: "paced_run step due s [] 0 s"
| paced_step: "paced_run step due s hs n t \<Longrightarrow> step t h u \<Longrightarrow> \<forall>k \<in> set hs. k \<le> h \<Longrightarrow>
    paced_run step due s (hs @ [h]) (if due t \<le> h then Suc n else n) u"

definition state_due :: "block128 \<Rightarrow> nat" where
  "state_due s = unat (snd (unpack_state s))"

definition budget_step ::
  "permutation \<Rightarrow> (u32 set \<Rightarrow> u32) \<Rightarrow> address \<Rightarrow> address \<Rightarrow> address option \<Rightarrow> period_budget \<Rightarrow> block128 \<Rightarrow> nat \<Rightarrow> block128 \<Rightarrow> bool" where
  "budget_step perm pick sk rk pr terms s h s' \<longleftrightarrow>
     (\<exists>o1 page height. period_budget_wallet sk rk pr terms = Inr o1 \<and> h = unat height \<and> call_step perm pick o1 s height page s')"

definition recurring_step ::
  "permutation \<Rightarrow> (u32 set \<Rightarrow> u32) \<Rightarrow> address \<Rightarrow> address \<Rightarrow> recurring_payment_terms \<Rightarrow> block128 \<Rightarrow> nat \<Rightarrow> block128 \<Rightarrow> bool" where
  "recurring_step perm pick payer payee terms s h s' \<longleftrightarrow>
     (\<exists>o1 page height. recurring_payment payer payee terms = Inr o1 \<and> h = unat height \<and> call_step perm pick o1 s height page s')"

definition tranche_step ::
  "permutation \<Rightarrow> (u32 set \<Rightarrow> u32) \<Rightarrow> address \<Rightarrow> tranche_vesting_terms \<Rightarrow> block128 \<Rightarrow> nat \<Rightarrow> block128 \<Rightarrow> bool" where
  "tranche_step perm pick beneficiary terms s h s' \<longleftrightarrow>
     (\<exists>o1 page height. tranche_vesting beneficiary terms = Inr o1 \<and> h = unat height \<and> call_step perm pick o1 s height page s')"

subsection \<open>Reference notions and sample data\<close>

definition sample_budget :: period_budget where
  "sample_budget = \<lparr>pb_start_height = 5, pb_period_blocks = 10, pb_budget = 50, pb_recover_at = 100, pb_max_fee = 5,
     pb_max_payout = 30, pb_min_retained = 0\<rparr>"

definition sample_recurring :: recurring_payment_terms where
  "sample_recurring = \<lparr>rp_first_due_height = 5, rp_period_blocks = 10, rp_payment = 20, rp_recover_at = 100, rp_max_fee = 5\<rparr>"

definition sample_tranche :: tranche_vesting_terms where
  "sample_tranche = \<lparr>tv_first_unlock_height = 5, tv_period_blocks = 10, tv_tranche_amount = 20, tv_mature_at = 100, tv_max_fee = 5\<rparr>"

section \<open>Lemmas\<close>

subsection \<open>Symbolic execution of the template programs\<close>

lemmas symbolic_exec = run_instructions_def exec_instruction_def ins_when_def instruction_new_def PRED_ALWAYS_def
  PRED_BEFORE_DEADLINE_def pred_not_def reset_predicate_def predicates_def operands_def

lemma rbind_assoc: "rbind (rbind m f) g = rbind m (\<lambda>x. rbind (f x) g)"
  by (cases m) simp_all

lemma rbind_if: "rbind (if P then x else y) f = (if P then rbind x f else rbind y f)"
  by simp

lemma eval_add_eq_Inr: "rbind (ok_or e (checked_add a b)) f = Inr y \<longleftrightarrow> unat a + unat b < 2 ^ LENGTH('a) \<and> f (a + b) = Inr y"
  for a b :: "'a::len word"
  by (auto simp: ok_or_def checked_add_def)

lemma eval_sub_eq_Inr: "rbind (ok_or e (checked_sub a b)) f = Inr y \<longleftrightarrow> b \<le> a \<and> f (a - b) = Inr y"
  for a b :: "'a::len word"
  by (auto simp: ok_or_def checked_sub_def)

lemma budget_program_claim:
  assumes "ctx_before_deadline c"
  shows "run_instructions c (period_budget_instructions terms) [b, e, 0, 0] = Inr regs \<longleftrightarrow>
    pb_start_height terms \<le> ctx_height c \<and> unat (ctx_fee c) + unat (ctx_payout c) < 2 ^ 64 \<and>
    (if ctx_height c < e
     then ctx_fee c + ctx_payout c \<le> b \<and> regs = [b - (ctx_fee c + ctx_payout c), e, 1, ctx_fee c + ctx_payout c]
     else unat (ctx_height c) + unat (pb_period_blocks terms) < 2 ^ 64 \<and> ctx_fee c + ctx_payout c \<le> pb_budget terms \<and>
       regs = [pb_budget terms - (ctx_fee c + ctx_payout c), ctx_height c + pb_period_blocks terms, 0, ctx_fee c + ctx_payout c])"
proof (cases "ctx_height c < e")
  case True
  then show ?thesis
    using assms by (auto simp: period_budget_instructions_def Let_def symbolic_exec rbind_if rbind_assoc eval_add_eq_Inr eval_sub_eq_Inr bool_word_def)
next
  case False
  then show ?thesis
    using assms by (auto simp: period_budget_instructions_def Let_def symbolic_exec rbind_if rbind_assoc eval_add_eq_Inr eval_sub_eq_Inr bool_word_def)
qed

lemma budget_program_recovery:
  assumes "\<not> ctx_before_deadline c"
  shows "run_instructions c (period_budget_instructions terms) [b, e, 0, 0] = Inr [b, e, 1, 0]"
  using assms
  by (cases "ctx_height c < e") (simp_all add: period_budget_instructions_def Let_def symbolic_exec bool_word_def)

lemma recurring_program_claim:
  assumes "ctx_before_deadline c"
  shows "run_instructions c (recurring_payment_instructions terms) [n, e, 0, 0] = Inr regs \<longleftrightarrow>
    e \<le> ctx_height c \<and> ctx_payout c = rp_payment terms \<and> unat n + 1 < 2 ^ 64 \<and>
    unat (ctx_height c) + unat (rp_period_blocks terms) < 2 ^ 64 \<and>
    regs = [n + 1, ctx_height c + rp_period_blocks terms, 0, 0]"
  using assms by (auto simp: recurring_payment_instructions_def Let_def symbolic_exec rbind_if rbind_assoc eval_add_eq_Inr bool_word_def)

lemma tranche_program_claim:
  assumes "ctx_before_deadline c"
  shows "run_instructions c (tranche_vesting_instructions terms) [n, e, 0, 0] = Inr regs \<longleftrightarrow>
    e \<le> ctx_height c \<and> ctx_payout c = tv_tranche_amount terms \<and> unat n + unat (tv_tranche_amount terms) < 2 ^ 64 \<and>
    unat e + unat (tv_period_blocks terms) < 2 ^ 64 \<and>
    regs = [n + tv_tranche_amount terms, e + tv_period_blocks terms, 0, 0]"
  using assms by (auto simp: tranche_vesting_instructions_def Let_def symbolic_exec rbind_if rbind_assoc eval_add_eq_Inr bool_word_def)

lemma scheduled_program_recovery:
  assumes "\<not> ctx_before_deadline c"
  shows "run_instructions c (recurring_payment_instructions rterms) [n, e, 0, 0] = Inr [n, e, 0, 0]"
    and "run_instructions c (tranche_vesting_instructions vterms) [n, e, 0, 0] = Inr [n, e, 0, 0]"
  using assms
  by (simp_all add: recurring_payment_instructions_def tranche_vesting_instructions_def Let_def symbolic_exec bool_word_def)

subsection \<open>Calls of the templates\<close>

lemma call_step_facts:
  assumes "call_step perm pick o1 s height page s'"
  shows "tx_body_typed page" "permits (oo_rules o1) (height < oo_deadline o1) False"
    "execute (oo_program o1) s (context_from_body page height (oo_deadline o1)) = Inr s'"
    "unat (in_amount (tx_inputs page ! 0)) = unat (out_amount (tx_outputs page ! 0)) + debit_of page"
    "min_retained (oo_rules o1) \<le> out_amount (tx_outputs page ! 0)"
    "out_amount (tx_outputs page ! 1) \<le> max_payout (oo_rules o1)"
    "out_amount (tx_outputs page ! 1) \<noteq> 0 \<longrightarrow> and (modes (oo_rules o1)) ANY_PAYOUT_RECIPIENT = 0 \<longrightarrow>
       out_owner (tx_outputs page ! 1) = recipient_at o1 height"
proof -
  obtain tr where t: "tx_body_typed page" "check_call perm pick (o1\<lparr>oo_state := s\<rparr>) page height = Inr tr"
      "\<not> ct_terminal tr" "ct_next tr = s'"
    using assms by (auto simp: call_step_def split: sum.splits)
  from t(2) obtain f where c: "validate_paged_spend perm pick [page] = Inr f"
    "tx_validity_bitmap page = or call_base_bitmap (if is_terminal page then PAGED_SPEND_TERMINAL_BIT
       else and (tx_validity_bitmap page) (output_bitmap_bit 1))"
    "permits (oo_rules (o1\<lparr>oo_state := s\<rparr>)) (height < oo_deadline (o1\<lparr>oo_state := s\<rparr>)) (is_terminal page)"
    "check_limits (o1\<lparr>oo_state := s\<rparr>) page height = Inr ()"
    "execute (oo_program (o1\<lparr>oo_state := s\<rparr>)) (oo_state (o1\<lparr>oo_state := s\<rparr>))
       (context_from_body page height (oo_deadline (o1\<lparr>oo_state := s\<rparr>))) = Inr (ct_next tr)"
    "ct_terminal tr = is_terminal page"
    by (rule check_call_cases)
  have nt: "\<not> is_terminal page" using t(3) c(6) by simp
  show "tx_body_typed page" "permits (oo_rules o1) (height < oo_deadline o1) False"
    "execute (oo_program o1) s (context_from_body page height (oo_deadline o1)) = Inr s'"
    using t(1,4) c(3,5) nt by simp_all
  show "unat (in_amount (tx_inputs page ! 0)) = unat (out_amount (tx_outputs page ! 0)) + debit_of page"
    using check_call_balance [OF t(1,2)] by (simp add: debit_of_def payout_of_def)
  have l: "min_retained (oo_rules o1) \<le> out_amount (tx_outputs page ! 0)"
    "out_amount (tx_outputs page ! 1) \<le> max_payout (oo_rules o1)"
    "has_payout page \<longrightarrow> and (modes (oo_rules o1)) ANY_PAYOUT_RECIPIENT = 0 \<longrightarrow>
       out_owner (tx_outputs page ! 1) = recipient_at o1 height"
    using c(4) nt by (auto simp: check_limits_def rbind_unit_eq_Inr recipient_at_def)
  then show "min_retained (oo_rules o1) \<le> out_amount (tx_outputs page ! 0)"
    "out_amount (tx_outputs page ! 1) \<le> max_payout (oo_rules o1)" by simp_all
  have "validate_page_shape page 0 = Inr ()"
    using c(1) by (auto elim!: validate_paged_spend_cases)
  then have "out_amount (tx_outputs page ! 1) \<noteq> 0 \<longrightarrow> has_payout page"
    using call_bitmap_cases [OF c(2)] dead_payout_zero [OF t(1)]
    by (auto simp: dummy_output_def has_payout_def bitmap_defs)
  then show "out_amount (tx_outputs page ! 1) \<noteq> 0 \<longrightarrow> and (modes (oo_rules o1)) ANY_PAYOUT_RECIPIENT = 0 \<longrightarrow>
       out_owner (tx_outputs page ! 1) = recipient_at o1 height"
    using l(3) by blast
qed

lemma context_from_body_simps [simp]:
  "ctx_height (context_from_body b h d) = h" "ctx_fee (context_from_body b h d) = tx_fee b"
  "ctx_payout (context_from_body b h d) = out_amount (tx_outputs b ! 1)"
  "ctx_before_deadline (context_from_body b h d) = (h < d)"
  by (simp_all add: context_from_body_def)

lemma allowance_modes:
  "permits (oo_rules (allowance_wallet sk rk pr d f p r)) before terminal \<longleftrightarrow> before \<noteq> terminal"
  "and (modes (oo_rules (allowance_wallet sk rk pr d f p r))) ANY_PAYOUT_RECIPIENT = 0 \<longleftrightarrow> pr \<noteq> None"
  "opening_validate (allowance_wallet sk rk pr d f p r) = Inr ()"
proof -
  show "permits (oo_rules (allowance_wallet sk rk pr d f p r)) before terminal \<longleftrightarrow> before \<noteq> terminal"
    by (simp add: allowance_wallet_def permits_def mode_bit_def CLAIM_CONTINUE_def RECOVERY_CLOSE_def CLAIM_CLOSE_def
        RECOVERY_CONTINUE_def ANY_PAYOUT_RECIPIENT_def)
  show "and (modes (oo_rules (allowance_wallet sk rk pr d f p r))) ANY_PAYOUT_RECIPIENT = 0 \<longleftrightarrow> pr \<noteq> None"
    by (simp add: allowance_wallet_def CLAIM_CONTINUE_def RECOVERY_CLOSE_def ANY_PAYOUT_RECIPIENT_def)
  have "from_fields (0, 0) \<noteq> None" by (simp add: zero_fields)
  then show "opening_validate (allowance_wallet sk rk pr d f p r) = Inr ()"
    by (simp add: opening_validate_iff allowance_wallet_def KEEP_STATE_def CLAIM_CONTINUE_def RECOVERY_CLOSE_def
        ANY_PAYOUT_RECIPIENT_def VALID_MODES_def)
qed

lemma install_program:
  "oo_program (install (allowance_wallet sk rk pr d f p r\<lparr>oo_state := s\<rparr>) is) =
     map to_fields is @ replicate (PROGRAM_STEPS - length is) (0, 0)"
  by (simp add: install_def allowance_wallet_def KEEP_STATE_def)

lemma validate_schedule_iff:
  "validate_schedule start period deadline = Inr () \<longleftrightarrow>
     0 < unat period \<and> unat start < unat deadline \<and> unat deadline + unat period \<le> 2 ^ 64"
proof -
  have "start < deadline \<Longrightarrow> unat (deadline - 1) = unat deadline - 1 \<and> 0 < unat deadline"
    by (metis gr0I less_nat_zero_code unat_minus_one word_less_nat_alt unat_0 word_not_simps(1))
  then show ?thesis
    by (auto simp: validate_schedule_def rbind_unit_eq_Inr checked_add_def word_less_nat_alt word_le_nat_alt unat_gt_0)
qed

lemma period_budget_wallet_eq:
  assumes "period_budget_wallet sk rk pr terms = Inr o1"
  defines "o2 \<equiv> allowance_wallet sk rk pr (pb_recover_at terms) (pb_max_fee terms)
                (pb_max_payout terms) (max (pb_min_retained terms) (pb_max_fee terms))"
  shows "o1 = install (o2\<lparr>oo_state := pack_state (pb_budget terms, pb_start_height terms + pb_period_blocks terms)\<rparr>)
                (period_budget_instructions terms)"
    and "0 < unat (pb_period_blocks terms)" "unat (pb_start_height terms) < unat (pb_recover_at terms)"
    and "unat (pb_recover_at terms) + unat (pb_period_blocks terms) \<le> 2 ^ 64"
    and "pb_max_fee terms \<le> pb_budget terms"
  using assms by (auto simp: period_budget_wallet_def rbind_eq_Inr validate_schedule_iff Let_def)

lemma recurring_payment_eq:
  assumes "recurring_payment payer payee terms = Inr o1"
  defines "o2 \<equiv> allowance_wallet payee payer (Some payee) (rp_recover_at terms) (rp_max_fee terms)
                (rp_payment terms) (rp_max_fee terms)"
  shows "o1 = install (o2\<lparr>oo_state := pack_state (0, rp_first_due_height terms)\<rparr>) (recurring_payment_instructions terms)"
    and "0 < unat (rp_period_blocks terms)" "unat (rp_first_due_height terms) < unat (rp_recover_at terms)"
    and "unat (rp_recover_at terms) + unat (rp_period_blocks terms) \<le> 2 ^ 64" "rp_payment terms \<noteq> 0"
  using assms by (auto simp: recurring_payment_def rbind_eq_Inr validate_schedule_iff Let_def)

lemma tranche_vesting_eq:
  assumes "tranche_vesting beneficiary terms = Inr o1"
  defines "o2 \<equiv> allowance_wallet beneficiary beneficiary (Some beneficiary) (tv_mature_at terms) (tv_max_fee terms)
                (tv_tranche_amount terms) (tv_max_fee terms)"
  shows "o1 = install (o2\<lparr>oo_state := pack_state (0, tv_first_unlock_height terms)\<rparr>) (tranche_vesting_instructions terms)"
    and "0 < unat (tv_period_blocks terms)" "unat (tv_first_unlock_height terms) < unat (tv_mature_at terms)"
    and "unat (tv_mature_at terms) + unat (tv_period_blocks terms) \<le> 2 ^ 64" "tv_tranche_amount terms \<noteq> 0"
  using assms by (auto simp: tranche_vesting_def rbind_eq_Inr validate_schedule_iff Let_def)

lemma installed_simps [simp]:
  "oo_rules (install o2 is) = oo_rules o2" "oo_deadline (install o2 is) = oo_deadline o2"
  "oo_state (install o2 is) = oo_state o2" "oo_claim_recipient (install o2 is) = oo_claim_recipient o2"
  "oo_recovery_recipient (install o2 is) = oo_recovery_recipient o2"
  by (simp_all add: install_def)

lemma allowance_simps [simp]:
  "oo_deadline (allowance_wallet sk rk pr d f p r) = d"
  "oo_claim_recipient (allowance_wallet sk rk (Some a) d f p r) = a"
  "oo_recovery_recipient (allowance_wallet sk rk pr d f p r) = rk"
  by (simp_all add: allowance_wallet_def)

lemma execute_installed:
  assumes "o1 = install (allowance_wallet sk rk pr d f p r\<lparr>oo_state := s0\<rparr>) is"
    and "execute (oo_program o1) s c = Inr s'"
  obtains regs where "run_instructions c is [fst (unpack_state s), snd (unpack_state s), 0, 0] = Inr regs"
    "unpack_state s' = (regs ! 0, regs ! 1)"
  using assms by (auto simp: install_program execute_encoded rbind_eq_Inr)

lemma budget_call:
  assumes "period_budget_wallet sk rk pr terms = Inr o1" "call_step perm pick o1 s h page s'"
  shows "h < pb_recover_at terms" "pb_start_height terms \<le> h"
    "unat (fst (unpack_state s')) + debit_of page =
       unat (if unat h < state_due s then fst (unpack_state s) else pb_budget terms)"
    "state_due s' = (if unat h < state_due s then state_due s else unat h + unat (pb_period_blocks terms))"
proof -
  note o1 = period_budget_wallet_eq [OF assms(1)] and c = call_step_facts [OF assms(2)]
  show h: "h < pb_recover_at terms" using c(2) by (simp add: o1(1) allowance_modes)
  obtain regs where r: "run_instructions (context_from_body page h (pb_recover_at terms)) (period_budget_instructions terms)
      [fst (unpack_state s), snd (unpack_state s), 0, 0] = Inr regs" "unpack_state s' = (regs ! 0, regs ! 1)"
    using execute_installed [OF o1(1) c(3)] by (auto simp: o1(1))
  note f = r(1) [unfolded budget_program_claim [where c = "context_from_body page h (pb_recover_at terms)", simplified, OF h]]
  show "pb_start_height terms \<le> h" using f by simp
  have d: "unat (tx_fee page + out_amount (tx_outputs page ! 1)) = debit_of page"
    using f by (simp add: unat_add_exact debit_of_def payout_of_def)
  show "unat (fst (unpack_state s')) + debit_of page =
       unat (if unat h < state_due s then fst (unpack_state s) else pb_budget terms)"
    using f r(2) d by (auto simp: state_due_def word_less_nat_alt word_le_nat_alt unat_sub_exact split: if_splits)
  show "state_due s' = (if unat h < state_due s then state_due s else unat h + unat (pb_period_blocks terms))"
    using f r(2) by (auto simp: state_due_def word_less_nat_alt unat_add_exact split: if_splits)
qed

lemma recurring_call:
  assumes "recurring_payment payer payee terms = Inr o1" "call_step perm pick o1 s h page s'"
  shows "h < rp_recover_at terms" "state_due s \<le> unat h" "payout_of page = unat (rp_payment terms)"
    "out_owner (tx_outputs page ! 1) = payee"
    "unat (fst (unpack_state s')) = unat (fst (unpack_state s)) + 1"
    "state_due s' = unat h + unat (rp_period_blocks terms)"
proof -
  note o1 = recurring_payment_eq [OF assms(1)] and c = call_step_facts [OF assms(2)]
  show h: "h < rp_recover_at terms" using c(2) by (simp add: o1(1) allowance_modes)
  obtain regs where r: "run_instructions (context_from_body page h (rp_recover_at terms)) (recurring_payment_instructions terms)
      [fst (unpack_state s), snd (unpack_state s), 0, 0] = Inr regs" "unpack_state s' = (regs ! 0, regs ! 1)"
    using execute_installed [OF o1(1) c(3)] by (auto simp: o1(1))
  note f = r(1) [unfolded recurring_program_claim [where c = "context_from_body page h (rp_recover_at terms)", simplified, OF h]]
  show "state_due s \<le> unat h" "payout_of page = unat (rp_payment terms)"
    using f by (auto simp: state_due_def word_le_nat_alt payout_of_def)
  show "out_owner (tx_outputs page ! 1) = payee"
    using c(7) f h o1(5) by (simp add: o1(1) allowance_modes recipient_at_def)
  show "unat (fst (unpack_state s')) = unat (fst (unpack_state s)) + 1"
    "state_due s' = unat h + unat (rp_period_blocks terms)"
    using f r(2) by (auto simp: state_due_def unat_add_exact)
qed

lemma tranche_call:
  assumes "tranche_vesting beneficiary terms = Inr o1" "call_step perm pick o1 s h page s'"
  shows "h < tv_mature_at terms" "state_due s \<le> unat h" "payout_of page = unat (tv_tranche_amount terms)"
    "out_owner (tx_outputs page ! 1) = beneficiary"
    "unat (fst (unpack_state s')) = unat (fst (unpack_state s)) + unat (tv_tranche_amount terms)"
    "state_due s' = state_due s + unat (tv_period_blocks terms)"
proof -
  note o1 = tranche_vesting_eq [OF assms(1)] and c = call_step_facts [OF assms(2)]
  show h: "h < tv_mature_at terms" using c(2) by (simp add: o1(1) allowance_modes)
  obtain regs where r: "run_instructions (context_from_body page h (tv_mature_at terms)) (tranche_vesting_instructions terms)
      [fst (unpack_state s), snd (unpack_state s), 0, 0] = Inr regs" "unpack_state s' = (regs ! 0, regs ! 1)"
    using execute_installed [OF o1(1) c(3)] by (auto simp: o1(1))
  note f = r(1) [unfolded tranche_program_claim [where c = "context_from_body page h (tv_mature_at terms)", simplified, OF h]]
  show "state_due s \<le> unat h" "payout_of page = unat (tv_tranche_amount terms)"
    using f by (auto simp: state_due_def word_le_nat_alt payout_of_def)
  show "out_owner (tx_outputs page ! 1) = beneficiary"
    using c(7) f h o1(5) by (simp add: o1(1) allowance_modes recipient_at_def)
  show "unat (fst (unpack_state s')) = unat (fst (unpack_state s)) + unat (tv_tranche_amount terms)"
    "state_due s' = state_due s + unat (tv_period_blocks terms)"
    using f r(2) by (auto simp: state_due_def unat_add_exact)
qed

subsection \<open>Programs that keep a due height\<close>

locale paced_schedule =
  fixes step :: "'s \<Rightarrow> nat \<Rightarrow> 's \<Rightarrow> bool" and due :: "'s \<Rightarrow> nat" and period :: nat
  assumes advance: "step s h t \<Longrightarrow> due s \<le> h \<Longrightarrow> due s + period \<le> due t \<and> due t \<le> h + period"
    and keep: "step s h t \<Longrightarrow> h < due s \<Longrightarrow> due t = due s"
begin

lemma run_due:
  "paced_run step due s hs n t \<Longrightarrow> \<forall>h \<in> set hs. h \<le> H \<Longrightarrow>
     due s + n * period \<le> due t \<and> (0 < n \<longrightarrow> due t \<le> H + period)"
proof (induction rule: paced_run.induct)
  case (paced_step hs n t h u)
  then show ?case
    using advance [OF paced_step.hyps(2)] keep [OF paced_step.hyps(2)]
    by (cases "due t \<le> h") (auto simp: algebra_simps)
qed simp

lemma run_count:
  assumes "paced_run step due s hs n t" "\<forall>h \<in> set hs. h \<le> H" "0 < period"
  shows "n \<le> (if due s \<le> H then (H - due s) div period + 1 else 0)"
proof (cases n)
  case (Suc m)
  then have "due s + m * period \<le> H" using run_due [OF assms(1,2)] by simp
  then have "due s \<le> H" "m * period \<le> H - due s" by linarith+
  then show ?thesis using Suc assms(3) by (simp add: less_eq_div_iff_mult_less_eq)
qed simp

end

interpretation budget_schedule: paced_schedule "budget_step perm pick sk rk pr terms" state_due "unat (pb_period_blocks terms)"
  by unfold_locales (auto simp: budget_step_def budget_call)

interpretation recurring_schedule: paced_schedule "recurring_step perm pick payer payee terms" state_due "unat (rp_period_blocks terms)"
proof
  fix s h t
  assume "recurring_step perm pick payer payee terms s h t"
  then have "state_due s \<le> h" "state_due t = h + unat (rp_period_blocks terms)"
    by (auto simp: recurring_step_def dest: recurring_call)
  then show "state_due s + unat (rp_period_blocks terms) \<le> state_due t \<and> state_due t \<le> h + unat (rp_period_blocks terms)"
    and "h < state_due s \<Longrightarrow> state_due t = state_due s" by simp_all
qed

interpretation tranche_schedule: paced_schedule "tranche_step perm pick beneficiary terms" state_due "unat (tv_period_blocks terms)"
proof
  fix s h t
  assume "tranche_step perm pick beneficiary terms s h t"
  then have "state_due s \<le> h" "state_due t = state_due s + unat (tv_period_blocks terms)"
    by (auto simp: tranche_step_def dest: tranche_call)
  then show "state_due s + unat (tv_period_blocks terms) \<le> state_due t \<and> state_due t \<le> h + unat (tv_period_blocks terms)"
    and "h < state_due s \<Longrightarrow> state_due t = state_due s" by simp_all
qed

subsection \<open>Lifetimes\<close>

lemma run_conserves:
  assumes "contract_run perm pick o1 amount calls s a"
  shows "unat amount = unat a + (\<Sum>c\<leftarrow>calls. debit_of (snd c))"
  using assms by (induction rule: contract_run.induct) (auto dest: call_step_facts)

lemma heights_le: "(\<forall>c \<in> set (calls :: (u64 \<times> tx_page) list). fst c \<le> h) = (\<forall>k \<in> set (map (unat \<circ> fst) calls). k \<le> unat h)"
  by (simp add: word_le_nat_alt)

lemma budget_run:
  assumes "period_budget_wallet sk rk pr terms = Inr o1" "contract_run perm pick o1 amount calls s a"
  shows "\<exists>n. paced_run (budget_step perm pick sk rk pr terms) state_due (oo_state o1) (map (unat \<circ> fst) calls) n s \<and>
    (\<Sum>c\<leftarrow>calls. debit_of (snd c)) + unat (fst (unpack_state s)) \<le> unat (pb_budget terms) * (n + 1)"
  using assms(2)
proof (induction rule: contract_run.induct)
  case run_start
  have "paced_run (budget_step perm pick sk rk pr terms) state_due (oo_state o1) [] 0 (oo_state o1)"
    by (rule paced_start)
  then show ?case by (intro exI [of _ 0]) (simp add: period_budget_wallet_eq(1) [OF assms(1)])
next
  case (run_call calls s a h page s')
  then obtain n where n: "paced_run (budget_step perm pick sk rk pr terms) state_due (oo_state o1) (map (unat \<circ> fst) calls) n s"
    "(\<Sum>c\<leftarrow>calls. debit_of (snd c)) + unat (fst (unpack_state s)) \<le> unat (pb_budget terms) * (n + 1)" by blast
  have "budget_step perm pick sk rk pr terms s (unat h) s'"
    using assms(1) run_call.hyps(2) by (auto simp: budget_step_def)
  from paced_step [OF n(1) this] run_call.hyps(4)
  have "paced_run (budget_step perm pick sk rk pr terms) state_due (oo_state o1) (map (unat \<circ> fst) (calls @ [(h, page)]))
      (if state_due s \<le> unat h then Suc n else n) s'"
    by (simp add: heights_le)
  moreover have "(\<Sum>c\<leftarrow>calls @ [(h, page)]. debit_of (snd c)) + unat (fst (unpack_state s'))
      \<le> unat (pb_budget terms) * ((if state_due s \<le> unat h then Suc n else n) + 1)"
    using n(2) budget_call(3) [OF assms(1) run_call.hyps(2)] by (auto split: if_splits)
  ultimately show ?case by blast
qed

lemma recurring_run:
  assumes "recurring_payment payer payee terms = Inr o1" "contract_run perm pick o1 amount calls s a"
  shows "paced_run (recurring_step perm pick payer payee terms) state_due (oo_state o1) (map (unat \<circ> fst) calls) (length calls) s \<and>
    unat (fst (unpack_state s)) = length calls"
  using assms(2)
proof (induction rule: contract_run.induct)
  case run_start
  show ?case using paced_start by (auto simp: recurring_payment_eq(1) [OF assms(1)])
next
  case (run_call calls s a h page s')
  have "recurring_step perm pick payer payee terms s (unat h) s'"
    using assms(1) run_call.hyps(2) by (auto simp: recurring_step_def)
  from paced_step [OF conjunct1 [OF run_call.IH] this] run_call.hyps(4) run_call.IH show ?case
    using recurring_call(2,5) [OF assms(1) run_call.hyps(2)] by (simp add: heights_le)
qed

lemma tranche_run:
  assumes "tranche_vesting beneficiary terms = Inr o1" "contract_run perm pick o1 amount calls s a"
  shows "paced_run (tranche_step perm pick beneficiary terms) state_due (oo_state o1) (map (unat \<circ> fst) calls) (length calls) s \<and>
    unat (fst (unpack_state s)) = length calls * unat (tv_tranche_amount terms)"
  using assms(2)
proof (induction rule: contract_run.induct)
  case run_start
  show ?case using paced_start by (auto simp: tranche_vesting_eq(1) [OF assms(1)])
next
  case (run_call calls s a h page s')
  have "tranche_step perm pick beneficiary terms s (unat h) s'"
    using assms(1) run_call.hyps(2) by (auto simp: tranche_step_def)
  from paced_step [OF conjunct1 [OF run_call.IH] this] run_call.hyps(4) run_call.IH show ?case
    using tranche_call(2,5) [OF assms(1) run_call.hyps(2)] by (simp add: heights_le)
qed

lemma run_calls_ok:
  assumes "contract_run perm pick o1 amount calls s a" "\<And>s h page s'. call_step perm pick o1 s h page s' \<Longrightarrow> P h page"
  shows "\<forall>c \<in> set calls. P (fst c) (snd c)"
  using assms(1) by (induction rule: contract_run.induct) (auto intro: assms(2))

subsection \<open>Closing after the deadline\<close>

text \<open>What the recovery close needs of a template: its modes, its program, its reserve.\<close>

lemma recovery_ready_templates:
  assumes "period_budget_wallet sk rk pr bterms = Inr o1 \<or> recurring_payment payer payee rterms = Inr o1 \<or>
    tranche_vesting beneficiary vterms = Inr o1"
  shows "opening_validate (o1\<lparr>oo_state := s\<rparr>) = Inr ()" "permits (oo_rules o1) False True"
    "max_fee (oo_rules o1) \<le> min_retained (oo_rules o1)"
    "\<not> ctx_before_deadline c \<Longrightarrow> execute (oo_program o1) s c = Inr s"
proof -
  define modes_ok where "modes_ok o2 \<longleftrightarrow> opening_validate o2 = Inr () \<and> permits (oo_rules o2) False True" for o2
  obtain sk' rk' pr' d f p r s0 "is" where o1: "o1 = install (allowance_wallet sk' rk' pr' d f p r\<lparr>oo_state := s0\<rparr>) is"
    and fr: "f \<le> r" and run: "\<And>c a b. \<not> ctx_before_deadline c \<Longrightarrow> \<exists>x y. run_instructions c is [a, b, 0, 0] = Inr [a, b, x, y]"
    using assms
  proof (elim disjE)
    assume "period_budget_wallet sk rk pr bterms = Inr o1"
    from that [OF period_budget_wallet_eq(1) [OF this]] show thesis by (simp add: budget_program_recovery)
  next
    assume "recurring_payment payer payee rterms = Inr o1"
    from that [OF recurring_payment_eq(1) [OF this]] show thesis by (auto simp: scheduled_program_recovery)
  next
    assume "tranche_vesting beneficiary vterms = Inr o1"
    from that [OF tranche_vesting_eq(1) [OF this]] show thesis by (auto simp: scheduled_program_recovery)
  qed
  have "opening_validate (allowance_wallet sk' rk' pr' d f p r) = Inr ()" by (rule allowance_modes)
  then show "opening_validate (o1\<lparr>oo_state := s\<rparr>) = Inr ()"
    unfolding opening_validate_iff o1 using encoded_programs_valid
    by (auto simp: install_program simp del: set_append)
  show "permits (oo_rules o1) False True" by (simp add: o1 allowance_modes)
  show "max_fee (oo_rules o1) \<le> min_retained (oo_rules o1)" using fr by (simp add: o1 allowance_wallet_def)
  assume "\<not> ctx_before_deadline c"
  then obtain x y where "run_instructions c is [fst (unpack_state s), snd (unpack_state s), 0, 0] =
      Inr [fst (unpack_state s), snd (unpack_state s), x, y]" using run by blast
  then show "execute (oo_program o1) s c = Inr s"
    by (simp add: o1 install_program execute_encoded)
qed

lemma run_reserve:
  assumes "contract_run perm pick o1 amount calls s a" "max_fee (oo_rules o1) \<le> min_retained (oo_rules o1)"
    "max_fee (oo_rules o1) \<le> amount"
  shows "max_fee (oo_rules o1) \<le> a"
  using assms by (induction rule: contract_run.induct) (auto dest: call_step_facts(5))

lemma built_page_amounts:
  assumes "build_call_inner perm pick o1 inp slot fee anchor height terminal payout = Inr page"
    and "\<not> (terminal \<and> payout \<noteq> None)"
  shows "tx_inputs page ! 0 = inp" "is_terminal page = terminal"
    "unat (in_amount inp) = unat (out_amount (tx_outputs page ! 0)) + unat (payout_amount payout) + unat fee"
proof -
  obtain retained owner where r: "page = set_output0_owner (call_body perm o1 inp slot retained fee anchor terminal payout) owner"
    "Option.bind (checked_sub (in_amount inp) fee) (\<lambda>a. checked_sub a (payout_amount payout)) = Some retained"
    using assms(1) by (auto simp: build_call_inner_def Let_def rbind_eq_Inr tx_page_new_def payout_amount_def ok_or_eq_Inr split: if_splits)
  show "tx_inputs page ! 0 = inp"
    by (simp add: r(1) set_output0_owner_def call_body_def tx_const_defs numeral_eq_Suc)
  show "is_terminal page = terminal"
    using call_body_bitmap [OF assms(2)] by (simp add: is_terminal_def r(1) bitmap_defs)
  have "out_amount (tx_outputs page ! 0) = retained"
    by (simp add: r(1) set_output0_owner_def call_body_def)
  then show "unat (in_amount inp) = unat (out_amount (tx_outputs page ! 0)) + unat (payout_amount payout) + unat fee"
    using r(2) by (auto simp: bind_eq_Some_conv checked_sub_eq_Some)
qed

lemma first_call_run:
  assumes "opening_validate o1 = Inr ()" "call_allowed o1 fee retained (Some out) height False"
    and "call_slots_ok inp slot (Some out)"
    and "unat (in_amount inp) = unat retained + unat (out_amount out) + unat fee"
    and "execute (oo_program o1) (oo_state o1)
      (context_from_body (call_body perm o1 inp slot retained fee anchor False (Some out)) height (oo_deadline o1)) = Inr next"
  shows "\<exists>page. contract_run perm pick o1 (in_amount inp) [(height, page)] next retained"
proof -
  have "unat (in_amount inp) = unat retained + unat (payout_amount (Some out)) + unat fee"
    using assms(4) by (simp add: payout_amount_def)
  from build_call_complete [OF assms(1-3) this assms(5)] obtain page tr where
    p: "build_call_inner perm pick o1 inp slot fee anchor height False (Some out) = Inr page"
    "check_call perm pick o1 page height = Inr tr" "ct_next tr = next" by blast
  note b = built_page_amounts [OF p(1), simplified]
  have "\<not> ct_terminal tr" using p(2) b(2) by (auto elim: check_call_cases)
  then have "call_step perm pick o1 (oo_state o1) height page next"
    using p built_page_typed [OF p(1)] by (simp add: call_step_def)
  from run_call [OF run_start this refl] have "contract_run perm pick o1 (in_amount inp) [(height, page)] next (out_amount (tx_outputs page ! 0))"
    using b(1) by simp
  moreover have "out_amount (tx_outputs page ! 0) = retained"
    using b(3) assms(4) by (simp add: payout_amount_def word_unat_eq_iff)
  ultimately show ?thesis by blast
qed

subsection \<open>Sample contracts\<close>

lemmas mode_defs = CLAIM_CONTINUE_def CLAIM_CLOSE_def RECOVERY_CONTINUE_def RECOVERY_CLOSE_def ANY_PAYOUT_RECIPIENT_def VALID_MODES_def

lemma sample_budget_run:
  "\<exists>o1 page s. period_budget_wallet 1 2 (Some 3) sample_budget = Inr o1 \<and> contract_run id (\<lambda>_. 0) o1 100 [(20, page)] s 75"
proof -
  obtain o1 where o1: "period_budget_wallet 1 2 (Some 3) sample_budget = Inr o1"
    by (simp add: period_budget_wallet_def sample_budget_def validate_schedule_def checked_add_def Let_def)
  note eq = period_budget_wallet_eq(1) [OF o1]
  have v: "opening_validate o1 = Inr ()" using recovery_ready_templates(1) [OF disjI1 [OF o1], of "oo_state o1"] by simp
  have "\<exists>page. contract_run id (\<lambda>_. 0) o1 (in_amount \<lparr>in_slot_index = 1, in_amount = 100, in_creation_id = 7\<rparr>) [(20, page)]
     (pack_state (25, 30)) 75"
    by (rule first_call_run [OF v, where fee = 5 and out = "\<lparr>out_slot_index = 3, out_amount = 20, out_owner = 3\<rparr>" and slot = 2 and anchor = 0])
      (simp_all add: eq call_allowed_def call_slots_ok_def allowance_modes payout_amount_def recipient_at_def
        install_program execute_encoded call_body_def sample_budget_def rbind_eq_Inr budget_program_claim,
       simp_all add: allowance_wallet_def)
  then show ?thesis using o1 by auto
qed

lemma sample_recurring_run:
  "\<exists>o1 page s. recurring_payment 2 3 sample_recurring = Inr o1 \<and> contract_run id (\<lambda>_. 0) o1 100 [(20, page)] s 75"
proof -
  obtain o1 where o1: "recurring_payment 2 3 sample_recurring = Inr o1"
    by (simp add: recurring_payment_def sample_recurring_def validate_schedule_def checked_add_def Let_def)
  note eq = recurring_payment_eq(1) [OF o1]
  have v: "opening_validate o1 = Inr ()" using recovery_ready_templates(1) [OF disjI2 [OF disjI1 [OF o1]], of "oo_state o1"] by simp
  have "\<exists>page. contract_run id (\<lambda>_. 0) o1 (in_amount \<lparr>in_slot_index = 1, in_amount = 100, in_creation_id = 7\<rparr>) [(20, page)]
     (pack_state (1, 30)) 75"
    by (rule first_call_run [OF v, where fee = 5 and out = "\<lparr>out_slot_index = 3, out_amount = 20, out_owner = 3\<rparr>" and slot = 2 and anchor = 0])
      (simp_all add: eq call_allowed_def call_slots_ok_def allowance_modes payout_amount_def recipient_at_def
        install_program execute_encoded call_body_def sample_recurring_def rbind_eq_Inr recurring_program_claim,
       simp_all add: allowance_wallet_def)
  then show ?thesis using o1 by auto
qed

lemma sample_tranche_run:
  "\<exists>o1 page s. tranche_vesting 3 sample_tranche = Inr o1 \<and> contract_run id (\<lambda>_. 0) o1 100 [(20, page)] s 75"
proof -
  obtain o1 where o1: "tranche_vesting 3 sample_tranche = Inr o1"
    by (simp add: tranche_vesting_def sample_tranche_def validate_schedule_def checked_add_def Let_def)
  note eq = tranche_vesting_eq(1) [OF o1]
  have v: "opening_validate o1 = Inr ()" using recovery_ready_templates(1) [OF disjI2 [OF disjI2 [OF o1]], of "oo_state o1"] by simp
  have "\<exists>page. contract_run id (\<lambda>_. 0) o1 (in_amount \<lparr>in_slot_index = 1, in_amount = 100, in_creation_id = 7\<rparr>) [(20, page)]
     (pack_state (20, 15)) 75"
    by (rule first_call_run [OF v, where fee = 5 and out = "\<lparr>out_slot_index = 3, out_amount = 20, out_owner = 3\<rparr>" and slot = 2 and anchor = 0])
      (simp_all add: eq call_allowed_def call_slots_ok_def allowance_modes payout_amount_def recipient_at_def
        install_program execute_encoded call_body_def sample_tranche_def rbind_eq_Inr tranche_program_claim,
       simp_all add: allowance_wallet_def)
  then show ?thesis using o1 by auto
qed

section \<open>Properties\<close>

text \<open>C13: A budget wallet limits what its spending key can ever take out.  Over any history of
  admitted continuing calls with nondecreasing heights up to H, all payouts and fees together
  are at most the budget times the number of whole periods between the start height and H,
  plus one; and every call lies between the start height and the recovery height.\<close>

theorem budget_wallet_lifetime_bound:
  assumes "period_budget_wallet sk rk pr terms = Inr o1" "contract_run perm pick o1 amount calls s a"
    and "\<forall>c \<in> set calls. unat (fst c) \<le> H"
  shows "(\<Sum>c\<leftarrow>calls. debit_of (snd c))
      \<le> unat (pb_budget terms) * ((H - unat (pb_start_height terms)) div unat (pb_period_blocks terms) + 1) \<and>
    (\<forall>c \<in> set calls. pb_start_height terms \<le> fst c \<and> fst c < pb_recover_at terms)"
proof -
  note eq = period_budget_wallet_eq [OF assms(1)]
  let ?p = "unat (pb_period_blocks terms)" and ?s = "unat (pb_start_height terms)"
  obtain n where n: "paced_run (budget_step perm pick sk rk pr terms) state_due (oo_state o1) (map (unat \<circ> fst) calls) n s"
    "(\<Sum>c\<leftarrow>calls. debit_of (snd c)) + unat (fst (unpack_state s)) \<le> unat (pb_budget terms) * (n + 1)"
    using budget_run [OF assms(1,2)] by blast
  have d: "state_due (oo_state o1) = ?s + ?p"
    using eq(3,4) by (simp add: eq(1) state_due_def unat_add_exact)
  have "n \<le> (if state_due (oo_state o1) \<le> H then (H - state_due (oo_state o1)) div ?p + 1 else 0)"
    using assms(3) eq(2) by (intro budget_schedule.run_count [OF n(1)]) auto
  also have "\<dots> \<le> (H - ?s) div ?p"
    using eq(2) by (auto simp: d le_div_geq diff_diff_eq)
  finally have "unat (pb_budget terms) * (n + 1) \<le> unat (pb_budget terms) * ((H - ?s) div ?p + 1)" by simp
  moreover have "\<forall>c \<in> set calls. pb_start_height terms \<le> fst c \<and> fst c < pb_recover_at terms"
    using budget_call(1,2) [OF assms(1)] by (intro run_calls_ok [OF assms(2)]) blast
  ultimately show ?thesis using n(2) by linarith
qed

theorem budget_wallet_lifetime_bound_witness:
  "\<exists>o1 page s. period_budget_wallet 1 2 (Some 3) sample_budget = Inr o1 \<and>
     contract_run id (\<lambda>_. 0) o1 100 [(20, page)] s 75 \<and> debit_of page \<le> 100"
proof -
  obtain o1 page s where r: "period_budget_wallet 1 2 (Some 3) sample_budget = Inr o1"
    "contract_run id (\<lambda>_. 0) o1 100 [(20, page)] s 75" using sample_budget_run by blast
  from budget_wallet_lifetime_bound [OF r, of 20] have "debit_of page \<le> 100"
    by (simp add: sample_budget_def)
  then show ?thesis using r by blast
qed

text \<open>C24: A recurring payment never overcharges.  In any history of admitted continuing calls
  up to height H every call pays exactly the agreed payment to the payee, and there are at
  most as many calls as periods begun between the first due height and H; the counter in the
  contract state is the number of calls, and the payer's deposit is exactly the kept amount
  plus the fees plus that number of payments.\<close>

theorem recurring_payment_lifetime:
  assumes "recurring_payment payer payee terms = Inr o1" "contract_run perm pick o1 amount calls s a"
    and "\<forall>c \<in> set calls. unat (fst c) \<le> H"
  shows "(\<forall>c \<in> set calls. payout_of (snd c) = unat (rp_payment terms) \<and> out_owner (tx_outputs (snd c) ! 1) = payee) \<and>
    length calls \<le> (if unat (rp_first_due_height terms) \<le> H
      then (H - unat (rp_first_due_height terms)) div unat (rp_period_blocks terms) + 1 else 0) \<and>
    unat (fst (unpack_state s)) = length calls \<and>
    unat amount = unat a + (\<Sum>c\<leftarrow>calls. unat (tx_fee (snd c))) + length calls * unat (rp_payment terms)"
proof -
  note eq = recurring_payment_eq [OF assms(1)] and r = recurring_run [OF assms(1,2)]
  have pay: "\<forall>c \<in> set calls. payout_of (snd c) = unat (rp_payment terms) \<and> out_owner (tx_outputs (snd c) ! 1) = payee"
    using recurring_call(3,4) [OF assms(1)] by (intro run_calls_ok [OF assms(2)]) blast
  have first: "state_due (oo_state o1) = unat (rp_first_due_height terms)"
    by (simp add: eq(1) state_due_def)
  have "length calls \<le> (if unat (rp_first_due_height terms) \<le> H
      then (H - unat (rp_first_due_height terms)) div unat (rp_period_blocks terms) + 1 else 0)"
    unfolding first [symmetric]
    using assms(3) eq(2) by (intro recurring_schedule.run_count [OF conjunct1 [OF r]]) auto
  moreover have "unat amount = unat a + (\<Sum>c\<leftarrow>calls. unat (tx_fee (snd c)) + payout_of (snd c))"
    using run_conserves [OF assms(2)] by (simp add: debit_of_def)
  moreover have "(\<Sum>c\<leftarrow>calls. payout_of (snd c)) = length calls * unat (rp_payment terms)"
    using pay by (simp add: sum_list_triv cong: map_cong)
  ultimately show ?thesis using pay conjunct2 [OF r] by (simp only: sum_list_addf) simp
qed

theorem recurring_payment_lifetime_witness:
  "\<exists>o1 page s. recurring_payment 2 3 sample_recurring = Inr o1 \<and>
     contract_run id (\<lambda>_. 0) o1 100 [(20, page)] s 75 \<and> payout_of page = 20 \<and> fst (unpack_state s) = 1"
proof -
  obtain o1 page s where r: "recurring_payment 2 3 sample_recurring = Inr o1"
    "contract_run id (\<lambda>_. 0) o1 100 [(20, page)] s 75" using sample_recurring_run by blast
  from recurring_payment_lifetime [OF r, of 20] have "payout_of page = 20" "fst (unpack_state s) = 1"
    by (simp_all add: sample_recurring_def word_unat_eq_iff)
  then show ?thesis using r by blast
qed

text \<open>C25: Tranche vesting releases on the anchored schedule and no faster.  Over any history of
  admitted continuing calls up to height H the beneficiary has received one fixed tranche per
  call, the contract state records exactly that total, the next due height is the first
  unlock height plus one period per released tranche, and at most one tranche per period
  begun since the first unlock height has been released.\<close>

theorem tranche_vesting_lifetime:
  assumes "tranche_vesting beneficiary terms = Inr o1" "contract_run perm pick o1 amount calls s a"
    and "\<forall>c \<in> set calls. unat (fst c) \<le> H"
  shows "(\<Sum>c\<leftarrow>calls. payout_of (snd c)) = length calls * unat (tv_tranche_amount terms) \<and>
    unat (fst (unpack_state s)) = length calls * unat (tv_tranche_amount terms) \<and>
    state_due s = unat (tv_first_unlock_height terms) + length calls * unat (tv_period_blocks terms) \<and>
    length calls \<le> (if unat (tv_first_unlock_height terms) \<le> H
      then (H - unat (tv_first_unlock_height terms)) div unat (tv_period_blocks terms) + 1 else 0)"
proof -
  note eq = tranche_vesting_eq [OF assms(1)] and r = tranche_run [OF assms(1,2)]
  have pay: "\<forall>c \<in> set calls. payout_of (snd c) = unat (tv_tranche_amount terms)"
    using tranche_call(3) [OF assms(1)] by (intro run_calls_ok [OF assms(2)]) blast
  have first: "state_due (oo_state o1) = unat (tv_first_unlock_height terms)"
    by (simp add: eq(1) state_due_def)
  have "length calls \<le> (if unat (tv_first_unlock_height terms) \<le> H
      then (H - unat (tv_first_unlock_height terms)) div unat (tv_period_blocks terms) + 1 else 0)"
    unfolding first [symmetric]
    using assms(3) eq(2) by (intro tranche_schedule.run_count [OF conjunct1 [OF r]]) auto
  moreover have "(\<Sum>c\<leftarrow>calls. payout_of (snd c)) = length calls * unat (tv_tranche_amount terms)"
    using pay by (simp add: sum_list_triv cong: map_cong)
  moreover have "state_due s = state_due (oo_state o1) + length calls * unat (tv_period_blocks terms)"
    using assms(2) by (induction rule: contract_run.induct) (auto dest: tranche_call(6) [OF assms(1)])
  ultimately show ?thesis using conjunct2 [OF r] by (simp only: first)
qed

theorem tranche_vesting_lifetime_witness:
  "\<exists>o1 page s. tranche_vesting 3 sample_tranche = Inr o1 \<and>
     contract_run id (\<lambda>_. 0) o1 100 [(20, page)] s 75 \<and> payout_of page = 20 \<and> state_due s = 15"
proof -
  obtain o1 page s where r: "tranche_vesting 3 sample_tranche = Inr o1"
    "contract_run id (\<lambda>_. 0) o1 100 [(20, page)] s 75" using sample_tranche_run by blast
  from tranche_vesting_lifetime [OF r, of 20] have "payout_of page = 20" "state_due s = 15"
    by (simp_all add: sample_tranche_def)
  then show ?thesis using r by blast
qed

text \<open>C23: Scheduled contracts never trap the deposit.  Whatever admitted calls have happened to a
  budget wallet, a recurring payment or a tranche vesting that was funded with at least its
  fee cap, at or after the deadline the closing call with any fee up to the cap can be built:
  the fee is still covered, no program state blocks it, and the page it gives is admitted
  and pays the whole remainder to the recovery recipient.\<close>

theorem scheduled_deposit_recoverable:
  assumes "period_budget_wallet sk rk pr bterms = Inr o1 \<or> recurring_payment payer payee rterms = Inr o1 \<or>
      tranche_vesting beneficiary vterms = Inr o1"
    and "contract_run perm pick o1 amount calls s (in_amount inp)" "max_fee (oo_rules o1) \<le> amount"
    and "oo_deadline o1 \<le> height" "fee \<le> max_fee (oo_rules o1)" "in_slot_index inp \<noteq> slot"
  shows "\<exists>page tr. build_call perm pick (o1\<lparr>oo_state := s\<rparr>) inp slot fee anchor height True = Inr page \<and>
    check_call perm pick (o1\<lparr>oo_state := s\<rparr>) page height = Inr tr \<and> ct_authority tr = oo_recovery_authority o1 \<and>
    out_owner (tx_outputs page ! 0) = oo_recovery_recipient o1 \<and>
    unat (out_amount (tx_outputs page ! 0)) + unat fee = unat (in_amount inp)"
proof -
  let ?o = "o1\<lparr>oo_state := s\<rparr>"
  note ready = recovery_ready_templates [OF assms(1)]
  have nb: "\<not> height < oo_deadline o1" using assms(4) by simp
  have "fee \<le> in_amount inp" using run_reserve [OF assms(2) ready(3) assms(3)] assms(5) by simp
  then have bal: "unat (in_amount inp) = unat (in_amount inp - fee) + unat (payout_amount None) + unat fee"
    by (simp add: unat_sub_exact word_le_nat_alt payout_amount_def)
  have "\<exists>page tr. build_call_inner perm pick ?o inp slot fee anchor height True None = Inr page \<and>
      check_call perm pick ?o page height = Inr tr \<and> ct_next tr = s"
    using ready(1,2) assms(5,6) bal nb
    by (intro build_call_complete [where retained = "in_amount inp - fee"])
      (auto simp: call_allowed_def call_slots_ok_def intro!: ready(4))
  then obtain page tr where p: "build_call_inner perm pick ?o inp slot fee anchor height True None = Inr page"
    "check_call perm pick ?o page height = Inr tr" by blast
  note b = built_page_amounts [OF p(1), simplified]
  have "out_owner (tx_outputs page ! 0) = oo_recovery_recipient o1 \<and> ct_authority tr = oo_recovery_authority o1"
    using p(2) b(2) nb by (auto simp: recipient_at_def authority_at_def elim: check_call_cases)
  then show ?thesis using p b(3) by (auto simp: build_call_def payout_amount_def)
qed

theorem scheduled_deposit_recoverable_witness:
  "\<exists>o1 s page tr. recurring_payment 2 3 sample_recurring = Inr o1 \<and>
     check_call id (\<lambda>_. 0) (o1\<lparr>oo_state := s\<rparr>) page 100 = Inr tr \<and> unat (out_amount (tx_outputs page ! 0)) + 5 = 75"
proof -
  obtain o1 page s where r: "recurring_payment 2 3 sample_recurring = Inr o1"
    "contract_run id (\<lambda>_. 0) o1 100 [(20, page)] s 75" using sample_recurring_run by blast
  have o1: "max_fee (oo_rules o1) = 5" "oo_deadline o1 = 100"
    by (simp_all add: recurring_payment_eq(1) [OF r(1)] allowance_wallet_def sample_recurring_def)
  from scheduled_deposit_recoverable [OF disjI2 [OF disjI1 [OF r(1)]],
      of id "\<lambda>_. 0" 100 _ s "\<lparr>in_slot_index = 1, in_amount = 75, in_creation_id = 9\<rparr>" 100 5 2 0] r(2) o1
  show ?thesis using r(1) by fastforce
qed

text \<open>Even the owner cannot spend a time-locked vault early.  A call on the vault is admitted
  only at or after the unlock height, only as a closing call under the owner's authority, and
  it returns everything but a fee within the cap to the owner.\<close>

theorem timelocked_vault_locked:
  assumes "tx_body_typed page" "check_call perm pick (timelocked_vault owner unlock fee_cap) page height = Inr tr"
  shows "unlock \<le> height \<and> ct_terminal tr \<and> ct_authority tr = owner \<and> tx_fee page \<le> fee_cap \<and>
    out_owner (tx_outputs page ! 0) = owner \<and>
    unat (out_amount (tx_outputs page ! 0)) + payout_of page + unat (tx_fee page) = unat (in_amount (tx_inputs page ! 0))"
  using check_call_balance [OF assms] assms(2)
  by (auto elim!: check_call_cases simp: timelocked_vault_def permits_def mode_bit_def mode_defs recipient_at_def authority_at_def
      payout_of_def split: if_splits)

theorem timelocked_vault_locked_witness:
  "\<exists>page tr. check_call id (\<lambda>_. 0) (timelocked_vault 4 50 5) page 50 = Inr tr \<and> out_owner (tx_outputs page ! 0) = 4"
proof -
  have "from_fields (0, 0) \<noteq> None" by (simp add: zero_fields)
  then have "opening_validate (timelocked_vault 4 50 5) = Inr ()"
    by (simp add: opening_validate_iff timelocked_vault_def KEEP_STATE_def mode_defs)
  then have "\<exists>page tr. build_call_inner id (\<lambda>_. 0) (timelocked_vault 4 50 5)
      \<lparr>in_slot_index = 1, in_amount = 100, in_creation_id = 7\<rparr> 2 5 0 50 True None = Inr page \<and>
      check_call id (\<lambda>_. 0) (timelocked_vault 4 50 5) page 50 = Inr tr \<and> ct_next tr = 0"
    by (intro build_call_complete [where retained = 95])
      (auto simp: call_allowed_def call_slots_ok_def payout_amount_def permits_def mode_bit_def timelocked_vault_def
        mode_defs KEEP_STATE_def EMPTY_PROGRAM_def [symmetric] execute_empty)
  then obtain page tr where p: "build_call_inner id (\<lambda>_. 0) (timelocked_vault 4 50 5)
      \<lparr>in_slot_index = 1, in_amount = 100, in_creation_id = 7\<rparr> 2 5 0 50 True None = Inr page"
    "check_call id (\<lambda>_. 0) (timelocked_vault 4 50 5) page 50 = Inr tr" by blast
  from timelocked_vault_locked [OF built_page_typed [OF p(1)] p(2)] p(2) show ?thesis by blast
qed

text \<open>A refundable payment goes to one side of its expiry only.  Every admitted call closes it:
  before the expiry height under the payee's authority and to the payee, from it on under the
  payer's authority and back to the payer, less a fee within the cap.\<close>

theorem refundable_payment_sides:
  assumes "tx_body_typed page" "check_call perm pick (refundable_payment payer payee expiry fee_cap) page height = Inr tr"
  shows "ct_terminal tr \<and> tx_fee page \<le> fee_cap \<and>
    ct_authority tr = (if height < expiry then payee else payer) \<and>
    out_owner (tx_outputs page ! 0) = (if height < expiry then payee else payer) \<and>
    unat (out_amount (tx_outputs page ! 0)) + payout_of page + unat (tx_fee page) = unat (in_amount (tx_inputs page ! 0))"
  using check_call_balance [OF assms] assms(2)
  by (auto elim!: check_call_cases simp: refundable_payment_def permits_def mode_bit_def mode_defs recipient_at_def authority_at_def
      payout_of_def split: if_splits)

theorem refundable_payment_sides_witness:
  "\<exists>page tr. check_call id (\<lambda>_. 0) (refundable_payment 4 6 50 5) page 49 = Inr tr \<and> out_owner (tx_outputs page ! 0) = 6"
proof -
  have "from_fields (0, 0) \<noteq> None" by (simp add: zero_fields)
  then have "opening_validate (refundable_payment 4 6 50 5) = Inr ()"
    by (simp add: opening_validate_iff refundable_payment_def KEEP_STATE_def mode_defs)
  then have "\<exists>page tr. build_call_inner id (\<lambda>_. 0) (refundable_payment 4 6 50 5)
      \<lparr>in_slot_index = 1, in_amount = 100, in_creation_id = 7\<rparr> 2 5 0 49 True None = Inr page \<and>
      check_call id (\<lambda>_. 0) (refundable_payment 4 6 50 5) page 49 = Inr tr \<and> ct_next tr = 0"
    by (intro build_call_complete [where retained = 95])
      (auto simp: call_allowed_def call_slots_ok_def payout_amount_def permits_def mode_bit_def refundable_payment_def
        mode_defs KEEP_STATE_def EMPTY_PROGRAM_def [symmetric] execute_empty)
  then obtain page tr where p: "build_call_inner id (\<lambda>_. 0) (refundable_payment 4 6 50 5)
      \<lparr>in_slot_index = 1, in_amount = 100, in_creation_id = 7\<rparr> 2 5 0 49 True None = Inr page"
    "check_call id (\<lambda>_. 0) (refundable_payment 4 6 50 5) page 49 = Inr tr" by blast
  from refundable_payment_sides [OF built_page_typed [OF p(1)] p(2)] p(2) show ?thesis
    by (intro exI [of _ page] exI [of _ tr]) simp
qed

end
