(* ===== verification/Economics.thy ===== *)
theory Economics
imports Transaction
begin

section \<open>Fork schedule, emission, allocation, fees and state growth\<close>

text \<open>
  The height-selected economic rules of \<open>noid_chain/src/consensus\<close>: the fork
  schedule (\<open>forks.rs\<close>), the block reward (\<open>emission.rs\<close>), the development
  allocation with its daily payouts (\<open>development_allocation.rs\<close>), the fee model
  with its burned state-growth part (\<open>fees.rs\<close>) and the slot-expansion rule
  (\<open>slot_expansion.rs\<close>), with the constants of the release profile
  (\<open>params.rs\<close>, no test feature enabled).  An \<open>expect\<close> of the source is the same
  result value here; that it never fails is a theorem.  The lemmas give the exact
  arithmetic of each rule on the naturals, that payouts never exceed the subsidy
  withheld for them, and that burned and claimable fees add up to the fee paid.
\<close>

subsection \<open>Constants\<close>

definition BLOCK_TIME :: u64 where "BLOCK_TIME = 20"
definition V2_BLOCK_TIME :: u64 where "V2_BLOCK_TIME = 30"
definition EPOCH_LENGTH :: u64 where "EPOCH_LENGTH = 6"
definition HALFLIFE :: u64 where "HALFLIFE = EPOCH_LENGTH * BLOCK_TIME"
definition V1_1_ACTIVATION_HEIGHT :: "u64 option" where "V1_1_ACTIVATION_HEIGHT = Some 95125"
definition MAINNET_V2_ACTIVATION_HEIGHT :: u64 where "MAINNET_V2_ACTIVATION_HEIGHT = 210537"
definition V2_ACTIVATION_HEIGHT :: "u64 option" where "V2_ACTIVATION_HEIGHT = Some MAINNET_V2_ACTIVATION_HEIGHT"
definition CONSENSUS_FINALITY_DEPTH :: u64 where "CONSENSUS_FINALITY_DEPTH = 18"
definition EXPANSION_WINDOW :: u64 where "EXPANSION_WINDOW = CONSENSUS_FINALITY_DEPTH"
definition LOG_SLOTS_GENESIS :: u32 where "LOG_SLOTS_GENESIS = 24"
definition LOG_SLOTS_MAX :: u32 where "LOG_SLOTS_MAX = 32"
definition EXPAND_NUM :: u64 where "EXPAND_NUM = 3"
definition EXPAND_DENOM :: u64 where "EXPAND_DENOM = 4"
definition MICRONOID_PER_NOID :: u64 where "MICRONOID_PER_NOID = 1000000"
definition BASE_REWARD_MICRONOID :: u64 where "BASE_REWARD_MICRONOID = 50 * MICRONOID_PER_NOID"
definition FLOOR_REWARD_MICRONOID :: u64 where "FLOOR_REWARD_MICRONOID = MICRONOID_PER_NOID"
definition MIN_FEE_BASE :: u64 where "MIN_FEE_BASE = 5000"
definition FEE_PER_INPUT :: u64 where "FEE_PER_INPUT = 100"
definition FEE_PER_OUTPUT :: u64 where "FEE_PER_OUTPUT = 700"
definition STATE_GROWTH_FEE_BASE :: u64 where "STATE_GROWTH_FEE_BASE = 2500"

definition checked_shl_one :: "u32 \<Rightarrow> 'a::len word option" where
  "checked_shl_one n = (if unat n < LENGTH('a) then Some (push_bit (unat n) 1) else None)"

definition checked_shr :: "'a::len word \<Rightarrow> u32 \<Rightarrow> 'a word option" where
  "checked_shr a n = (if unat n < LENGTH('a) then Some (drop_bit (unat n) a) else None)"

subsection \<open>Fork schedule\<close>

datatype protocol_version = V1 | V1_1 | V2

record v2_activation =
  at_height :: u64
  at_block_time :: u64

definition v2_activation_new :: "u64 \<Rightarrow> u64 \<Rightarrow> v2_activation option" where
  "v2_activation_new height block_time =
     (if height = 0 \<or> block_time = 0 then None else Some \<lparr>at_height = height, at_block_time = block_time\<rparr>)"

record fork_schedule =
  fs_v1_1 :: "u64 option"
  fs_v2 :: "v2_activation option"

definition fork_schedule_new :: "u64 option \<Rightarrow> v2_activation option \<Rightarrow> fork_schedule option" where
  "fork_schedule_new first second =
     (case second of
        None \<Rightarrow> Some \<lparr>fs_v1_1 = first, fs_v2 = second\<rparr>
      | Some at \<Rightarrow> (case first of
          Some h \<Rightarrow> if at_height at \<ge> h then Some \<lparr>fs_v1_1 = first, fs_v2 = second\<rparr> else None
        | None \<Rightarrow> None))"

definition v2_at :: "fork_schedule \<Rightarrow> u64 \<Rightarrow> v2_activation option" where
  "v2_at sch height = (case fs_v2 sch of Some at \<Rightarrow> if height \<ge> at_height at then Some at else None | None \<Rightarrow> None)"

definition v1_1_active_with :: "u64 \<Rightarrow> u64 option \<Rightarrow> bool" where
  "v1_1_active_with height activation_height = (case activation_height of Some h \<Rightarrow> height \<ge> h | None \<Rightarrow> False)"

definition version :: "fork_schedule \<Rightarrow> u64 \<Rightarrow> protocol_version" where
  "version sch height =
     (if v2_at sch height \<noteq> None then V2
      else if v1_1_active_with height (fs_v1_1 sch) then V1_1
      else V1)"

definition block_time :: "fork_schedule \<Rightarrow> u64 \<Rightarrow> u64" where
  "block_time sch height = (case v2_at sch height of Some at \<Rightarrow> at_block_time at | None \<Rightarrow> BLOCK_TIME)"

definition ideal_elapsed :: "fork_schedule \<Rightarrow> u64 \<Rightarrow> u64 \<Rightarrow> u128" where
  "ideal_elapsed sch anchor child =
     (let cnt = saturating_sub child anchor in
      case v2_at sch child of
        Some at \<Rightarrow>
          let last_old = at_height at - 1;
              start = (if anchor > last_old then anchor else last_old);
              new_count = saturating_sub child start
          in widen (cnt - new_count) * widen BLOCK_TIME + widen new_count * widen (at_block_time at)
      | None \<Rightarrow> widen cnt * widen BLOCK_TIME)"

definition ACTIVE_SCHEDULE :: fork_schedule where
  "ACTIVE_SCHEDULE =
     \<lparr>fs_v1_1 = V1_1_ACTIVATION_HEIGHT,
      fs_v2 = (case V2_ACTIVATION_HEIGHT of Some height \<Rightarrow> v2_activation_new height V2_BLOCK_TIME | None \<Rightarrow> None)\<rparr>"

definition halflife_at_height :: "u64 \<Rightarrow> u64" where
  "halflife_at_height height = EPOCH_LENGTH * block_time ACTIVE_SCHEDULE height"

subsection \<open>Block reward\<close>

definition V2_REWARD_INTERVAL_BLOCKS :: u64 where "V2_REWARD_INTERVAL_BLOCKS = 1051200"

definition V2_REWARDS_MICRONOID :: "u64 list" where
  "V2_REWARDS_MICRONOID = [16000000, 11300000, 8000000, 5650000, 4000000, 2830000, 2000000, 1410000, 1000000]"

definition v2_block_reward_at_elapsed :: "u64 \<Rightarrow> u64" where
  "v2_block_reward_at_elapsed elapsed_blocks =
     V2_REWARDS_MICRONOID ! unat (min (elapsed_blocks div V2_REWARD_INTERVAL_BLOCKS) (of_nat (length V2_REWARDS_MICRONOID - 1)))"

definition block_reward :: "u32 \<Rightarrow> u64" where
  "block_reward log_slots =
     (let expansions = saturating_sub log_slots LOG_SLOTS_GENESIS
      in max (case checked_shr BASE_REWARD_MICRONOID expansions of Some r \<Rightarrow> r | None \<Rightarrow> 0) FLOOR_REWARD_MICRONOID)"

definition block_reward_with_schedule :: "u64 \<Rightarrow> u32 \<Rightarrow> fork_schedule \<Rightarrow> u64" where
  "block_reward_with_schedule height log_slots sch =
     (case v2_at sch height of
        Some at \<Rightarrow> v2_block_reward_at_elapsed (height - at_height at)
      | None \<Rightarrow> block_reward log_slots)"

definition block_reward_at_height :: "u64 \<Rightarrow> u32 \<Rightarrow> u64" where
  "block_reward_at_height height log_slots = block_reward_with_schedule height log_slots ACTIVE_SCHEDULE"

definition total_fees :: "tx_body list \<Rightarrow> u128" where
  "total_fees txs = sum_list (map (\<lambda>tx. widen (tx_fee tx)) (filter (\<lambda>tx. \<not> tx_is_coinbase tx) txs))"

subsection \<open>Development allocation\<close>

definition TARGET_BLOCKS_PER_DAY :: u64 where "TARGET_BLOCKS_PER_DAY = 24 * 60 * 60 div BLOCK_TIME"
definition DEVELOPMENT_ALLOCATION_END_HEIGHT :: u64 where
  "DEVELOPMENT_ALLOCATION_END_HEIGHT = TARGET_BLOCKS_PER_DAY * 365 * 3"
definition DEVELOPMENT_ALLOCATION_DURATION_SECONDS :: u64 where
  "DEVELOPMENT_ALLOCATION_DURATION_SECONDS = 86400 * 365 * 3"
definition DEVELOPMENT_ALLOCATION_PAYOUTS :: u64 where
  "DEVELOPMENT_ALLOCATION_PAYOUTS = DEVELOPMENT_ALLOCATION_END_HEIGHT div TARGET_BLOCKS_PER_DAY"
definition DEVELOPMENT_SHARE_DENOMINATOR :: u64 where "DEVELOPMENT_SHARE_DENOMINATOR = 20"

record development_allocation_facts =
  da_active :: bool
  da_payout_due :: bool
  da_share_each :: u64
  da_payout_each :: "u64 option"
  da_miner_subsidy :: u64

datatype development_allocation_error = InexactRewardShare | PayoutOverflow | InexactInterval

definition development_allocation_end_height_with_schedule :: "fork_schedule \<Rightarrow> u64" where
  "development_allocation_end_height_with_schedule sch =
     (case fs_v2 sch of
        None \<Rightarrow> DEVELOPMENT_ALLOCATION_END_HEIGHT
      | Some at \<Rightarrow>
          if at_height at > DEVELOPMENT_ALLOCATION_END_HEIGHT then DEVELOPMENT_ALLOCATION_END_HEIGHT
          else let legacy_blocks = at_height at - 1;
                   remaining = DEVELOPMENT_ALLOCATION_DURATION_SECONDS - legacy_blocks * BLOCK_TIME
               in legacy_blocks + remaining div at_block_time at)"

definition development_allocation_active :: "u64 \<Rightarrow> bool" where
  "development_allocation_active height \<longleftrightarrow> height > 0 \<and> height \<le> DEVELOPMENT_ALLOCATION_END_HEIGHT"

definition development_payout_due :: "u64 \<Rightarrow> bool" where
  "development_payout_due height \<longleftrightarrow> development_allocation_active height \<and> height mod TARGET_BLOCKS_PER_DAY = 0"

definition development_share_each :: "u64 \<Rightarrow> development_allocation_error + u64" where
  "development_share_each subsidy =
     rbind (ensure (subsidy mod DEVELOPMENT_SHARE_DENOMINATOR = 0) InexactRewardShare) (\<lambda>_.
     Inr (subsidy div DEVELOPMENT_SHARE_DENOMINATOR))"

definition inactive_allocation :: "u64 \<Rightarrow> development_allocation_facts" where
  "inactive_allocation subsidy =
     \<lparr>da_active = False, da_payout_due = False, da_share_each = 0, da_payout_each = None, da_miner_subsidy = subsidy\<rparr>"

definition development_allocation :: "u64 \<Rightarrow> u32 \<Rightarrow> development_allocation_error + development_allocation_facts" where
  "development_allocation child_height child_log_slots =
     (let subsidy = block_reward child_log_slots in
      if \<not> development_allocation_active child_height then Inr (inactive_allocation subsidy)
      else rbind (development_share_each subsidy) (\<lambda>share_each.
           let payout_due = development_payout_due child_height in
           rbind (if payout_due
                  then rbind (ok_or PayoutOverflow (checked_mul share_each TARGET_BLOCKS_PER_DAY)) (\<lambda>p. Inr (Some p))
                  else Inr None) (\<lambda>payout_each.
           Inr \<lparr>da_active = True, da_payout_due = payout_due, da_share_each = share_each,
                da_payout_each = payout_each, da_miner_subsidy = subsidy - 2 * share_each\<rparr>)))"

definition payout_count :: "v2_activation \<Rightarrow> u64 \<Rightarrow> u64 \<Rightarrow> u64 option" where
  "payout_count at end_height height =
     (let interval = 86400 div at_block_time at; elapsed = height - (at_height at - 1) in
      if height = at_height at then None
      else if elapsed mod interval = 0 then Some interval
      else if height = end_height then Some (elapsed mod interval)
      else None)"

definition development_allocation_with_schedule ::
  "u64 \<Rightarrow> u32 \<Rightarrow> fork_schedule \<Rightarrow> development_allocation_error + development_allocation_facts" where
  "development_allocation_with_schedule height log_slots sch =
     (case v2_at sch height of
        None \<Rightarrow> development_allocation height log_slots
      | Some at \<Rightarrow>
          rbind (ensure (86400 mod at_block_time at = 0) InexactInterval) (\<lambda>_.
          let subsidy = block_reward_with_schedule height log_slots sch;
              end_height = development_allocation_end_height_with_schedule sch
          in if height > end_height then Inr (inactive_allocation subsidy)
             else rbind (development_share_each subsidy) (\<lambda>share_each.
                  let cnt = payout_count at end_height height in
                  rbind (case cnt of
                           None \<Rightarrow> Inr None
                         | Some c \<Rightarrow> rbind (ok_or PayoutOverflow (checked_mul share_each c)) (\<lambda>p. Inr (Some p))) (\<lambda>payout_each.
                  Inr \<lparr>da_active = True, da_payout_due = (cnt \<noteq> None), da_share_each = share_each,
                       da_payout_each = payout_each, da_miner_subsidy = subsidy - 2 * share_each\<rparr>))))"

definition development_allocation_at_height :: "u64 \<Rightarrow> u32 \<Rightarrow> development_allocation_error + development_allocation_facts" where
  "development_allocation_at_height height log_slots = development_allocation_with_schedule height log_slots ACTIVE_SCHEDULE"

definition miner_subsidy_at_height :: "u64 \<Rightarrow> u32 \<Rightarrow> development_allocation_error + u64" where
  "miner_subsidy_at_height height log_slots =
     rbind (development_allocation_at_height height log_slots) (\<lambda>a. Inr (da_miner_subsidy a))"

definition development_payout_due_at_height :: "u64 \<Rightarrow> development_allocation_error + bool" where
  "development_payout_due_at_height height =
     rbind (development_allocation_at_height height LOG_SLOTS_GENESIS) (\<lambda>a. Inr (da_payout_due a))"

definition miner_subsidy :: "u64 \<Rightarrow> u32 \<Rightarrow> development_allocation_error + u64" where
  "miner_subsidy height log_slots =
     (let subsidy = block_reward log_slots in
      if development_allocation_active height
      then rbind (development_share_each subsidy) (\<lambda>share. Inr (subsidy - 2 * share))
      else Inr subsidy)"

subsection \<open>Fees\<close>

definition PRESSURE_LOW_BPS :: u64 where "PRESSURE_LOW_BPS = 5000"
definition PRESSURE_HIGH_BPS :: u64 where "PRESSURE_HIGH_BPS = 7500"
definition PRESSURE_EXTREME_BPS :: u64 where "PRESSURE_EXTREME_BPS = 9000"

record fee_breakdown =
  fb_base :: u64
  fb_input :: u64
  fb_output :: u64
  fb_io :: u64
  fb_state_growth :: u64
  fb_required_total :: u64
  fb_burned :: u64

definition claimable_at_minimum :: "fee_breakdown \<Rightarrow> u64" where
  "claimable_at_minimum f = saturating_sub (fb_required_total f) (fb_burned f)"

definition tx_live_counts :: "tx_body \<Rightarrow> u64 \<times> u64" where
  "tx_live_counts b = (of_nat (live_input_count b), of_nat (live_output_count b))"

definition occupancy_bps :: "u64 \<Rightarrow> u32 \<Rightarrow> u64" where
  "occupancy_bps active_slot_count log_slots =
     (let capacity = max (case checked_shl_one log_slots of Some c \<Rightarrow> c | None \<Rightarrow> - 1) (1 :: u128)
      in ucast (saturating_mul (widen active_slot_count) 10000 div capacity))"

definition pressure_multiplier :: "u64 \<Rightarrow> u32 \<Rightarrow> u64" where
  "pressure_multiplier active_slot_count log_slots =
     (let bps = occupancy_bps active_slot_count log_slots in
      if bps \<ge> PRESSURE_EXTREME_BPS then 8
      else if bps \<ge> PRESSURE_HIGH_BPS then 4
      else if bps \<ge> PRESSURE_LOW_BPS then 2
      else 1)"

definition state_growth_fee_per_slot :: "u64 \<Rightarrow> u32 \<Rightarrow> u64" where
  "state_growth_fee_per_slot active_slot_count log_slots =
     saturating_mul STATE_GROWTH_FEE_BASE (pressure_multiplier active_slot_count log_slots)"

definition compute_fee_breakdown :: "u64 \<Rightarrow> u64 \<Rightarrow> u64 \<Rightarrow> u32 \<Rightarrow> fee_breakdown" where
  "compute_fee_breakdown n_inputs n_outputs active_slot_count log_slots =
     (let net_new_slots = saturating_sub n_outputs n_inputs;
          base = MIN_FEE_BASE;
          input = saturating_mul FEE_PER_INPUT n_inputs;
          output = saturating_mul FEE_PER_OUTPUT n_outputs;
          io = saturating_add input output;
          state_growth = saturating_mul (state_growth_fee_per_slot active_slot_count log_slots) net_new_slots;
          required_total = saturating_add (saturating_add base io) state_growth
      in \<lparr>fb_base = base, fb_input = input, fb_output = output, fb_io = io, fb_state_growth = state_growth,
          fb_required_total = required_total, fb_burned = state_growth\<rparr>)"

definition fee_breakdown_for_tx_body :: "tx_body \<Rightarrow> u64 \<Rightarrow> u32 \<Rightarrow> fee_breakdown" where
  "fee_breakdown_for_tx_body b active_slot_count log_slots =
     (let (n_inputs, n_outputs) = tx_live_counts b
      in compute_fee_breakdown n_inputs n_outputs active_slot_count log_slots)"

definition required_fee_for_tx_body :: "tx_body \<Rightarrow> u64 \<Rightarrow> u32 \<Rightarrow> u64" where
  "required_fee_for_tx_body b active_slot_count log_slots =
     fb_required_total (fee_breakdown_for_tx_body b active_slot_count log_slots)"

definition burned_fee_for_tx_body :: "tx_body \<Rightarrow> u64 \<Rightarrow> u32 \<Rightarrow> u64" where
  "burned_fee_for_tx_body b active_slot_count log_slots =
     fb_burned (fee_breakdown_for_tx_body b active_slot_count log_slots)"

definition claimable_fee_for_tx_body :: "tx_body \<Rightarrow> u64 \<Rightarrow> u32 \<Rightarrow> u64" where
  "claimable_fee_for_tx_body b active_slot_count log_slots =
     (if tx_is_coinbase b then 0
      else saturating_sub (tx_fee b) (burned_fee_for_tx_body b active_slot_count log_slots))"

subsection \<open>Coinbase ceiling\<close>

definition max_coinbase_value_from_claimable_fee_sum_with_schedule ::
  "u64 \<Rightarrow> u32 \<Rightarrow> u128 \<Rightarrow> fork_schedule \<Rightarrow> development_allocation_error + u128" where
  "max_coinbase_value_from_claimable_fee_sum_with_schedule child_height child_log_slots claimable_fee_sum sch =
     rbind (development_allocation_with_schedule child_height child_log_slots sch) (\<lambda>allocation.
     Inr (widen (da_miner_subsidy allocation) + claimable_fee_sum))"

definition max_coinbase_value_from_claimable_fee_sum :: "u64 \<Rightarrow> u32 \<Rightarrow> u128 \<Rightarrow> development_allocation_error + u128" where
  "max_coinbase_value_from_claimable_fee_sum child_height child_log_slots claimable_fee_sum =
     max_coinbase_value_from_claimable_fee_sum_with_schedule child_height child_log_slots claimable_fee_sum ACTIVE_SCHEDULE"

definition max_coinbase_value ::
  "u64 \<Rightarrow> u32 \<Rightarrow> u64 \<Rightarrow> u32 \<Rightarrow> tx_body list \<Rightarrow> development_allocation_error + u128" where
  "max_coinbase_value child_height child_log_slots parent_active_slot_count parent_log_slots non_coinbase_txs =
     (let claimable_fee_sum = sum_list (map (\<lambda>tx. widen (claimable_fee_for_tx_body tx parent_active_slot_count parent_log_slots))
                                (filter (\<lambda>tx. \<not> tx_is_coinbase tx) non_coinbase_txs))
      in max_coinbase_value_from_claimable_fee_sum child_height child_log_slots claimable_fee_sum)"

subsection \<open>Slot expansion\<close>

definition finalized_expansion_window :: "u64 \<Rightarrow> (u64 \<times> u64) option" where
  "finalized_expansion_window parent_height =
     Option.bind (checked_sub parent_height CONSENSUS_FINALITY_DEPTH) (\<lambda>end_height.
     Option.bind (checked_sub EXPANSION_WINDOW 1) (\<lambda>w.
     Option.bind (checked_sub end_height w) (\<lambda>start.
     Some (start, end_height))))"

definition expected_child_log_slots :: "u64 \<Rightarrow> u32 \<Rightarrow> u64 list \<Rightarrow> u32" where
  "expected_child_log_slots parent_height parent_log_slots finalized_active_counts =
     (if finalized_expansion_window parent_height = None then parent_log_slots
      else let expected_window_len = unat EXPANSION_WINDOW in
      if length finalized_active_counts \<noteq> expected_window_len then parent_log_slots
      else let prev_capacity = (case checked_shl_one parent_log_slots of Some c \<Rightarrow> c | None \<Rightarrow> - 1) :: u64;
               threshold_scaled = saturating_mul prev_capacity EXPAND_NUM;
               at_or_above = length (filter (\<lambda>active. saturating_mul active EXPAND_DENOM \<ge> threshold_scaled) finalized_active_counts)
           in if at_or_above > expected_window_len div 2 then min (saturating_add parent_log_slots 1) LOG_SLOTS_MAX
              else parent_log_slots)"

subsection \<open>Histories and reference notions\<close>

definition schedule_wf :: "fork_schedule \<Rightarrow> bool" where
  "schedule_wf sch \<longleftrightarrow> (\<forall>at. fs_v2 sch = Some at \<longrightarrow> at_height at \<noteq> 0 \<and> at_block_time at \<noteq> 0)"

definition daily_exact :: "fork_schedule \<Rightarrow> bool" where
  "daily_exact sch \<longleftrightarrow> (\<forall>at. fs_v2 sch = Some at \<longrightarrow> 86400 mod at_block_time at = 0)"

definition alloc_or :: "'b \<Rightarrow> (development_allocation_facts \<Rightarrow> 'b) \<Rightarrow> development_allocation_error + development_allocation_facts \<Rightarrow> 'b" where
  "alloc_or d f r = (case r of Inl _ \<Rightarrow> d | Inr a \<Rightarrow> f a)"

text \<open>The amounts of one height of a chain whose state exponent at height \<open>h\<close> is \<open>ls h\<close>.\<close>

definition reward_at :: "fork_schedule \<Rightarrow> (nat \<Rightarrow> u32) \<Rightarrow> nat \<Rightarrow> nat" where
  "reward_at sch ls h = unat (block_reward_with_schedule (of_nat h) (ls h) sch)"

definition subsidy_at :: "fork_schedule \<Rightarrow> (nat \<Rightarrow> u32) \<Rightarrow> nat \<Rightarrow> nat" where
  "subsidy_at sch ls h = alloc_or 0 (\<lambda>a. unat (da_miner_subsidy a)) (development_allocation_with_schedule (of_nat h) (ls h) sch)"

definition share_at :: "fork_schedule \<Rightarrow> (nat \<Rightarrow> u32) \<Rightarrow> nat \<Rightarrow> nat" where
  "share_at sch ls h = alloc_or 0 (\<lambda>a. unat (da_share_each a)) (development_allocation_with_schedule (of_nat h) (ls h) sch)"

definition payout_at :: "fork_schedule \<Rightarrow> (nat \<Rightarrow> u32) \<Rightarrow> nat \<Rightarrow> nat" where
  "payout_at sch ls h = alloc_or 0 (\<lambda>a. case da_payout_each a of None \<Rightarrow> 0 | Some p \<Rightarrow> unat p)
     (development_allocation_with_schedule (of_nat h) (ls h) sch)"

text \<open>How many blocks' shares the payout of a height carries.\<close>

definition payout_blocks :: "fork_schedule \<Rightarrow> nat \<Rightarrow> nat" where
  "payout_blocks sch h =
     (case v2_at sch (of_nat h) of
        None \<Rightarrow> if development_payout_due (of_nat h) then 4320 else 0
      | Some at \<Rightarrow>
          if of_nat h > development_allocation_end_height_with_schedule sch then 0
          else case payout_count at (development_allocation_end_height_with_schedule sch) (of_nat h) of
                 None \<Rightarrow> 0 | Some c \<Rightarrow> unat c)"

definition allocating :: "fork_schedule \<Rightarrow> u64 \<Rightarrow> bool" where
  "allocating sch h =
     (case v2_at sch h of
        None \<Rightarrow> development_allocation_active h
      | Some at \<Rightarrow> h \<le> development_allocation_end_height_with_schedule sch)"

definition sample_paying_tx :: tx_body where
  "sample_paying_tx = \<lparr>tx_epoch_anchor = 0, tx_fee = 9000, tx_input_owner = 1,
     tx_inputs = [\<lparr>in_slot_index = 1, in_amount = 10000, in_creation_id = 1\<rparr>, dummy_input, dummy_input, dummy_input,
       dummy_input, dummy_input, dummy_input, dummy_input],
     tx_outputs = [\<lparr>out_slot_index = 2, out_amount = 1000, out_owner = 3\<rparr>, dummy_output],
     tx_validity_bitmap = 0x101, tx_is_coinbase = False\<rparr>"

section \<open>Lemmas\<close>

lemmas economic_constants = BLOCK_TIME_def V2_BLOCK_TIME_def EPOCH_LENGTH_def HALFLIFE_def V1_1_ACTIVATION_HEIGHT_def
  MAINNET_V2_ACTIVATION_HEIGHT_def V2_ACTIVATION_HEIGHT_def CONSENSUS_FINALITY_DEPTH_def EXPANSION_WINDOW_def
  LOG_SLOTS_GENESIS_def LOG_SLOTS_MAX_def EXPAND_NUM_def EXPAND_DENOM_def MICRONOID_PER_NOID_def
  BASE_REWARD_MICRONOID_def FLOOR_REWARD_MICRONOID_def MIN_FEE_BASE_def FEE_PER_INPUT_def FEE_PER_OUTPUT_def
  STATE_GROWTH_FEE_BASE_def V2_REWARD_INTERVAL_BLOCKS_def DEVELOPMENT_SHARE_DENOMINATOR_def
  PRESSURE_LOW_BPS_def PRESSURE_HIGH_BPS_def PRESSURE_EXTREME_BPS_def

lemma allocation_constants:
  "TARGET_BLOCKS_PER_DAY = 4320" "DEVELOPMENT_ALLOCATION_END_HEIGHT = 4730400" "DEVELOPMENT_ALLOCATION_DURATION_SECONDS = 94608000"
  by (simp_all add: TARGET_BLOCKS_PER_DAY_def DEVELOPMENT_ALLOCATION_END_HEIGHT_def DEVELOPMENT_ALLOCATION_DURATION_SECONDS_def BLOCK_TIME_def)

lemma unat_of_nat_u64: "n < 2 ^ 64 \<Longrightarrow> unat (of_nat n :: u64) = n"
  by (simp add: unat_of_nat)

lemma unat_of_nat_exact: "n < 2 ^ LENGTH('a) \<Longrightarrow> unat (of_nat n :: 'a::len word) = n"
  by (simp add: unat_of_nat)

lemma unat_power_two: "n < LENGTH('a) \<Longrightarrow> unat (2 ^ n :: 'a::len word) = 2 ^ n"
proof -
  assume "n < LENGTH('a)"
  then have "(2 :: nat) ^ n < 2 ^ LENGTH('a)" by (intro power_strict_increasing) simp_all
  from unat_of_nat_exact [OF this] show ?thesis by simp
qed

subsection \<open>Fork schedule\<close>

lemma constructed_schedule_wf:
  assumes "second = None \<or> (\<exists>h t. second = v2_activation_new h t)" "fork_schedule_new first second = Some sch"
  shows "schedule_wf sch"
  using assms by (auto simp: fork_schedule_new_def schedule_wf_def v2_activation_new_def split: option.splits if_splits)

lemma active_schedule_eq:
  "ACTIVE_SCHEDULE = \<lparr>fs_v1_1 = Some 95125, fs_v2 = Some \<lparr>at_height = 210537, at_block_time = 30\<rparr>\<rparr>"
  by (simp add: ACTIVE_SCHEDULE_def economic_constants v2_activation_new_def)

lemma active_schedule_ok: "schedule_wf ACTIVE_SCHEDULE" "daily_exact ACTIVE_SCHEDULE"
  by (simp_all add: active_schedule_eq schedule_wf_def daily_exact_def)

lemma v2_at_eq_Some: "v2_at sch h = Some at \<longleftrightarrow> fs_v2 sch = Some at \<and> unat (at_height at) \<le> unat h"
  by (auto simp: v2_at_def word_le_nat_alt split: option.splits)

lemma v2_at_eq_None: "v2_at sch h = None \<longleftrightarrow> (\<forall>at. fs_v2 sch = Some at \<longrightarrow> unat h < unat (at_height at))"
  by (auto simp: v2_at_def word_le_nat_alt split: option.splits)

lemma unat_ideal_elapsed_v2:
  assumes "n \<le> (c :: u64)"
  shows "unat (widen (c - n) * widen BLOCK_TIME + widen n * widen t) = (unat c - unat n) * 20 + unat n * unat t"
proof -
  have cn: "unat n \<le> unat c" "unat (c - n) = unat c - unat n"
    using assms by (simp_all add: word_le_nat_alt unat_sub_exact)
  let ?m = "max 20 (unat t)"
  have "(unat c - unat n) * 20 + unat n * unat t \<le> (unat c - unat n) * ?m + unat n * ?m"
    by (intro add_mono mult_le_mono2) simp_all
  also have "\<dots> = unat c * ?m" using cn(1) by (simp add: add_mult_distrib [symmetric])
  also have "\<dots> \<le> (2 ^ 64 - 1) * (2 ^ 64 - 1)"
    using unat_u64_bound [of c] unat_u64_bound [of t] by (intro mult_le_mono) simp_all
  finally have b: "(unat c - unat n) * 20 + unat n * unat t < 2 ^ 128" by simp
  have "unat (widen (c - n) * widen BLOCK_TIME) = (unat c - unat n) * 20" "unat (widen n * widen t) = unat n * unat t"
    using cn(2) by (simp_all add: unat_widen_mul BLOCK_TIME_def)
  then show ?thesis using b by (simp add: unat_add_exact)
qed

lemma block_time_of:
  "block_time sch (of_nat h) = (case fs_v2 sch of Some at \<Rightarrow> if unat (at_height at) \<le> h then at_block_time at else BLOCK_TIME | None \<Rightarrow> BLOCK_TIME)"
  if "h < 2 ^ 64"
  using that by (auto simp: block_time_def v2_at_def word_le_nat_alt unat_of_nat_u64 split: option.splits)

lemma ideal_elapsed_eq_sum:
  assumes "schedule_wf sch" "a \<le> c"
  shows "unat (ideal_elapsed sch a c) = (\<Sum>h \<in> {unat a<..unat c}. unat (block_time sch (of_nat h)))"
proof (cases "v2_at sch c")
  case None
  have "unat (block_time sch (of_nat h)) = 20" if "h \<in> {unat a<..unat c}" for h
    using that None unat_u64_bound [of c]
    by (auto simp: block_time_of v2_at_eq_None BLOCK_TIME_def split: option.splits)
  then have "(\<Sum>h \<in> {unat a<..unat c}. unat (block_time sch (of_nat h))) = (unat c - unat a) * 20" by simp
  then show ?thesis
    using None assms(2)
    by (simp add: ideal_elapsed_def saturating_sub_def unat_widen_mul BLOCK_TIME_def unat_sub_exact word_le_nat_alt)
next
  case (Some at)
  then have at: "fs_v2 sch = Some at" "unat (at_height at) \<le> unat c" "at_height at \<noteq> 0"
    using assms(1) by (auto simp: v2_at_eq_Some schedule_wf_def)
  then have last_old: "unat (at_height at - 1) = unat (at_height at) - 1" "0 < unat (at_height at)"
    by (simp_all add: unat_minus_one unat_gt_0)
  define start where "start = (if a > at_height at - 1 then a else at_height at - 1)"
  have s: "unat start = max (unat a) (unat (at_height at) - 1)" "start \<le> c" "a \<le> start"
    using last_old at(2) assms(2) by (auto simp: start_def word_less_nat_alt word_le_nat_alt)
  have c: "unat (c - a) = unat c - unat a" "unat (c - start) = unat c - unat start"
    using assms(2) s(2) by (simp_all add: unat_sub_exact word_le_nat_alt)
  have "c - start \<le> c - a" using c s(3) by (simp add: word_le_nat_alt diff_le_mono2)
  from unat_ideal_elapsed_v2 [OF this, of "at_block_time at"]
  have "unat (ideal_elapsed sch a c) = (unat start - unat a) * 20 + (unat c - unat start) * unat (at_block_time at)"
    using Some assms(2) s c
    by (simp add: ideal_elapsed_def saturating_sub_def Let_def start_def [symmetric] word_le_nat_alt)
  moreover have "{unat a<..unat c} = {unat a<..unat start} \<union> {unat start<..unat c}" "{unat a<..unat start} \<inter> {unat start<..unat c} = {}"
    using s by (auto simp: word_le_nat_alt)
  moreover have "unat (block_time sch (of_nat h)) = 20" if "h \<in> {unat a<..unat start}" for h
    using that s unat_u64_bound [of start] last_old by (auto simp: block_time_of at(1) BLOCK_TIME_def)
  moreover have "unat (block_time sch (of_nat h)) = unat (at_block_time at)" if "h \<in> {unat start<..unat c}" for h
    using that s unat_u64_bound [of c] last_old by (auto simp: block_time_of at(1))
  ultimately show ?thesis by (simp add: sum.union_disjoint)
qed

subsection \<open>Block reward\<close>

lemma unat_max_u64: "unat (max a b :: u64) = max (unat a) (unat b)"
  by (simp add: max_def word_le_nat_alt)

lemma unat_min_u64: "unat (min a b :: u64) = min (unat a) (unat b)"
  by (simp add: min_def word_le_nat_alt)

lemma unat_block_reward: "unat (block_reward log_slots) = max (50000000 div 2 ^ (unat log_slots - 24)) 1000000"
proof -
  have "unat (case checked_shr BASE_REWARD_MICRONOID e of Some r \<Rightarrow> r | None \<Rightarrow> 0) = 50000000 div 2 ^ unat e" for e :: u32
  proof (cases "unat e < 64")
    case False
    then have "(2 :: nat) ^ 64 \<le> 2 ^ unat e" by (intro power_increasing) simp_all
    then have "50000000 < (2 :: nat) ^ unat e" by simp
    then show ?thesis using False by (simp add: checked_shr_def)
  next
    case True
    have "unat (drop_bit (unat e) (50000000 :: u64)) = 50000000 div 2 ^ unat e"
      unfolding unat_drop_bit_eq by (simp add: drop_bit_eq_div)
    then show ?thesis using True by (simp add: checked_shr_def economic_constants)
  qed
  then show ?thesis
    by (simp add: block_reward_def Let_def unat_max_u64 unat_saturating_sub economic_constants)
qed

lemma less_6_cases: "(n :: nat) < 6 \<Longrightarrow> n = 0 \<or> n = 1 \<or> n = 2 \<or> n = 3 \<or> n = 4 \<or> n = 5"
  by linarith

lemma halving_values:
  "max (50000000 div 2 ^ n) (1000000 :: nat) \<in> {50000000, 25000000, 12500000, 6250000, 3125000, 1562500, 1000000}"
proof (cases "n < 6")
  case True
  then show ?thesis using less_6_cases [OF True] by auto
next
  case False
  then have "(2 :: nat) ^ 6 \<le> 2 ^ n" by (intro power_increasing) simp_all
  then have "50000000 div 2 ^ n \<le> 50000000 div (2 :: nat) ^ 6" by (intro div_le_mono2) simp_all
  then show ?thesis by (simp add: max_def)
qed

lemma block_reward_facts:
  "20 dvd unat (block_reward ls)" "unat (block_reward ls) \<le> 50000000"
  "ls \<le> ls' \<Longrightarrow> unat (block_reward ls') \<le> unat (block_reward ls)"
proof -
  show "20 dvd unat (block_reward ls)" "unat (block_reward ls) \<le> 50000000"
    using halving_values [of "unat ls - 24"] by (auto simp: unat_block_reward)
  assume "ls \<le> ls'"
  then have "(2 :: nat) ^ (unat ls - 24) \<le> 2 ^ (unat ls' - 24)"
    by (intro power_increasing) (simp_all add: word_le_nat_alt diff_le_mono)
  then have "50000000 div 2 ^ (unat ls' - 24) \<le> 50000000 div (2 :: nat) ^ (unat ls - 24)"
    by (intro div_le_mono2) simp_all
  then show "unat (block_reward ls') \<le> unat (block_reward ls)" by (simp add: unat_block_reward)
qed

lemma v2_reward_index:
  "v2_block_reward_at_elapsed e = V2_REWARDS_MICRONOID ! min (unat e div 1051200) 8"
  by (simp add: v2_block_reward_at_elapsed_def unat_min_u64 unat_div_distrib economic_constants V2_REWARDS_MICRONOID_def)

lemma v2_rewards_sorted: "i \<le> j \<Longrightarrow> j \<le> 8 \<Longrightarrow> unat (V2_REWARDS_MICRONOID ! j) \<le> unat (V2_REWARDS_MICRONOID ! i)"
  using sorted_wrt_nth_less [of "\<lambda>a b. unat b \<le> unat a" V2_REWARDS_MICRONOID i j]
  by (cases "i = j") (simp_all add: V2_REWARDS_MICRONOID_def)

lemma v2_reward_facts:
  "20 dvd unat (v2_block_reward_at_elapsed e)" "unat (v2_block_reward_at_elapsed e) \<le> 16000000"
  "e \<le> e' \<Longrightarrow> unat (v2_block_reward_at_elapsed e') \<le> unat (v2_block_reward_at_elapsed e)"
proof -
  have "min (unat e div 1051200) 8 < length V2_REWARDS_MICRONOID" by (simp add: V2_REWARDS_MICRONOID_def)
  then have "V2_REWARDS_MICRONOID ! min (unat e div 1051200) 8 \<in> set V2_REWARDS_MICRONOID" by (rule nth_mem)
  moreover have "\<forall>r \<in> set V2_REWARDS_MICRONOID. 20 dvd unat r \<and> unat r \<le> 16000000"
    by (simp add: V2_REWARDS_MICRONOID_def)
  ultimately show "20 dvd unat (v2_block_reward_at_elapsed e)" "unat (v2_block_reward_at_elapsed e) \<le> 16000000"
    by (auto simp: v2_reward_index)
  assume "e \<le> e'"
  then have "min (unat e div 1051200) 8 \<le> min (unat e' div 1051200) 8"
    by (intro min.mono div_le_mono) (simp_all add: word_le_nat_alt)
  then show "unat (v2_block_reward_at_elapsed e') \<le> unat (v2_block_reward_at_elapsed e)"
    unfolding v2_reward_index by (intro v2_rewards_sorted) simp_all
qed

lemma scheduled_reward_facts:
  "20 dvd unat (block_reward_with_schedule h ls sch)" "unat (block_reward_with_schedule h ls sch) \<le> 50000000"
proof -
  have "20 dvd unat (block_reward_with_schedule h ls sch) \<and> unat (block_reward_with_schedule h ls sch) \<le> 50000000"
  proof (cases "v2_at sch h")
    case None
    then show ?thesis using block_reward_facts(1,2) [of ls] by (simp add: block_reward_with_schedule_def)
  next
    case (Some at)
    then show ?thesis using v2_reward_facts(1,2) [of "h - at_height at"] by (simp add: block_reward_with_schedule_def)
  qed
  then show "20 dvd unat (block_reward_with_schedule h ls sch)" "unat (block_reward_with_schedule h ls sch) \<le> 50000000"
    by simp_all
qed

subsection \<open>Development allocation\<close>

lemma share_each_exact: "20 dvd unat r \<Longrightarrow> development_share_each r = Inr (r div 20)"
  by (auto simp: development_share_each_def economic_constants word_unat_eq_iff unat_mod_distrib)

lemma share_split: "20 dvd unat r \<Longrightarrow> unat (r - 2 * (r div 20) :: u64) + 2 * unat (r div 20) = unat r"
proof -
  assume "20 dvd unat r"
  then obtain k where k: "unat r = 20 * k" ..
  then have d: "unat (r div 20) = k" by (simp add: unat_div_distrib)
  have "unat (2 * (r div 20)) = 2 * k"
    using d k unat_u64_bound [of r] by (subst unat_mul_exact) simp_all
  then show ?thesis using d k by (simp add: unat_sub_exact word_le_nat_alt)
qed

lemma payout_interval_pos: "86400 mod t = 0 \<Longrightarrow> 0 < unat (86400 div t :: u64)"
proof -
  assume "86400 mod t = 0"
  then have "86400 mod unat t = 0" using unat_mod_distrib [of 86400 t] by simp
  then have "86400 div unat t \<noteq> 0" by (intro notI) (auto simp: div_eq_0_iff)
  then show ?thesis by (simp add: unat_div_distrib)
qed

lemma payout_count_bound:
  assumes "86400 mod at_block_time at = 0" "payout_count at e h = Some c"
  shows "unat c \<le> 86400"
proof -
  have i: "unat (86400 div at_block_time at) \<le> 86400" by (simp add: unat_div_distrib)
  have "unat ((h - (at_height at - 1)) mod (86400 div at_block_time at)) < unat (86400 div at_block_time at)"
    unfolding unat_mod_distrib by (intro mod_less_divisor payout_interval_pos assms(1))
  then show ?thesis
    using assms(2) i by (auto simp: payout_count_def Let_def split: if_splits)
qed

lemma share_mul_ok:
  assumes "unat r \<le> 50000000" "unat c \<le> 86400"
  shows "checked_mul (r div 20 :: u64) c = Some (r div 20 * c)" "unat (r div 20 * c) = unat c * unat (r div 20)"
proof -
  have "unat (r div 20) \<le> 2500000" using assms(1) by (simp add: unat_div_distrib)
  from mult_le_mono [OF this assms(2)] have "unat (r div 20) * unat c < 2 ^ 64" by simp
  then show "checked_mul (r div 20) c = Some (r div 20 * c)" "unat (r div 20 * c) = unat c * unat (r div 20)"
    by (simp_all add: checked_mul_def unat_mul_exact)
qed

lemma alloc_or_simps [simp]: "alloc_or d f (Inl e) = d" "alloc_or d f (Inr a) = f a"
  by (simp_all add: alloc_or_def)

lemma allocation_total:
  assumes "schedule_wf sch" "daily_exact sch"
  shows "\<exists>a. development_allocation_with_schedule h ls sch = Inr a \<and>
    unat (da_miner_subsidy a) + 2 * unat (da_share_each a) = unat (block_reward_with_schedule h ls sch) \<and>
    (case da_payout_each a of None \<Rightarrow> 0 | Some p \<Rightarrow> unat p) = payout_blocks sch (unat h) * unat (da_share_each a) \<and>
    da_share_each a = (if allocating sch h then block_reward_with_schedule h ls sch div 20 else 0)"
proof (cases "v2_at sch h")
  case None
  have r: "block_reward_with_schedule h ls sch = block_reward ls"
    using None by (simp add: block_reward_with_schedule_def)
  note facts = block_reward_facts(1,2) [of ls]
  note mul = share_mul_ok [OF facts(2), of 4320, simplified]
  show ?thesis
    using None share_each_exact [OF facts(1)] share_split [OF facts(1)] mul r
    by (cases "development_payout_due h"; cases "development_allocation_active h")
      (simp_all add: development_allocation_with_schedule_def development_allocation_def inactive_allocation_def
        payout_blocks_def allocation_constants Let_def development_payout_due_def allocating_def)
next
  case (Some at)
  define r where "r = block_reward_with_schedule h ls sch"
  define e where "e = development_allocation_end_height_with_schedule sch"
  have facts: "20 dvd unat r" "unat r \<le> 50000000" using scheduled_reward_facts by (simp_all add: r_def)
  have at: "86400 mod at_block_time at = 0" "at_block_time at \<noteq> 0"
    using Some assms by (auto simp: v2_at_eq_Some daily_exact_def schedule_wf_def)
  have eq: "development_allocation_with_schedule h ls sch =
    (if h > e then Inr (inactive_allocation r)
     else rbind (case payout_count at e h of
                   None \<Rightarrow> Inr None
                 | Some c \<Rightarrow> rbind (ok_or PayoutOverflow (checked_mul (r div 20) c)) (\<lambda>p. Inr (Some p))) (\<lambda>payout_each.
          Inr \<lparr>da_active = True, da_payout_due = (payout_count at e h \<noteq> None), da_share_each = r div 20,
               da_payout_each = payout_each, da_miner_subsidy = r - 2 * (r div 20)\<rparr>))"
    using Some at share_each_exact [OF facts(1)]
    by (simp add: development_allocation_with_schedule_def r_def [symmetric] e_def [symmetric] Let_def)
  show ?thesis
  proof (cases "h > e \<or> payout_count at e h = None")
    case True
    then show ?thesis
      unfolding r_def [symmetric]
      using share_split [OF facts(1)] Some by (auto simp: eq inactive_allocation_def payout_blocks_def e_def [symmetric] allocating_def)
  next
    case False
    then obtain c where c: "payout_count at e h = Some c" "\<not> h > e" by auto
    then have le: "h \<le> e" by simp
    note mul = share_mul_ok [OF facts(2) payout_count_bound [OF at(1) c(1)]]
    show ?thesis
      unfolding r_def [symmetric]
      using share_split [OF facts(1)] Some c mul le by (simp add: eq payout_blocks_def e_def [symmetric] allocating_def)
  qed
qed

lemma payout_covered:
  fixes share cnt :: "nat \<Rightarrow> nat"
  assumes "\<forall>h \<le> H. cnt h \<le> h"
    and "\<forall>h \<le> H. \<forall>k. h < k + cnt h \<and> k < h \<longrightarrow> cnt k = 0 \<and> share h \<le> share k"
  shows "(\<Sum>h \<in> {1..H}. cnt h * share h) \<le> (\<Sum>h \<in> {1..H}. share h)"
  using assms
proof (induction H rule: less_induct)
  case (less H)
  have IH: "(\<Sum>h \<in> {1..m}. cnt h * share h) \<le> (\<Sum>h \<in> {1..m}. share h)" if "m < H" for m
  proof (rule less.IH [OF that])
    have le: "h \<le> H" if "h \<le> m" for h using that \<open>m < H\<close> by linarith
    show "\<forall>h \<le> m. cnt h \<le> h" using less.prems(1) le by blast
    show "\<forall>h \<le> m. \<forall>k. h < k + cnt h \<and> k < h \<longrightarrow> cnt k = 0 \<and> share h \<le> share k" using less.prems(2) le by blast
  qed
  show ?case
  proof (cases "H = 0 \<or> cnt H = 0")
    case True
    show ?thesis
    proof (cases H)
      case (Suc m)
      then show ?thesis using IH [of m] True by simp
    qed simp
  next
    case False
    obtain m where m: "H = m + cnt H" using less.prems(1) le_Suc_ex by (metis add.commute order.refl)
    have c: "m < H" using m False by linarith
    have prev: "cnt k = 0 \<and> share H \<le> share k" if "m < k" "k < H" for k
    proof -
      have "H < k + cnt H" using that m by linarith
      then show ?thesis using less.prems(2) that(2) by blast
    qed
    have split: "{1..H} = {1..m} \<union> {m<..H}" "{1..m} \<inter> {m<..H} = {}" using c by auto
    have card: "card {m<..H} = cnt H" using m by simp
    have "(\<Sum>h \<in> {m<..H}. cnt h * share h) = (\<Sum>h \<in> {m<..H}. if h = H then cnt H * share H else 0)"
    proof (rule sum.cong [OF refl])
      fix h assume "h \<in> {m<..H}"
      then show "cnt h * share h = (if h = H then cnt H * share H else 0)" using prev [of h] by (cases "h = H") simp_all
    qed
    also have "\<dots> = cnt H * share H" using c by (simp add: sum.delta)
    also have "\<dots> = (\<Sum>h \<in> {m<..H}. share H)" by (simp only: sum_constant card of_nat_id)
    also have "\<dots> \<le> (\<Sum>h \<in> {m<..H}. share h)"
    proof (rule sum_mono)
      fix h assume "h \<in> {m<..H}"
      then show "share H \<le> share h" using prev [of h] by (cases "h = H") simp_all
    qed
    finally have "(\<Sum>h \<in> {m<..H}. cnt h * share h) \<le> (\<Sum>h \<in> {m<..H}. share h)" .
    from add_mono [OF IH [OF c] this] show ?thesis
      unfolding split(1) sum.union_disjoint [OF finite_atLeastAtMost finite_greaterThanAtMost split(2)] .
  qed
qed

lemma payout_blocks_legacy:
  assumes "h < 2 ^ 64" "v2_at sch (of_nat h) = None"
  shows "payout_blocks sch h = (if 0 < h \<and> h \<le> 4730400 \<and> 4320 dvd h then 4320 else 0)"
    "allocating sch (of_nat h) \<longleftrightarrow> 0 < h \<and> h \<le> 4730400"
proof -
  have "development_allocation_active (of_nat h) \<longleftrightarrow> 0 < h \<and> h \<le> 4730400"
    using assms(1)
    by (simp add: development_allocation_active_def allocation_constants word_less_nat_alt word_le_nat_alt unat_of_nat_u64)
  moreover have "of_nat h mod (4320 :: u64) = 0 \<longleftrightarrow> 4320 dvd h"
    using assms(1) by (simp add: word_unat_eq_iff unat_mod_distrib unat_of_nat_u64 dvd_eq_mod_eq_0)
  ultimately show "payout_blocks sch h = (if 0 < h \<and> h \<le> 4730400 \<and> 4320 dvd h then 4320 else 0)"
    "allocating sch (of_nat h) \<longleftrightarrow> 0 < h \<and> h \<le> 4730400"
    using assms(2) by (auto simp: payout_blocks_def development_payout_due_def allocation_constants allocating_def)
qed

lemma payout_blocks_v2:
  assumes "schedule_wf sch" "h < 2 ^ 64" "v2_at sch (of_nat h) = Some at"
  defines "s \<equiv> unat (at_height at) - 1" and "n \<equiv> 86400 div unat (at_block_time at)"
    and "e \<equiv> unat (development_allocation_end_height_with_schedule sch)"
  shows "s < h" "allocating sch (of_nat h) \<longleftrightarrow> h \<le> e"
    "payout_blocks sch h = (if h > e \<or> h = Suc s then 0 else if n dvd (h - s) then n else if h = e then (h - s) mod n else 0)"
proof -
  have at: "0 < unat (at_height at)" "unat (at_height at) \<le> h"
    using assms(1,3) assms(2) by (auto simp: v2_at_eq_Some schedule_wf_def unat_gt_0 unat_of_nat_u64)
  then show sh: "s < h" by (simp add: s_def)
  define w where "w = (of_nat h :: u64)"
  define d where "d = w - (at_height at - 1)"
  define t where "t = 86400 div at_block_time at"
  have w: "unat w = h" using assms(2) by (simp add: w_def unat_of_nat_u64)
  have d: "unat d = h - s"
    unfolding d_def using at w by (subst unat_sub_exact) (simp_all add: s_def unat_minus_one unat_gt_0 word_le_nat_alt)
  have t: "unat t = n" by (simp add: n_def t_def unat_div_distrib)
  have cmp: "w = at_height at \<longleftrightarrow> h = Suc s"
    "w > development_allocation_end_height_with_schedule sch \<longleftrightarrow> h > e"
    "w = development_allocation_end_height_with_schedule sch \<longleftrightarrow> h = e"
    using at w by (auto simp: word_unat_eq_iff word_less_nat_alt s_def e_def)
  show "allocating sch (of_nat h) \<longleftrightarrow> h \<le> e"
    using assms(3) cmp(2) by (simp add: allocating_def linorder_not_less [symmetric] w_def)
  have m: "d mod t = 0 \<longleftrightarrow> n dvd (h - s)" "unat (d mod t) = (h - s) mod n"
    by (simp_all add: word_unat_eq_iff unat_mod_distrib d t dvd_eq_mod_eq_0)
  have "payout_blocks sch h = (if w > development_allocation_end_height_with_schedule sch then 0
      else case payout_count at (development_allocation_end_height_with_schedule sch) w of None \<Rightarrow> 0 | Some c \<Rightarrow> unat c)"
    using assms(3) by (simp add: payout_blocks_def w_def)
  then show "payout_blocks sch h = (if h > e \<or> h = Suc s then 0 else if n dvd (h - s) then n else if h = e then (h - s) mod n else 0)"
    unfolding payout_count_def Let_def d_def [symmetric] t_def [symmetric] cmp m by (auto simp: t m(2))
qed

lemma between_multiples:
  assumes "(n :: nat) dvd a" "b < a" "a < b + n"
  shows "\<not> n dvd b"
proof
  assume "n dvd b"
  then have "n dvd a - b" using assms(1) by simp
  then have "n \<le> a - b" using assms(2) by (intro dvd_imp_le) simp_all
  then show False using assms(2,3) by linarith
qed

lemma payout_window:
  assumes wf: "schedule_wf sch" "daily_exact sch" and h: "h < 2 ^ 64" and k: "h < k + payout_blocks sch h" "k < h"
  shows "payout_blocks sch k = 0 \<and> allocating sch (of_nat k) \<and> v2_at sch (of_nat k) = v2_at sch (of_nat h) \<and> 0 < k"
proof (cases "v2_at sch (of_nat h)")
  case None
  have kh: "k < 2 ^ 64" "v2_at sch (of_nat k) = None"
    using None h k(2) by (auto simp: v2_at_eq_None unat_of_nat_u64)
  have due: "0 < h" "h \<le> 4730400" "4320 dvd h" "h < k + 4320"
    using k payout_blocks_legacy [OF h None] by (auto split: if_splits)
  have "\<not> 4320 dvd k" using between_multiples due(3,4) k(2) by blast
  moreover have "0 < k" using due k(2) by (intro gr0I) (auto dest: dvd_imp_le)
  ultimately show ?thesis
    using None kh due k(2) by (auto simp: payout_blocks_legacy [OF kh])
next
  case (Some at)
  define s where "s = unat (at_height at) - 1"
  define n where "n = 86400 div unat (at_block_time at)"
  define e where "e = unat (development_allocation_end_height_with_schedule sch)"
  note hb = payout_blocks_v2 [OF wf(1) h Some, folded s_def n_def e_def]
  have due: "h \<le> e" "h \<noteq> Suc s" "n dvd (h - s) \<and> h < k + n \<or> \<not> n dvd (h - s) \<and> h = e \<and> h < k + (h - s) mod n"
    using k unfolding hb(3) by (auto split: if_splits)
  have fs: "fs_v2 sch = Some at" "0 < unat (at_height at)"
    using Some wf by (auto simp: v2_at_eq_Some schedule_wf_def unat_gt_0)
  have ks: "s < k"
  proof (rule ccontr)
    assume "\<not> s < k"
    then have le: "h - s \<le> h - k" by linarith
    show False using due(3)
    proof
      assume a: "n dvd (h - s) \<and> h < k + n"
      then have "n \<le> h - s" using hb(1) by (intro dvd_imp_le) simp_all
      then show False using a le k(2) by linarith
    next
      assume a: "\<not> n dvd (h - s) \<and> h = e \<and> h < k + (h - s) mod n"
      then have "(h - s) mod n \<le> h - s" by simp
      then show False using a le k(2) by linarith
    qed
  qed
  have kv: "k < 2 ^ 64" "v2_at sch (of_nat k) = Some at"
    using ks fs h k(2) by (auto simp: v2_at_eq_Some unat_of_nat_u64 s_def)
  note kb = payout_blocks_v2 [OF wf(1) kv, folded s_def n_def e_def]
  have "\<not> n dvd (k - s)" using due(3)
  proof
    assume "n dvd (h - s) \<and> h < k + n"
    then show ?thesis using between_multiples [of n "h - s" "k - s"] ks k(2) by linarith
  next
    assume a: "\<not> n dvd (h - s) \<and> h = e \<and> h < k + (h - s) mod n"
    let ?q = "(h - s) - (h - s) mod n"
    have q: "n dvd ?q" by (rule dvd_minus_mod)
    have qk: "?q < k - s" using a ks k(2) by linarith
    have "86400 mod at_block_time at = 0" using fs wf(2) by (simp add: daily_exact_def)
    from payout_interval_pos [OF this] have "0 < n" by (simp add: n_def unat_div_distrib)
    then have "k - s < ?q + n" using mod_less_divisor [of n "h - s"] k(2) ks by linarith
    show ?thesis
    proof
      assume "n dvd (k - s)"
      from between_multiples [OF this qk \<open>k - s < ?q + n\<close>] q show False by blast
    qed
  qed
  then show ?thesis using due(1) k(2) ks kb kv Some by auto
qed

lemma history_amounts:
  assumes "schedule_wf sch" "daily_exact sch" "h < 2 ^ 64"
  shows "subsidy_at sch ls h + 2 * share_at sch ls h = reward_at sch ls h"
    "payout_at sch ls h = payout_blocks sch h * share_at sch ls h"
    "share_at sch ls h = (if allocating sch (of_nat h) then reward_at sch ls h div 20 else 0)"
  using allocation_total [OF assms(1,2), of "of_nat h" "ls h"] assms(3)
  by (auto simp: subsidy_at_def share_at_def payout_at_def reward_at_def unat_of_nat_u64 unat_div_distrib)

lemma reward_at_antimono:
  assumes "\<forall>i j. i \<le> j \<longrightarrow> ls i \<le> ls j" "k \<le> h" "h < 2 ^ 64" "v2_at sch (of_nat k) = v2_at sch (of_nat h)"
  shows "reward_at sch ls h \<le> reward_at sch ls k"
proof (cases "v2_at sch (of_nat h)")
  case None
  then show ?thesis
    using assms by (simp add: reward_at_def block_reward_with_schedule_def block_reward_facts(3))
next
  case (Some at)
  then have "v2_at sch (of_nat k) = Some at" using assms(4) by simp
  then have "unat (at_height at) \<le> k" using assms(2,3) by (simp add: v2_at_eq_Some unat_of_nat_u64)
  then have "of_nat k - at_height at \<le> (of_nat h - at_height at :: u64)"
    using assms(2,3) by (simp add: word_le_nat_alt unat_sub_exact unat_of_nat_u64 diff_le_mono)
  then show ?thesis
    using Some assms(4) by (simp add: reward_at_def block_reward_with_schedule_def v2_reward_facts(3))
qed

lemma payouts_covered:
  assumes "schedule_wf sch" "daily_exact sch" "\<forall>i j. i \<le> j \<longrightarrow> ls i \<le> ls j" "H < 2 ^ 64"
  shows "(\<Sum>h \<in> {1..H}. payout_at sch ls h) \<le> (\<Sum>h \<in> {1..H}. share_at sch ls h)"
proof -
  have "(\<Sum>h \<in> {1..H}. payout_at sch ls h) = (\<Sum>h \<in> {1..H}. payout_blocks sch h * share_at sch ls h)"
    using assms by (intro sum.cong) (simp_all add: history_amounts)
  also have "\<dots> \<le> (\<Sum>h \<in> {1..H}. share_at sch ls h)"
  proof (rule payout_covered; intro allI impI)
    fix h assume h: "h \<le> H"
    show "payout_blocks sch h \<le> h"
    proof (rule ccontr)
      assume c: "\<not> payout_blocks sch h \<le> h"
      have "v2_at sch (of_nat 0) = None" using assms(1) by (auto simp: v2_at_eq_None schedule_wf_def unat_gt_0)
      then have "payout_blocks sch 0 = 0" by (subst payout_blocks_legacy) simp_all
      then have "0 < h" using c by (intro gr0I) simp
      with c payout_window [OF assms(1,2), of h 0] h assms(4) show False by simp
    qed
    fix k assume k: "h < k + payout_blocks sch h \<and> k < h"
    have hk: "h < 2 ^ 64" "k < 2 ^ 64" using h k assms(4) by simp_all
    note w = payout_window [OF assms(1,2) hk(1) conjunct1 [OF k] conjunct2 [OF k]]
    have "reward_at sch ls h \<le> reward_at sch ls k"
      using reward_at_antimono [OF assms(3) _ hk(1)] w k by simp
    then show "payout_blocks sch k = 0 \<and> share_at sch ls h \<le> share_at sch ls k"
      using w by (simp add: history_amounts [OF assms(1,2) hk(1)] history_amounts [OF assms(1,2) hk(2)] div_le_mono)
  qed
  finally show ?thesis .
qed

lemma allocation_horizon:
  assumes "schedule_wf sch"
  defines "e \<equiv> development_allocation_end_height_with_schedule sch"
  shows "unat (ideal_elapsed sch 0 e) \<le> 94608000 \<and> 94608000 < unat (ideal_elapsed sch 0 e) + unat (block_time sch (e + 1))"
proof (cases "\<exists>at. fs_v2 sch = Some at \<and> at_height at \<le> DEVELOPMENT_ALLOCATION_END_HEIGHT")
  case False
  then have e: "e = 4730400"
    by (auto simp: e_def development_allocation_end_height_with_schedule_def allocation_constants split: option.splits)
  have none: "v2_at sch e = None"
    using False by (auto simp: v2_at_eq_None e allocation_constants word_le_nat_alt)
  have "0 < unat (block_time sch (e + 1))"
    using assms(1) by (auto simp: block_time_def v2_at_def schedule_wf_def BLOCK_TIME_def unat_gt_0 split: option.splits)
  then show ?thesis
    using none e by (simp add: ideal_elapsed_def saturating_sub_def unat_widen_mul BLOCK_TIME_def)
next
  case True
  then obtain at where at: "fs_v2 sch = Some at" "unat (at_height at) \<le> 4730400"
    by (auto simp: allocation_constants word_le_nat_alt)
  have pos: "0 < unat (at_height at)" "0 < unat (at_block_time at)" using at assms(1) by (auto simp: schedule_wf_def unat_gt_0)
  define s where "s = unat (at_height at) - 1"
  define t where "t = unat (at_block_time at)"
  define q where "q = (94608000 - s * 20) div t"
  define w where "w = at_height at - 1"
  have s: "unat w = s" "s \<le> 4730399" using pos at(2) by (auto simp: s_def w_def unat_minus_one unat_gt_0)
  have "unat (w * BLOCK_TIME) = s * 20" using s by (simp add: unat_mul_exact BLOCK_TIME_def)
  then have rem: "unat (94608000 - w * BLOCK_TIME) = 94608000 - s * 20"
    using s by (subst unat_sub_exact) (simp_all add: word_le_nat_alt)
  have "q \<le> 94608000 - s * 20" unfolding q_def by (rule div_le_dividend)
  then have "q \<le> 94608000" by (rule order.trans) simp
  moreover have "q * t \<le> 94608000 - s * 20" "94608000 - s * 20 < q * t + t"
    using pos(2) dividend_less_div_times [of t "94608000 - s * 20"] by (simp_all add: q_def t_def add.commute)
  ultimately have q: "q \<le> 94608000" "q * t \<le> 94608000 - s * 20" "94608000 - s * 20 < q * t + t" .
  have "e = w + (94608000 - w * BLOCK_TIME) div at_block_time at"
    using at by (simp add: e_def development_allocation_end_height_with_schedule_def allocation_constants word_less_nat_alt Let_def
        w_def [symmetric])
  moreover have "unat ((94608000 - w * BLOCK_TIME) div at_block_time at) = q"
    by (simp only: unat_div_distrib rem q_def t_def)
  ultimately have e: "unat e = s + q" using s q(1) by (simp add: unat_add_exact)
  have bt: "unat (block_time sch (of_nat h)) = (if s < h then t else 20)" if "h < 2 ^ 64" for h
    using pos(1) that by (auto simp: block_time_of at(1) t_def s_def BLOCK_TIME_def)
  have "unat (ideal_elapsed sch 0 e) = (\<Sum>h \<in> {0<..s + q}. unat (block_time sch (of_nat h)))"
    using ideal_elapsed_eq_sum [OF assms(1), of 0 e] e by simp
  also have "\<dots> = (\<Sum>h \<in> {0<..s + q}. if s < h then t else 20)"
    using q(1) s(2) by (intro sum.cong refl bt) simp
  also have "\<dots> = (\<Sum>h \<in> {0<..s}. if s < h then t else 20) + (\<Sum>h \<in> {s<..s + q}. if s < h then t else 20)"
    by (subst sum.union_disjoint [symmetric]) (auto intro: sum.cong)
  also have "\<dots> = s * 20 + q * t" by simp
  finally have i: "unat (ideal_elapsed sch 0 e) = s * 20 + q * t" .
  have "e + 1 = of_nat (s + q + 1)" unfolding e [symmetric] by (simp add: add.commute)
  then have "unat (block_time sch (e + 1)) = t"
    using bt [of "s + q + 1"] q(1) s(2) by (simp del: of_nat_add of_nat_Suc)
  moreover have "s * 20 \<le> 94608000" using s(2) by simp
  ultimately show ?thesis unfolding i using q(2,3) by linarith
qed

subsection \<open>Fees\<close>

lemma count_ones_mask:
  assumes "\<And>k. bit w k \<Longrightarrow> k < n" "n \<le> LENGTH('a)"
  shows "count_ones (w :: 'a::len word) \<le> n"
proof -
  have "set (filter (bit w) [0..<LENGTH('a)]) \<subseteq> {..<n}" using assms(1) by auto
  from card_mono [OF _ this] show ?thesis
    by (simp add: count_ones_def distinct_card [symmetric])
qed

lemma live_count_bounds: "live_input_count b \<le> 8" "live_output_count b \<le> 2"
proof -
  have m: "(0x00ff :: u16) = mask 8" "(0x0003 :: u16) = mask 2" by (simp_all add: mask_eq_exp_minus_1)
  have "bit (and w (mask n)) k \<Longrightarrow> k < n" for w :: u16 and n k by (simp add: bit_simps)
  then show "live_input_count b \<le> 8" "live_output_count b \<le> 2"
    unfolding live_input_count_def live_output_count_def m by (auto intro!: count_ones_mask)
qed

lemma unat_occupancy_bps:
  assumes "14 \<le> unat log_slots" "unat log_slots < 128"
  shows "unat (occupancy_bps active log_slots) = unat active * 10000 div 2 ^ unat log_slots"
proof -
  have p: "unat (2 ^ unat log_slots :: u128) = 2 ^ unat log_slots"
    using assms(2) by (intro unat_power_two) simp
  then have "(1 :: u128) \<le> 2 ^ unat log_slots" by (simp add: word_le_nat_alt)
  then have cap: "max (case checked_shl_one log_slots of Some c \<Rightarrow> c | None \<Rightarrow> - 1) (1 :: u128) = 2 ^ unat log_slots"
    using assms(2) by (simp add: checked_shl_one_def max.absorb1)
  have a: "unat active * 10000 < 2 ^ 78" using unat_u64_bound [of active] by simp
  have "unat (saturating_mul (widen active) 10000) = unat active * 10000"
    using a by (simp add: saturating_mul_def unat_mul_exact)
  then have d: "unat (saturating_mul (widen active) 10000 div 2 ^ unat log_slots :: u128) = unat active * 10000 div 2 ^ unat log_slots"
    by (simp add: unat_div_distrib p)
  have "(2 :: nat) ^ 14 \<le> 2 ^ unat log_slots" using assms(1) by (intro power_increasing) simp_all
  then have "unat active * 10000 div 2 ^ unat log_slots \<le> unat active * 10000 div 2 ^ 14" by (intro div_le_mono2) simp_all
  also have "\<dots> < 2 ^ 64" using a by (simp add: less_mult_imp_div_less)
  finally show ?thesis
    unfolding occupancy_bps_def cap Let_def using d by (simp add: unsigned_ucast_eq take_bit_nat_eq_self)
qed

lemma pressure_exact:
  assumes "14 \<le> unat log_slots" "unat log_slots < 128"
  shows "pressure_multiplier active log_slots =
    (if 9 * 2 ^ unat log_slots \<le> 10 * unat active then 8
     else if 3 * 2 ^ unat log_slots \<le> 4 * unat active then 4
     else if 2 ^ unat log_slots \<le> 2 * unat active then 2 else 1)"
proof -
  have le: "c \<le> unat active * 10000 div 2 ^ unat log_slots \<longleftrightarrow> c * 2 ^ unat log_slots \<le> unat active * 10000" for c
    by (simp add: less_eq_div_iff_mult_less_eq)
  show ?thesis
    by (simp add: pressure_multiplier_def Let_def word_le_nat_alt unat_occupancy_bps [OF assms] economic_constants le)
qed

lemma pressure_values: "pressure_multiplier active log_slots \<in> {1, 2, 4, 8}"
  by (simp add: pressure_multiplier_def Let_def)

lemma fee_breakdown_exact:
  fixes b active log_slots
  defines "i \<equiv> live_input_count b" and "k \<equiv> live_output_count b"
    and "g \<equiv> 2500 * unat (pressure_multiplier active log_slots) * (live_output_count b - live_input_count b)"
  shows "unat (required_fee_for_tx_body b active log_slots) = 5000 + 100 * i + 700 * k + g"
    "unat (burned_fee_for_tx_body b active log_slots) = g"
proof -
  have ik: "i \<le> 8" "k \<le> 2" using live_count_bounds by (simp_all add: i_def k_def)
  define m where "m = pressure_multiplier active log_slots"
  have m: "unat m \<le> 8" using pressure_values [of active log_slots] by (auto simp: m_def)
  have per: "unat (state_growth_fee_per_slot active log_slots) = 2500 * unat m"
    using m by (simp add: state_growth_fee_per_slot_def economic_constants m_def saturating_mul_def unat_mul_exact)
  have cnt: "unat (of_nat i :: u64) = i" "unat (of_nat k :: u64) = k" using ik by (simp_all add: unat_of_nat_u64)
  have inp: "unat (saturating_mul FEE_PER_INPUT (of_nat i)) = 100 * i"
    using ik cnt by (simp add: economic_constants saturating_mul_def unat_mul_exact)
  have outp: "unat (saturating_mul FEE_PER_OUTPUT (of_nat k)) = 700 * k"
    using ik cnt by (simp add: economic_constants saturating_mul_def unat_mul_exact)
  have net: "unat (saturating_sub (of_nat k) (of_nat i) :: u64) = k - i"
    using cnt by (simp add: unat_saturating_sub)
  have "2500 * unat m * (k - i) \<le> 2500 * 8 * 2" using m ik by (intro mult_le_mono) simp_all
  then have gb: "2500 * unat m * (k - i) \<le> 40000" by simp
  then have grow: "unat (saturating_mul (state_growth_fee_per_slot active log_slots) (saturating_sub (of_nat k) (of_nat i))) = g"
    using per net by (simp add: saturating_mul_def unat_mul_exact g_def i_def k_def m_def)
  have g: "g \<le> 40000" using gb by (simp add: g_def i_def k_def m_def)
  have io: "unat (saturating_add (saturating_mul FEE_PER_INPUT (of_nat i)) (saturating_mul FEE_PER_OUTPUT (of_nat k))) = 100 * i + 700 * k"
    using inp outp ik by (simp add: saturating_add_def unat_add_exact)
  have b1: "unat (saturating_add MIN_FEE_BASE
      (saturating_add (saturating_mul FEE_PER_INPUT (of_nat i)) (saturating_mul FEE_PER_OUTPUT (of_nat k)))) = 5000 + 100 * i + 700 * k"
    using io ik by (subst unat_saturating_add) (simp add: MIN_FEE_BASE_def)
  show "unat (required_fee_for_tx_body b active log_slots) = 5000 + 100 * i + 700 * k + g"
    using b1 grow g ik
    by (simp add: required_fee_for_tx_body_def fee_breakdown_for_tx_body_def tx_live_counts_def compute_fee_breakdown_def Let_def
        i_def [symmetric] k_def [symmetric] unat_saturating_add [of "saturating_add MIN_FEE_BASE _"])
  show "unat (burned_fee_for_tx_body b active log_slots) = g"
    using grow
    by (simp add: burned_fee_for_tx_body_def fee_breakdown_for_tx_body_def tx_live_counts_def compute_fee_breakdown_def Let_def
        i_def [symmetric] k_def [symmetric])
qed

lemma claimable_plus_burned:
  assumes "\<not> tx_is_coinbase b" "required_fee_for_tx_body b active log_slots \<le> tx_fee b"
  shows "unat (claimable_fee_for_tx_body b active log_slots) + unat (burned_fee_for_tx_body b active log_slots) = unat (tx_fee b)"
    "5000 \<le> unat (claimable_fee_for_tx_body b active log_slots)"
  using assms fee_breakdown_exact [of b active log_slots]
  by (simp_all add: claimable_fee_for_tx_body_def unat_saturating_sub word_le_nat_alt)

lemma sum_widen_exact:
  assumes "length xs < 2 ^ 32"
  shows "unat (\<Sum>x\<leftarrow>xs. widen (f x)) = (\<Sum>x\<leftarrow>xs. unat (f x))"
    "(\<Sum>x\<leftarrow>xs. unat (f x)) \<le> length xs * (2 ^ 64 - 1)"
proof -
  have b: "(\<Sum>x\<leftarrow>ys. unat (f x)) \<le> length ys * (2 ^ 64 - 1)" for ys
  proof (induction ys)
    case (Cons y ys)
    then show ?case using unat_u64_bound [of "f y"] by (simp add: add_mono)
  qed simp
  then show "(\<Sum>x\<leftarrow>xs. unat (f x)) \<le> length xs * (2 ^ 64 - 1)" .
  show "unat (\<Sum>x\<leftarrow>xs. widen (f x)) = (\<Sum>x\<leftarrow>xs. unat (f x))"
    using assms
  proof (induction xs)
    case (Cons x xs)
    have "(\<Sum>y\<leftarrow>x # xs. unat (f y)) \<le> 2 ^ 32 * (2 ^ 64 - 1)"
      using b [of "x # xs"] Cons.prems by (intro order.trans [OF b mult_le_mono1]) simp
    then have "unat (widen (f x)) + unat (\<Sum>x\<leftarrow>xs. widen (f x)) < 2 ^ LENGTH(128)"
      using Cons by simp
    then show ?case using Cons by (simp add: unat_add_exact)
  qed simp
qed

subsection \<open>Slot expansion\<close>

lemma expansion_window_None: "finalized_expansion_window h = None \<longleftrightarrow> unat h < 35"
proof -
  have "unat (h - 18) = unat h - 18" if "18 \<le> unat h" using that by (simp add: unat_sub_exact word_le_nat_alt)
  then show ?thesis
    by (auto simp: finalized_expansion_window_def checked_sub_def economic_constants word_le_nat_alt)
qed

lemma expansion_threshold:
  assumes "unat p \<le> 61"
  shows "saturating_mul active EXPAND_DENOM \<ge> saturating_mul (case checked_shl_one p of Some c \<Rightarrow> c | None \<Rightarrow> - 1) EXPAND_NUM
    \<longleftrightarrow> 3 * 2 ^ unat p \<le> 4 * unat active"
proof -
  have "(2 :: nat) ^ unat p \<le> 2 ^ 61" using assms by (intro power_increasing) simp_all
  then have b: "(2 :: nat) ^ unat p \<le> 2305843009213693952" by simp
  have p: "unat (2 ^ unat p :: u64) = 2 ^ unat p"
    using assms by (intro unat_power_two) simp
  have "unat (saturating_mul (2 ^ unat p) EXPAND_NUM :: u64) = 3 * 2 ^ unat p"
    using b p by (simp add: unat_saturating_mul economic_constants)
  moreover have "unat (saturating_mul active EXPAND_DENOM) = min (4 * unat active) (2 ^ 64 - 1)"
    by (simp add: unat_saturating_mul economic_constants mult.commute)
  ultimately show ?thesis
    using assms b by (auto simp: checked_shl_one_def word_le_nat_alt)
qed

section \<open>Properties\<close>

text \<open>C15: Issuance stays within the subsidy schedule across forks.  For every well-formed schedule
  whose block time divides a day, and every history in which the state exponent never
  shrinks, the allocation of each block is defined, and over all heights 1 to H the miner
  subsidies together with both daily fund payouts add up to at most the block rewards.\<close>

theorem issuance_within_rewards:
  assumes "schedule_wf sch" "daily_exact sch" "\<forall>i j. i \<le> j \<longrightarrow> ls i \<le> ls j" "H < 2 ^ 64"
  shows "(\<forall>h. is_ok (development_allocation_with_schedule (of_nat h) (ls h) sch)) \<and>
    (\<Sum>h \<in> {1..H}. subsidy_at sch ls h + 2 * payout_at sch ls h) \<le> (\<Sum>h \<in> {1..H}. reward_at sch ls h)"
proof -
  have "(\<Sum>h \<in> {1..H}. subsidy_at sch ls h + 2 * payout_at sch ls h) =
      (\<Sum>h \<in> {1..H}. subsidy_at sch ls h) + 2 * (\<Sum>h \<in> {1..H}. payout_at sch ls h)"
    by (simp add: sum.distrib sum_distrib_left)
  also have "\<dots> \<le> (\<Sum>h \<in> {1..H}. subsidy_at sch ls h) + 2 * (\<Sum>h \<in> {1..H}. share_at sch ls h)"
    using payouts_covered [OF assms] by simp
  also have "\<dots> = (\<Sum>h \<in> {1..H}. subsidy_at sch ls h + 2 * share_at sch ls h)"
    by (simp add: sum.distrib sum_distrib_left)
  also have "\<dots> = (\<Sum>h \<in> {1..H}. reward_at sch ls h)"
    using assms(4) by (intro sum.cong history_amounts(1) [OF assms(1,2)]) simp_all
  finally show ?thesis
    using allocation_total [OF assms(1,2)] by (auto simp: is_ok_iff)
qed

theorem issuance_within_rewards_witness:
  "(\<Sum>h \<in> {1..300000}. subsidy_at ACTIVE_SCHEDULE (\<lambda>_. 24) h + 2 * payout_at ACTIVE_SCHEDULE (\<lambda>_. 24) h)
     \<le> (\<Sum>h \<in> {1..300000}. reward_at ACTIVE_SCHEDULE (\<lambda>_. 24) h)"
  using issuance_within_rewards [OF active_schedule_ok, of "\<lambda>_. 24" 300000] by simp

text \<open>The allocation period is the promised three years of target time, whatever the fork
  height and the new block time: the last eligible height is reached within the period's
  seconds, and one more block would exceed them.\<close>

theorem allocation_period_exact:
  assumes "schedule_wf sch"
  shows "unat (ideal_elapsed sch 0 (development_allocation_end_height_with_schedule sch))
      \<le> unat DEVELOPMENT_ALLOCATION_DURATION_SECONDS \<and>
    unat DEVELOPMENT_ALLOCATION_DURATION_SECONDS <
      unat (ideal_elapsed sch 0 (development_allocation_end_height_with_schedule sch)) +
      unat (block_time sch (development_allocation_end_height_with_schedule sch + 1))"
  using allocation_horizon [OF assms] by (simp add: allocation_constants)

theorem allocation_period_exact_witness:
  "unat (ideal_elapsed ACTIVE_SCHEDULE 0 (development_allocation_end_height_with_schedule ACTIVE_SCHEDULE)) \<le> 94608000"
  using allocation_period_exact [OF active_schedule_ok(1)] by (simp add: allocation_constants)

text \<open>C26: The closed formula for the target time between two heights is the sum of the block
  times of the heights in between, for every pair of heights and every schedule built by
  the constructors, without overflow.\<close>

theorem ideal_elapsed_is_sum_of_block_times:
  assumes "second = None \<or> second = v2_activation_new h t" "fork_schedule_new first second = Some sch" "anchor \<le> child"
  shows "unat (ideal_elapsed sch anchor child) = (\<Sum>k \<in> {unat anchor<..unat child}. unat (block_time sch (of_nat k)))"
  by (rule ideal_elapsed_eq_sum [OF constructed_schedule_wf [OF _ assms(2)] assms(3)]) (use assms(1) in blast)

theorem ideal_elapsed_is_sum_of_block_times_witness:
  "unat (ideal_elapsed \<lparr>fs_v1_1 = Some 5, fs_v2 = Some \<lparr>at_height = 10, at_block_time = 30\<rparr>\<rparr> 8 11) =
    (\<Sum>k \<in> {8<..11}. unat (block_time \<lparr>fs_v1_1 = Some 5, fs_v2 = Some \<lparr>at_height = 10, at_block_time = 30\<rparr>\<rparr> (of_nat k)))"
  using ideal_elapsed_is_sum_of_block_times [of "Some \<lparr>at_height = 10, at_block_time = 30\<rparr>" 10 30 "Some 5" _ 8 11]
  by (simp add: v2_activation_new_def fork_schedule_new_def)

text \<open>C27: The coinbase ceiling never recovers burned fees.  For a block of at most 2^32
  transactions that each pay their required fee, the ceiling of the primary coinbase is
  exactly the miner subsidy plus all fees minus the state-growth fees, which are 2500 units
  times the pressure multiplier per net new slot.\<close>

theorem coinbase_ceiling_exact:
  assumes "length txs < 2 ^ 32" "\<forall>b \<in> set txs. \<not> tx_is_coinbase b \<and> required_fee_for_tx_body b active ls \<le> tx_fee b"
  shows "\<exists>allocation v. development_allocation_at_height height child_ls = Inr allocation \<and>
    max_coinbase_value height child_ls active ls txs = Inr v \<and>
    unat v + (\<Sum>b\<leftarrow>txs. 2500 * unat (pressure_multiplier active ls) * (live_output_count b - live_input_count b)) =
      unat (da_miner_subsidy allocation) + (\<Sum>b\<leftarrow>txs. unat (tx_fee b))"
proof -
  obtain a where a: "development_allocation_with_schedule height child_ls ACTIVE_SCHEDULE = Inr a"
    using allocation_total [OF active_schedule_ok] by blast
  have filt: "filter (\<lambda>tx. \<not> tx_is_coinbase tx) txs = txs" using assms(2) by (simp add: filter_id_conv)
  note s = sum_widen_exact [OF assms(1), of "\<lambda>tx. claimable_fee_for_tx_body tx active ls"]
  have "(\<Sum>x\<leftarrow>txs. unat (claimable_fee_for_tx_body x active ls)) \<le> 2 ^ 32 * (2 ^ 64 - 1)"
    using assms(1) by (intro order.trans [OF s(2) mult_le_mono1]) simp
  then have v: "unat (widen (da_miner_subsidy a) + (\<Sum>x\<leftarrow>txs. widen (claimable_fee_for_tx_body x active ls))) =
      unat (da_miner_subsidy a) + (\<Sum>x\<leftarrow>txs. unat (claimable_fee_for_tx_body x active ls))"
    using s(1) unat_u64_bound [of "da_miner_subsidy a"] by (subst unat_add_exact) simp_all
  have "(\<Sum>b\<leftarrow>txs. unat (tx_fee b)) =
      (\<Sum>b\<leftarrow>txs. unat (claimable_fee_for_tx_body b active ls) +
        2500 * unat (pressure_multiplier active ls) * (live_output_count b - live_input_count b))"
    using assms(2) claimable_plus_burned(1) [of _ active ls] fee_breakdown_exact(2) [of _ active ls]
    by (intro arg_cong [where f = sum_list] map_cong refl) metis
  then show ?thesis
    using a v
    by (simp add: development_allocation_at_height_def max_coinbase_value_def max_coinbase_value_from_claimable_fee_sum_def
        max_coinbase_value_from_claimable_fee_sum_with_schedule_def filt sum_list_addf)
qed

theorem coinbase_ceiling_exact_witness:
  "\<exists>allocation v. development_allocation_at_height 300000 24 = Inr allocation \<and>
     max_coinbase_value 300000 24 0 24 [sample_paying_tx] = Inr v \<and>
     unat v + 2500 * unat (pressure_multiplier 0 24) * (live_output_count sample_paying_tx - live_input_count sample_paying_tx) =
       unat (da_miner_subsidy allocation) + 9000"
proof -
  have "live_input_count sample_paying_tx = 1" "live_output_count sample_paying_tx = 1"
    by (simp_all add: sample_paying_tx_def live_input_count_def live_output_count_def count_ones_def TX_INPUTS_def upt_rec)
  then have "required_fee_for_tx_body sample_paying_tx 0 24 \<le> tx_fee sample_paying_tx"
    by (simp add: word_le_nat_alt fee_breakdown_exact(1)) (simp add: sample_paying_tx_def)
  moreover have "\<not> tx_is_coinbase sample_paying_tx" "tx_fee sample_paying_tx = 9000" by (simp_all add: sample_paying_tx_def)
  ultimately show ?thesis
    using coinbase_ceiling_exact [of "[sample_paying_tx]" 0 24 300000 24] by simp
qed

text \<open>C28: The state grows only by a decided majority.  With exponent at most 32 the child keeps the
  parent's exponent unless the parent is at height 35 or more, the window has exactly 18
  finalized counts and more than nine of them are at least three quarters of the capacity;
  then the exponent rises by one, and never beyond 32.\<close>

theorem slot_expansion_exact:
  assumes "unat parent_ls \<le> 32"
  shows "unat (expected_child_log_slots parent_height parent_ls counts) =
    (if 35 \<le> unat parent_height \<and> length counts = 18 \<and>
        9 < length (filter (\<lambda>active. 3 * 2 ^ unat parent_ls \<le> 4 * unat active) counts)
     then min (unat parent_ls + 1) 32 else unat parent_ls)"
proof -
  have "unat (min (saturating_add parent_ls 1) LOG_SLOTS_MAX) = min (unat parent_ls + 1) 32"
    using assms by (simp add: min_def word_le_nat_alt unat_saturating_add LOG_SLOTS_MAX_def)
  moreover have "unat EXPANSION_WINDOW = 18" by (simp add: economic_constants)
  ultimately show ?thesis
    using assms
    by (simp add: expected_child_log_slots_def expansion_window_None Let_def expansion_threshold)
qed

theorem slot_expansion_exact_witness:
  "unat (expected_child_log_slots 35 24 (replicate 18 0xC00000)) = 25"
  using slot_expansion_exact [of 24 35 "replicate 18 0xC00000"] by simp

end
