(* ===== verification/Difficulty.thy ===== *)
theory Difficulty
imports Economics "HOL-Library.Signed_Division"
begin

section \<open>Difficulty adjustment and chain work\<close>

text \<open>
  \<open>noid_chain/src/consensus/difficulty.rs\<close>: the two ASERT rules with their fixed-point
  polynomials, the 320-bit limb arithmetic under them, and the byte-wise 256-bit
  arithmetic of block work and chain work.  A \<open>[u8; 32]\<close> is a byte list of length 32
  here, because every operation walks the bytes; a limb array is a list of 64-bit
  words.  The signed quantities of the exponent are integers with the casts,
  saturations and clamps written out; Rust's \<open>/\<close> on them truncates (\<open>sdiv\<close>).  The
  difficulty floor is active, as in every build but the unit tests.  The lemmas read
  bytes and limbs as naturals (\<open>le_nat\<close>, \<open>limbs_nat\<close>) and give the exact value of every
  operation: shifts, product, long division, saturating sums, and the target.
\<close>

subsection \<open>Constants\<close>

definition GENESIS_TARGET :: bytes where
  "GENESIS_TARGET = replicate 29 0 @ [0x40] @ replicate 2 0"

definition MIN_TARGET :: bytes where
  "MIN_TARGET = 1 # replicate 31 0"

definition MAX_TARGET :: bytes where
  "MAX_TARGET = replicate 32 0xFF"

definition I64_MIN :: int where "I64_MIN = - (2 ^ 63)"
definition I64_MAX :: int where "I64_MAX = 2 ^ 63 - 1"
definition I128_MIN :: int where "I128_MIN = - (2 ^ 127)"
definition I128_MAX :: int where "I128_MAX = 2 ^ 127 - 1"

definition clamp_int :: "int \<Rightarrow> int \<Rightarrow> int \<Rightarrow> int" where
  "clamp_int lo hi x = (if x < lo then lo else if x > hi then hi else x)"

subsection \<open>Fractional factors\<close>

definition legacy_fractional_factor :: "u16 \<Rightarrow> u64" where
  "legacy_fractional_factor frac =
     (let f = ucast frac :: u128; A = 195766423245049; B = 971821376; C = 5127 in
      65536 + ucast (drop_bit 48 (A * f + B * f * f div 65536 + C * (f div 65536) * (f div 65536) * f + push_bit 47 1)))"

definition bch_fractional_factor :: "u16 \<Rightarrow> u64" where
  "bch_fractional_factor frac =
     (let f = ucast frac :: u128; A = 195766423245049; B = 971821376; C = 5127 in
      65536 + ucast (drop_bit 48 (A * f + B * f * f + C * f * f * f + push_bit 47 1)))"

definition fractional_factor_at_height :: "u16 \<Rightarrow> u64 \<Rightarrow> u64 option \<Rightarrow> u64" where
  "fractional_factor_at_height frac height activation_height =
     (if v1_1_active_with height activation_height then bch_fractional_factor frac else legacy_fractional_factor frac)"

subsection \<open>256-bit little-endian helpers\<close>

definition bytes_to_limbs :: "bytes \<Rightarrow> u64 list" where
  "bytes_to_limbs b =
     [of_le_bytes (take 8 b), of_le_bytes (take 8 (drop 8 b)), of_le_bytes (take 8 (drop 16 b)), of_le_bytes (take 8 (drop 24 b))]"

definition limbs_to_bytes :: "u64 list \<Rightarrow> bytes" where
  "limbs_to_bytes l = le_bytes 8 (l ! 0) @ le_bytes 8 (l ! 1) @ le_bytes 8 (l ! 2) @ le_bytes 8 (l ! 3)"

primrec mul_limbs_from :: "u64 \<Rightarrow> u128 \<Rightarrow> u64 list \<Rightarrow> u64 list" where
  "mul_limbs_from factor carry [] = [ucast carry]"
| "mul_limbs_from factor carry (a # as) =
     (let prod = widen a * widen factor + carry
      in ucast prod # mul_limbs_from factor (drop_bit 64 prod) as)"

definition mul_limbs_u64 :: "u64 list \<Rightarrow> u64 \<Rightarrow> u64 list" where
  "mul_limbs_u64 a factor = mul_limbs_from factor 0 a"

primrec shl_limbs :: "nat \<Rightarrow> u64 \<Rightarrow> u64 list \<Rightarrow> u64 list" where
  "shl_limbs bit_sh c [] = []"
| "shl_limbs bit_sh c (limb # limbs) =
     or (push_bit bit_sh limb) c # shl_limbs bit_sh (drop_bit (64 - bit_sh) limb) limbs"

definition shl320 :: "u64 list \<Rightarrow> nat \<Rightarrow> u64 list" where
  "shl320 w n =
     (if n = 0 then w
      else let word_sh = min (n div 64) 5; bit_sh = n mod 64; out = replicate word_sh 0 @ take (5 - word_sh) w
           in if bit_sh > 0 then shl_limbs bit_sh 0 out else out)"

primrec shr_limbs :: "nat \<Rightarrow> u64 \<Rightarrow> u64 list \<Rightarrow> u64 list" where
  "shr_limbs bit_sh c [] = []"
| "shr_limbs bit_sh c (limb # limbs) =
     or (drop_bit bit_sh limb) c # shr_limbs bit_sh (push_bit (64 - bit_sh) limb) limbs"

definition shr320 :: "u64 list \<Rightarrow> nat \<Rightarrow> u64 list" where
  "shr320 w n =
     (if n = 0 then w
      else let word_sh = min (n div 64) 5; bit_sh = n mod 64; out = drop word_sh w @ replicate word_sh 0
           in if bit_sh > 0 then rev (shr_limbs bit_sh 0 (rev out)) else out)"

definition shift_wide :: "u64 list \<Rightarrow> int \<Rightarrow> u64 list" where
  "shift_wide w net = (if net \<ge> 0 then shl320 w (nat (min net 319)) else shr320 w (nat (min (- net) 319)))"

fun lt_from_top :: "bytes \<Rightarrow> bytes \<Rightarrow> bool" where
  "lt_from_top (a # as) (b # bs) = (if a < b then True else if a > b then False else lt_from_top as bs)"
| "lt_from_top _ _ = False"

definition le256_lt :: "bytes \<Rightarrow> bytes \<Rightarrow> bool" where
  "le256_lt a b = lt_from_top (rev a) (rev b)"

definition clamp :: "bytes \<Rightarrow> u64 \<Rightarrow> bytes" where
  "clamp result overflow_word =
     (if overflow_word \<noteq> 0 \<or> le256_lt MAX_TARGET result then MAX_TARGET
      else if result = replicate 32 0 \<or> le256_lt result MIN_TARGET then MIN_TARGET
      else result)"

definition leading_zeros :: "u8 \<Rightarrow> u32" where
  "leading_zeros byte = of_nat (length (takeWhile (\<lambda>k. \<not> bit byte k) (rev [0..<8])))"

primrec count_leading_zero_bits :: "bytes \<Rightarrow> u32 \<Rightarrow> u32" where
  "count_leading_zero_bits [] zeros = zeros"
| "count_leading_zero_bits (byte # rest) zeros =
     (let zeros = zeros + leading_zeros byte in if byte \<noteq> 0 then zeros else count_leading_zero_bits rest zeros)"

definition target_leading_zero_bits :: "bytes \<Rightarrow> u32" where
  "target_leading_zero_bits target = count_leading_zero_bits (rev target) 0"

subsection \<open>ASERT\<close>

definition target_from_exponent :: "bytes \<Rightarrow> u64 \<Rightarrow> u64 option \<Rightarrow> int \<Rightarrow> bytes" where
  "target_from_exponent anchor_target height activation_height exponent =
     (let shifts = exponent div 65536;
          frac = of_int (exponent - shifts * 65536) :: u16;
          factor = fractional_factor_at_height frac height activation_height;
          ref_limbs = bytes_to_limbs anchor_target;
          wide = mul_limbs_u64 ref_limbs factor;
          net = shifts - 16
      in if net \<ge> 46 then GENESIS_TARGET
         else if net \<le> - 320 then MIN_TARGET
         else let wide = shift_wide wide net in
              if net > 0 \<and> wide = replicate 5 0 then GENESIS_TARGET
              else let result = limbs_to_bytes [wide ! 0, wide ! 1, wide ! 2, wide ! 3];
                       clamped = clamp result (wide ! 4)
                   in if le256_lt GENESIS_TARGET clamped then GENESIS_TARGET else clamped)"

definition as_i64 :: "u64 \<Rightarrow> int" where
  "as_i64 w = sint w"

definition next_target_with_activation :: "u64 \<Rightarrow> u64 \<Rightarrow> bytes \<Rightarrow> u64 \<Rightarrow> u64 \<Rightarrow> u64 option \<Rightarrow> bytes" where
  "next_target_with_activation anchor_height anchor_timestamp anchor_target height timestamp activation_height =
     (let ideal = as_i64 (saturating_mul (saturating_sub height anchor_height) BLOCK_TIME);
          actual = as_i64 (min (saturating_sub timestamp anchor_timestamp) (of_int I64_MAX));
          halflife = uint HALFLIFE;
          raw_exp = ((actual - ideal) * 65536) sdiv halflife;
          exponent = clamp_int I64_MIN I64_MAX raw_exp
      in target_from_exponent anchor_target height activation_height exponent)"

definition next_target_with_schedule :: "u64 \<Rightarrow> u64 \<Rightarrow> bytes \<Rightarrow> u64 \<Rightarrow> u64 \<Rightarrow> u64 \<Rightarrow> fork_schedule \<Rightarrow> bytes" where
  "next_target_with_schedule anchor_height anchor_timestamp anchor_target height parent_timestamp timestamp sch =
     (case v2_at sch height of
        None \<Rightarrow> next_target_with_activation anchor_height anchor_timestamp anchor_target height timestamp (fs_v1_1 sch)
      | Some at \<Rightarrow>
          let parent_height = height - 1;
              actual = uint (min (saturating_sub parent_timestamp anchor_timestamp) (of_int I64_MAX));
              ideal = uint (min (ideal_elapsed sch anchor_height parent_height) (of_int I128_MAX));
              halflife = uint EPOCH_LENGTH * uint (at_block_time at);
              exponent = clamp_int I128_MIN I128_MAX (clamp_int I128_MIN I128_MAX (actual - ideal) * 65536) sdiv halflife
          in target_from_exponent anchor_target height (fs_v1_1 sch) (clamp_int I64_MIN I64_MAX exponent))"

definition next_target :: "u64 \<Rightarrow> u64 \<Rightarrow> bytes \<Rightarrow> u64 \<Rightarrow> u64 \<Rightarrow> u64 \<Rightarrow> bytes" where
  "next_target anchor_height anchor_timestamp anchor_target height parent_timestamp timestamp =
     next_target_with_schedule anchor_height anchor_timestamp anchor_target height parent_timestamp timestamp ACTIVE_SCHEDULE"

subsection \<open>Work\<close>

definition is_zero_256 :: "bytes \<Rightarrow> bool" where
  "is_zero_256 a = list_all (\<lambda>byte. byte = 0) a"

definition ge256 :: "bytes \<Rightarrow> bytes \<Rightarrow> bool" where
  "ge256 a b \<longleftrightarrow> \<not> le256_lt a b"

primrec shl1_from :: "u8 \<Rightarrow> bytes \<Rightarrow> bytes" where
  "shl1_from carry [] = []"
| "shl1_from carry (byte # rest) = or (push_bit 1 byte) carry # shl1_from (drop_bit 7 byte) rest"

definition shl1_256 :: "bytes \<Rightarrow> bytes" where
  "shl1_256 a = shl1_from 0 a"

fun sub_from :: "int \<Rightarrow> bytes \<Rightarrow> bytes \<Rightarrow> bytes" where
  "sub_from borrow (a # as) (b # bs) =
     (let diff = uint a - uint b - borrow
      in if diff < 0 then of_int (diff + 256) # sub_from 1 as bs else of_int diff # sub_from 0 as bs)"
| "sub_from borrow as bs = as"

definition sub_assign_256 :: "bytes \<Rightarrow> bytes \<Rightarrow> bytes" where
  "sub_assign_256 a b = sub_from 0 a b"

definition bit_256 :: "bytes \<Rightarrow> nat \<Rightarrow> bool" where
  "bit_256 a k \<longleftrightarrow> and (drop_bit (k mod 8) (a ! (k div 8))) 1 = 1"

definition set_bit_256 :: "bytes \<Rightarrow> nat \<Rightarrow> bytes" where
  "set_bit_256 a k = a[k div 8 := or (a ! (k div 8)) (push_bit (k mod 8) 1)]"

definition div_step :: "bytes \<Rightarrow> bytes \<Rightarrow> bytes \<times> bytes \<Rightarrow> nat \<Rightarrow> bytes \<times> bytes" where
  "div_step numerator denominator = (\<lambda>(quot, remainder) k.
     let remainder = shl1_256 remainder;
         remainder = (if bit_256 numerator k then remainder[0 := or (remainder ! 0) 1] else remainder)
     in if ge256 remainder denominator
        then (set_bit_256 quot k, sub_assign_256 remainder denominator)
        else (quot, remainder))"

definition div_u256 :: "bytes \<Rightarrow> bytes \<Rightarrow> bytes option" where
  "div_u256 numerator denominator =
     (if is_zero_256 denominator then None
      else Some (fst (foldl (div_step numerator denominator) (replicate 32 0, replicate 32 0) (rev [0..<256]))))"

primrec add_one_from :: "bytes \<Rightarrow> bytes option" where
  "add_one_from [] = None"
| "add_one_from (byte # rest) =
     (if byte + 1 = 0 then map_option (\<lambda>r. 0 # r) (add_one_from rest) else Some ((byte + 1) # rest))"

definition add_one_saturating :: "bytes \<Rightarrow> bytes" where
  "add_one_saturating a = (case add_one_from a of Some result \<Rightarrow> result | None \<Rightarrow> replicate 32 0xFF)"

definition block_work :: "bytes \<Rightarrow> bytes" where
  "block_work target =
     (if is_zero_256 target then replicate 32 0
      else case div_u256 (replicate 32 0xFF) target of
             None \<Rightarrow> []
           | Some quot \<Rightarrow> add_one_saturating quot)"

fun add_bytes :: "u16 \<Rightarrow> bytes \<Rightarrow> bytes \<Rightarrow> bytes \<times> u16" where
  "add_bytes carry (a # as) (b # bs) =
     (let sum = ucast a + ucast b + carry; (rest, c) = add_bytes (drop_bit 8 sum) as bs
      in (ucast sum # rest, c))"
| "add_bytes carry _ _ = ([], carry)"

definition add_work :: "bytes \<Rightarrow> bytes \<Rightarrow> bytes" where
  "add_work a b = (let (result, carry) = add_bytes 0 a b in if carry \<noteq> 0 then replicate 32 0xFF else result)"

definition work_gt :: "bytes \<Rightarrow> bytes \<Rightarrow> bool" where
  "work_gt a b = le256_lt b a"

subsection \<open>Values of digit lists\<close>

primrec digits_nat :: "'a::len word list \<Rightarrow> nat" where
  "digits_nat [] = 0"
| "digits_nat (x # xs) = unat x + 2 ^ LENGTH('a) * digits_nat xs"

text \<open>The target before clamping: the anchor times the fractional factor, shifted.\<close>

definition exact_target :: "nat \<Rightarrow> nat \<Rightarrow> int \<Rightarrow> nat" where
  "exact_target a f net = (if net \<ge> 0 then a * f * 2 ^ nat net else a * f div 2 ^ nat (- net))"

definition exponent_factor :: "int \<Rightarrow> u64 \<Rightarrow> u64 option \<Rightarrow> nat" where
  "exponent_factor exponent height activation_height =
     unat (fractional_factor_at_height (of_int (exponent - exponent div 65536 * 65536)) height activation_height)"

text \<open>The polynomials whose upper bits are the fractional factors, over the naturals.\<close>

definition bch_poly :: "nat \<Rightarrow> nat" where
  "bch_poly f = 195766423245049 * f + 971821376 * (f * f) + 5127 * (f * f * f) + 140737488355328"

definition legacy_poly :: "nat \<Rightarrow> nat" where
  "legacy_poly f = 195766423245049 * f + 971821376 * f * f div 65536 + 140737488355328"

section \<open>Lemmas\<close>

lemma unat_drop_bit: "unat (drop_bit n w) = unat w div 2 ^ n"
  unfolding unat_drop_bit_eq by (rule drop_bit_eq_div)

lemma unat_push_bit: "unat (push_bit n w) = unat w * 2 ^ n mod 2 ^ LENGTH('a)" for w :: "'a::len word"
  unfolding unsigned_push_bit_eq by (simp only: push_bit_eq_mult take_bit_eq_mod)

lemma unat_ucast_mod: "unat (ucast w :: 'b::len word) = unat w mod 2 ^ LENGTH('b)"
  by (simp only: unsigned_ucast_eq take_bit_eq_mod)

subsection \<open>Digit lists\<close>

lemma digits_append: "digits_nat (xs @ ys) = digits_nat xs + 2 ^ (LENGTH('a) * length xs) * digits_nat ys"
  for xs ys :: "'a::len word list"
  by (induction xs) (simp_all add: algebra_simps power_add)

lemma digits_bound: "digits_nat xs < 2 ^ (LENGTH('a) * length xs)"
  for xs :: "'a::len word list"
proof (induction xs)
  case (Cons x xs)
  have "unat x + 2 ^ LENGTH('a) * digits_nat xs < 2 ^ LENGTH('a) + 2 ^ LENGTH('a) * digits_nat xs"
    using unat_lt_exp [of x] by simp
  also have "\<dots> = 2 ^ LENGTH('a) * Suc (digits_nat xs)" by simp
  also have "\<dots> \<le> 2 ^ LENGTH('a) * 2 ^ (LENGTH('a) * length xs)" using Cons by (intro mult_le_mono2) simp
  finally show ?case by (simp add: power_add)
qed simp

lemma digit_pair_less:
  fixes a b u v B :: nat
  assumes "a < B" "b < B"
  shows "a + B * u < b + B * v \<longleftrightarrow> u < v \<or> u = v \<and> a < b"
proof (cases u v rule: linorder_cases)
  case less
  then have "B * Suc u \<le> B * v" by (intro mult_le_mono2) simp
  then show ?thesis using less assms by simp
next
  case greater
  then have "B * Suc v \<le> B * u" by (intro mult_le_mono2) simp
  then show ?thesis using greater assms by simp
qed simp

lemma digits_inj: "length xs = length ys \<Longrightarrow> digits_nat xs = digits_nat ys \<longleftrightarrow> xs = ys"
  for xs ys :: "'a::len word list"
proof (induction xs ys rule: list_induct2)
  case (Cons x xs y ys)
  have "unat x + 2 ^ LENGTH('a) * digits_nat xs = unat y + 2 ^ LENGTH('a) * digits_nat ys \<longleftrightarrow>
      unat x = unat y \<and> digits_nat xs = digits_nat ys"
    using digit_pair_less [OF unat_lt_exp unat_lt_exp, of x "digits_nat xs" y "digits_nat ys"]
      digit_pair_less [OF unat_lt_exp unat_lt_exp, of y "digits_nat ys" x "digits_nat xs"]
    by (metis nat_neq_iff)
  then show ?case using Cons by (simp add: word_unat_eq_iff)
qed simp

lemma digits_zero [simp]: "digits_nat (replicate n (0 :: 'a::len word)) = 0"
  by (induction n) simp_all

lemma digits_max: "digits_nat (replicate n (- 1 :: 'a::len word)) = 2 ^ (LENGTH('a) * n) - 1"
proof (induction n)
  case (Suc n)
  have "2 ^ LENGTH('a) - 1 + 2 ^ LENGTH('a) * (2 ^ (LENGTH('a) * n) - 1) = (2 ^ (LENGTH('a) * Suc n) - 1 :: nat)"
    by (simp add: power_add diff_mult_distrib2)
  then show ?case using Suc by (simp add: unat_max_word)
qed simp

lemma lt_from_top_digits:
  "length xs = length ys \<Longrightarrow> lt_from_top (rev xs) (rev ys) \<longleftrightarrow> digits_nat xs < digits_nat ys"
proof (induction "length xs" arbitrary: xs ys)
  case (Suc n)
  obtain x xs' where x: "xs = xs' @ [x]" using Suc.hyps(2) by (metis length_Suc_conv_rev)
  obtain y ys' where y: "ys = ys' @ [y]" using Suc.hyps(2) Suc.prems by (metis length_Suc_conv_rev)
  have len: "length xs' = length ys'" "n = length xs'" using Suc.hyps(2) Suc.prems x y by simp_all
  have "digits_nat xs < digits_nat ys \<longleftrightarrow> unat x < unat y \<or> unat x = unat y \<and> digits_nat xs' < digits_nat ys'"
    using digit_pair_less [OF digits_bound [of xs'], of "digits_nat ys'" "unat x" "unat y"] digits_bound [of ys'] len
    by (simp add: x y digits_append)
  then show ?case
    using Suc.hyps(1) [OF len(2,1)] by (auto simp: x y word_less_nat_alt word_unat_eq_iff)
qed simp

lemma le256_lt_digits: "length a = length b \<Longrightarrow> le256_lt a b \<longleftrightarrow> digits_nat a < digits_nat b"
  by (simp add: le256_lt_def lt_from_top_digits)

lemma unat_of_le_bytes: "8 * length bs \<le> LENGTH('a) \<Longrightarrow> unat (of_le_bytes bs :: 'a::len word) = digits_nat bs"
proof (induction bs)
  case (Cons b bs)
  let ?r = "of_le_bytes bs :: 'a word"
  have r: "unat ?r = digits_nat bs" "digits_nat bs < 2 ^ (8 * length bs)" using Cons digits_bound [of bs] by simp_all
  have "2 ^ 8 * digits_nat bs < 2 ^ 8 * 2 ^ (8 * length bs)" using r(2) by simp
  also have "\<dots> = 2 ^ (8 + 8 * length bs)" by (simp only: power_add)
  also have "\<dots> \<le> 2 ^ LENGTH('a)" using Cons.prems by (intro power_increasing) simp_all
  finally have b: "2 ^ 8 * digits_nat bs < 2 ^ LENGTH('a)" .
  have p: "unat (push_bit 8 ?r) = 2 ^ 8 * digits_nat bs"
    unfolding unat_push_bit r(1) using b by (simp add: mult.commute)
  have u: "unat (ucast b :: 'a word) = unat b" using Cons.prems by (intro unat_ucast_up) simp
  have "\<not> bit (ucast b :: 'a word) n \<or> \<not> bit (push_bit 8 ?r) n" for n
    using bit_imp_le_length [of b n] by (cases "n < 8") (auto simp: bit_simps)
  then have "or (ucast b) (push_bit 8 ?r) = ucast b + push_bit 8 ?r"
    by (intro disjunctive_add [symmetric])
  moreover have "unat (ucast b + push_bit 8 ?r) = unat b + 2 ^ 8 * digits_nat bs"
  proof -
    have "digits_nat (b # bs) < 2 ^ (8 * length (b # bs))" using digits_bound [of "b # bs"] by simp
    also have "\<dots> \<le> 2 ^ LENGTH('a)" using Cons.prems by (intro power_increasing) simp_all
    finally show ?thesis using u p by (subst unat_add_exact) simp_all
  qed
  ultimately show ?case by simp
qed simp

lemma digits_le_bytes: "digits_nat (le_bytes n w) = unat w mod 2 ^ (8 * n)"
proof (induction n arbitrary: w)
  case (Suc n)
  have "unat (ucast w :: u8) = unat w mod 2 ^ 8"
    by (simp add: unat_ucast_mod)
  moreover have "digits_nat (le_bytes n (drop_bit 8 w)) = (unat w div 2 ^ 8) mod 2 ^ (8 * n)"
    by (simp only: Suc unat_drop_bit)
  ultimately show ?case
    using mod_mult2_eq [of "unat w" "2 ^ 8" "2 ^ (8 * n)"] by (simp add: power_add)
qed simp

lemma digits_split:
  "n \<le> length xs \<Longrightarrow> digits_nat xs = digits_nat (take n xs) + 2 ^ (LENGTH('a) * n) * digits_nat (drop n xs)"
  for xs :: "'a::len word list"
  using digits_append [of "take n xs" "drop n xs"] by simp

lemma digits_bytes_to_limbs:
  assumes "length b = 32"
  shows "digits_nat (bytes_to_limbs b) = digits_nat b" "length (bytes_to_limbs b) = 4"
proof -
  have "digits_nat b = digits_nat (take 8 b) + 2 ^ 64 * digits_nat (drop 8 b)"
    using assms digits_split [of 8 b] by simp
  moreover have "digits_nat (drop 8 b) = digits_nat (take 8 (drop 8 b)) + 2 ^ 64 * digits_nat (drop 16 b)"
    using assms digits_split [of 8 "drop 8 b"] by simp
  moreover have "digits_nat (drop 16 b) = digits_nat (take 8 (drop 16 b)) + 2 ^ 64 * digits_nat (take 8 (drop 24 b))"
    using assms digits_split [of 8 "drop 16 b"] by simp
  ultimately show "digits_nat (bytes_to_limbs b) = digits_nat b" "length (bytes_to_limbs b) = 4"
    using assms by (simp_all add: bytes_to_limbs_def unat_of_le_bytes)
qed

lemma digits_limbs_to_bytes:
  assumes "length l = 4"
  shows "digits_nat (limbs_to_bytes l) = digits_nat l" "length (limbs_to_bytes l) = 32"
proof -
  obtain a b c d where l: "l = [a, b, c, d]" using assms by (auto simp: numeral_eq_Suc length_Suc_conv)
  have "unat w mod 2 ^ 64 = unat w" for w :: u64 using unat_u64_bound [of w] by simp
  then show "digits_nat (limbs_to_bytes l) = digits_nat l" "length (limbs_to_bytes l) = 32"
    by (simp_all add: l limbs_to_bytes_def digits_append digits_le_bytes)
qed

subsection \<open>Limb arithmetic\<close>

lemma digits_mul_limbs_from:
  assumes "unat carry < 2 ^ 64"
  shows "digits_nat (mul_limbs_from factor carry as) = digits_nat as * unat factor + unat carry"
    "length (mul_limbs_from factor carry as) = Suc (length as)"
proof -
  have "digits_nat (mul_limbs_from factor carry as) = digits_nat as * unat factor + unat carry \<and>
      length (mul_limbs_from factor carry as) = Suc (length as)"
    using assms
  proof (induction as arbitrary: carry)
    case Nil
    then show ?case by (simp add: unat_ucast_mod)
  next
    case (Cons a as)
    define p where "p = widen a * widen factor + carry"
    have "unat a * unat factor \<le> (2 ^ 64 - 1) * (2 ^ 64 - 1)"
      using unat_u64_bound [of a] unat_u64_bound [of factor] by (intro mult_le_mono) simp_all
    then have p: "unat p = unat a * unat factor + unat carry" "unat p div 2 ^ 64 < 2 ^ 64"
      unfolding p_def using Cons.prems by (auto simp: unat_widen_mul unat_add_exact less_mult_imp_div_less)
    have "unat (drop_bit 64 p) = unat p div 2 ^ 64" by (rule unat_drop_bit)
    moreover have "unat (ucast p :: u64) = unat p mod 2 ^ 64" by (simp add: unat_ucast_mod)
    ultimately have d: "digits_nat (mul_limbs_from factor carry (a # as)) =
        unat p mod 2 ^ 64 + 2 ^ 64 * (digits_nat as * unat factor + unat p div 2 ^ 64)"
      and l: "length (mul_limbs_from factor carry (a # as)) = Suc (length (a # as))"
      using Cons.IH [of "drop_bit 64 p"] p(2) by (simp_all add: p_def [symmetric])
    have "lo + B * (D * F + hi) = (lo + B * hi) + B * D * F" for lo B D F hi :: nat by (simp add: algebra_simps)
    then have "digits_nat (mul_limbs_from factor carry (a # as)) = unat p + 2 ^ 64 * digits_nat as * unat factor"
      unfolding d by (simp only: mod_mult_div_eq)
    then have "digits_nat (mul_limbs_from factor carry (a # as)) = digits_nat (a # as) * unat factor + unat carry"
      by (simp add: p(1) add_mult_distrib)
    then show ?case using l by blast
  qed
  then show "digits_nat (mul_limbs_from factor carry as) = digits_nat as * unat factor + unat carry"
    "length (mul_limbs_from factor carry as) = Suc (length as)" by simp_all
qed

lemma shl_mod: "b \<le> n \<Longrightarrow> x * 2 ^ b mod 2 ^ n = 2 ^ b * (x mod 2 ^ (n - b))" for x :: nat
proof -
  assume "b \<le> n"
  then have "(2 :: nat) ^ n = 2 ^ b * 2 ^ (n - b)" by (metis le_add_diff_inverse power_add)
  then show ?thesis by (simp only: mult.commute [of x] mod_mult_mult1)
qed

lemma shl_div: "b \<le> n \<Longrightarrow> x * 2 ^ b div 2 ^ n = x div 2 ^ (n - b)" for x :: nat
proof -
  assume "b \<le> n"
  then have "(2 :: nat) ^ n = 2 ^ b * 2 ^ (n - b)" by (metis le_add_diff_inverse power_add)
  then show ?thesis by (simp add: mult.commute [of x])
qed

lemma shl_room: "b \<le> n \<Longrightarrow> c < 2 ^ b \<Longrightarrow> x * 2 ^ b mod 2 ^ n + c < 2 ^ n" for x c :: nat
proof -
  assume b: "b \<le> n" and c: "c < 2 ^ b"
  have "2 ^ b * (x mod 2 ^ (n - b)) + c < 2 ^ b * (x mod 2 ^ (n - b)) + 2 ^ b" using c by simp
  also have "\<dots> = 2 ^ b * Suc (x mod 2 ^ (n - b))" by simp
  also have "\<dots> \<le> 2 ^ b * 2 ^ (n - b)" by (intro mult_le_mono2) (simp add: Suc_le_eq)
  also have "\<dots> = 2 ^ n" using b by (metis le_add_diff_inverse power_add)
  finally show ?thesis by (simp only: shl_mod [OF b])
qed

lemma small_no_bit: "unat c < 2 ^ b \<Longrightarrow> b \<le> k \<Longrightarrow> \<not> bit c k" for c :: "'a::len word"
proof -
  assume "unat c < 2 ^ b" "b \<le> k"
  then have "unat c < 2 ^ k" by (meson less_le_trans one_le_numeral power_increasing)
  then have "drop_bit k c = 0" by (simp add: word_unat_eq_iff unat_drop_bit)
  then show ?thesis by (simp add: bit_iff_odd_drop_bit)
qed

lemma or_shifted:
  fixes x c :: "'a::len word"
  assumes "b \<le> LENGTH('a)" "unat c < 2 ^ b"
  shows "unat (or (push_bit b x) c) = unat x * 2 ^ b mod 2 ^ LENGTH('a) + unat c"
proof -
  have "\<not> bit (push_bit b x) k \<or> \<not> bit c k" for k
    using small_no_bit [OF assms(2), of k] by (cases "k < b") (auto simp: bit_simps)
  then have "or (push_bit b x) c = push_bit b x + c"
    by (intro disjunctive_add [symmetric])
  then show ?thesis
    using shl_room [OF assms] by (simp add: unat_add_exact unat_push_bit)
qed

lemma digits_shl_limbs:
  assumes "b < 64" "unat c < 2 ^ b"
  shows "digits_nat (shl_limbs b c xs) = (digits_nat xs * 2 ^ b + unat c) mod 2 ^ (64 * length xs)"
    "length (shl_limbs b c xs) = length xs"
proof -
  have "digits_nat (shl_limbs b c xs) = (digits_nat xs * 2 ^ b + unat c) mod 2 ^ (64 * length xs) \<and>
      length (shl_limbs b c xs) = length xs"
    using assms(2)
  proof (induction xs arbitrary: c)
    case (Cons x xs)
    have "unat x div 2 ^ (64 - b) < 2 ^ b"
    proof (rule less_mult_imp_div_less)
      have "(2 :: nat) ^ b * 2 ^ (64 - b) = 2 ^ 64" using assms(1) by (metis le_add_diff_inverse less_imp_le power_add)
      then show "unat x < 2 ^ b * 2 ^ (64 - b)" using unat_u64_bound [of x] by simp
    qed
    then have IH: "digits_nat (shl_limbs b (drop_bit (64 - b) x) xs) =
        (digits_nat xs * 2 ^ b + unat x div 2 ^ (64 - b)) mod 2 ^ (64 * length xs)"
      "length (shl_limbs b (drop_bit (64 - b) x) xs) = length xs"
      using Cons.IH [of "drop_bit (64 - b) x"] by (simp_all add: unat_drop_bit)
    have limb: "unat (or (push_bit b x) c) = unat x * 2 ^ b mod 2 ^ 64 + unat c"
      using or_shifted [of b c x] assms(1) Cons.prems by simp
    have room: "unat x * 2 ^ b mod 2 ^ 64 + unat c < 2 ^ 64" using shl_room [of b 64] assms(1) Cons.prems by simp
    have high: "unat x * 2 ^ b div 2 ^ 64 = unat x div 2 ^ (64 - b)"
      using assms(1) by (intro shl_div) simp
    define T where "T = digits_nat (x # xs) * 2 ^ b + unat c"
    define lo where "lo = unat x * 2 ^ b mod 2 ^ 64 + unat c"
    define hi where "hi = digits_nat xs * 2 ^ b + unat x div 2 ^ (64 - b)"
    have "unat x * 2 ^ b = unat x * 2 ^ b mod 2 ^ 64 + 2 ^ 64 * (unat x div 2 ^ (64 - b))"
      using high by (metis mod_mult_div_eq)
    then have "T = lo + 2 ^ 64 * (unat x div 2 ^ (64 - b)) + 2 ^ 64 * (digits_nat xs * 2 ^ b)"
      by (simp add: T_def lo_def add_mult_distrib)
    then have T: "T = lo + 2 ^ 64 * hi" by (simp add: hi_def add_mult_distrib2)
    have "T mod 2 ^ (64 * Suc (length xs)) = T mod (2 ^ 64 * 2 ^ (64 * length xs))" by (simp add: power_add)
    also have "\<dots> = 2 ^ 64 * (T div 2 ^ 64 mod 2 ^ (64 * length xs)) + T mod 2 ^ 64" by (rule mod_mult2_eq)
    also have "T div 2 ^ 64 = hi" using room by (simp add: T lo_def)
    also have "T mod 2 ^ 64 = lo" using room by (simp add: T lo_def)
    finally show ?case using IH limb by (simp add: T_def lo_def hi_def)
  qed simp
  then show "digits_nat (shl_limbs b c xs) = (digits_nat xs * 2 ^ b + unat c) mod 2 ^ (64 * length xs)"
    "length (shl_limbs b c xs) = length xs" by simp_all
qed

lemma or_dropped:
  fixes x :: u64
  assumes "b < 64" "unat c = 2 ^ (64 - b) * h" "h < 2 ^ b"
  shows "unat (or (drop_bit b x) c) = unat x div 2 ^ b + unat c"
proof -
  have low: "unat (drop_bit b x) < 2 ^ (64 - b)"
  proof -
    have "unat x < 2 ^ (64 - b) * 2 ^ b" using unat_u64_bound [of x] assms(1) by (simp flip: power_add)
    then show ?thesis unfolding unat_drop_bit by (rule less_mult_imp_div_less)
  qed
  have c: "c = push_bit (64 - b) (of_nat h)"
  proof -
    have "h < 2 ^ 64" using assms(1,3) by (meson less_le_trans less_imp_le one_le_numeral power_increasing)
    moreover have "h * 2 ^ (64 - b) < 2 ^ 64"
    proof -
      have "h * 2 ^ (64 - b) < 2 ^ b * 2 ^ (64 - b)" using assms(3) by simp
      also have "\<dots> = 2 ^ 64" using assms(1) by (simp flip: power_add)
      finally show ?thesis .
    qed
    ultimately show ?thesis using assms(2) by (simp add: word_unat_eq_iff unat_push_bit unat_of_nat_exact mult.commute)
  qed
  have "or (drop_bit b x) c = or (push_bit (64 - b) (of_nat h)) (drop_bit b x)"
    by (simp add: c or.commute)
  then show ?thesis
    using or_shifted [of "64 - b" "drop_bit b x" "of_nat h"] low by (simp add: c unat_push_bit unat_drop_bit [symmetric])
qed

lemma digits_shr_limbs:
  assumes "0 < b" "b < 64" "unat c = 2 ^ (64 - b) * h" "h < 2 ^ b"
  shows "digits_nat (rev (shr_limbs b c xs)) = (h * 2 ^ (64 * length xs) + digits_nat (rev xs)) div 2 ^ b \<and>
    length (shr_limbs b c xs) = length xs"
  using assms(3,4)
proof (induction xs arbitrary: c h)
  case (Cons x xs)
  define M where "M = (2 :: nat) ^ (64 * length xs)"
  define r where "r = unat x mod 2 ^ b"
  define q where "q = unat x div 2 ^ b"
  have sp: "(2 :: nat) ^ 64 = 2 ^ b * 2 ^ (64 - b)" using assms(2) by (metis le_add_diff_inverse less_imp_le power_add)
  have "unat (push_bit (64 - b) x) = 2 ^ (64 - b) * r"
    using shl_mod [of "64 - b" 64 "unat x"] assms(2) by (simp add: unat_push_bit r_def)
  then have IH: "digits_nat (rev (shr_limbs b (push_bit (64 - b) x) xs)) = (r * M + digits_nat (rev xs)) div 2 ^ b"
    "length (shr_limbs b (push_bit (64 - b) x) xs) = length xs"
    using Cons.IH [of "push_bit (64 - b) x" r] by (simp_all add: r_def M_def)
  have limb: "unat (or (drop_bit b x) c) = q + 2 ^ (64 - b) * h"
    using or_dropped [OF assms(2) Cons.prems] Cons.prems(1) by (simp add: q_def)
  have x: "unat x = 2 ^ b * q + r" by (simp add: q_def r_def)
  have "h * 2 ^ (64 * length (x # xs)) + digits_nat (rev (x # xs)) =
      h * (2 ^ 64 * M) + (digits_nat (rev xs) + M * unat x)"
    by (simp add: digits_append M_def power_add)
  also have "\<dots> = 2 ^ b * (M * (q + 2 ^ (64 - b) * h)) + (r * M + digits_nat (rev xs))"
    unfolding sp x by (simp add: algebra_simps)
  finally have "(h * 2 ^ (64 * length (x # xs)) + digits_nat (rev (x # xs))) div 2 ^ b =
      M * (q + 2 ^ (64 - b) * h) + (r * M + digits_nat (rev xs)) div 2 ^ b"
    by (simp add: div_mult_self1 add.commute)
  then show ?case using IH limb by (simp add: digits_append M_def)
qed simp

lemma digits_take: "n \<le> length xs \<Longrightarrow> digits_nat (take n xs) = digits_nat xs mod 2 ^ (LENGTH('a) * n)"
  for xs :: "'a::len word list"
  using digits_split [of n xs] digits_bound [of "take n xs"] by simp

lemma digits_drop: "n \<le> length xs \<Longrightarrow> digits_nat (drop n xs) = digits_nat xs div 2 ^ (LENGTH('a) * n)"
  for xs :: "'a::len word list"
  using digits_split [of n xs] digits_bound [of "take n xs"] by simp

lemma digits_shl320:
  assumes "length w = 5" "n < 320"
  shows "digits_nat (shl320 w n) = digits_nat w * 2 ^ n mod 2 ^ 320" "length (shl320 w n) = 5"
proof -
  define k where "k = n div 64"
  define b where "b = n mod 64"
  have kb: "k \<le> 4" "b < 64" "n = 64 * k + b" using assms(2) by (auto simp: k_def b_def)
  define out where "out = replicate k 0 @ take (5 - k) w"
  have len: "length out = 5" using assms(1) kb by (simp add: out_def)
  have "digits_nat out = digits_nat w mod 2 ^ (64 * (5 - k)) * 2 ^ (64 * k)"
    using assms(1) digits_take [of "5 - k" w] by (simp add: out_def digits_append)
  also have "\<dots> = digits_nat w * 2 ^ (64 * k) mod 2 ^ 320"
  proof -
    have "64 * (5 - k) = 320 - 64 * k" using kb(1) by simp
    then show ?thesis using shl_mod [of "64 * k" 320 "digits_nat w"] kb(1) by (simp add: mult.commute)
  qed
  finally have out: "digits_nat out = digits_nat w * 2 ^ (64 * k) mod 2 ^ 320" .
  have "digits_nat (if b > 0 then shl_limbs b 0 out else out) = digits_nat out * 2 ^ b mod 2 ^ 320 \<and>
      length (if b > 0 then shl_limbs b 0 out else out) = 5"
    using digits_shl_limbs [of b 0 out] kb(2) len digits_bound [of out] by simp
  moreover have "digits_nat out * 2 ^ b mod 2 ^ 320 = digits_nat w * 2 ^ n mod 2 ^ 320"
    unfolding out kb(3) power_add mult.assoc [symmetric] by (rule mod_mult_left_eq)
  moreover have "n \<noteq> 0 \<Longrightarrow> shl320 w n = (if b > 0 then shl_limbs b 0 out else out)"
    using kb(1) by (simp add: shl320_def k_def b_def out_def Let_def min_def)
  ultimately have "n \<noteq> 0 \<Longrightarrow> digits_nat (shl320 w n) = digits_nat w * 2 ^ n mod 2 ^ 320 \<and> length (shl320 w n) = 5"
    by (simp only:) simp
  moreover have "shl320 w 0 = w" by (simp add: shl320_def)
  ultimately show "digits_nat (shl320 w n) = digits_nat w * 2 ^ n mod 2 ^ 320" "length (shl320 w n) = 5"
    using assms(1) digits_bound [of w] by (cases "n = 0"; simp)+
qed

lemma digits_shr320:
  assumes "length w = 5" "n < 320"
  shows "digits_nat (shr320 w n) = digits_nat w div 2 ^ n" "length (shr320 w n) = 5"
proof -
  define k where "k = n div 64"
  define b where "b = n mod 64"
  have kb: "k \<le> 4" "b < 64" "n = 64 * k + b" using assms(2) by (auto simp: k_def b_def)
  define out where "out = drop k w @ replicate k 0"
  have len: "length out = 5" using assms(1) kb by (simp add: out_def)
  have out: "digits_nat out = digits_nat w div 2 ^ (64 * k)"
    using assms(1) kb(1) digits_drop [of k w] by (simp add: out_def digits_append)
  have "digits_nat (if b > 0 then rev (shr_limbs b 0 (rev out)) else out) = digits_nat out div 2 ^ b \<and>
      length (if b > 0 then rev (shr_limbs b 0 (rev out)) else out) = 5"
    using digits_shr_limbs [of b 0 0 "rev out"] kb(2) len by simp
  moreover have "digits_nat out div 2 ^ b = digits_nat w div 2 ^ n"
    unfolding out kb(3) power_add by (rule div_mult2_eq [symmetric])
  moreover have "n \<noteq> 0 \<Longrightarrow> shr320 w n = (if b > 0 then rev (shr_limbs b 0 (rev out)) else out)"
    using kb(1) by (simp add: shr320_def k_def b_def out_def Let_def min_def)
  ultimately have "n \<noteq> 0 \<Longrightarrow> digits_nat (shr320 w n) = digits_nat w div 2 ^ n \<and> length (shr320 w n) = 5"
    by (simp only:) simp
  moreover have "shr320 w 0 = w" by (simp add: shr320_def)
  ultimately show "digits_nat (shr320 w n) = digits_nat w div 2 ^ n" "length (shr320 w n) = 5"
    using assms(1) by (cases "n = 0"; simp)+
qed

subsection \<open>Fractional factors\<close>

lemma u128_of_nat: "x < 2 ^ 128 \<Longrightarrow> unat (of_nat x :: u128) = x"
  by (rule unat_of_nat_exact) simp

lemma frac_bounds:
  fixes frac :: u16
  shows "unat frac \<le> 65535" "unat frac * unat frac \<le> 65535 * 65535" "unat frac * unat frac * unat frac \<le> 65535 * 65535 * 65535"
proof -
  show f: "unat frac \<le> 65535" using unat_lt_exp [of frac] by simp
  show sq: "unat frac * unat frac \<le> 65535 * 65535" using f by (intro mult_le_mono)
  show "unat frac * unat frac * unat frac \<le> 65535 * 65535 * 65535" using f sq by (intro mult_le_mono)
qed

lemma factor_close:
  assumes "x < 2 ^ 64"
  shows "unat (65536 + ucast (drop_bit 48 (of_nat x :: u128)) :: u64) = 65536 + x div 2 ^ 48"
proof -
  have "unat (drop_bit 48 (of_nat x :: u128)) = x div 2 ^ 48" using assms by (simp add: unat_drop_bit u128_of_nat)
  moreover have "x div 2 ^ 48 < 65536" using assms by (intro less_mult_imp_div_less) simp
  ultimately have "unat (ucast (drop_bit 48 (of_nat x :: u128)) :: u64) = x div 2 ^ 48" by (simp add: unat_ucast_mod)
  then show ?thesis using \<open>x div 2 ^ 48 < 65536\<close> by (subst unat_add_exact) simp_all
qed

lemma frac_u128: "(ucast frac :: u128) = of_nat (unat frac)" for frac :: u16
  by (simp add: word_unat_eq_iff unat_ucast_mod)

lemma poly_room: "bch_poly (unat frac) < 2 ^ 64" "legacy_poly (unat frac) < 2 ^ 64" for frac :: u16
  using frac_bounds [of frac] by (simp_all add: bch_poly_def legacy_poly_def)

lemma bch_factor_value: "unat (bch_fractional_factor frac) = 65536 + bch_poly (unat frac) div 2 ^ 48"
proof -
  have p: "push_bit 47 (1 :: u128) = 140737488355328" by simp
  have "(of_nat (bch_poly f) :: u128) =
      195766423245049 * of_nat f + 971821376 * of_nat f * of_nat f + 5127 * of_nat f * of_nat f * of_nat f + 140737488355328" for f
    unfolding bch_poly_def by (simp only: of_nat_add of_nat_mult of_nat_numeral mult.assoc)
  then have "bch_fractional_factor frac = 65536 + ucast (drop_bit 48 (of_nat (bch_poly (unat frac)) :: u128))"
    by (simp only: bch_fractional_factor_def Let_def frac_u128 p)
  then show ?thesis by (simp only: factor_close [OF poly_room(1)])
qed

lemma legacy_factor_value: "unat (legacy_fractional_factor frac) = 65536 + legacy_poly (unat frac) div 2 ^ 48"
proof -
  define f where "f = unat frac"
  note b = frac_bounds [of frac, folded f_def]
  have d: "(of_nat f :: u128) div 65536 = 0"
    using b(1) by (simp add: word_unat_eq_iff unat_div_distrib u128_of_nat)
  have s: "971821376 * (of_nat f :: u128) * of_nat f div 65536 = of_nat (971821376 * f * f div 65536)"
  proof -
    have "971821376 * f * f < 2 ^ 128" using b(2) by simp
    then have "unat (of_nat (971821376 * f * f) :: u128) = 971821376 * f * f" by (rule u128_of_nat)
    moreover have "971821376 * f * f div 65536 < 2 ^ 128" using b(2) by simp
    ultimately have "(of_nat (971821376 * f * f) :: u128) div 65536 = of_nat (971821376 * f * f div 65536)"
      by (simp only: word_unat_eq_iff unat_div_distrib u128_of_nat) simp
    then show ?thesis by simp
  qed
  have p: "push_bit 47 (1 :: u128) = 140737488355328" by simp
  have "legacy_fractional_factor frac = 65536 + ucast (drop_bit 48 (of_nat (legacy_poly f) :: u128))"
    unfolding legacy_fractional_factor_def Let_def frac_u128 f_def [symmetric] d p legacy_poly_def of_nat_add of_nat_mult
      of_nat_numeral s by (simp only: mult_zero_left mult_zero_right add_0_right)
  then show ?thesis unfolding f_def by (simp only: factor_close [OF poly_room(2)])
qed

lemma factor_range: "x < 2 ^ 64 \<Longrightarrow> 65536 \<le> 65536 + x div 2 ^ 48 \<and> 65536 + x div 2 ^ 48 < 2 ^ 17" for x :: nat
  using less_mult_imp_div_less [of x 65536 "2 ^ 48"] by simp

lemma factor_bounds:
  "65536 \<le> unat (bch_fractional_factor frac) \<and> unat (bch_fractional_factor frac) < 2 ^ 17"
  "65536 \<le> unat (legacy_fractional_factor frac) \<and> unat (legacy_fractional_factor frac) < 2 ^ 17"
  unfolding bch_factor_value legacy_factor_value
  by (rule factor_range, rule poly_room)+

lemma factor_mono:
  assumes "unat f \<le> unat g"
  shows "unat (fractional_factor_at_height f h act) \<le> unat (fractional_factor_at_height g h act)"
proof -
  have m: "unat f * unat f \<le> unat g * unat g" using assms by (intro mult_le_mono)
  have c: "unat f * unat f * unat f \<le> unat g * unat g * unat g" by (intro mult_le_mono m assms)
  have l: "971821376 * unat f * unat f \<le> 971821376 * unat g * unat g" by (intro mult_le_mono assms le_refl)
  have "unat (bch_fractional_factor f) \<le> unat (bch_fractional_factor g)"
    unfolding bch_factor_value bch_poly_def by (intro add_le_mono div_le_mono mult_le_mono le_refl m c assms)
  moreover have "unat (legacy_fractional_factor f) \<le> unat (legacy_fractional_factor g)"
    unfolding legacy_factor_value legacy_poly_def by (intro add_le_mono div_le_mono mult_le_mono le_refl assms l)
  ultimately show ?thesis by (simp add: fractional_factor_at_height_def)
qed

subsection \<open>Targets\<close>

lemma byte_max: "(0xFF :: u8) = - 1" by simp

lemma target_digits:
  "digits_nat GENESIS_TARGET = 2 ^ 238" "length GENESIS_TARGET = 32"
  "digits_nat MIN_TARGET = 1" "length MIN_TARGET = 32"
  "digits_nat MAX_TARGET = 2 ^ 256 - 1" "length MAX_TARGET = 32"
proof -
  show "digits_nat GENESIS_TARGET = 2 ^ 238" by (simp add: GENESIS_TARGET_def digits_append)
  show "digits_nat MAX_TARGET = 2 ^ 256 - 1" unfolding MAX_TARGET_def byte_max digits_max by simp
  show "length GENESIS_TARGET = 32" "digits_nat MIN_TARGET = 1" "length MIN_TARGET = 32" "length MAX_TARGET = 32"
    by (simp_all add: GENESIS_TARGET_def MIN_TARGET_def MAX_TARGET_def)
qed

lemma clamp_digits:
  assumes "length r = 32"
  shows "digits_nat (clamp r v) = (if v \<noteq> 0 then 2 ^ 256 - 1 else max 1 (digits_nat r))" "length (clamp r v) = 32"
proof -
  have top: "\<not> le256_lt MAX_TARGET r"
    using digits_bound [of r] assms by (simp add: le256_lt_digits target_digits)
  have zero: "r = replicate 32 0 \<longleftrightarrow> digits_nat r = 0"
    using digits_inj [of r "replicate 32 0"] assms by simp
  have min1: "le256_lt r MIN_TARGET \<longleftrightarrow> digits_nat r = 0"
    using assms by (simp add: le256_lt_digits target_digits)
  show "digits_nat (clamp r v) = (if v \<noteq> 0 then 2 ^ 256 - 1 else max 1 (digits_nat r))" "length (clamp r v) = 32"
    using top assms by (auto simp: clamp_def zero min1 target_digits)
qed

lemma clamped_target:
  assumes "length w = 5"
  defines "c \<equiv> clamp (limbs_to_bytes [w ! 0, w ! 1, w ! 2, w ! 3]) (w ! 4)"
  shows "digits_nat (if le256_lt GENESIS_TARGET c then GENESIS_TARGET else c) = min (2 ^ 238) (max 1 (digits_nat w))"
    "length (if le256_lt GENESIS_TARGET c then GENESIS_TARGET else c) = 32"
proof -
  let ?l = "[w ! 0, w ! 1, w ! 2, w ! 3]"
  obtain w0 w1 w2 w3 w4 where "w = [w0, w1, w2, w3, w4]" using assms by (auto simp: numeral_eq_Suc length_Suc_conv)
  then have w: "w = ?l @ [w ! 4]" by simp
  have d: "digits_nat w = digits_nat ?l + 2 ^ 256 * unat (w ! 4)"
    by (subst w, subst digits_append) simp
  have l: "digits_nat ?l < 2 ^ 256" using digits_bound [of ?l] by simp
  have r: "digits_nat (limbs_to_bytes ?l) = digits_nat ?l" "length (limbs_to_bytes ?l) = 32"
    by (rule digits_limbs_to_bytes, simp)+
  note c = clamp_digits [OF r(2), of "w ! 4", folded c_def, unfolded r(1)]
  have lt: "le256_lt GENESIS_TARGET c \<longleftrightarrow> 2 ^ 238 < digits_nat c" using c(2) by (simp add: le256_lt_digits target_digits)
  have "digits_nat c = max 1 (digits_nat w) \<or> (2 ^ 238 < digits_nat c \<and> 2 ^ 238 < digits_nat w)"
  proof (cases "w ! 4 = 0")
    case True
    then show ?thesis using c d by simp
  next
    case False
    then have "1 \<le> unat (w ! 4)" by (simp add: Suc_le_eq unat_gt_0)
    then have "2 ^ 256 * 1 \<le> 2 ^ 256 * unat (w ! 4)" by (rule mult_le_mono2)
    then show ?thesis using c False unfolding d by simp
  qed
  then show "digits_nat (if le256_lt GENESIS_TARGET c then GENESIS_TARGET else c) = min (2 ^ 238) (max 1 (digits_nat w))"
    using target_digits(1) lt by auto
  show "length (if le256_lt GENESIS_TARGET c then GENESIS_TARGET else c) = 32" using c(2) target_digits by simp
qed

lemma factor_at_height_bounds:
  "65536 \<le> unat (fractional_factor_at_height frac h act)" "unat (fractional_factor_at_height frac h act) < 2 ^ 17"
  using factor_bounds [of frac] by (simp_all add: fractional_factor_at_height_def)

lemma target_from_exponent_value:
  assumes "length a = 32" "0 < digits_nat a"
  shows "digits_nat (target_from_exponent a h act e) =
      (if 46 \<le> e div 65536 - 16 then 2 ^ 238
       else min (2 ^ 238) (max 1 (exact_target (digits_nat a) (exponent_factor e h act) (e div 65536 - 16))))"
    "length (target_from_exponent a h act e) = 32"
proof -
  define net where "net = e div 65536 - 16"
  define F where "F = fractional_factor_at_height (of_int (e - e div 65536 * 65536)) h act"
  define wide where "wide = mul_limbs_u64 (bytes_to_limbs a) F"
  have F: "65536 \<le> unat F" "unat F < 2 ^ 17" unfolding F_def by (rule factor_at_height_bounds)+
  have f: "exponent_factor e h act = unat F" by (simp add: exponent_factor_def F_def)
  define V where "V = digits_nat a * unat F"
  have wide: "digits_nat wide = V" "length wide = 5"
    using digits_mul_limbs_from [of 0 F "bytes_to_limbs a"] digits_bytes_to_limbs [OF assms(1)]
    by (simp_all add: wide_def mul_limbs_u64_def V_def)
  have "V < 2 ^ 256 * 2 ^ 17"
    unfolding V_def using digits_bound [of a] assms(1) F(2) by (intro mult_strict_mono) simp_all
  then have V: "V < 2 ^ 273" "0 < V" using assms(2) F(1) by (simp_all add: V_def)
  have eq: "target_from_exponent a h act e =
    (if net \<ge> 46 then GENESIS_TARGET else if net \<le> - 320 then MIN_TARGET
     else let w = shift_wide wide net in
          if net > 0 \<and> w = replicate 5 0 then GENESIS_TARGET
          else let c = clamp (limbs_to_bytes [w ! 0, w ! 1, w ! 2, w ! 3]) (w ! 4)
               in if le256_lt GENESIS_TARGET c then GENESIS_TARGET else c)"
    by (simp add: target_from_exponent_def Let_def net_def F_def wide_def)
  have "digits_nat (target_from_exponent a h act e) =
      (if 46 \<le> net then 2 ^ 238 else min (2 ^ 238) (max 1 (exact_target (digits_nat a) (unat F) net))) \<and>
      length (target_from_exponent a h act e) = 32"
  proof (cases "net \<ge> 46 \<or> net \<le> - 320")
    case True
    then show ?thesis
    proof
      assume "net \<le> - 320"
      then have "(2 :: nat) ^ 320 \<le> 2 ^ nat (- net)" by (intro power_increasing) simp_all
      moreover have "V < 2 ^ 320" using V(1) by simp
      ultimately have "V < 2 ^ nat (- net)" by (rule less_le_trans [rotated])
      then show ?thesis using \<open>net \<le> - 320\<close> by (simp add: eq exact_target_def V_def [symmetric] target_digits)
    qed (simp add: eq target_digits)
  next
    case False
    define w where "w = shift_wide wide net"
    have w: "digits_nat w = exact_target (digits_nat a) (unat F) net" "length w = 5"
    proof -
      have "digits_nat w = exact_target (digits_nat a) (unat F) net \<and> length w = 5"
      proof (cases "net \<ge> 0")
        case True
        then have n: "nat (min net 319) = nat net" "nat net < 320" "nat net \<le> 45" using False by auto
        have "(2 :: nat) ^ nat net \<le> 2 ^ 45" using n(3) by (intro power_increasing) simp_all
        then have "V * 2 ^ nat net < 2 ^ 273 * 2 ^ 45" using V(1) by (intro mult_less_le_imp_less) simp_all
        then have "V * 2 ^ nat net < 2 ^ 320" by simp
        then show ?thesis
          using True n wide digits_shl320 [OF wide(2) n(2)]
          by (simp add: w_def shift_wide_def exact_target_def V_def [symmetric])
      next
        case neg: False
        then have n: "nat (min (- net) 319) = nat (- net)" "nat (- net) < 320" using False by auto
        then show ?thesis
          using neg wide digits_shr320 [OF wide(2) n(2)]
          by (simp add: w_def shift_wide_def exact_target_def V_def [symmetric])
      qed
      then show "digits_nat w = exact_target (digits_nat a) (unat F) net" "length w = 5" by simp_all
    qed
    have "(46 \<le> net) = False" "(net \<le> - 320) = False" "(0 < net \<and> w = replicate 5 0) = False"
      using False w(1) V(2) digits_zero [of 5, where 'a = 64] by (auto simp: exact_target_def V_def)
    then show ?thesis
      unfolding eq Let_def w_def [symmetric] using clamped_target [OF w(2)] w(1) by (simp only: if_False)
  qed
  then show "digits_nat (target_from_exponent a h act e) =
      (if 46 \<le> e div 65536 - 16 then 2 ^ 238
       else min (2 ^ 238) (max 1 (exact_target (digits_nat a) (exponent_factor e h act) (e div 65536 - 16))))"
    "length (target_from_exponent a h act e) = 32"
    unfolding f net_def [symmetric] by blast+
qed

subsection \<open>Byte arithmetic\<close>

lemma digits_shl1_from:
  assumes "unat carry < 2"
  shows "digits_nat (shl1_from carry xs) = (2 * digits_nat xs + unat carry) mod 2 ^ (8 * length xs) \<and>
    length (shl1_from carry xs) = length xs"
  using assms
proof (induction xs arbitrary: carry)
  case (Cons x xs)
  have top: "unat (drop_bit 7 x) = unat x div 128" "unat x div 128 < 2"
    using unat_lt_exp [of x] by (auto simp: unat_drop_bit intro: less_mult_imp_div_less)
  have IH: "digits_nat (shl1_from (drop_bit 7 x) xs) = (2 * digits_nat xs + unat x div 128) mod 2 ^ (8 * length xs)"
    "length (shl1_from (drop_bit 7 x) xs) = length xs"
    using Cons.IH [of "drop_bit 7 x"] top by simp_all
  have byte: "unat (or (push_bit 1 x) carry) = unat x * 2 mod 256 + unat carry"
    using or_shifted [of 1 carry x] Cons.prems by simp
  have room: "unat x * 2 mod 256 + unat carry < 256" using shl_room [of 1 8 "unat carry" "unat x"] Cons.prems by simp
  have split: "unat x * 2 = unat x * 2 mod 256 + 256 * (unat x div 128)"
    using shl_div [of 1 8 "unat x"] mod_mult_div_eq [of "unat x * 2" 256] by simp
  define T where "T = 2 * digits_nat (x # xs) + unat carry"
  define lo where "lo = unat x * 2 mod 256 + unat carry"
  define hi where "hi = 2 * digits_nat xs + unat x div 128"
  have T: "T = lo + 256 * hi" using split by (simp add: T_def lo_def hi_def)
  have "T mod 2 ^ (8 * Suc (length xs)) = T mod (256 * 2 ^ (8 * length xs))" by (simp add: power_add)
  also have "\<dots> = 256 * (T div 256 mod 2 ^ (8 * length xs)) + T mod 256" by (rule mod_mult2_eq)
  also have "T div 256 = hi" using room by (simp add: T lo_def)
  also have "T mod 256 = lo" using room by (simp add: T lo_def)
  finally show ?case using IH byte by (simp add: T_def lo_def hi_def)
qed simp

lemma u8_of_int: "0 \<le> z \<Longrightarrow> z < 256 \<Longrightarrow> int (unat (of_int z :: u8)) = z"
  by (simp add: uint_word_of_int)

lemma digits_sub_from:
  assumes "length xs = length ys" "br \<in> {0, 1}" "digits_nat ys + nat br \<le> digits_nat xs"
  shows "int (digits_nat (sub_from br xs ys)) = int (digits_nat xs) - int (digits_nat ys) - br \<and>
    length (sub_from br xs ys) = length xs"
  using assms
proof (induction xs ys arbitrary: br rule: list_induct2)
  case (Cons x xs y ys)
  define d where "d = uint x - uint y - br"
  have b: "0 \<le> uint x" "uint x < 256" "0 \<le> uint y" "uint y < 256"
    using unsigned_less [of x, where ?'a = int] unsigned_less [of y, where ?'a = int] by simp_all
  have u: "int (unat x) = uint x" "int (unat y) = uint y" by simp_all
  have br: "0 \<le> br" "br \<le> 1" using Cons.prems(1) by auto
  have main: "uint y + 256 * int (digits_nat ys) + br \<le> uint x + 256 * int (digits_nat xs)"
  proof -
    have "int (digits_nat (y # ys) + nat br) \<le> int (digits_nat (x # xs))" using Cons.prems(2) by (simp only: of_nat_le_iff)
    then show ?thesis using br by simp
  qed
  show ?case
  proof (cases "d < 0")
    case True
    then have "digits_nat ys + 1 \<le> digits_nat xs" using main unfolding d_def by linarith
    then have IH: "int (digits_nat (sub_from 1 xs ys)) = int (digits_nat xs) - int (digits_nat ys) - 1"
      "length (sub_from 1 xs ys) = length xs" using Cons.IH [of 1] by simp_all
    have "0 \<le> d + 256" "d + 256 < 256" using True b br unfolding d_def by linarith+
    then have "int (unat (of_int (d + 256) :: u8)) = d + 256" by (rule u8_of_int)
    then have "int (digits_nat (of_int (d + 256) # sub_from 1 xs ys)) = d + 256 + 256 * (int (digits_nat xs) - int (digits_nat ys) - 1)"
      using IH by (simp del: of_int_add)
    then show ?thesis using True IH by (simp add: Let_def d_def [symmetric] del: of_int_add digits_nat.simps(2)) (simp add: d_def u)
  next
    case False
    then have "digits_nat ys \<le> digits_nat xs" using main b br unfolding d_def by linarith
    then have IH: "int (digits_nat (sub_from 0 xs ys)) = int (digits_nat xs) - int (digits_nat ys)"
      "length (sub_from 0 xs ys) = length xs" using Cons.IH [of 0] by simp_all
    have "0 \<le> d" "d < 256" using False b br unfolding d_def by linarith+
    then have "int (unat (of_int d :: u8)) = d" by (rule u8_of_int)
    then show ?thesis using False IH by (simp add: d_def [symmetric]) (simp add: d_def u)
  qed
qed simp

lemma digits_sub:
  assumes "length xs = length ys" "digits_nat ys \<le> digits_nat xs"
  shows "digits_nat (sub_assign_256 xs ys) = digits_nat xs - digits_nat ys" "length (sub_assign_256 xs ys) = length xs"
  using digits_sub_from [of xs ys 0] assms by (auto simp: sub_assign_256_def)

lemma bit_digits: "k < 8 * length xs \<Longrightarrow> bit_256 xs k \<longleftrightarrow> bit (digits_nat xs) k"
proof (induction xs arbitrary: k)
  case (Cons x xs)
  show ?case
  proof (cases "k < 8")
    case True
    have "bit_256 (x # xs) k \<longleftrightarrow> bit x k"
      using True by (simp add: bit_256_def bit_iff_odd_drop_bit and_one_eq odd_iff_mod_2_eq_one)
    also have "\<dots> \<longleftrightarrow> bit (unat x) k" by (simp add: bit_unsigned_iff)
    also have "\<dots> \<longleftrightarrow> bit (digits_nat (x # xs)) k"
    proof -
      have "take_bit 8 (digits_nat (x # xs)) = unat x"
        using unat_lt_exp [of x] by (simp add: take_bit_eq_mod)
      then show ?thesis using True by (metis bit_take_bit_iff)
    qed
    finally show ?thesis .
  next
    case False
    then obtain j where j: "k = j + 8" by (metis add.commute le_Suc_ex not_less)
    have "digits_nat (x # xs) div 2 ^ 8 = digits_nat xs" using unat_lt_exp [of x] by simp
    then have "bit (digits_nat (x # xs)) k = bit (digits_nat xs) j"
      by (simp only: bit_iff_odd j power_add mult.commute [of "2 ^ j"] div_mult2_eq)
    moreover have "(j + 8) div 8 = Suc (j div 8)" by simp
    then have "bit_256 (x # xs) k = bit_256 xs j" by (simp add: bit_256_def j)
    ultimately show ?thesis using Cons j by simp
  qed
qed simp

lemma digits_update:
  "i < length xs \<Longrightarrow> digits_nat (xs[i := v]) + 2 ^ (8 * i) * unat (xs ! i) = digits_nat xs + 2 ^ (8 * i) * unat v" for xs :: bytes
proof (induction xs arbitrary: i)
  case (Cons x xs)
  show ?case
  proof (cases i)
    case (Suc j)
    then have "digits_nat (xs[j := v]) + 2 ^ (8 * j) * unat (xs ! j) = digits_nat xs + 2 ^ (8 * j) * unat v"
      using Cons by simp
    then have "256 * (digits_nat (xs[j := v]) + 2 ^ (8 * j) * unat (xs ! j)) = 256 * (digits_nat xs + 2 ^ (8 * j) * unat v)" by simp
    then show ?thesis using Suc by (simp add: power_add algebra_simps)
  qed simp
qed simp

lemma unat_set_bit8:
  assumes "j < 8" "\<not> bit (x :: u8) j"
  shows "unat (or x (push_bit j 1)) = unat x + 2 ^ j"
proof -
  have p: "unat (push_bit j (1 :: u8)) = 2 ^ j"
    using assms(1) unat_power_two [of j, where 'a = 8] by simp
  have "\<not> bit (unat x) k \<or> \<not> bit ((2 :: nat) ^ j) k" for k
    using assms(2) by (auto simp: bit_unsigned_iff bit_exp_iff)
  then have "unat x + 2 ^ j = or (unat x) (2 ^ j)" by (rule disjunctive_add)
  then show ?thesis by (simp only: unsigned_or_eq p)
qed

lemma digits_set_bit:
  assumes "k < 8 * length xs" "\<not> bit_256 xs k"
  shows "digits_nat (set_bit_256 xs k) = digits_nat xs + 2 ^ k" "length (set_bit_256 xs k) = length xs"
proof -
  define i where "i = k div 8"
  have i: "i < length xs" "k = 8 * i + k mod 8" using assms(1) by (auto simp: i_def)
  have "\<not> bit (xs ! i) (k mod 8)"
    using assms(2) by (simp add: bit_256_def i_def bit_iff_odd_drop_bit and_one_eq odd_iff_mod_2_eq_one)
  then have v: "unat (or (xs ! i) (push_bit (k mod 8) 1)) = unat (xs ! i) + 2 ^ (k mod 8)"
    by (intro unat_set_bit8) simp_all
  have "2 ^ (8 * i) * (2 :: nat) ^ (k mod 8) = 2 ^ k" using i(2) by (metis power_add)
  then show "digits_nat (set_bit_256 xs k) = digits_nat xs + 2 ^ k"
    using digits_update [OF i(1), of "or (xs ! i) (push_bit (k mod 8) 1)"] v
    by (simp add: set_bit_256_def i_def [symmetric] add_mult_distrib2)
  show "length (set_bit_256 xs k) = length xs" by (simp add: set_bit_256_def)
qed

subsection \<open>Long division\<close>

lemma div_mod_double:
  fixes P D b :: nat
  assumes "0 < D" "b \<le> 1"
  shows "(2 * P + b) div D = 2 * (P div D) + (if D \<le> 2 * (P mod D) + b then 1 else 0)"
    "(2 * P + b) mod D = (if D \<le> 2 * (P mod D) + b then 2 * (P mod D) + b - D else 2 * (P mod D) + b)"
proof -
  define r where "r = 2 * (P mod D) + b"
  have r: "r < 2 * D" using assms(2) mod_less_divisor [OF assms(1), of P] unfolding r_def by linarith
  have "P = P mod D + D * (P div D)" by simp
  then have "2 * P = 2 * (P mod D) + 2 * (D * (P div D))" by linarith
  then have e: "2 * P + b = r + D * (2 * (P div D))" by (simp add: r_def)
  have "(2 * P + b) div D = 2 * (P div D) + r div D" unfolding e using assms(1) by (simp add: div_mult_self2)
  moreover have "(2 * P + b) mod D = r mod D" unfolding e by simp
  moreover have "r div D = (if D \<le> r then 1 else 0)" "r mod D = (if D \<le> r then r - D else r)"
    using r assms(1) by (auto simp: le_div_geq le_mod_geq)
  ultimately show "(2 * P + b) div D = 2 * (P div D) + (if D \<le> 2 * (P mod D) + b then 1 else 0)"
    "(2 * P + b) mod D = (if D \<le> 2 * (P mod D) + b then 2 * (P mod D) + b - D else 2 * (P mod D) + b)"
    by (simp_all add: r_def)
qed

lemma div_step_digits:
  assumes len: "length n = 32" "length d = 32" "length q = 32" "length r = 32" and D: "0 < digits_nat d" and k: "k < 256"
    and q: "digits_nat q = 2 ^ Suc k * (digits_nat n div 2 ^ Suc k div digits_nat d)"
    and r: "digits_nat r = digits_nat n div 2 ^ Suc k mod digits_nat d"
  shows "case div_step n d (q, r) k of (q', r') \<Rightarrow> length q' = 32 \<and> length r' = 32 \<and>
    digits_nat q' = 2 ^ k * (digits_nat n div 2 ^ k div digits_nat d) \<and> digits_nat r' = digits_nat n div 2 ^ k mod digits_nat d"
proof -
  define N where "N = digits_nat n"
  define M where "M = digits_nat d"
  define P where "P = N div 2 ^ Suc k"
  define b where "b = (if bit N k then 1 else 0 :: nat)"
  have step: "N div 2 ^ k = 2 * P + b"
  proof -
    have "P = N div 2 ^ k div 2" unfolding P_def power_Suc2 by (rule div_mult2_eq)
    moreover have "b = N div 2 ^ k mod 2" by (simp add: b_def bit_iff_odd odd_iff_mod_2_eq_one)
    ultimately show ?thesis by simp
  qed
  note dm = div_mod_double [of M b P] 
  have dm': "N div 2 ^ k div M = 2 * (P div M) + (if M \<le> 2 * (P mod M) + b then 1 else 0)"
    "N div 2 ^ k mod M = (if M \<le> 2 * (P mod M) + b then 2 * (P mod M) + b - M else 2 * (P mod M) + b)"
    using dm D unfolding step M_def by (simp_all add: b_def)
  define r1 where "r1 = shl1_256 r"
  define r2 where "r2 = (if bit_256 n k then r1[0 := or (r1 ! 0) 1] else r1)"
  have "N < 2 ^ 256" using digits_bound [of n] len by (simp add: N_def)
  then have "N div 2 < 2 ^ 255" by simp
  moreover have "P \<le> N div 2" unfolding P_def by (rule div_le_mono2) simp_all
  ultimately have "P < 2 ^ 255" by (rule le_less_trans [rotated])
  then have small: "P mod M < 2 ^ 255" by (rule le_less_trans [OF mod_less_eq_dividend])
  have r1: "digits_nat r1 = 2 * (P mod M)" "length r1 = 32"
    using digits_shl1_from [of 0 r] small r len by (simp_all add: r1_def shl1_256_def P_def N_def M_def)
  have nb: "bit_256 n k = bit N k" using bit_digits [of k n] k len by (simp add: N_def)
  have r2: "digits_nat r2 = 2 * (P mod M) + b" "length r2 = 32"
  proof -
    have "\<not> bit_256 r1 0" using bit_digits [of 0 r1] r1 by (simp add: bit_0)
    then show "digits_nat r2 = 2 * (P mod M) + b" "length r2 = 32"
      using digits_set_bit [of 0 r1] r1 nb by (simp_all add: r2_def b_def set_bit_256_def)
  qed
  have ge: "ge256 r2 d \<longleftrightarrow> M \<le> 2 * (P mod M) + b"
    using r2 len by (simp add: ge256_def le256_lt_digits M_def not_less)
  have st: "div_step n d (q, r) k = (if ge256 r2 d then (set_bit_256 q k, sub_assign_256 r2 d) else (q, r2))"
    unfolding div_step_def Let_def prod.case r1_def [symmetric] r2_def [symmetric] by (rule refl)
  have Q: "digits_nat q = 2 ^ k * (2 * (P div M))" using q by (simp add: P_def N_def M_def)
  have "\<not> bit_256 q k"
    using bit_digits [of k q] k len(3) by (simp add: Q bit_iff_odd)
  then have setq: "digits_nat (set_bit_256 q k) = 2 ^ k * (2 * (P div M) + 1)" "length (set_bit_256 q k) = 32"
    using digits_set_bit [of k q] k len(3) Q by simp_all
  show ?thesis
  proof (cases "M \<le> 2 * (P mod M) + b")
    case True
    then show ?thesis
      using digits_sub [of r2 d] r2 len setq ge unfolding st N_def [symmetric] M_def [symmetric] dm' by simp
  next
    case False
    then show ?thesis
      using r2 len Q ge unfolding st N_def [symmetric] M_def [symmetric] dm' by simp
  qed
qed

lemma div_loop_digits:
  assumes "length n = 32" "length d = 32" "0 < digits_nat d" "k \<le> 256"
  shows "case foldl (div_step n d) (replicate 32 0, replicate 32 0) (rev [k..<256]) of (q, r) \<Rightarrow>
    length q = 32 \<and> length r = 32 \<and> digits_nat q = 2 ^ k * (digits_nat n div 2 ^ k div digits_nat d) \<and>
    digits_nat r = digits_nat n div 2 ^ k mod digits_nat d"
  using assms(4)
proof (induction k rule: inc_induct)
  case base
  have "digits_nat n div 2 ^ 256 = 0" using digits_bound [of n] assms(1) by simp
  then show ?case by simp
next
  case (step k)
  obtain q r where qr: "foldl (div_step n d) (replicate 32 0, replicate 32 0) (rev [Suc k..<256]) = (q, r)" by fastforce
  have "rev [k..<256] = rev [Suc k..<256] @ [k]" using step by (simp add: upt_conv_Cons)
  then have "foldl (div_step n d) (replicate 32 0, replicate 32 0) (rev [k..<256]) = div_step n d (q, r) k"
    using qr by simp
  then show ?case
    using div_step_digits [OF assms(1,2) _ _ assms(3), of q r k] step qr by simp
qed

lemma div_u256_digits:
  assumes "length n = 32" "length d = 32" "0 < digits_nat d"
  shows "\<exists>q. div_u256 n d = Some q \<and> length q = 32 \<and> digits_nat q = digits_nat n div digits_nat d"
proof -
  have "\<not> is_zero_256 d"
  proof
    assume "is_zero_256 d"
    then have "d = replicate (length d) 0" by (simp add: is_zero_256_def list_all_iff list_eq_iff_nth_eq)
    then show False using assms(3) by (metis digits_zero less_irrefl)
  qed
  then show ?thesis
    using div_loop_digits [OF assms, of 0] by (auto simp: div_u256_def split: prod.splits)
qed

subsection \<open>Sums and work\<close>

lemma add_one_from_digits:
  "case add_one_from xs of
     None \<Rightarrow> digits_nat xs = 2 ^ (8 * length xs) - 1
   | Some r \<Rightarrow> digits_nat r = digits_nat xs + 1 \<and> length r = length xs"
proof (induction xs)
  case (Cons x xs)
  show ?case
  proof (cases "x + 1 = 0")
    case True
    then have "x = - 1" by (simp add: eq_neg_iff_add_eq_0)
    then have x: "unat x = 255" by (simp add: unat_max_word)
    show ?thesis
    proof (cases "add_one_from xs")
      case None
      then have "digits_nat xs = 2 ^ (8 * length xs) - 1" using Cons by simp
      then have "digits_nat (x # xs) = 255 + 256 * (2 ^ (8 * length xs) - 1)" using x by simp
      also have "\<dots> = 256 * 2 ^ (8 * length xs) - 1" by (simp add: diff_mult_distrib2)
      finally show ?thesis using None True by (simp add: power_add)
    next
      case (Some r)
      then show ?thesis using Cons True x by simp
    qed
  next
    case False
    then have "unat (x + 1) = unat x + 1"
      using unat_lt_exp [of x] by (metis add.commute unat_1 unatSuc Suc_eq_plus1)
    then show ?thesis using False by simp
  qed
qed simp

lemma add_one_saturating_digits:
  assumes "length a = 32"
  shows "digits_nat (add_one_saturating a) = min (digits_nat a + 1) (2 ^ 256 - 1)" "length (add_one_saturating a) = 32"
proof -
  have top: "digits_nat (replicate 32 (0xFF :: u8)) = 2 ^ 256 - 1" unfolding byte_max digits_max by simp
  have "digits_nat (add_one_saturating a) = min (digits_nat a + 1) (2 ^ 256 - 1) \<and> length (add_one_saturating a) = 32"
  proof (cases "add_one_from a")
    case None
    then show ?thesis using add_one_from_digits [of a] assms top by (simp add: add_one_saturating_def)
  next
    case (Some r)
    then have "digits_nat r = digits_nat a + 1 \<and> length r = 32" using add_one_from_digits [of a] assms by simp
    then show ?thesis using Some digits_bound [of r] by (simp add: add_one_saturating_def)
  qed
  then show "digits_nat (add_one_saturating a) = min (digits_nat a + 1) (2 ^ 256 - 1)" "length (add_one_saturating a) = 32"
    by simp_all
qed

lemma add_bytes_digits:
  assumes "length xs = length ys" "unat carry \<le> 1"
  shows "case add_bytes carry xs ys of (r, c) \<Rightarrow> length r = length xs \<and> unat c \<le> 1 \<and>
    digits_nat r + 2 ^ (8 * length xs) * unat c = digits_nat xs + digits_nat ys + unat carry"
  using assms
proof (induction xs ys arbitrary: carry rule: list_induct2)
  case (Cons x xs y ys)
  define t where "t = (ucast x + ucast y + carry :: u16)"
  have b: "unat x \<le> 255" "unat y \<le> 255" using unat_lt_exp [of x] unat_lt_exp [of y] by simp_all
  have u: "unat (ucast x :: u16) = unat x" "unat (ucast y :: u16) = unat y" by (simp_all add: unat_ucast_up)
  have "unat (ucast x + ucast y :: u16) = unat x + unat y" using b u by (subst unat_add_exact) simp_all
  then have t: "unat t = unat x + unat y + unat carry" unfolding t_def using b Cons.prems by (subst unat_add_exact) simp_all
  have hi: "unat (drop_bit 8 t) = unat t div 256" "unat t div 256 \<le> 1" using t b Cons.prems by (auto simp: unat_drop_bit)
  have lo: "unat (ucast t :: u8) = unat t mod 256" by (simp add: unat_ucast_mod)
  obtain r c where rc: "add_bytes (drop_bit 8 t) xs ys = (r, c)" by fastforce
  then have IH: "length r = length xs" "unat c \<le> 1"
    "digits_nat r + 2 ^ (8 * length xs) * unat c = digits_nat xs + digits_nat ys + unat t div 256"
    using Cons.IH [of "drop_bit 8 t"] hi by simp_all
  have "lo + 256 * r + 256 * x = a + 256 * d + (b + 256 * e) + k"
    if "r + x = d + e + q" "t = lo + 256 * q" "t = a + b + k" for r x d e q t lo a b k :: nat
    using that by linarith
  from this [OF IH(3) _ t, of "unat t mod 256"]
  have "unat t mod 256 + 256 * digits_nat r + 256 * (2 ^ (8 * length xs) * unat c) =
      unat x + 256 * digits_nat xs + (unat y + 256 * digits_nat ys) + unat carry" by simp
  then show ?case using rc lo IH by (simp add: t_def [symmetric] power_add)
qed simp

lemma add_work_digits:
  assumes "length a = 32" "length b = 32"
  shows "digits_nat (add_work a b) = min (digits_nat a + digits_nat b) (2 ^ 256 - 1)" "length (add_work a b) = 32"
proof -
  have top: "digits_nat (replicate 32 (0xFF :: u8)) = 2 ^ 256 - 1" unfolding byte_max digits_max by simp
  obtain r c where rc: "add_bytes 0 a b = (r, c)" by fastforce
  have f: "length r = 32" "unat c \<le> 1" "digits_nat r + 2 ^ 256 * unat c = digits_nat a + digits_nat b"
    using add_bytes_digits [of a b 0] assms rc by simp_all
  have r: "digits_nat r < 2 ^ 256" using digits_bound [of r] f(1) by simp
  have "digits_nat (add_work a b) = min (digits_nat a + digits_nat b) (2 ^ 256 - 1) \<and> length (add_work a b) = 32"
  proof (cases "c = 0")
    case True
    then show ?thesis using f r rc by (simp add: add_work_def)
  next
    case False
    then have "0 < unat c" by (simp add: unat_gt_0)
    then have "unat c = 1" using f(2) by linarith
    then show ?thesis using f(3) False rc top by (simp add: add_work_def)
  qed
  then show "digits_nat (add_work a b) = min (digits_nat a + digits_nat b) (2 ^ 256 - 1)" "length (add_work a b) = 32"
    by simp_all
qed

lemma is_zero_digits: "is_zero_256 a \<longleftrightarrow> digits_nat a = 0"
  by (induction a) (auto simp: is_zero_256_def unat_eq_0)

lemma block_work_digits:
  assumes "length t = 32"
  shows "digits_nat (block_work t) =
      (if digits_nat t = 0 then 0 else min ((2 ^ 256 - 1) div digits_nat t + 1) (2 ^ 256 - 1))" "length (block_work t) = 32"
proof -
  have top: "digits_nat (replicate 32 (0xFF :: u8)) = 2 ^ 256 - 1" unfolding byte_max digits_max by simp
  have "digits_nat (block_work t) =
      (if digits_nat t = 0 then 0 else min ((2 ^ 256 - 1) div digits_nat t + 1) (2 ^ 256 - 1)) \<and> length (block_work t) = 32"
  proof (cases "digits_nat t = 0")
    case False
    then obtain q where "div_u256 (replicate 32 0xFF) t = Some q" "length q = 32" "digits_nat q = (2 ^ 256 - 1) div digits_nat t"
      using div_u256_digits [of "replicate 32 0xFF" t] assms top by auto
    then show ?thesis using False add_one_saturating_digits [of q] by (simp add: block_work_def is_zero_digits)
  qed (simp add: block_work_def is_zero_digits)
  then show "digits_nat (block_work t) =
      (if digits_nat t = 0 then 0 else min ((2 ^ 256 - 1) div digits_nat t + 1) (2 ^ 256 - 1))" "length (block_work t) = 32"
    by simp_all
qed

lemma ceil_quotient:
  fixes m t :: nat
  assumes "0 < m" "0 < t"
  shows "(m - 1) div t + 1 = (m + t - 1) div t"
proof -
  have e: "m + t - 1 = (m - 1) + t" using assms(1) by simp
  show ?thesis unfolding e using assms(2) by (intro div_add_self2 [symmetric]) simp
qed

subsection \<open>Monotonicity and fixed points of the adjustment\<close>

lemma exact_target_mono:
  assumes "net \<le> net'" "net = net' \<Longrightarrow> f \<le> f'" "f < 2 ^ 17" "65536 \<le> f'"
  shows "exact_target a f net \<le> exact_target a f' net'"
proof (cases "net = net'")
  case True
  with assms(2) have "a * f \<le> a * f'" by simp
  then show ?thesis unfolding exact_target_def True by (auto intro: div_le_mono)
next
  case False
  then have lt: "net < net'" using assms(1) by simp
  have ff: "f \<le> f' * 2" using assms(3,4) by simp
  then have af: "a * f \<le> a * f' * 2" by (simp add: mult.assoc)
  have half: "a * f div 2 \<le> a * f'" using div_le_mono [OF af, of 2] by simp
  consider "0 \<le> net" | "net < 0" "0 \<le> net'" | "net' < 0" using lt by linarith
  then show ?thesis
  proof cases
    case 1
    then obtain k where k: "nat net' = Suc (nat net + k)"
      using lt less_iff_Suc_add [of "nat net" "nat net'"] by auto
    have "a * f * 2 ^ nat net \<le> a * f' * 2 * 2 ^ nat net" using af by (rule mult_le_mono1)
    also have "\<dots> \<le> a * f' * 2 ^ nat net'" unfolding k by (simp add: power_add)
    finally show ?thesis using 1 lt by (simp add: exact_target_def)
  next
    case 2
    then obtain k where "nat (- net) = Suc k" by (cases "nat (- net)") auto
    then have "a * f div 2 ^ nat (- net) = a * f div 2 div 2 ^ k" by (simp add: div_mult2_eq)
    also have "\<dots> \<le> a * f div 2" by (rule div_le_dividend)
    also have "\<dots> \<le> a * f' * 2 ^ nat net'" using half by (rule order_trans) simp
    finally show ?thesis using 2 by (simp add: exact_target_def)
  next
    case 3
    then obtain k where k: "nat (- net) = Suc (nat (- net') + k)"
      using lt less_iff_Suc_add [of "nat (- net')" "nat (- net)"] by auto
    have "a * f div 2 ^ nat (- net) = a * f div 2 div 2 ^ nat (- net') div 2 ^ k"
      unfolding k by (simp add: div_mult2_eq power_add)
    also have "\<dots> \<le> a * f div 2 div 2 ^ nat (- net')" by (rule div_le_dividend)
    also have "\<dots> \<le> a * f' div 2 ^ nat (- net')" using half by (rule div_le_mono)
    finally show ?thesis using 3 lt by (simp add: exact_target_def)
  qed
qed

lemma unat_frac: "unat (of_int (e - e div 65536 * 65536) :: u16) = nat (e mod 65536)"
proof -
  define z where "z = e mod 65536"
  have m: "e - e div 65536 * 65536 = z" by (simp only: z_def minus_div_mult_eq_mod)
  have z: "0 \<le> z" "z < 65536" by (simp_all only: z_def pos_mod_sign pos_mod_bound)
  then show ?thesis unfolding m z_def [symmetric] by (simp add: unat_eq_nat_uint uint_word_of_int_eq take_bit_eq_mod)
qed

lemma exponent_factor_bounds: "65536 \<le> exponent_factor e h act" "exponent_factor e h act < 2 ^ 17"
  unfolding exponent_factor_def using factor_at_height_bounds by blast+

lemma exponent_factor_mono:
  assumes "e \<le> e'" "e div 65536 = e' div 65536"
  shows "exponent_factor e h act \<le> exponent_factor e' h act"
proof -
  have "e mod 65536 \<le> e' mod 65536"
    using assms minus_div_mult_eq_mod [of e 65536] minus_div_mult_eq_mod [of e' 65536]
    by (metis diff_right_mono)
  then show ?thesis unfolding exponent_factor_def by (intro factor_mono) (simp only: unat_frac nat_mono)
qed

lemma capped_mono:
  fixes x y g :: nat
  assumes "P \<Longrightarrow> Q" "x \<le> y"
  shows "(if P then g else min g (max 1 x)) \<le> (if Q then g else min g (max 1 y))"
  using assms by (auto simp: min_def max_def)

lemma target_mono:
  assumes "length a = 32" "0 < digits_nat a" "e \<le> e'"
  shows "digits_nat (target_from_exponent a h act e) \<le> digits_nat (target_from_exponent a h act e')"
proof -
  have d: "e div 65536 \<le> e' div 65536" using assms(3) by (rule zdiv_mono1) simp
  show ?thesis
    unfolding target_from_exponent_value(1) [OF assms(1,2)]
  proof (rule capped_mono)
    show "46 \<le> e' div 65536 - 16" if "46 \<le> e div 65536 - 16" using that d by linarith
    show "exact_target (digits_nat a) (exponent_factor e h act) (e div 65536 - 16)
      \<le> exact_target (digits_nat a) (exponent_factor e' h act) (e' div 65536 - 16)"
    proof (rule exact_target_mono)
      show "e div 65536 - 16 \<le> e' div 65536 - 16" using d by simp
      show "exponent_factor e h act \<le> exponent_factor e' h act" if "e div 65536 - 16 = e' div 65536 - 16"
        using that by (intro exponent_factor_mono assms(3)) linarith
    qed (rule exponent_factor_bounds)+
  qed
qed

lemma factor_zero: "fractional_factor_at_height 0 h act = 65536"
proof -
  have p: "push_bit 47 (1 :: u128) = 140737488355328" by simp
  have "drop_bit 48 (140737488355328 :: u128) = 0" by (simp only: word_unat_eq_iff unat_drop_bit) simp
  then show ?thesis
    unfolding fractional_factor_at_height_def bch_fractional_factor_def legacy_fractional_factor_def Let_def p
    by (simp only: unsigned_0 mult_zero_left mult_zero_right div_0 add_0_left add_0_right if_cancel)
qed

lemma capped_range:
  fixes x g :: nat assumes "1 \<le> g"
  shows "1 \<le> (if P then g else min g (max 1 x))" "(if P then g else min g (max 1 x)) \<le> g"
  using assms by (cases P; simp)+

lemma target_range:
  assumes "length a = 32" "0 < digits_nat a"
  shows "1 \<le> digits_nat (target_from_exponent a h act e)" "digits_nat (target_from_exponent a h act e) \<le> 2 ^ 238"
  unfolding target_from_exponent_value(1) [OF assms] by (rule capped_range, simp)+

lemma capped_id: "1 \<le> x \<Longrightarrow> x \<le> g \<Longrightarrow> min g (max 1 x) = x" for x g :: nat
  by simp

lemma exact_target_unit: "exact_target a 65536 (- 16) = a"
proof -
  have "nat (- (- 16 :: int)) = 16" by simp
  moreover have "(2 :: nat) ^ 16 = 65536" by simp
  ultimately show ?thesis by (simp only: exact_target_def) simp
qed

lemma exponent_factor_zero: "exponent_factor 0 h act = 65536"
proof -
  have "(of_int (0 - 0 div 65536 * 65536) :: u16) = 0" by simp
  moreover have "unat (65536 :: u64) = 65536" by simp
  ultimately show ?thesis unfolding exponent_factor_def by (simp only: factor_zero)
qed

lemma target_at_zero:
  assumes "length a = 32" "0 < digits_nat a" "digits_nat a \<le> 2 ^ 238"
  shows "target_from_exponent a h act 0 = a"
proof -
  have z: "0 div (65536 :: int) - 16 = - 16" "\<not> 46 \<le> (- 16 :: int)" by simp_all
  have p: "1 \<le> digits_nat a" using assms(2) by linarith
  have "digits_nat (target_from_exponent a h act 0) = digits_nat a"
    unfolding target_from_exponent_value(1) [OF assms(1,2)] exponent_factor_zero z(1) if_not_P [OF z(2)] exact_target_unit
    by (rule capped_id [OF p assms(3)])
  moreover have "length (target_from_exponent a h act 0) = length a"
    unfolding target_from_exponent_value(2) [OF assms(1,2)] assms(1) by (rule refl)
  ultimately show ?thesis by (rule digits_inj [THEN iffD1, rotated])
qed

lemma sdiv_mono:
  fixes x y d :: int
  assumes "0 < d" "x \<le> y"
  shows "x sdiv d \<le> y sdiv d"
proof -
  consider "0 \<le> x" | "x < 0" "0 \<le> y" | "y < 0" using assms by linarith
  then show ?thesis
  proof cases
    case 1
    then show ?thesis using assms zdiv_mono1 [of x y d] by (auto simp: signed_divide_int_def sgn_if pos_imp_zdiv_nonneg_iff)
  next
    case 2
    have "0 \<le> \<bar>x\<bar> div d" "0 \<le> y div d" using 2 assms by (simp_all add: pos_imp_zdiv_nonneg_iff)
    then show ?thesis using 2 assms by (simp add: signed_divide_int_def sgn_if)
  next
    case 3
    then have "\<bar>y\<bar> div d \<le> \<bar>x\<bar> div d" using assms by (intro zdiv_mono1) simp_all
    then show ?thesis using 3 assms by (simp add: signed_divide_int_def sgn_if)
  qed
qed

lemma clamp_int_mono: "lo \<le> hi \<Longrightarrow> x \<le> y \<Longrightarrow> clamp_int lo hi x \<le> clamp_int lo hi y"
  by (auto simp: clamp_int_def)

lemma int_ranges: "I64_MIN \<le> I64_MAX" "I128_MIN \<le> I128_MAX"
  by (simp_all add: I64_MIN_def I64_MAX_def I128_MIN_def I128_MAX_def)

lemma elapsed_mono:
  fixes s t a :: u64
  assumes "s \<le> t"
  shows "uint (min (saturating_sub s a) m) \<le> uint (min (saturating_sub t a) m)"
proof -
  have "saturating_sub s a \<le> saturating_sub t a"
    using assms by (simp add: word_le_nat_alt unat_saturating_sub)
  then have "min (saturating_sub s a) m \<le> min (saturating_sub t a) m" by (rule min.mono) simp
  then show ?thesis by (simp add: word_le_def)
qed

lemma as_i64_nonneg: "uint w \<le> 0x7FFFFFFFFFFFFFFF \<Longrightarrow> as_i64 w = uint w"
proof -
  assume "uint w \<le> 0x7FFFFFFFFFFFFFFF"
  then have "uint w < 2 ^ 63" by simp
  moreover have "- (2 ^ 63) \<le> uint w" by (rule order_trans [of _ 0]) simp_all
  ultimately have "signed_take_bit 63 (uint w) = uint w" by (intro signed_take_bit_int_eq_self)
  then show ?thesis by (simp add: as_i64_def sint_uint)
qed

lemma as_i64_small: "as_i64 (min x (of_int I64_MAX)) = uint (min x (of_int I64_MAX))"
proof (rule as_i64_nonneg)
  have m: "(of_int I64_MAX :: u64) = 0x7FFFFFFFFFFFFFFF" by (simp add: I64_MAX_def)
  have "min x (0x7FFFFFFFFFFFFFFF :: u64) \<le> 0x7FFFFFFFFFFFFFFF" by simp
  then show "uint (min x (of_int I64_MAX)) \<le> 0x7FFFFFFFFFFFFFFF" unfolding m by (simp add: word_le_def)
qed

lemma target_with_activation_mono:
  assumes "length a = 32" "0 < digits_nat a" "ts \<le> ts'"
  shows "digits_nat (next_target_with_activation ah ats a h ts act) \<le> digits_nat (next_target_with_activation ah ats a h ts' act)"
  unfolding next_target_with_activation_def Let_def as_i64_small
proof (intro target_mono [OF assms(1,2)] clamp_int_mono int_ranges sdiv_mono mult_right_mono diff_right_mono elapsed_mono assms(3))
  show "0 < uint HALFLIFE" by (simp add: economic_constants)
qed simp

lemma halflife_pos:
  assumes "schedule_wf sch" "v2_at sch h = Some at"
  shows "0 < uint EPOCH_LENGTH * uint (at_block_time at)"
proof -
  have "at_block_time at \<noteq> 0" using assms by (simp add: schedule_wf_def v2_at_eq_Some)
  then have "0 < uint (at_block_time at)" by (simp add: unsigned_eq_0_iff order_less_le)
  then show ?thesis by (simp add: economic_constants)
qed

lemma target_with_schedule_mono:
  assumes "length a = 32" "0 < digits_nat a" "schedule_wf sch" "pts \<le> pts'" "ts \<le> ts'"
  shows "digits_nat (next_target_with_schedule ah ats a h pts ts sch)
    \<le> digits_nat (next_target_with_schedule ah ats a h pts' ts' sch)"
proof (cases "v2_at sch h")
  case None
  then show ?thesis
    using target_with_activation_mono [OF assms(1,2,5)] by (simp add: next_target_with_schedule_def)
next
  case (Some at)
  show ?thesis unfolding next_target_with_schedule_def Let_def Some option.case
    by (intro target_mono [OF assms(1,2)] clamp_int_mono int_ranges sdiv_mono mult_right_mono diff_right_mono elapsed_mono assms(4)
        halflife_pos [OF assms(3) Some]) simp
qed

lemma target_with_schedule_range:
  assumes "length a = 32" "0 < digits_nat a"
  shows "1 \<le> digits_nat (next_target_with_schedule ah ats a h pts ts sch)"
    "digits_nat (next_target_with_schedule ah ats a h pts ts sch) \<le> 2 ^ 238"
  using target_range [OF assms]
  by (cases "v2_at sch h"; simp add: next_target_with_schedule_def next_target_with_activation_def Let_def del: One_nat_def)+

lemma on_time_exponent:
  fixes x :: u64 and y :: u128
  assumes "unat x = unat y" "unat x < 2 ^ 63"
  shows "uint (min x (of_int I64_MAX)) = uint (min y (of_int I128_MAX))"
proof -
  have "min x (of_int I64_MAX) = x"
    using assms by (intro min.absorb1) (simp add: word_le_nat_alt I64_MAX_def)
  moreover have "min y (of_int I128_MAX) = y"
    using assms by (intro min.absorb1) (simp add: word_le_nat_alt I128_MAX_def)
  ultimately show ?thesis by (simp only: uint_nat assms(1))
qed

lemma exponent_factor_aligned: "exponent_factor (k * 65536) h act = 65536"
proof -
  have "k * 65536 - k * 65536 div 65536 * 65536 = 0" by simp
  then have "(of_int (k * 65536 - k * 65536 div 65536 * 65536) :: u16) = 0" by (simp only: of_int_0)
  then show ?thesis unfolding exponent_factor_def by (simp only: factor_zero) simp
qed

lemma exact_target_cap:
  assumes "a \<le> 2 ^ i" "f < 2 ^ j"
  shows "exact_target a f (int k) < 2 ^ (i + j + k)"
proof -
  have "a * f \<le> 2 ^ i * f" using assms(1) by simp
  also have "\<dots> < 2 ^ i * 2 ^ j" using assms(2) by simp
  finally show ?thesis by (simp add: exact_target_def power_add)
qed

lemma chain_work_digits:
  assumes "length w = 32" "length t = 32" "0 < digits_nat t"
  shows "digits_nat (add_work w (block_work t)) = min (digits_nat w + (2 ^ 256 + digits_nat t - 1) div digits_nat t) (2 ^ 256 - 1)"
proof -
  have m: "(0 :: nat) < 2 ^ 256" by simp
  have nz: "(digits_nat t = 0) = False" using assms(3) by simp
  have cap: "min (x + min c g) g = min (x + c) g" for x c g :: nat by simp
  show ?thesis
    unfolding add_work_digits(1) [OF assms(1) block_work_digits(2) [OF assms(2)]] block_work_digits(1) [OF assms(2)]
      nz if_False ceil_quotient [OF m assms(3)] cap by (rule refl)
qed


section \<open>Properties\<close>

text \<open>C14: The limb arithmetic of the difficulty adjustment computes the exact adjusted target. For a 32-byte anchor target
  \<open>A > 0\<close> and any exponent in sixteenth-bit fixed point, the returned bytes are the number
  \<open>A * factor * 2 ^ (shifts - 16)\<close>, rounded down, clamped to the interval from the minimum target 1 to the genesis target
  \<open>2 ^ 238\<close>; no carry of the 64-bit multiplication or of the 320-bit shifts is lost. From a net left shift of 46 on, the
  result is the genesis target.\<close>

theorem asert_target_exact:
  assumes "length anchor_target = 32" "0 < digits_nat anchor_target"
  shows "digits_nat (target_from_exponent anchor_target height activation exponent) =
      (let shifts = exponent div 65536
       in if 46 \<le> shifts - 16 then digits_nat GENESIS_TARGET
          else min (digits_nat GENESIS_TARGET)
            (max (digits_nat MIN_TARGET)
              (exact_target (digits_nat anchor_target) (exponent_factor exponent height activation) (shifts - 16))))"
  unfolding target_from_exponent_value(1) [OF assms] Let_def target_digits ..

theorem asert_target_exact_witness:
  "digits_nat (target_from_exponent GENESIS_TARGET 5 (Some 5) 0) = 2 ^ 238"
proof -
  have "length GENESIS_TARGET = 32" "0 < digits_nat GENESIS_TARGET" by (simp_all add: target_digits)
  from asert_target_exact [OF this, of 5 "Some 5" 0] have
    "digits_nat (target_from_exponent GENESIS_TARGET 5 (Some 5) 0) =
      min (digits_nat GENESIS_TARGET) (max (digits_nat MIN_TARGET) (exact_target (digits_nat GENESIS_TARGET) (exponent_factor 0 5 (Some 5)) (- 16)))"
    by (simp only: Let_def div_0 diff_0) simp
  then show ?thesis unfolding exponent_factor_zero exact_target_unit by (simp add: target_digits)
qed

text \<open>C29: A slower chain never gets a harder target. Under every fork schedule whose intervals are positive, raising the
  parent's timestamp or the candidate's own timestamp never lowers the next target, and every target stays between 1 and the
  genesis target.\<close>

theorem slower_chain_never_harder:
  assumes "length anchor_target = 32" "0 < digits_nat anchor_target" "schedule_wf sch"
    and "parent_timestamp \<le> parent_timestamp'" "timestamp \<le> timestamp'"
  shows "1 \<le> digits_nat (next_target_with_schedule anchor_height anchor_timestamp anchor_target height parent_timestamp timestamp sch)
    \<and> digits_nat (next_target_with_schedule anchor_height anchor_timestamp anchor_target height parent_timestamp timestamp sch)
      \<le> digits_nat (next_target_with_schedule anchor_height anchor_timestamp anchor_target height parent_timestamp' timestamp' sch)
    \<and> digits_nat (next_target_with_schedule anchor_height anchor_timestamp anchor_target height parent_timestamp' timestamp' sch)
      \<le> digits_nat GENESIS_TARGET"
  unfolding target_digits
  by (intro conjI target_with_schedule_range [OF assms(1,2)] target_with_schedule_mono [OF assms])

theorem slower_chain_never_harder_witness:
  "digits_nat (next_target_with_schedule 0 0 GENESIS_TARGET 30 580 600 ACTIVE_SCHEDULE)
    \<le> digits_nat (next_target_with_schedule 0 0 GENESIS_TARGET 30 640 660 ACTIVE_SCHEDULE)"
  using slower_chain_never_harder [of GENESIS_TARGET ACTIVE_SCHEDULE 580 640 600 660 0 0 30] active_schedule_ok
  by (simp add: target_digits)

text \<open>A chain that is on time keeps its target. From the v2 height on, if the parent's timestamp is exactly the sum of the
  scheduled intervals after the anchor, the next target is the anchor target, for every timestamp of the candidate.\<close>

theorem on_time_target_unchanged:
  assumes "v2_at sch height = Some at"
    and "length anchor_target = 32" "0 < digits_nat anchor_target" "digits_nat anchor_target \<le> digits_nat GENESIS_TARGET"
    and "anchor_timestamp \<le> parent_timestamp"
    and "unat (parent_timestamp - anchor_timestamp) = unat (ideal_elapsed sch anchor_height (height - 1))"
    and "unat (parent_timestamp - anchor_timestamp) < 2 ^ 63"
  shows "next_target_with_schedule anchor_height anchor_timestamp anchor_target height parent_timestamp timestamp sch = anchor_target"
proof -
  have s: "saturating_sub parent_timestamp anchor_timestamp = parent_timestamp - anchor_timestamp"
    using assms(5) by (simp add: saturating_sub_def)
  have z: "clamp_int I64_MIN I64_MAX (clamp_int I128_MIN I128_MAX (clamp_int I128_MIN I128_MAX 0 * 65536) sdiv d) = 0" for d
    by (simp add: clamp_int_def I64_MIN_def I64_MAX_def I128_MIN_def I128_MAX_def)
  show ?thesis
    unfolding next_target_with_schedule_def assms(1) option.case Let_def s on_time_exponent [OF assms(6,7)] diff_self z
    using assms(4) unfolding target_digits by (rule target_at_zero [OF assms(2,3)])
qed

theorem on_time_target_unchanged_witness:
  "next_target_with_schedule 8 100 MIN_TARGET 12 180 999
     \<lparr>fs_v1_1 = Some 5, fs_v2 = Some \<lparr>at_height = 10, at_block_time = 30\<rparr>\<rparr> = MIN_TARGET"
  by (rule on_time_target_unchanged [of _ _ "\<lparr>at_height = 10, at_block_time = 30\<rparr>"])
    (simp_all add: v2_at_def target_digits ideal_elapsed_def saturating_sub_def widen_def BLOCK_TIME_def)

text \<open>C30: Accumulated work is the saturating sum of expected trial counts. Adding the block work of a non-zero target \<open>T\<close>
  to a chain's work adds the rounded-up quotient \<open>2 ^ 256 / T\<close>, stopping at \<open>2 ^ 256 - 1\<close>, although the code divides by
  bitwise long division over bytes; hence one more block makes a chain strictly heavier until the sum saturates.\<close>

theorem chain_work_exact:
  assumes "length w = 32" "length t = 32" "0 < digits_nat t"
  shows "digits_nat (add_work w (block_work t)) = min (digits_nat w + (2 ^ 256 + digits_nat t - 1) div digits_nat t) (2 ^ 256 - 1)
    \<and> (work_gt (add_work w (block_work t)) w \<longleftrightarrow> w \<noteq> replicate 32 0xFF)"
proof
  show e: "digits_nat (add_work w (block_work t)) = min (digits_nat w + (2 ^ 256 + digits_nat t - 1) div digits_nat t) (2 ^ 256 - 1)"
    by (rule chain_work_digits [OF assms])
  have l: "length (add_work w (block_work t)) = length w"
    unfolding add_work_digits(2) [OF assms(1) block_work_digits(2) [OF assms(2)]] assms(1) ..
  have "0 < (2 ^ 256 + digits_nat t - 1) div digits_nat t"
    using assms(3) by (simp only: div_greater_zero_iff) simp
  moreover have "digits_nat w \<le> 2 ^ 256 - 1"
    using digits_bound [of w] unfolding assms(1) by simp
  moreover have top: "digits_nat (replicate 32 (0xFF :: u8)) = 2 ^ 256 - 1" unfolding byte_max digits_max by simp
  moreover have "w = replicate 32 0xFF \<longleftrightarrow> digits_nat w = 2 ^ 256 - 1"
    using digits_inj [of w "replicate 32 0xFF"] assms(1) unfolding top by simp
  ultimately show "work_gt (add_work w (block_work t)) w \<longleftrightarrow> w \<noteq> replicate 32 0xFF"
    unfolding work_gt_def le256_lt_digits [OF l [symmetric]] e by auto
qed

theorem chain_work_exact_witness:
  "digits_nat (add_work MIN_TARGET (block_work GENESIS_TARGET)) = 2 ^ 18 + 1"
proof -
  have "(0 :: nat) < 2 ^ 238" by simp
  then show ?thesis
    using chain_work_exact [of MIN_TARGET GENESIS_TARGET] by (simp add: target_digits)
qed

text \<open>C31: The adjustment is discontinuous at a net left shift of 46. For an anchor target of at most \<open>2 ^ 150\<close>, one unit
  of exponent below that shift still gives a target under \<open>2 ^ 212\<close>, while at that shift the code returns the genesis target
  \<open>2 ^ 238\<close>, although the exact product is at most \<open>2 ^ 212\<close>: the shift does not push every bit out of the 256-bit word.\<close>

theorem extreme_shift_jumps_to_genesis:
  assumes "length anchor_target = 32" "0 < digits_nat anchor_target" "digits_nat anchor_target \<le> 2 ^ 150"
  shows "digits_nat (target_from_exponent anchor_target height activation (62 * 65536 - 1)) < 2 ^ 212
    \<and> exact_target (digits_nat anchor_target) (exponent_factor (62 * 65536) height activation) 46 \<le> 2 ^ 212
    \<and> target_from_exponent anchor_target height activation (62 * 65536) = GENESIS_TARGET"
proof (intro conjI)
  have d: "(62 * 65536 - 1) div (65536 :: int) - 16 = 45" "(62 * 65536) div (65536 :: int) - 16 = 46" by simp_all
  show "target_from_exponent anchor_target height activation (62 * 65536) = GENESIS_TARGET"
    by (rule digits_inj [THEN iffD1])
      (simp_all only: target_from_exponent_value [OF assms(1,2)] d target_digits if_True order_refl)
  have f: "exponent_factor (62 * 65536 - 1) height activation \<le> 2 ^ 17" "exponent_factor (62 * 65536) height activation = 65536"
    by (rule less_imp_le [OF exponent_factor_bounds(2)], rule exponent_factor_aligned)
  show "digits_nat (target_from_exponent anchor_target height activation (62 * 65536 - 1)) < 2 ^ 212"
  proof -
    have "exact_target (digits_nat anchor_target) (exponent_factor (62 * 65536 - 1) height activation) 45 < 2 ^ 212"
      using exact_target_cap [OF assms(3) exponent_factor_bounds(2), of "62 * 65536 - 1" height activation 45] by simp
    then show ?thesis unfolding target_from_exponent_value(1) [OF assms(1,2)] d by simp
  qed
  show "exact_target (digits_nat anchor_target) (exponent_factor (62 * 65536) height activation) 46 \<le> 2 ^ 212"
    using assms(3) unfolding f by (simp add: exact_target_def)
qed

theorem extreme_shift_jumps_to_genesis_witness:
  "target_from_exponent MIN_TARGET 5 (Some 5) (62 * 65536) = GENESIS_TARGET
    \<and> digits_nat (target_from_exponent MIN_TARGET 5 (Some 5) (62 * 65536 - 1)) < 2 ^ 212"
proof -
  have "length MIN_TARGET = 32" "0 < digits_nat MIN_TARGET" "digits_nat MIN_TARGET \<le> 2 ^ 150" by (simp_all add: target_digits)
  from extreme_shift_jumps_to_genesis [OF this, of 5 "Some 5"] show ?thesis by blast
qed

end
