(* ===== verification/HeaderChain.thy ===== *)
theory HeaderChain
imports Difficulty
begin

section \<open>Block headers, proof of work and header chains\<close>

text \<open>
  The canonical header and its three digests (\<open>noid_chain/src/block_header.rs\<close>, \<open>consensus/pow.rs\<close>), the timestamp
  rules (\<open>consensus/timestamps.rs\<close>), the header rules and the difficulty anchor (\<open>consensus/header.rs\<close>), the transaction
  epoch anchor (\<open>consensus/epoch_anchor.rs\<close>), fork choice (\<open>consensus/fork_choice.rs\<close>), and the bounded-window validation
  of a header extension (\<open>noid_node/src/snapshot_header_staging.rs\<close>).

  A difficulty target is the list of its 32 little-endian bytes, as in theory \<open>Difficulty\<close>; every other digest is a
  256-bit word whose low half holds the first sixteen bytes. The packed multi-nonce hasher of the proof-of-work search and the
  header store are arguments of the definitions that call them, and so is the boundary of an extension, which
  \<open>CanonicalHeaderBoundary::load\<close> reads from the store; that read is not modelled. Heights are added with the wrap-around of a release build.

  The reference notion is the inductive set of chains in which each header passes the timeless rules with its whole ancestry as
  context; the theorems show that the 36-header window of the node decides exactly that relation, and what every chain in it
  satisfies.
\<close>

subsection \<open>Errors\<close>

datatype consensus_error =
    InvalidPoW
  | BadParentHash
  | BadHeight
  | BadDifficultyTarget
  | BadTimestamp
  | TooManyTxs
  | BlockResourceLimitExceeded string nat nat
  | BadTxRoot
  | SlotConflict
  | InvalidPagedSpend string
  | BadEpochAnchor
  | InvalidLogicProof nat
  | MissingCoinbase
  | MultipleCoinbase
  | CoinbaseNotFirst
  | BadCoinbaseOwner
  | InflatedCoinbase
  | BadCoinbaseAnchor
  | MissingDevelopmentPayout
  | UnexpectedDevelopmentPayout
  | BadDevelopmentPayout
  | BadHistoryStepTerminal string
  | BelowMinFee u64 u64
  | BadLogSlotsExpansion
  | BadStateRoot
  | ShapeMismatch public_logic_error

subsection \<open>The header and its digests\<close>

record block_header =
  bh_prev_block_hash :: digest
  bh_state_root :: digest
  bh_tx_root :: digest
  bh_timestamp :: u64
  bh_height :: u64
  bh_miner_address :: address
  bh_nonce :: u128
  bh_difficulty_target :: bytes
  bh_log_slots :: u32
  bh_active_slot_count :: u64
  bh_alloc_counter :: u64

definition TAG_BLOCKHDR :: domain_tag where "TAG_BLOCKHDR = ascii ''BLOCKHDR''"
definition TAG_POWHDR :: domain_tag where "TAG_POWHDR = ascii ''POWHDR__''"
definition TAG_SEMHDR :: domain_tag where "TAG_SEMHDR = ascii ''SEMHDR__''"

definition absorb_digest :: "permutation \<Rightarrow> digest \<Rightarrow> sponge \<Rightarrow> sponge" where
  "absorb_digest perm d s = absorb_pair perm (lo_half d) (hi_half d) s"

definition hash_block_header :: "permutation \<Rightarrow> block_header \<Rightarrow> digest" where
  "hash_block_header perm hdr =
     (let s = with_iv (capacity_iv TAG_BLOCKHDR);
          s = absorb_digest perm (bh_prev_block_hash hdr) s;
          s = absorb_digest perm (bh_state_root hdr) s;
          s = absorb_digest perm (bh_tx_root hdr) s;
          s = absorb perm (widen (bh_timestamp hdr)) s;
          s = absorb perm (widen (bh_height hdr)) s;
          s = absorb_digest perm (bh_miner_address hdr) s;
          s = absorb perm (bh_nonce hdr) s;
          s = absorb_digest perm (of_le_bytes (bh_difficulty_target hdr)) s;
          s = absorb perm (ucast (bh_log_slots hdr)) s;
          s = absorb perm (widen (bh_active_slot_count hdr)) s;
          s = absorb perm (widen (bh_alloc_counter hdr)) s
      in finalize perm s)"

definition block_id :: "permutation \<Rightarrow> block_header \<Rightarrow> digest" where
  "block_id perm hdr = hash_block_header perm hdr"

definition semantic_header_id :: "permutation \<Rightarrow> block_header \<Rightarrow> digest" where
  "semantic_header_id perm hdr =
     (let s = with_iv (capacity_iv TAG_SEMHDR);
          s = absorb_digest perm (bh_prev_block_hash hdr) s;
          s = absorb_digest perm (bh_state_root hdr) s;
          s = absorb_digest perm (bh_tx_root hdr) s;
          s = absorb perm (widen (bh_timestamp hdr)) s;
          s = absorb perm (widen (bh_height hdr)) s;
          s = absorb_digest perm (bh_miner_address hdr) s;
          s = absorb_digest perm (of_le_bytes (bh_difficulty_target hdr)) s;
          s = absorb perm (ucast (bh_log_slots hdr)) s;
          s = absorb perm (widen (bh_active_slot_count hdr)) s;
          s = absorb perm (widen (bh_alloc_counter hdr)) s
      in finalize perm s)"

subsection \<open>Proof of work\<close>

definition POW_HEADER_FIELD_COUNT :: nat where "POW_HEADER_FIELD_COUNT = 16"
definition POW_NONCE_FIELD_INDEX :: nat where "POW_NONCE_FIELD_INDEX = 10"

definition put_digest :: "digest \<Rightarrow> block128 list" where
  "put_digest d = [lo_half d, hi_half d]"

definition pow_header_fields :: "block_header \<Rightarrow> block128 list" where
  "pow_header_fields h =
     put_digest (bh_prev_block_hash h) @ put_digest (bh_state_root h) @ put_digest (bh_tx_root h)
     @ [widen (bh_timestamp h), widen (bh_height h)] @ put_digest (bh_miner_address h) @ [bh_nonce h]
     @ put_digest (of_le_bytes (bh_difficulty_target h))
     @ [ucast (bh_log_slots h), widen (bh_active_slot_count h), widen (bh_alloc_counter h)]"

fun absorb_chunks :: "permutation \<Rightarrow> block128 list \<Rightarrow> sponge \<Rightarrow> sponge" where
  "absorb_chunks perm (a # b # rest) s = absorb_chunks perm rest (absorb_pair perm a b s)"
| "absorb_chunks perm _ s = s"

definition poseidon_pow_digest_from_fields :: "permutation \<Rightarrow> block128 list \<Rightarrow> digest" where
  "poseidon_pow_digest_from_fields perm fs = finalize_no_pad (absorb_chunks perm fs (with_iv (capacity_iv TAG_POWHDR)))"

definition poseidon_pow_digest :: "permutation \<Rightarrow> block_header \<Rightarrow> digest" where
  "poseidon_pow_digest perm header = poseidon_pow_digest_from_fields perm (pow_header_fields header)"

definition validate_pow :: "permutation \<Rightarrow> block_header \<Rightarrow> consensus_error + digest" where
  "validate_pow perm header =
     (let d = poseidon_pow_digest perm header
      in if le256_lt (le_bytes 32 d) (bh_difficulty_target header) then Inr d else Inl InvalidPoW)"

text \<open>The batch hasher maps the field schedule, a first nonce and a batch length to the digests.\<close>

type_synonym nonce_hasher = "block128 list \<Rightarrow> u128 \<Rightarrow> nat \<Rightarrow> digest list"

fun first_below :: "digest list \<Rightarrow> bytes \<Rightarrow> u128 \<Rightarrow> nat \<Rightarrow> u128 option" where
  "first_below (d # ds) target nonce_base i =
     (if le256_lt (le_bytes 32 d) target then Some (saturating_add nonce_base (of_nat i))
      else first_below ds target nonce_base (Suc i))"
| "first_below [] target nonce_base i = None"

function search_from :: "nonce_hasher \<Rightarrow> block128 list \<Rightarrow> bytes \<Rightarrow> u128 \<Rightarrow> nat \<Rightarrow> nat \<Rightarrow> u128 option" where
  "search_from hash_into fs target start_nonce span finished =
     (if finished < span then
        let batch_len = min (span - finished) 64;
            nonce_base = saturating_add start_nonce (of_nat finished)
        in case first_below (hash_into fs nonce_base batch_len) target nonce_base 0 of
             Some nonce \<Rightarrow> Some nonce
           | None \<Rightarrow> search_from hash_into fs target start_nonce span (finished + batch_len)
      else None)"
  by pat_completeness auto
termination by (relation "measure (\<lambda>(_, _, _, _, span, finished). span - finished)") auto

definition search_pow :: "nonce_hasher \<Rightarrow> block_header \<Rightarrow> u128 \<Rightarrow> u128 \<Rightarrow> u128 option" where
  "search_pow hash_into header_template start_nonce span =
     search_from hash_into (pow_header_fields header_template) (bh_difficulty_target header_template) start_nonce (unat span) 0"

subsection \<open>Timestamps\<close>

definition MAX_FUTURE_DRIFT :: u64 where "MAX_FUTURE_DRIFT = 120"
definition MEDIAN_TIME_BLOCKS :: nat where "MEDIAN_TIME_BLOCKS = 11"

definition median_time_past :: "u64 list \<Rightarrow> u64" where
  "median_time_past prev_timestamps =
     (if prev_timestamps = [] then 0
      else let cnt = min (length prev_timestamps) MEDIAN_TIME_BLOCKS;
               recent = sort (drop (length prev_timestamps - cnt) prev_timestamps)
           in recent ! (cnt div 2))"

definition median_u64 :: "u64 list \<Rightarrow> u64" where
  "median_u64 values = (if values = [] then 0 else sort values ! (length values div 2))"

definition validate_median_time_past :: "u64 \<Rightarrow> u64 list \<Rightarrow> consensus_error + unit" where
  "validate_median_time_past block_ts prev_timestamps =
     (let mtp = median_time_past prev_timestamps in if block_ts \<le> mtp then Inl BadTimestamp else Inr ())"

definition validate_future_drift :: "u64 \<Rightarrow> u64 \<Rightarrow> consensus_error + unit" where
  "validate_future_drift block_ts local_time =
     (if block_ts > saturating_add local_time MAX_FUTURE_DRIFT then Inl BadTimestamp else Inr ())"

definition validate_timestamp :: "u64 \<Rightarrow> u64 list \<Rightarrow> u64 \<Rightarrow> consensus_error + unit" where
  "validate_timestamp block_ts prev_timestamps local_time =
     rbind (validate_median_time_past block_ts prev_timestamps) (\<lambda>_. validate_future_drift block_ts local_time)"

subsection \<open>Header rules\<close>

definition validate_header_inner ::
  "permutation \<Rightarrow> block_header \<Rightarrow> block_header \<Rightarrow> digest \<Rightarrow> u64 list \<Rightarrow> u64 list \<Rightarrow> u64 option \<Rightarrow> u64 \<Rightarrow> u64 \<Rightarrow> bytes \<Rightarrow> bool
    \<Rightarrow> fork_schedule option \<Rightarrow> consensus_error + unit" where
  "validate_header_inner perm header parent expected_parent_hash prev_timestamps finalized_active_counts local_time
       anchor_height anchor_timestamp anchor_target check_pow sch =
     rbind (ensure (bh_prev_block_hash header = expected_parent_hash) BadParentHash) (\<lambda>_.
     rbind (ensure (bh_height header = bh_height parent + 1) BadHeight) (\<lambda>_.
     let expected_target =
           (case sch of
              Some s \<Rightarrow> next_target_with_schedule anchor_height anchor_timestamp anchor_target (bh_height header)
                         (bh_timestamp parent) (bh_timestamp header) s
            | None \<Rightarrow> next_target anchor_height anchor_timestamp anchor_target (bh_height header)
                         (bh_timestamp parent) (bh_timestamp header))
     in
     rbind (ensure (bh_difficulty_target header = expected_target) BadDifficultyTarget) (\<lambda>_.
     rbind (validate_median_time_past (bh_timestamp header) prev_timestamps) (\<lambda>_.
     rbind (case local_time of
              None \<Rightarrow> Inr ()
            | Some t \<Rightarrow>
                if bh_height parent = 0 \<and> t < bh_timestamp parent then Inl BadTimestamp
                else validate_future_drift (bh_timestamp header) t) (\<lambda>_.
     rbind (if check_pow then rbind (validate_pow perm header) (\<lambda>_. Inr ()) else Inr ()) (\<lambda>_.
     ensure (bh_log_slots header = expected_child_log_slots (bh_height parent) (bh_log_slots parent) finalized_active_counts)
       BadLogSlotsExpansion))))))"

definition validate_header ::
  "permutation \<Rightarrow> block_header \<Rightarrow> block_header \<Rightarrow> u64 list \<Rightarrow> u64 list \<Rightarrow> u64 \<Rightarrow> u64 \<Rightarrow> u64 \<Rightarrow> bytes \<Rightarrow> consensus_error + unit" where
  "validate_header perm header parent prev_timestamps finalized_active_counts local_time anchor_height anchor_timestamp anchor_target =
     validate_header_inner perm header parent (block_id perm parent) prev_timestamps finalized_active_counts (Some local_time)
       anchor_height anchor_timestamp anchor_target True None"

definition validate_header_template ::
  "permutation \<Rightarrow> block_header \<Rightarrow> block_header \<Rightarrow> u64 list \<Rightarrow> u64 list \<Rightarrow> u64 \<Rightarrow> u64 \<Rightarrow> u64 \<Rightarrow> bytes \<Rightarrow> consensus_error + unit" where
  "validate_header_template perm header parent prev_timestamps finalized_active_counts local_time anchor_height anchor_timestamp anchor_target =
     validate_header_inner perm header parent (block_id perm parent) prev_timestamps finalized_active_counts (Some local_time)
       anchor_height anchor_timestamp anchor_target False None"

definition validate_header_timeless ::
  "permutation \<Rightarrow> block_header \<Rightarrow> block_header \<Rightarrow> u64 list \<Rightarrow> u64 list \<Rightarrow> u64 \<Rightarrow> u64 \<Rightarrow> bytes \<Rightarrow> consensus_error + unit" where
  "validate_header_timeless perm header parent prev_timestamps finalized_active_counts anchor_height anchor_timestamp anchor_target =
     validate_header_inner perm header parent (block_id perm parent) prev_timestamps finalized_active_counts None
       anchor_height anchor_timestamp anchor_target True None"

definition validate_header_timeless_prehashed_parent ::
  "permutation \<Rightarrow> block_header \<Rightarrow> block_header \<Rightarrow> digest \<Rightarrow> u64 list \<Rightarrow> u64 list \<Rightarrow> u64 \<Rightarrow> u64 \<Rightarrow> bytes \<Rightarrow> consensus_error + unit" where
  "validate_header_timeless_prehashed_parent perm header parent parent_id prev_timestamps finalized_active_counts
       anchor_height anchor_timestamp anchor_target =
     validate_header_inner perm header parent parent_id prev_timestamps finalized_active_counts None
       anchor_height anchor_timestamp anchor_target True None"

definition validate_header_with_schedule ::
  "permutation \<Rightarrow> block_header \<Rightarrow> block_header \<Rightarrow> u64 list \<Rightarrow> u64 list \<Rightarrow> u64 option \<Rightarrow> u64 \<Rightarrow> u64 \<Rightarrow> bytes \<Rightarrow> bool \<Rightarrow> fork_schedule
    \<Rightarrow> consensus_error + unit" where
  "validate_header_with_schedule perm header parent prev_timestamps finalized_active_counts local_time
       anchor_height anchor_timestamp anchor_target check_pow sch =
     validate_header_inner perm header parent (block_id perm parent) prev_timestamps finalized_active_counts local_time
       anchor_height anchor_timestamp anchor_target check_pow (Some sch)"

definition asert_anchor_height_with_schedule :: "u64 \<Rightarrow> fork_schedule \<Rightarrow> u64" where
  "asert_anchor_height_with_schedule current_height sch =
     (let regular = current_height div EPOCH_LENGTH * EPOCH_LENGTH in
      case fs_v2 sch of
        Some at \<Rightarrow> if current_height \<ge> at_height at - 1 then max regular (at_height at - 1) else regular
      | None \<Rightarrow> regular)"

definition asert_anchor_height :: "u64 \<Rightarrow> u64" where
  "asert_anchor_height current_height = asert_anchor_height_with_schedule current_height ACTIVE_SCHEDULE"

definition is_final :: "u64 \<Rightarrow> u64 \<Rightarrow> bool" where
  "is_final block_height tip_height \<longleftrightarrow> tip_height \<ge> block_height + CONSENSUS_FINALITY_DEPTH"

subsection \<open>Transaction epoch anchors\<close>

record tx_epoch_height_decomposition =
  te_quotient :: u64
  te_remainder :: u8

definition is_boundary :: "tx_epoch_height_decomposition \<Rightarrow> bool" where
  "is_boundary d \<longleftrightarrow> te_remainder d = 0"

definition checked_tx_epoch_height_decomposition :: "u64 \<Rightarrow> tx_epoch_height_decomposition option" where
  "checked_tx_epoch_height_decomposition height =
     (if TX_EPOCH_BLOCKS = 0 then None
      else let quot = height div TX_EPOCH_BLOCKS; rem = height mod TX_EPOCH_BLOCKS in
      Option.bind (checked_mul quot TX_EPOCH_BLOCKS) (\<lambda>product.
      Option.bind (checked_add product rem) (\<lambda>recomposed.
      if recomposed \<noteq> height \<or> rem \<ge> TX_EPOCH_BLOCKS then None
      else if rem < 256 then Some \<lparr>te_quotient = quot, te_remainder = ucast rem\<rparr> else None)))"

definition tx_epoch_anchor_height_for_child :: "u64 \<Rightarrow> u64" where
  "tx_epoch_anchor_height_for_child child_height =
     (if child_height = 0 then 0 else (child_height - 1) div TX_EPOCH_BLOCKS * TX_EPOCH_BLOCKS)"

definition validate_block_epoch_anchors :: "tx_body list \<Rightarrow> digest \<Rightarrow> digest \<Rightarrow> consensus_error + unit" where
  "validate_block_epoch_anchors txs user_epoch_anchor_id parent_id =
     for_each (\<lambda>tx.
       let expected = (if tx_is_coinbase tx then parent_id else user_epoch_anchor_id)
       in if tx_epoch_anchor tx \<noteq> expected
          then Inl (if tx_is_coinbase tx then BadCoinbaseAnchor else BadEpochAnchor) else Inr ()) txs"

definition next_tx_epoch_anchor_id :: "digest \<Rightarrow> u64 \<Rightarrow> digest \<Rightarrow> digest option" where
  "next_tx_epoch_anchor_id start_anchor_id accepted_child_height accepted_child_id =
     map_option (\<lambda>d. if accepted_child_height \<noteq> 0 \<and> is_boundary d then accepted_child_id else start_anchor_id)
       (checked_tx_epoch_height_decomposition accepted_child_height)"

definition resolve_user_epoch_anchor_id :: "permutation \<Rightarrow> u64 \<Rightarrow> (u64 \<Rightarrow> block_header option) \<Rightarrow> digest option" where
  "resolve_user_epoch_anchor_id perm child_height header_at =
     map_option (block_id perm) (header_at (tx_epoch_anchor_height_for_child child_height))"

subsection \<open>Fork choice\<close>

datatype chain_choice = ChainA | ChainB | ChainEqual

text \<open>The order of byte arrays: lexicographic, byte 0 first.\<close>

fun bytes_lt :: "bytes \<Rightarrow> bytes \<Rightarrow> bool" where
  "bytes_lt (a # as) (b # bs) = (a < b \<or> a = b \<and> bytes_lt as bs)"
| "bytes_lt [] (b # bs) = True"
| "bytes_lt _ [] = False"

definition choose_chain_by_work :: "bytes \<Rightarrow> bytes \<Rightarrow> bytes \<Rightarrow> bytes \<Rightarrow> chain_choice" where
  "choose_chain_by_work chainwork_a hash_a chainwork_b hash_b =
     (if work_gt chainwork_a chainwork_b then ChainA
      else if work_gt chainwork_b chainwork_a then ChainB
      else if bytes_lt hash_a hash_b then ChainA
      else if bytes_lt hash_b hash_a then ChainB
      else ChainEqual)"

definition preserves_finalized_prefix :: "bytes option \<Rightarrow> bytes \<Rightarrow> bool" where
  "preserves_finalized_prefix candidate_hash_at_finalized_height finalized_hash \<longleftrightarrow>
     candidate_hash_at_finalized_height = Some finalized_hash"

definition reorg_allowed :: "u64 \<Rightarrow> bool" where
  "reorg_allowed n_confirmations_to_undo \<longleftrightarrow> n_confirmations_to_undo \<le> CONSENSUS_FINALITY_DEPTH"

subsection \<open>Bounded header extensions\<close>

datatype candidate_reason =
    NotContiguousHeight u64
  | AnchorOutsideWindow u64
  | ExpansionOutsideSuffix
  | ExpansionIncomplete
  | ExpansionNotContiguous
  | EmptyExtension
  | TooManyHeaders nat
  | RuleViolated consensus_error

datatype staging_error =
    Format string
  | InvalidCandidate u64 candidate_reason
  | ParentMismatch u64
  | CanonicalBaseMoved u64 string
  | CanonicalInvariant u64 string

definition canonical_source_error :: "u64 \<Rightarrow> u64 \<Rightarrow> string \<Rightarrow> staging_error" where
  "canonical_source_error height finalized_height_at_pin reason =
     (if height > finalized_height_at_pin then CanonicalBaseMoved height reason else CanonicalInvariant height reason)"

record header_boundary =
  hb_header :: block_header
  hb_block_hash :: digest
  hb_cumulative_chainwork :: bytes
  hb_finalized_height_at_pin :: u64

definition EXPANSION_HEADER_LOOKBACK :: u64 where
  "EXPANSION_HEADER_LOOKBACK = CONSENSUS_FINALITY_DEPTH + EXPANSION_WINDOW - 1"

definition MAX_STAGED_HEADER_BATCH :: nat where "MAX_STAGED_HEADER_BATCH = 4096"

definition consensus_window_len :: nat where
  "consensus_window_len =
     max (max (max (unat (saturating_add EXPANSION_HEADER_LOOKBACK 1)) MEDIAN_TIME_BLOCKS) (unat EPOCH_LENGTH)) 1"

definition push_window :: "block_header list \<Rightarrow> block_header \<Rightarrow> block_header list" where
  "push_window win header = (if length win = consensus_window_len then tl win else win) @ [header]"

definition window_count_at :: "u64 \<Rightarrow> block_header list \<Rightarrow> nat \<Rightarrow> nat \<times> u64 \<Rightarrow> staging_error + u64" where
  "window_count_at parent_height win offset = (\<lambda>(index, height).
     if offset + index < length win
     then if bh_height (win ! (offset + index)) \<noteq> height
          then Inl (InvalidCandidate (saturating_add parent_height 1) ExpansionNotContiguous)
          else Inr (bh_active_slot_count (win ! (offset + index)))
     else Inl (InvalidCandidate (saturating_add parent_height 1) ExpansionIncomplete))"

text \<open>The inclusive range of heights the code iterates over.\<close>

definition heights_through :: "u64 \<Rightarrow> u64 \<Rightarrow> u64 list" where
  "heights_through start end = map of_nat [unat start..<Suc (unat end)]"

definition finalized_active_counts_for_parent :: "u64 \<Rightarrow> block_header list \<Rightarrow> staging_error + u64 list" where
  "finalized_active_counts_for_parent parent_height win =
     (case finalized_expansion_window parent_height of
        None \<Rightarrow> Inr []
      | Some (start, end) \<Rightarrow>
          if win = [] then Inl (Format ''empty consensus window'')
          else case checked_sub start (bh_height (hd win)) of
                 None \<Rightarrow> Inl (InvalidCandidate (saturating_add parent_height 1) ExpansionOutsideSuffix)
               | Some offset \<Rightarrow> rmap (window_count_at parent_height win (unat offset)) (enumerate 0 (heights_through start end)))"

definition map_rule_error :: "u64 \<Rightarrow> consensus_error \<Rightarrow> staging_error" where
  "map_rule_error height error = (if error = BadParentHash then ParentMismatch height else InvalidCandidate height (RuleViolated error))"

definition validate_next_header :: "permutation \<Rightarrow> block_header \<Rightarrow> u64 \<Rightarrow> digest \<Rightarrow> block_header list \<Rightarrow> staging_error + unit" where
  "validate_next_header perm header expected_height parent_id win =
     rbind (ensure (bh_height header = expected_height)
              (InvalidCandidate (bh_height header) (NotContiguousHeight expected_height))) (\<lambda>_.
     rbind (ensure (win \<noteq> []) (Format ''empty consensus window'')) (\<lambda>_.
     let parent = last win;
         timestamp_start = length win - MEDIAN_TIME_BLOCKS;
         prev_timestamps = map bh_timestamp (drop timestamp_start win)
     in
     rbind (finalized_active_counts_for_parent (bh_height parent) win) (\<lambda>finalized_active_counts.
     let anchor_height = asert_anchor_height (bh_height parent) in
     rbind (ok_or (InvalidCandidate (bh_height header) (AnchorOutsideWindow anchor_height))
              (find (\<lambda>ancestor. bh_height ancestor = anchor_height) win)) (\<lambda>anchor.
     case validate_header_timeless_prehashed_parent perm header parent parent_id prev_timestamps finalized_active_counts
            anchor_height (bh_timestamp anchor) (bh_difficulty_target anchor) of
       Inl error \<Rightarrow> Inl (map_rule_error (bh_height header) error)
     | Inr _ \<Rightarrow> Inr ()))))"

record extension_state =
  ex_expected_height :: u64
  ex_previous_hash :: digest
  ex_chainwork :: bytes
  ex_window :: "block_header list"

definition extend_header :: "permutation \<Rightarrow> u64 \<Rightarrow> extension_state \<Rightarrow> block_header \<Rightarrow> staging_error + extension_state" where
  "extend_header perm local_time st header =
     rbind (validate_next_header perm header (ex_expected_height st) (ex_previous_hash st) (ex_window st)) (\<lambda>_.
     rbind (case validate_future_drift (bh_timestamp header) local_time of
              Inl error \<Rightarrow> Inl (InvalidCandidate (bh_height header) (RuleViolated error))
            | Inr _ \<Rightarrow> Inr ()) (\<lambda>_.
     let chainwork = add_work (ex_chainwork st) (block_work (bh_difficulty_target header));
         previous_hash = hash_block_header perm header;
         win = push_window (ex_window st) header
     in
     rbind (ok_or (Format ''candidate height overflow'') (checked_add (ex_expected_height st) 1)) (\<lambda>expected_height.
     Inr \<lparr>ex_expected_height = expected_height, ex_previous_hash = previous_hash, ex_chainwork = chainwork, ex_window = win\<rparr>)))"

definition validate_bounded_header_extension ::
  "permutation \<Rightarrow> (u64 \<Rightarrow> block_header option) \<Rightarrow> header_boundary \<Rightarrow> u64 \<Rightarrow> block_header list \<Rightarrow> u64 \<Rightarrow> staging_error + bytes" where
  "validate_bounded_header_extension perm get_header base ancestor_height headers local_time =
     rbind (ensure (headers \<noteq> []) (InvalidCandidate ancestor_height EmptyExtension)) (\<lambda>_.
     rbind (ensure (length headers \<le> MAX_STAGED_HEADER_BATCH)
              (InvalidCandidate (saturating_add ancestor_height 1) (TooManyHeaders (length headers)))) (\<lambda>_.
     let start = saturating_sub ancestor_height (of_nat consensus_window_len - 1) in
     rbind (rmap (\<lambda>height. ok_or (canonical_source_error height (hb_finalized_height_at_pin base)
                ''canonical consensus-window header is missing'') (get_header height))
              (heights_through start ancestor_height)) (\<lambda>win.
     rbind (ok_or (Format ''candidate height overflow'') (checked_add ancestor_height 1)) (\<lambda>expected_height.
     rbind (rfold (extend_header perm local_time)
              \<lparr>ex_expected_height = expected_height, ex_previous_hash = hb_block_hash base,
               ex_chainwork = hb_cumulative_chainwork base, ex_window = win\<rparr> headers) (\<lambda>st.
     Inr (ex_chainwork st))))))"

subsection \<open>Reference notions\<close>

text \<open>The context of a child whose whole ancestry is \<open>hs\<close>, oldest first.\<close>

definition chain_counts :: "block_header list \<Rightarrow> u64 list" where
  "chain_counts hs =
     (case finalized_expansion_window (bh_height (last hs)) of
        None \<Rightarrow> []
      | Some (start, end) \<Rightarrow> map (\<lambda>k. bh_active_slot_count (hs ! k)) [unat start..<Suc (unat end)])"

definition chain_anchor :: "block_header list \<Rightarrow> block_header" where
  "chain_anchor hs = hs ! unat (asert_anchor_height (bh_height (last hs)))"

definition extends_chain :: "permutation \<Rightarrow> block_header list \<Rightarrow> block_header \<Rightarrow> bool" where
  "extends_chain perm hs h \<longleftrightarrow>
     validate_header_timeless perm h (last hs) (map bh_timestamp hs) (chain_counts hs)
       (asert_anchor_height (bh_height (last hs))) (bh_timestamp (chain_anchor hs)) (bh_difficulty_target (chain_anchor hs)) = Inr ()"

definition target_ok :: "bytes \<Rightarrow> bool" where
  "target_ok t \<longleftrightarrow> length t = 32 \<and> 1 \<le> digits_nat t \<and> digits_nat t \<le> digits_nat GENESIS_TARGET"

definition genesis_ok :: "block_header \<Rightarrow> bool" where
  "genesis_ok g \<longleftrightarrow> bh_height g = 0 \<and> target_ok (bh_difficulty_target g)"

inductive header_chain :: "permutation \<Rightarrow> block_header list \<Rightarrow> bool" for perm where
  genesis: "genesis_ok g \<Longrightarrow> header_chain perm [g]"
| extend: "header_chain perm hs \<Longrightarrow> length hs < 2 ^ 64 \<Longrightarrow> extends_chain perm hs h \<Longrightarrow> header_chain perm (hs @ [h])"

definition chain_facts :: "block_header list \<Rightarrow> bool" where
  "chain_facts hs \<longleftrightarrow> hs \<noteq> [] \<and> length hs \<le> 2 ^ 64 \<and> (\<forall>k < length hs. bh_height (hs ! k) = of_nat k)
     \<and> (\<forall>h \<in> set hs. target_ok (bh_difficulty_target h))"

definition window_of :: "block_header list \<Rightarrow> block_header list" where
  "window_of hs = drop (length hs - consensus_window_len) hs"

definition target_work :: "block_header \<Rightarrow> nat" where
  "target_work h = (2 ^ 256 + digits_nat (bh_difficulty_target h) - 1) div digits_nat (bh_difficulty_target h)"

text \<open>The anchor lane after the children at heights \<open>1..n\<close> were accepted, from the genesis id.\<close>

primrec anchor_lane :: "(nat \<Rightarrow> digest) \<Rightarrow> nat \<Rightarrow> digest option" where
  "anchor_lane ids 0 = Some (ids 0)"
| "anchor_lane ids (Suc n) =
     Option.bind (anchor_lane ids n) (\<lambda>a. next_tx_epoch_anchor_id a (of_nat (Suc n)) (ids (Suc n)))"

definition extension_of :: "permutation \<Rightarrow> block_header list \<Rightarrow> bytes \<Rightarrow> extension_state" where
  "extension_of perm hs w = \<lparr>ex_expected_height = of_nat (length hs), ex_previous_hash = block_id perm (last hs),
     ex_chainwork = w, ex_window = window_of hs\<rparr>"

definition null_perm :: permutation where
  "null_perm = (\<lambda>_. (0, 0, 0, 0))"

definition sample_genesis :: block_header where
  "sample_genesis = \<lparr>bh_prev_block_hash = 0, bh_state_root = 1, bh_tx_root = 2, bh_timestamp = 1000, bh_height = 0,
     bh_miner_address = 3, bh_nonce = 0, bh_difficulty_target = GENESIS_TARGET, bh_log_slots = 24,
     bh_active_slot_count = 0, bh_alloc_counter = 0\<rparr>"

definition sample_child :: block_header where
  "sample_child = sample_genesis\<lparr>bh_timestamp := 1020, bh_height := 1\<rparr>"

section \<open>Lemmas\<close>

lemmas window_constants = consensus_window_len_def EXPANSION_HEADER_LOOKBACK_def MEDIAN_TIME_BLOCKS_def economic_constants

lemma window_len: "consensus_window_len = 36"
  by (simp add: window_constants saturating_add_def)

subsection \<open>Medians\<close>

lemma sorted_count_below:
  assumes "sorted xs" "k < length xs"
  shows "length (filter (\<lambda>x. x < xs ! k) xs) \<le> k"
proof -
  have "{i. i < length xs \<and> xs ! i < xs ! k} \<subseteq> {..<k}"
    using assms by (auto simp: not_le [symmetric] dest: sorted_nth_mono)
  then have "card {i. i < length xs \<and> xs ! i < xs ! k} \<le> card {..<k}" by (rule card_mono [rotated]) simp
  then show ?thesis by (simp add: length_filter_conv_card)
qed

lemma sorted_nth_above:
  fixes xs :: "'a::linorder list"
  assumes "sorted xs" "k < length xs" "length (filter (\<lambda>x. x < m) xs) \<le> k"
  shows "m \<le> xs ! k"
proof (rule ccontr)
  assume "\<not> m \<le> xs ! k"
  then have "{..k} \<subseteq> {i. i < length xs \<and> xs ! i < m}"
    using assms(1,2) by (auto dest: sorted_nth_mono)
  then have "card {..k} \<le> card {i. i < length xs \<and> xs ! i < m}" by (rule card_mono [rotated]) simp
  then show False using assms(3) by (simp add: length_filter_conv_card)
qed

lemma length_filter_sort: "length (filter P (sort xs)) = length (filter P xs)"
  by (simp add: filter_sort)

lemma median_step:
  fixes xs ys :: "'a::linorder list"
  assumes "k < length xs" "k \<le> l" "l < length ys"
    and "length (filter (\<lambda>x. x < sort xs ! k) ys) \<le> length (filter (\<lambda>x. x < sort xs ! k) xs)"
  shows "sort xs ! k \<le> sort ys ! l"
proof (rule sorted_nth_above)
  have "length (filter (\<lambda>x. x < sort xs ! k) xs) \<le> k"
    using sorted_count_below [of "sort xs" k] assms(1) by (simp add: length_filter_sort)
  then show "length (filter (\<lambda>x. x < sort xs ! k) (sort ys)) \<le> l"
    using assms(2,4) by (simp add: length_filter_sort)
qed (use assms(3) in simp_all)

lemma median_time_past_recent:
  "xs \<noteq> [] \<Longrightarrow> median_time_past xs = sort (drop (length xs - 11) xs) ! (min (length xs) 11 div 2)"
  by (cases "length xs \<le> 11") (simp_all add: median_time_past_def MEDIAN_TIME_BLOCKS_def Let_def)

lemma median_time_past_suffix: "11 \<le> k \<Longrightarrow> median_time_past (drop (length xs - k) xs) = median_time_past xs"
proof (cases "xs = []")
  case False
  assume "11 \<le> k"
  then have "\<not> length xs \<le> length xs - k" using False by (cases xs) auto
  then have "drop (length xs - k) xs \<noteq> []" "length (drop (length xs - k) xs) = min (length xs) k" by auto
  then show ?thesis using False \<open>11 \<le> k\<close>
    by (cases "length xs \<le> k") (simp_all add: median_time_past_recent add.commute)
qed simp

lemma median_time_past_mono:
  assumes "median_time_past xs < t"
  shows "median_time_past xs \<le> median_time_past (xs @ [t])"
proof (cases "xs = []")
  case False
  define w where "w = drop (length xs - 11) xs"
  define w' where "w' = drop (Suc (length xs) - 11) (xs @ [t])"
  have m: "median_time_past xs = sort w ! (min (length xs) 11 div 2)" "median_time_past (xs @ [t]) = sort w' ! (min (Suc (length xs)) 11 div 2)"
    using False by (simp_all add: median_time_past_recent w_def w'_def)
  have len: "length w = min (length xs) 11" "length w' = min (Suc (length xs)) 11" by (auto simp: w_def w'_def)
  have w': "w' = (if length xs < 11 then w else tl w) @ [t]"
  proof (cases "length xs < 11")
    case False
    then have "Suc (length xs) - 11 = Suc (length xs - 11)" by simp
    then show ?thesis using False by (simp add: w_def w'_def drop_Suc tl_drop)
  qed (simp add: w_def w'_def)
  have below: "length (filter P (tl w)) \<le> length (filter P w)" for P by (cases w) auto
  define v where "v = sort w ! (min (length xs) 11 div 2)"
  have "\<not> t < v" using assms by (simp add: m v_def)
  then have "length (filter (\<lambda>x. x < v) w') \<le> length (filter (\<lambda>x. x < v) w)" unfolding w' by (simp add: below)
  then show ?thesis
    unfolding m v_def by (rule median_step [rotated 3]) (use False len in \<open>auto simp: min_def\<close>)
qed (simp add: median_time_past_def)

subsection \<open>The header rules\<close>

lemma median_rule_iff: "validate_median_time_past t prev = Inr () \<longleftrightarrow> median_time_past prev < t"
  by (auto simp: validate_median_time_past_def Let_def not_le)

lemma drift_rule_iff: "validate_future_drift t local_time = Inr () \<longleftrightarrow> t \<le> saturating_add local_time MAX_FUTURE_DRIFT"
  by (auto simp: validate_future_drift_def not_less)

lemma pow_rule_iff: "validate_pow perm h = Inr d \<longleftrightarrow>
    d = poseidon_pow_digest perm h \<and> le256_lt (le_bytes 32 (poseidon_pow_digest perm h)) (bh_difficulty_target h)"
  by (auto simp: validate_pow_def Let_def)

lemma timeless_rules_iff:
  "validate_header_timeless_prehashed_parent perm h p parent_id ts cs ah ats at = Inr () \<longleftrightarrow>
     bh_prev_block_hash h = parent_id \<and> bh_height h = bh_height p + 1
     \<and> bh_difficulty_target h = next_target ah ats at (bh_height h) (bh_timestamp p) (bh_timestamp h)
     \<and> median_time_past ts < bh_timestamp h
     \<and> le256_lt (le_bytes 32 (poseidon_pow_digest perm h)) (bh_difficulty_target h)
     \<and> bh_log_slots h = expected_child_log_slots (bh_height p) (bh_log_slots p) cs"
  unfolding validate_header_timeless_prehashed_parent_def validate_header_inner_def
  by (simp add: result_simps rbind_ensure median_rule_iff pow_rule_iff Let_def)

lemma timeless_prehashed:
  "validate_header_timeless perm h p ts cs ah ats at = validate_header_timeless_prehashed_parent perm h p (block_id perm p) ts cs ah ats at"
  by (simp add: validate_header_timeless_def validate_header_timeless_prehashed_parent_def)

lemmas extends_iff = extends_chain_def timeless_prehashed timeless_rules_iff

subsection \<open>The difficulty anchor\<close>

lemma anchor_height_near:
  assumes "schedule_wf sch"
  shows "unat (asert_anchor_height_with_schedule H sch) \<le> unat H" "unat H < unat (asert_anchor_height_with_schedule H sch) + 6"
proof -
  define r where "r = H div EPOCH_LENGTH * EPOCH_LENGTH"
  have "unat H div 6 * 6 \<le> unat H" by simp
  then have "unat H div 6 * 6 < 2 ^ 64" using unat_u64_bound [of H] by simp
  then have r: "unat r = unat H div 6 * 6"
    by (simp add: r_def economic_constants unat_mul_exact unat_div_distrib)
  have near: "unat r \<le> unat H" "unat H < unat r + 6" unfolding r by presburger+
  have "unat (asert_anchor_height_with_schedule H sch) \<in> {unat r..unat H}"
    using near by (auto simp: asert_anchor_height_with_schedule_def Let_def r_def [symmetric] word_le_nat_alt max_def split: option.splits)
  then show "unat (asert_anchor_height_with_schedule H sch) \<le> unat H" "unat H < unat (asert_anchor_height_with_schedule H sch) + 6"
    using near by auto
qed

lemmas active_anchor_near = anchor_height_near [OF active_schedule_ok(1), folded asert_anchor_height_def]

subsection \<open>Chains\<close>

lemma last_height:
  assumes "hs \<noteq> []" "\<forall>k < length hs. bh_height (hs ! k) = of_nat k" "length hs \<le> 2 ^ 64"
  shows "bh_height (last hs) = of_nat (length hs - 1)" "unat (bh_height (last hs)) = length hs - 1"
proof -
  show "bh_height (last hs) = of_nat (length hs - 1)" using assms by (simp add: last_conv_nth)
  then show "unat (bh_height (last hs)) = length hs - 1"
    using assms by (cases hs) (simp_all add: unat_of_nat_u64 del: of_nat_Suc)
qed

lemma target_with_schedule_length:
  assumes "length a = 32" "0 < digits_nat a"
  shows "length (next_target_with_schedule ah ats a h pts ts sch) = 32"
  by (cases "v2_at sch h")
    (simp_all add: next_target_with_schedule_def next_target_with_activation_def Let_def target_from_exponent_value(2) [OF assms])

lemma next_target_ok: "target_ok a \<Longrightarrow> target_ok (next_target ah ats a h pts ts)"
  unfolding target_ok_def next_target_def target_digits
  by (intro conjI target_with_schedule_range target_with_schedule_length) simp_all

lemma chain_anchor_mem:
  assumes "chain_facts hs"
  shows "unat (asert_anchor_height (bh_height (last hs))) < length hs" "chain_anchor hs \<in> set hs"
proof -
  have "unat (bh_height (last hs)) = length hs - 1" "0 < length hs" using assms last_height by (auto simp: chain_facts_def)
  then show "unat (asert_anchor_height (bh_height (last hs))) < length hs"
    using active_anchor_near(1) [of "bh_height (last hs)"] by linarith
  then show "chain_anchor hs \<in> set hs" unfolding chain_anchor_def by (rule nth_mem)
qed

lemma extend_facts:
  assumes "chain_facts hs" "length hs < 2 ^ 64" "extends_chain perm hs h"
  shows "chain_facts (hs @ [h])"
proof -
  have "target_ok (bh_difficulty_target (chain_anchor hs))"
    using chain_anchor_mem(2) [OF assms(1)] assms(1) by (auto simp: chain_facts_def)
  then have t: "target_ok (bh_difficulty_target h)" and hh: "bh_height h = bh_height (last hs) + 1"
    using assms(3) by (simp_all add: extends_iff next_target_ok)
  have "bh_height h = of_nat (length hs)"
    using hh last_height(1) [of hs] assms(1) by (simp add: chain_facts_def of_nat_diff Suc_leI)
  then show ?thesis
    using assms(1,2) t by (auto simp: chain_facts_def nth_append less_Suc_eq)
qed

lemma header_chain_facts: "header_chain perm hs \<Longrightarrow> chain_facts hs"
proof (induction rule: header_chain.induct)
  case (genesis g)
  then show ?case by (simp add: genesis_ok_def chain_facts_def)
qed (rule extend_facts)

subsection \<open>The window\<close>

lemma window_nth:
  assumes "length hs - 36 \<le> k" "k < length hs"
  shows "k - (length hs - 36) < length (window_of hs)" "window_of hs ! (k - (length hs - 36)) = hs ! k"
  using assms by (simp_all add: window_of_def window_len)

lemma window_last: "hs \<noteq> [] \<Longrightarrow> window_of hs \<noteq> [] \<and> last (window_of hs) = last hs"
  by (cases hs rule: rev_cases) (auto simp: window_of_def window_len)

lemma window_push: "push_window (window_of hs) h = window_of (hs @ [h])"
proof (cases "length hs < 36")
  case False
  then have "length (hs @ [h]) - 36 = Suc (length hs - 36)" "length (window_of hs) = 36" by (simp_all add: window_of_def window_len)
  then show ?thesis using False by (simp add: push_window_def window_of_def window_len drop_Suc tl_drop)
qed (simp add: push_window_def window_of_def window_len)

lemma window_median: "median_time_past (map bh_timestamp (drop (length (window_of hs) - 11) (window_of hs))) = median_time_past (map bh_timestamp hs)"
proof -
  have "drop (length (window_of hs) - 11) (window_of hs) = drop (length hs - 11) hs"
    by (cases "length hs \<le> 36") (simp_all add: window_of_def window_len add.commute)
  then show ?thesis using median_time_past_suffix [of 11 "map bh_timestamp hs"] by (simp add: drop_map)
qed

lemma window_anchor:
  assumes "chain_facts hs"
  shows "find (\<lambda>a. bh_height a = asert_anchor_height (bh_height (last hs))) (window_of hs) = Some (chain_anchor hs)"
proof -
  define k where "k = unat (asert_anchor_height (bh_height (last hs)))"
  define d where "d = length hs - 36"
  have H: "unat (bh_height (last hs)) = length hs - 1" "0 < length hs" and small: "length hs \<le> 2 ^ 64"
    and heights: "\<forall>k < length hs. bh_height (hs ! k) = of_nat k"
    using assms last_height by (auto simp: chain_facts_def)
  have k: "k < length hs" "d \<le> k"
    using active_anchor_near [of "bh_height (last hs)"] H unfolding k_def d_def by linarith+
  have at: "bh_height (hs ! j) = asert_anchor_height (bh_height (last hs)) \<longleftrightarrow> j = k" if "j < length hs" for j
    using heights that small by (auto simp: k_def word_unat_eq_iff unat_of_nat_u64)
  show ?thesis
    unfolding find_Some_iff
  proof (intro exI conjI allI impI)
    show "k - d < length (window_of hs)" "chain_anchor hs = window_of hs ! (k - d)"
      using window_nth [of hs k] k by (simp_all add: d_def chain_anchor_def k_def [symmetric])
    show "bh_height (window_of hs ! (k - d)) = asert_anchor_height (bh_height (last hs))"
      using window_nth(2) [of hs k] k at by (simp add: d_def)
    fix j assume j: "j < k - d"
    then have "window_of hs ! j = hs ! (d + j)" "d + j < length hs" "d + j \<noteq> k"
      using k by (simp_all add: window_of_def window_len d_def)
    then show "bh_height (window_of hs ! j) \<noteq> asert_anchor_height (bh_height (last hs))" using at by simp
  qed
qed

lemma expansion_window_Some:
  "finalized_expansion_window H = Some (s, e) \<Longrightarrow> 35 \<le> unat H \<and> unat s = unat H - 35 \<and> unat e = unat H - 18"
  by (auto simp: finalized_expansion_window_def economic_constants bind_eq_Some_conv checked_sub_eq_Some)

lemma window_counts:
  assumes "chain_facts hs"
  shows "finalized_active_counts_for_parent (bh_height (last hs)) (window_of hs) = Inr (chain_counts hs)"
proof (cases "finalized_expansion_window (bh_height (last hs))")
  case None
  then show ?thesis by (simp add: finalized_active_counts_for_parent_def chain_counts_def)
next
  case (Some se)
  obtain s e where se: "se = (s, e)" by fastforce
  have H: "unat (bh_height (last hs)) = length hs - 1" "0 < length hs" and small: "length hs \<le> 2 ^ 64"
    and heights: "\<forall>k < length hs. bh_height (hs ! k) = of_nat k"
    using assms last_height by (auto simp: chain_facts_def)
  have w: "36 \<le> length hs" "unat s = length hs - 36" "unat e = length hs - 19"
    using expansion_window_Some [OF Some [unfolded se]] H by auto
  have win: "window_of hs \<noteq> []" "hd (window_of hs) = hs ! (length hs - 36)" "length (window_of hs) = 36"
    using w by (auto simp: window_of_def window_len hd_drop_conv_nth)
  have "bh_height (hd (window_of hs)) = s" using heights w small by (simp add: win(2) word_unat_eq_iff unat_of_nat_u64)
  then have off: "checked_sub s (bh_height (hd (window_of hs))) = Some 0" by (simp add: checked_sub_def)
  have "rmap (window_count_at (bh_height (last hs)) (window_of hs) 0) (enumerate 0 (heights_through s e)) =
      Inr (map (\<lambda>k. bh_active_slot_count (hs ! k)) [unat s..<Suc (unat e)])"
    unfolding rmap_eq_Inr
  proof (rule list_all2_all_nthI)
    fix i assume "i < length (enumerate 0 (heights_through s e))"
    then have i: "i < 18" "unat s + i < length hs" using w by (simp_all add: heights_through_def del: upt_Suc)
    moreover have "window_of hs ! i = hs ! (unat s + i)" using w i by (simp add: window_of_def window_len)
    moreover have "bh_height (hs ! (unat s + i)) = of_nat (unat s + i)" using heights i by blast
    ultimately show "window_count_at (bh_height (last hs)) (window_of hs) 0 (enumerate 0 (heights_through s e) ! i) =
        Inr (map (\<lambda>k. bh_active_slot_count (hs ! k)) [unat s..<Suc (unat e)] ! i)"
      using w win(3) by (simp add: window_count_at_def nth_enumerate_eq heights_through_def del: upt_Suc)
  qed (simp add: heights_through_def del: upt_Suc)
  then show ?thesis
    using Some win(1) off by (simp add: se finalized_active_counts_for_parent_def chain_counts_def)
qed

lemma windowed_next_header:
  assumes "chain_facts hs"
  shows "validate_next_header perm h (bh_height (last hs) + 1) (block_id perm (last hs)) (window_of hs) = Inr () \<longleftrightarrow> extends_chain perm hs h"
proof -
  have ne: "window_of hs \<noteq> []" "last (window_of hs) = last hs" using assms window_last by (auto simp: chain_facts_def)
  have "validate_header_timeless_prehashed_parent perm h (last hs) (block_id perm (last hs))
       (map bh_timestamp (drop (length (window_of hs) - 11) (window_of hs))) (chain_counts hs) ah ats at = Inr ()
     \<longleftrightarrow> validate_header_timeless perm h (last hs) (map bh_timestamp hs) (chain_counts hs) ah ats at = Inr ()" for ah ats at
    by (simp add: timeless_prehashed timeless_rules_iff window_median)
  moreover have "extends_chain perm hs h \<Longrightarrow> bh_height h = bh_height (last hs) + 1" by (simp add: extends_iff)
  moreover have "(case r of Inl e \<Rightarrow> Inl (f e) | Inr _ \<Rightarrow> Inr ()) = Inr () \<longleftrightarrow> r = Inr ()" for r :: "consensus_error + unit" and f :: "_ \<Rightarrow> staging_error"
    by (cases r) auto
  ultimately show ?thesis
    by (auto simp: validate_next_header_def rbind_ensure ne window_counts [OF assms] window_anchor [OF assms] Let_def
        MEDIAN_TIME_BLOCKS_def extends_chain_def)
qed

subsection \<open>Extensions\<close>

inductive_cases header_chain_snocE: "header_chain perm (hs @ [h])"

lemma header_chain_snoc:
  assumes "hs \<noteq> []"
  shows "header_chain perm (hs @ [h]) \<longleftrightarrow> header_chain perm hs \<and> length hs < 2 ^ 64 \<and> extends_chain perm hs h"
proof
  assume "header_chain perm (hs @ [h])"
  then show "header_chain perm hs \<and> length hs < 2 ^ 64 \<and> extends_chain perm hs h"
    using assms by (auto elim: header_chain_snocE)
qed (blast intro: header_chain.extend)

lemma header_chain_prefix: "header_chain perm (hs @ xs) \<Longrightarrow> hs \<noteq> [] \<Longrightarrow> header_chain perm hs"
  by (induction xs rule: rev_induct) (simp_all add: header_chain_snoc append_assoc [symmetric] del: append_assoc)

lemma next_height: "chain_facts hs \<Longrightarrow> bh_height (last hs) + 1 = of_nat (length hs)"
  using last_height(1) [of hs] by (simp add: chain_facts_def of_nat_diff Suc_leI)

lemma extend_header_iff:
  assumes "header_chain perm hs" "Suc (length hs) < 2 ^ 64"
  shows "extend_header perm local_time (extension_of perm hs w) h = Inr st \<longleftrightarrow>
    header_chain perm (hs @ [h]) \<and> bh_timestamp h \<le> saturating_add local_time MAX_FUTURE_DRIFT
    \<and> st = extension_of perm (hs @ [h]) (add_work w (block_work (bh_difficulty_target h)))"
proof -
  have f: "chain_facts hs" using assms(1) by (rule header_chain_facts)
  have ne: "hs \<noteq> []" using f by (simp add: chain_facts_def)
  have c: "checked_add (of_nat (length hs)) (1 :: u64) = Some (of_nat (length (hs @ [h])))"
    using assms(2) by (simp add: checked_add_eq_Some unat_of_nat_u64 del: of_nat_Suc)
  have d: "(case r of Inl e \<Rightarrow> Inl (g e) | Inr _ \<Rightarrow> Inr ()) = Inr () \<longleftrightarrow> r = Inr ()" for r :: "consensus_error + unit" and g :: "_ \<Rightarrow> staging_error"
    by (cases r) auto
  show ?thesis
    using assms ne windowed_next_header [OF f, of perm h] unfolding extend_header_def extension_of_def header_chain_snoc [OF ne]
    by (auto simp: rbind_eq_Inr next_height [OF f] d drift_rule_iff Let_def c window_push block_id_def)
qed

lemma extend_headers_iff:
  assumes "header_chain perm hs" "length hs + length headers < 2 ^ 64"
  shows "rfold (extend_header perm local_time) (extension_of perm hs w) headers = Inr st \<longleftrightarrow>
    header_chain perm (hs @ headers) \<and> (\<forall>h \<in> set headers. bh_timestamp h \<le> saturating_add local_time MAX_FUTURE_DRIFT)
    \<and> st = extension_of perm (hs @ headers) (foldl (\<lambda>w h. add_work w (block_work (bh_difficulty_target h))) w headers)"
  using assms
proof (induction headers arbitrary: hs w)
  case (Cons h headers)
  have ne: "hs \<noteq> []" using header_chain_facts [OF Cons.prems(1)] by (simp add: chain_facts_def)
  have pre: "header_chain perm (hs @ h # headers) \<Longrightarrow> header_chain perm (hs @ [h])"
    using header_chain_prefix [of perm "hs @ [h]" headers] by simp
  show ?case
    using Cons.prems Cons.IH [of "hs @ [h]"] pre by (auto simp: rbind_eq_Inr extend_header_iff)
qed auto

lemma chain_work_sum:
  assumes "length w = 32" "\<forall>h \<in> set headers. target_ok (bh_difficulty_target h)"
  shows "length (foldl (\<lambda>w h. add_work w (block_work (bh_difficulty_target h))) w headers) = 32
    \<and> digits_nat (foldl (\<lambda>w h. add_work w (block_work (bh_difficulty_target h))) w headers)
      = min (digits_nat w + (\<Sum>h\<leftarrow>headers. target_work h)) (2 ^ 256 - 1)"
  using assms
proof (induction headers arbitrary: w)
  case Nil
  have "digits_nat w \<le> 2 ^ 256 - 1" using digits_bound [of w] Nil by simp
  then show ?case using Nil by simp
next
  case (Cons h headers)
  have t: "length (bh_difficulty_target h) = 32" "0 < digits_nat (bh_difficulty_target h)"
    using Cons.prems by (auto simp: target_ok_def)
  define w' where "w' = add_work w (block_work (bh_difficulty_target h))"
  have l: "length w' = 32" unfolding w'_def by (rule add_work_digits(2) [OF Cons.prems(1) block_work_digits(2) [OF t(1)]])
  have v: "digits_nat w' = min (digits_nat w + target_work h) (2 ^ 256 - 1)"
    unfolding w'_def target_work_def by (rule chain_work_digits [OF Cons.prems(1) t])
  have cap: "min (min (x + y) m + z) m = min (x + (y + z)) m" for x y z m :: nat by simp
  show ?case
    using Cons.IH [OF l] Cons.prems(2) v by (simp add: w'_def [symmetric] cap del: power_numeral)
qed

subsection \<open>Epoch anchors\<close>

lemma epoch_decomposition:
  "checked_tx_epoch_height_decomposition h = Some \<lparr>te_quotient = h div 144, te_remainder = ucast (h mod 144)\<rparr>"
proof -
  have m: "h mod 144 < 144" by (simp add: word_less_nat_alt unat_mod_distrib)
  then have "h mod 144 < 256" by (rule order_less_trans) simp
  moreover have "checked_mul (h div 144) 144 = Some (h div 144 * 144)"
    using unat_u64_bound [of h] by (simp add: checked_mul_eq_Some unat_div_distrib unat_word_ariths)
  moreover have "checked_add (h div 144 * 144) (h mod 144) = Some h"
    using unat_u64_bound [of h] by (simp add: checked_add_eq_Some unat_div_distrib unat_mod_distrib unat_word_ariths)
  ultimately show ?thesis using m by (simp add: checked_tx_epoch_height_decomposition_def TX_EPOCH_BLOCKS_def Let_def)
qed

lemma epoch_boundary: "is_boundary \<lparr>te_quotient = q, te_remainder = ucast (h mod 144)\<rparr> \<longleftrightarrow> unat (h :: u64) mod 144 = 0"
proof -
  have "unat (ucast (h mod 144) :: u8) = unat h mod 144"
    by (simp add: unat_ucast_mod unat_mod_distrib)
  then show ?thesis by (simp add: is_boundary_def unat_eq_0 [symmetric])
qed

lemma anchor_lane_eq: "n < 2 ^ 64 \<Longrightarrow> anchor_lane ids n = Some (ids (n div 144 * 144))"
proof (induction n)
  case (Suc n)
  define u where "u = (of_nat (Suc n) :: u64)"
  have u: "unat u = Suc n" using Suc.prems unfolding u_def by (rule unat_of_nat_u64)
  have nz: "u \<noteq> 0" using u by auto
  have IH: "anchor_lane ids n = Some (ids (n div 144 * 144))" using Suc.prems by (intro Suc.IH) linarith
  show ?case
  proof (cases "Suc n mod 144 = 0")
    case True
    then have "Suc n div 144 * 144 = Suc n" using div_mult_mod_eq [of "Suc n" 144] by (simp only: add_0_right)
    then show ?thesis using True nz u by (simp add: IH u_def [symmetric] next_tx_epoch_anchor_id_def epoch_decomposition epoch_boundary del: of_nat_Suc)
  next
    case False
    then have "Suc n div 144 = n div 144" by (auto simp only: div_Suc mod_Suc split: if_splits)
    then show ?thesis using False nz u by (simp add: IH u_def [symmetric] next_tx_epoch_anchor_id_def epoch_decomposition epoch_boundary del: of_nat_Suc)
  qed
qed simp

lemma child_anchor_height: "Suc n < 2 ^ 64 \<Longrightarrow> unat (tx_epoch_anchor_height_for_child (of_nat (Suc n))) = n div 144 * 144"
proof -
  assume n: "Suc n < 2 ^ 64"
  have nz: "(of_nat (Suc n) :: u64) \<noteq> 0" using n by (simp add: word_unat_eq_iff unat_of_nat_u64 del: of_nat_Suc)
  have p: "(of_nat (Suc n) :: u64) - 1 = of_nat n" by simp
  have "n div 144 * 144 \<le> n" by simp
  then have "n div 144 * 144 < 2 ^ 64" using n by linarith
  moreover have "unat ((of_nat n :: u64) div 144) = n div 144"
    using n unat_of_nat_u64 [of n] by (simp add: unat_div_distrib)
  moreover have "unat (144 :: u64) = 144" by simp
  ultimately have "unat ((of_nat n :: u64) div 144 * 144) = n div 144 * 144" by (subst unat_mul_exact) simp_all
  then show ?thesis
    unfolding tx_epoch_anchor_height_for_child_def TX_EPOCH_BLOCKS_def p if_not_P [OF nz] .
qed

subsection \<open>Fork choice\<close>

lemma bytes_lt_irrefl: "\<not> bytes_lt a a"
  by (induction a) auto

lemma bytes_lt_trans: "bytes_lt a b \<Longrightarrow> bytes_lt b c \<Longrightarrow> bytes_lt a c"
proof (induction a arbitrary: b c)
  case Nil
  then show ?case by (cases b; cases c) auto
next
  case (Cons x a)
  then show ?case by (cases b; cases c) auto
qed

lemma bytes_lt_total: "bytes_lt a b \<or> a = b \<or> bytes_lt b a"
proof (induction a arbitrary: b)
  case Nil
  then show ?case by (cases b) auto
next
  case (Cons x a)
  then show ?case by (cases b) auto
qed

lemma choose_iff:
  assumes "length wa = 32" "length wb = 32"
  shows "choose_chain_by_work wa ha wb hb = ChainA \<longleftrightarrow> digits_nat wb < digits_nat wa \<or> wa = wb \<and> bytes_lt ha hb"
    "choose_chain_by_work wa ha wb hb = ChainB \<longleftrightarrow> digits_nat wa < digits_nat wb \<or> wa = wb \<and> bytes_lt hb ha"
    "choose_chain_by_work wa ha wb hb = ChainEqual \<longleftrightarrow> wa = wb \<and> ha = hb"
proof -
  have l: "length wa = length wb" using assms by simp
  have g: "work_gt wa wb \<longleftrightarrow> digits_nat wb < digits_nat wa" "work_gt wb wa \<longleftrightarrow> digits_nat wa < digits_nat wb"
    using l by (simp_all add: work_gt_def le256_lt_digits)
  have e: "wa = wb \<longleftrightarrow> digits_nat wa = digits_nat wb" using digits_inj [OF l] by simp
  show "choose_chain_by_work wa ha wb hb = ChainA \<longleftrightarrow> digits_nat wb < digits_nat wa \<or> wa = wb \<and> bytes_lt ha hb"
    "choose_chain_by_work wa ha wb hb = ChainB \<longleftrightarrow> digits_nat wa < digits_nat wb \<or> wa = wb \<and> bytes_lt hb ha"
    "choose_chain_by_work wa ha wb hb = ChainEqual \<longleftrightarrow> wa = wb \<and> ha = hb"
    using bytes_lt_total [of ha hb] bytes_lt_trans [of ha hb ha] bytes_lt_irrefl [of ha]
    by (auto simp: choose_chain_by_work_def g e)
qed

subsection \<open>Nonce search\<close>

lemma find_append: "find P (xs @ ys) = (case find P xs of None \<Rightarrow> find P ys | Some x \<Rightarrow> Some x)"
  by (induction xs) auto

lemma nonce_fields: "(pow_header_fields h)[POW_NONCE_FIELD_INDEX := n] = pow_header_fields (h\<lparr>bh_nonce := n\<rparr>)"
  by (simp add: pow_header_fields_def put_digest_def POW_NONCE_FIELD_INDEX_def)

lemma first_below_find:
  "first_below (map D [k..<n]) target base k =
     map_option (\<lambda>i. saturating_add base (of_nat i)) (find (\<lambda>i. le256_lt (le_bytes 32 (D i)) target) [k..<n])"
proof (induction "n - k" arbitrary: k)
  case (Suc m)
  then have "[k..<n] = k # [Suc k..<n]" by (simp add: upt_conv_Cons)
  then show ?case using Suc by simp
qed simp

lemma saturating_add_assoc:
  fixes s :: u128
  assumes "j + i < 2 ^ 128"
  shows "saturating_add (saturating_add s (of_nat j)) (of_nat i) = saturating_add s (of_nat (j + i))"
proof -
  have "unat (of_nat j :: u128) = j" "unat (of_nat i :: u128) = i" "unat (of_nat (j + i) :: u128) = j + i"
    using assms by (simp_all only: u128_of_nat)
  then show ?thesis by (simp add: word_unat_eq_iff unat_saturating_add del: of_nat_add)
qed

lemma find_map_shift: "find P (map f [k..<k + n]) = find P (map (\<lambda>i. f (k + i)) [0..<n])"
  by (rule arg_cong [where f = "find P"]) (rule nth_equalityI, simp_all)

lemma find_map_option: "map_option f (find (\<lambda>i. P (f i)) xs) = find P (map f xs)"
  by (induction xs) auto


lemma search_from_find:
  assumes "\<And>fs base n. hash_into fs base n =
      map (\<lambda>i. poseidon_pow_digest_from_fields perm (fs[POW_NONCE_FIELD_INDEX := saturating_add base (of_nat i)])) [0..<n]"
    and "span < 2 ^ 128"
  shows "search_from hash_into fs target start span finished =
    find (\<lambda>nonce. le256_lt (le_bytes 32 (poseidon_pow_digest_from_fields perm (fs[POW_NONCE_FIELD_INDEX := nonce]))) target)
      (map (\<lambda>i. saturating_add start (of_nat i)) [finished..<span])"
  using assms(2)
proof (induction "span - finished" arbitrary: finished rule: less_induct)
  case less
  let ?P = "\<lambda>nonce. le256_lt (le_bytes 32 (poseidon_pow_digest_from_fields perm (fs[POW_NONCE_FIELD_INDEX := nonce]))) target"
  show ?case
  proof (cases "finished < span")
    case True
    define b where "b = min (span - finished) 64"
    define base where "base = saturating_add start (of_nat finished :: u128)"
    have b: "0 < b" "finished + b \<le> span" using True by (auto simp: b_def)
    have "first_below (hash_into fs base b) target base 0 = find ?P (map (\<lambda>i. saturating_add base (of_nat i)) [0..<b])"
      unfolding assms(1) first_below_find by (rule find_map_option [where P = ?P])
    also have "map (\<lambda>i. saturating_add base (of_nat i)) [0..<b] = map (\<lambda>i. saturating_add start (of_nat (finished + i))) [0..<b]"
      using b less.prems unfolding base_def by (intro map_cong refl saturating_add_assoc) simp
    also have "find ?P (map (\<lambda>i. saturating_add start (of_nat (finished + i))) [0..<b]) =
        find ?P (map (\<lambda>i. saturating_add start (of_nat i)) [finished..<finished + b])"
      by (rule find_map_shift [symmetric])
    finally have f: "first_below (hash_into fs base b) target base 0 =
        find ?P (map (\<lambda>i. saturating_add start (of_nat i)) [finished..<finished + b])" .
    have u: "[finished..<span] = [finished..<finished + b] @ [finished + b..<span]"
      using upt_add_eq_append [of finished "finished + b" "span - (finished + b)"] b by simp
    have rest: "search_from hash_into fs target start span (finished + b) = find ?P (map (\<lambda>i. saturating_add start (of_nat i)) [finished + b..<span])"
      using b True by (intro less.hyps less.prems) linarith
    have "search_from hash_into fs target start span finished =
        (case first_below (hash_into fs base b) target base 0 of
           Some nonce \<Rightarrow> Some nonce | None \<Rightarrow> search_from hash_into fs target start span (finished + b))"
      unfolding b_def base_def using True by (subst search_from.simps) (simp only: Let_def if_True)
    then show ?thesis unfolding f rest u map_append find_append by (simp split: option.splits)
  qed simp
qed

lemma window_load:
  assumes "length hs = Suc (unat a)" "\<And>k. k < length hs \<Longrightarrow> get_header (of_nat k) = Some (hs ! k)"
  shows "rmap (\<lambda>h. ok_or (f h) (get_header h)) (heights_through (saturating_sub a (of_nat consensus_window_len - 1)) a) = Inr (window_of hs)"
proof -
  have s: "unat (saturating_sub a (of_nat consensus_window_len - 1)) = length hs - 36"
    using assms(1) by (simp add: window_len unat_saturating_sub)
  have hs: "heights_through (saturating_sub a (of_nat consensus_window_len - 1)) a = map of_nat [length hs - 36..<length hs]"
    unfolding heights_through_def s using assms(1) by simp
  show ?thesis
    unfolding hs unfolding rmap_eq_Inr window_of_def window_len
    by (rule list_all2_all_nthI) (use assms(2) in \<open>auto simp del: of_nat_add\<close>)
qed

lemma bounded_extension_iff:
  assumes "header_chain perm hs" "length hs = Suc (unat a)" "length hs + length headers < 2 ^ 64"
    and "\<And>k. k < length hs \<Longrightarrow> get_header (of_nat k) = Some (hs ! k)"
    and "hb_block_hash base = block_id perm (last hs)"
  shows "validate_bounded_header_extension perm get_header base a headers local_time = Inr w \<longleftrightarrow>
    headers \<noteq> [] \<and> length headers \<le> 4096 \<and> header_chain perm (hs @ headers)
    \<and> (\<forall>h \<in> set headers. bh_timestamp h \<le> saturating_add local_time MAX_FUTURE_DRIFT)
    \<and> w = foldl (\<lambda>w h. add_work w (block_work (bh_difficulty_target h))) (hb_cumulative_chainwork base) headers"
proof -
  have nxt: "checked_add a 1 = Some (of_nat (length hs))"
  proof -
    have "length hs < 2 ^ 64" using assms(3) by simp
    then have "unat (of_nat (length hs) :: u64) = length hs" by (rule unat_of_nat_u64)
    then show ?thesis unfolding checked_add_eq_Some using assms(2) by simp
  qed
  show ?thesis
    using extend_headers_iff [OF assms(1,3), of local_time "hb_cumulative_chainwork base"]
    unfolding validate_bounded_header_extension_def
    by (auto simp: rbind_ensure rbind_eq_Inr window_load [OF assms(2,4)] MAX_STAGED_HEADER_BATCH_def Let_def nxt
        assms(5) [symmetric] extension_of_def)
qed


lemma header_chain_step:
  assumes "header_chain perm hs" "Suc k < length hs"
  shows "extends_chain perm (take (Suc k) hs) (hs ! Suc k)"
proof -
  have "hs \<noteq> []" using assms(2) by auto
  then have "header_chain perm (take (Suc (Suc k)) hs)"
    using header_chain_prefix [of perm "take (Suc (Suc k)) hs" "drop (Suc (Suc k)) hs"] assms by auto
  moreover have "take (Suc (Suc k)) hs = take (Suc k) hs @ [hs ! Suc k]" using assms(2) by (simp add: take_Suc_conv_app_nth)
  moreover have "take (Suc k) hs \<noteq> []" using assms(2) by auto
  ultimately show ?thesis using header_chain_snoc [of "take (Suc k) hs"] by simp
qed

lemma last_take: "k < length hs \<Longrightarrow> last (take (Suc k) hs) = hs ! k"
  by (simp add: take_Suc_conv_app_nth)

subsection \<open>A constant permutation\<close>

lemma null_finalize: "finalize null_perm s = 0"
proof -
  have "join_halves 0 0 = 0" by (simp add: join_halves_def)
  then show ?thesis by (simp add: finalize_def permute_buffer_def squeeze_32_def null_perm_def split: prod.splits)
qed


lemma sponge_ok_update: "sponge_ok s \<Longrightarrow> sponge_ok (sponge_update perm data s)"
proof -
  have "sponge_ok s \<Longrightarrow> sponge_ok (foldl (absorb_byte perm) s data)"
    by (induction data arbitrary: s) (simp_all add: sponge_ok_absorb_byte)
  then show "sponge_ok s \<Longrightarrow> sponge_ok (sponge_update perm data s)" by (simp add: sponge_update_bytewise)
qed

lemma null_absorb:
  assumes "sponge_ok s" "filled_bytes s = 0"
  shows "sp_state (absorb_pair null_perm a b s) = (0, 0, 0, 0)" "filled_bytes (absorb_pair null_perm a b s) = 0"
    "sponge_ok (absorb_pair null_perm a b s)"
proof -
  obtain s0 s1 s2 s3 where "sp_state s = (s0, s1, s2, s3)" by (cases "sp_state s") auto
  from absorb_pair_aligned [OF assms this, of null_perm a b]
  show "sp_state (absorb_pair null_perm a b s) = (0, 0, 0, 0)" "filled_bytes (absorb_pair null_perm a b s) = 0"
    by (simp_all add: null_perm_def)
  show "sponge_ok (absorb_pair null_perm a b s)"
    unfolding absorb_pair_def using sponge_ok_update [OF assms(1)] .
qed

lemma null_absorb_chunks:
  "sponge_ok s \<Longrightarrow> filled_bytes s = 0 \<Longrightarrow> sp_state (absorb_chunks null_perm fs s) \<in> {sp_state s, (0, 0, 0, 0)}"
proof (induction "length fs" arbitrary: fs s rule: less_induct)
  case less
  show ?case
  proof (cases "\<exists>a b rest. fs = a # b # rest")
    case True
    then obtain a b rest where "fs = a # b # rest" by blast
    then show ?thesis
      using less.hyps [of rest "absorb_pair null_perm a b s"] null_absorb [OF less.prems, of a b] by auto
  next
    case False
    then have "absorb_chunks null_perm fs s = s" by (cases "(null_perm, fs, s)" rule: absorb_chunks.cases) auto
    then show ?thesis by simp
  qed
qed

lemma null_pow: "poseidon_pow_digest null_perm h = 0"
proof -
  let ?s = "absorb_chunks null_perm (pow_header_fields h) (with_iv (capacity_iv TAG_POWHDR))"
  have "sp_state ?s \<in> {(0, 0, fst (capacity_iv TAG_POWHDR), snd (capacity_iv TAG_POWHDR)), (0, 0, 0, 0)}"
    using null_absorb_chunks [of "with_iv (capacity_iv TAG_POWHDR)" "pow_header_fields h"] by (simp add: with_iv_def sponge_ok_def)
  then obtain cd where "sp_state ?s = (0, 0, cd)" by blast
  then show ?thesis
    by (simp add: poseidon_pow_digest_def poseidon_pow_digest_from_fields_def finalize_no_pad_def squeeze_32_def join_halves_def
        split: prod.splits)
qed

lemma sample_child_target: "next_target 0 1000 GENESIS_TARGET 1 1000 1020 = GENESIS_TARGET"
proof -
  have v: "v2_at ACTIVE_SCHEDULE 1 = None" by (simp add: v2_at_def active_schedule_eq word_le_nat_alt)
  have e: "as_i64 20 = 20" by (rule as_i64_nonneg [THEN trans]) simp_all
  have i: "saturating_mul (saturating_sub (1 :: u64) 0) BLOCK_TIME = 20" "min (saturating_sub (1020 :: u64) 1000) (of_int I64_MAX) = 20"
    by (simp_all add: saturating_mul_def saturating_sub_def economic_constants I64_MAX_def)
  have z: "clamp_int I64_MIN I64_MAX ((20 - 20) * 65536 sdiv uint HALFLIFE) = 0"
    by (simp add: clamp_int_def I64_MIN_def I64_MAX_def)
  have "target_from_exponent GENESIS_TARGET 1 act 0 = GENESIS_TARGET" for act
    by (rule target_at_zero) (simp_all add: target_digits)
  then show ?thesis
    unfolding next_target_def next_target_with_schedule_def v option.case next_target_with_activation_def Let_def i e z .
qed

lemma sample_chain: "header_chain null_perm [sample_genesis, sample_child]"
proof -
  have g: "genesis_ok sample_genesis"
    by (simp add: genesis_ok_def sample_genesis_def target_ok_def target_digits)
  have a: "asert_anchor_height 0 = 0"
    using active_anchor_near(1) [of 0] by (simp add: unat_eq_0 [symmetric])
  have n: "finalized_expansion_window 0 = None"
    by (simp add: finalized_expansion_window_def checked_sub_def economic_constants)
  have "extends_chain null_perm [sample_genesis] sample_child"
    using sample_child_target
    by (simp add: extends_iff chain_anchor_def chain_counts_def sample_child_def a n sample_genesis_def null_pow block_id_def
        hash_block_header_def null_finalize median_time_past_def MEDIAN_TIME_BLOCKS_def le256_lt_digits target_digits digits_le_bytes
        expected_child_log_slots_def Let_def)
  then have "header_chain null_perm ([sample_genesis] @ [sample_child])"
    by (intro header_chain.extend header_chain.genesis g) simp_all
  then show ?thesis by simp
qed

section \<open>Properties\<close>

text \<open>C10: The node's bounded window decides whole-chain validity. When the canonical store holds a valid chain up to the ancestor
  and the boundary carries the ancestor's id, \<open>validate_bounded_header_extension\<close>, which keeps only the last 36 headers, accepts a
  non-empty batch of at most 4096 headers exactly when the whole extended chain satisfies every timeless rule with its complete
  ancestry as context and no header is further than the drift allowance ahead of the local clock; the returned work is then the
  ancestor's work plus the expected trials of the new targets, saturating at \<open>2 ^ 256 - 1\<close>.\<close>

theorem bounded_extension_refines_chain:
  assumes "header_chain perm hs" "length hs = Suc (unat ancestor_height)" "length hs + length headers < 2 ^ 64"
    and "\<And>k. k < length hs \<Longrightarrow> get_header (of_nat k) = Some (hs ! k)"
    and "hb_block_hash base = block_id perm (last hs)" "length (hb_cumulative_chainwork base) = 32"
  shows "(is_ok (validate_bounded_header_extension perm get_header base ancestor_height headers local_time) \<longleftrightarrow>
      headers \<noteq> [] \<and> length headers \<le> 4096 \<and> header_chain perm (hs @ headers)
      \<and> (\<forall>h \<in> set headers. bh_timestamp h \<le> saturating_add local_time MAX_FUTURE_DRIFT))
    \<and> (\<forall>w. validate_bounded_header_extension perm get_header base ancestor_height headers local_time = Inr w \<longrightarrow>
      digits_nat w = min (digits_nat (hb_cumulative_chainwork base) + (\<Sum>h\<leftarrow>headers. target_work h)) (2 ^ 256 - 1))"
proof (intro conjI allI impI)
  have iff: "validate_bounded_header_extension perm get_header base ancestor_height headers local_time = Inr w \<longleftrightarrow>
      headers \<noteq> [] \<and> length headers \<le> 4096 \<and> header_chain perm (hs @ headers)
      \<and> (\<forall>h \<in> set headers. bh_timestamp h \<le> saturating_add local_time MAX_FUTURE_DRIFT)
      \<and> w = foldl (\<lambda>w h. add_work w (block_work (bh_difficulty_target h))) (hb_cumulative_chainwork base) headers" for w
    by (rule bounded_extension_iff [OF assms(1-3) _ assms(5)]) (rule assms(4))
  show "is_ok (validate_bounded_header_extension perm get_header base ancestor_height headers local_time) \<longleftrightarrow>
      headers \<noteq> [] \<and> length headers \<le> 4096 \<and> header_chain perm (hs @ headers)
      \<and> (\<forall>h \<in> set headers. bh_timestamp h \<le> saturating_add local_time MAX_FUTURE_DRIFT)"
    unfolding is_ok_iff iff by blast
  fix w assume "validate_bounded_header_extension perm get_header base ancestor_height headers local_time = Inr w"
  then have "header_chain perm (hs @ headers)"
    "w = foldl (\<lambda>w h. add_work w (block_work (bh_difficulty_target h))) (hb_cumulative_chainwork base) headers"
    unfolding iff by blast+
  then show "digits_nat w = min (digits_nat (hb_cumulative_chainwork base) + (\<Sum>h\<leftarrow>headers. target_work h)) (2 ^ 256 - 1)"
    using chain_work_sum [OF assms(6), of headers] header_chain_facts by (fastforce simp: chain_facts_def)
qed

theorem bounded_extension_refines_chain_witness:
  "is_ok (validate_bounded_header_extension null_perm (\<lambda>h. if h = 0 then Some sample_genesis else None)
     \<lparr>hb_header = sample_genesis, hb_block_hash = 0, hb_cumulative_chainwork = MIN_TARGET, hb_finalized_height_at_pin = 0\<rparr>
     0 [sample_child] 950)"
proof -
  have "header_chain null_perm [sample_genesis]" using header_chain_prefix [of null_perm "[sample_genesis]" "[sample_child]"] sample_chain by simp
  moreover have "block_id null_perm sample_genesis = 0" by (simp add: block_id_def hash_block_header_def null_finalize Let_def)
  moreover have "bh_timestamp sample_child \<le> saturating_add 950 MAX_FUTURE_DRIFT"
    by (simp add: sample_child_def sample_genesis_def saturating_add_def MAX_FUTURE_DRIFT_def word_le_nat_alt)
  ultimately show ?thesis
    using bounded_extension_refines_chain [of null_perm "[sample_genesis]" 0 "[sample_child]"
        "\<lambda>h. if h = 0 then Some sample_genesis else None"
        "\<lparr>hb_header = sample_genesis, hb_block_hash = 0, hb_cumulative_chainwork = MIN_TARGET, hb_finalized_height_at_pin = 0\<rparr>" 950]
      sample_chain by (simp add: target_digits)
qed

text \<open>C32: Every header of a valid chain is linked to its parent by the parent's id, carries its position as height, has a target
  between 1 and the genesis target, has a proof-of-work digest strictly below that target, is later than the median of the eleven
  timestamps before it, and never lets that median decrease.\<close>

theorem header_chain_invariant:
  assumes "header_chain perm hs" "Suc k < length hs"
  shows "bh_prev_block_hash (hs ! Suc k) = block_id perm (hs ! k)
    \<and> unat (bh_height (hs ! Suc k)) = Suc k
    \<and> target_ok (bh_difficulty_target (hs ! Suc k))
    \<and> digits_nat (le_bytes 32 (poseidon_pow_digest perm (hs ! Suc k))) < digits_nat (bh_difficulty_target (hs ! Suc k))
    \<and> median_time_past (map bh_timestamp (take (Suc k) hs)) < bh_timestamp (hs ! Suc k)
    \<and> median_time_past (map bh_timestamp (take (Suc k) hs)) \<le> median_time_past (map bh_timestamp (take (Suc (Suc k)) hs))"
proof -
  have e: "extends_chain perm (take (Suc k) hs) (hs ! Suc k)" by (rule header_chain_step [OF assms])
  have f: "chain_facts hs" using assms(1) by (rule header_chain_facts)
  have t: "target_ok (bh_difficulty_target (hs ! Suc k))" using f assms(2) by (simp add: chain_facts_def)
  have "Suc k < 2 ^ 64" using f assms(2) unfolding chain_facts_def by linarith
  then have h: "unat (bh_height (hs ! Suc k)) = Suc k"
    using f assms(2) by (simp add: chain_facts_def unat_of_nat_u64 del: of_nat_Suc)
  have m: "median_time_past (map bh_timestamp (take (Suc k) hs)) < bh_timestamp (hs ! Suc k)" using e by (simp add: extends_iff)
  have "take (Suc (Suc k)) hs = take (Suc k) hs @ [hs ! Suc k]" using assms(2) by (simp add: take_Suc_conv_app_nth)
  then have "median_time_past (map bh_timestamp (take (Suc k) hs)) \<le> median_time_past (map bh_timestamp (take (Suc (Suc k)) hs))"
    using median_time_past_mono [OF m] by simp
  moreover have "le256_lt (le_bytes 32 (poseidon_pow_digest perm (hs ! Suc k))) (bh_difficulty_target (hs ! Suc k))"
    using e unfolding extends_iff by blast
  then have "digits_nat (le_bytes 32 (poseidon_pow_digest perm (hs ! Suc k))) < digits_nat (bh_difficulty_target (hs ! Suc k))"
    using t by (simp add: le256_lt_digits target_ok_def)
  moreover have "bh_prev_block_hash (hs ! Suc k) = block_id perm (hs ! k)"
    using e last_take [of k hs] assms(2) by (simp add: extends_iff)
  ultimately show ?thesis using h t m by blast
qed

theorem header_chain_invariant_witness:
  "bh_prev_block_hash sample_child = block_id null_perm sample_genesis \<and> unat (bh_height sample_child) = 1 \<and>
   digits_nat (le_bytes 32 (poseidon_pow_digest null_perm sample_child)) < digits_nat (bh_difficulty_target sample_child) \<and>
   median_time_past [bh_timestamp sample_genesis] < bh_timestamp sample_child"
  using header_chain_invariant [OF sample_chain, of 0] by simp

text \<open>C33: Fork choice is a total order of tips. For 32-byte works and hashes, swapping the candidates swaps the verdict, the verdict
  is a tie only for the same work and the same hash, and the winning relation is transitive; strictly more work always wins.\<close>

theorem fork_choice_total_order:
  assumes "length wa = 32" "length wb = 32" "length wc = 32"
  shows "(choose_chain_by_work wa ha wb hb = ChainA \<longleftrightarrow> choose_chain_by_work wb hb wa ha = ChainB)
    \<and> (choose_chain_by_work wa ha wb hb = ChainEqual \<longleftrightarrow> wa = wb \<and> ha = hb)
    \<and> (choose_chain_by_work wa ha wb hb = ChainA \<and> choose_chain_by_work wb hb wc hc = ChainA
        \<longrightarrow> choose_chain_by_work wa ha wc hc = ChainA)
    \<and> (digits_nat wb < digits_nat wa \<longrightarrow> choose_chain_by_work wa ha wb hb = ChainA)"
  using assms bytes_lt_trans [of ha hb hc] by (auto simp: choose_iff)

theorem fork_choice_total_order_witness:
  "choose_chain_by_work GENESIS_TARGET MIN_TARGET MIN_TARGET MAX_TARGET = ChainA"
  using fork_choice_total_order [of GENESIS_TARGET MIN_TARGET MIN_TARGET] by (simp add: target_digits)

text \<open>The epoch-anchor accumulator and the header lookup agree. Feeding the ids of the accepted blocks \<open>1..n\<close> into
  \<open>next_tx_epoch_anchor_id\<close> from the genesis id gives exactly the anchor that \<open>resolve_user_epoch_anchor_id\<close> looks up for the
  child at height \<open>n + 1\<close>, at every height of the 64-bit range; no checked step of the decomposition ever fails.\<close>

theorem epoch_anchor_accumulator_matches_lookup:
  assumes "Suc n < 2 ^ 64" "\<And>k. k \<le> n \<Longrightarrow> header_at (of_nat k) = Some (hd_of k)"
  shows "anchor_lane (\<lambda>k. block_id perm (hd_of k)) n = resolve_user_epoch_anchor_id perm (of_nat (Suc n)) header_at"
proof -
  have a: "unat (tx_epoch_anchor_height_for_child (of_nat (Suc n))) = n div 144 * 144" using assms(1) by (rule child_anchor_height)
  then have "tx_epoch_anchor_height_for_child (of_nat (Suc n)) = of_nat (n div 144 * 144)" by (simp add: a [symmetric] del: of_nat_mult)
  moreover have "n div 144 * 144 \<le> n" by simp
  ultimately show ?thesis
    using assms(1) by (simp add: anchor_lane_eq resolve_user_epoch_anchor_id_def assms(2) del: of_nat_Suc of_nat_mult)
qed

theorem epoch_anchor_accumulator_matches_lookup_witness:
  "anchor_lane (\<lambda>k. block_id null_perm sample_genesis) 200 = resolve_user_epoch_anchor_id null_perm (of_nat (Suc 200)) (\<lambda>_. Some sample_genesis)"
  using epoch_anchor_accumulator_matches_lookup [of 200 "\<lambda>_. Some sample_genesis" "\<lambda>_. sample_genesis" null_perm] by simp

text \<open>C34: The batched nonce search always ends and finds exactly the first nonce of the requested range that satisfies the target.
  The batch hasher is assumed to return, for each position of the batch, the scalar digest of the field schedule with the
  saturated nonce at the nonce index.\<close>

theorem search_pow_first_nonce:
  assumes "\<And>fs base n. hash_into fs base n =
      map (\<lambda>i. poseidon_pow_digest_from_fields perm (fs[POW_NONCE_FIELD_INDEX := saturating_add base (of_nat i)])) [0..<n]"
  shows "search_pow hash_into header start_nonce span =
    find (\<lambda>nonce. is_ok (validate_pow perm (header\<lparr>bh_nonce := nonce\<rparr>)))
      (map (\<lambda>i. saturating_add start_nonce (of_nat i)) [0..<unat span])"
proof -
  have "is_ok (validate_pow perm (header\<lparr>bh_nonce := nonce\<rparr>)) \<longleftrightarrow>
      le256_lt (le_bytes 32 (poseidon_pow_digest_from_fields perm ((pow_header_fields header)[POW_NONCE_FIELD_INDEX := nonce])))
        (bh_difficulty_target header)" for nonce
    by (simp add: validate_pow_def Let_def nonce_fields poseidon_pow_digest_def)
  moreover have "unat span < 2 ^ 128" using unat_lt_exp [of span] by simp
  ultimately show ?thesis unfolding search_pow_def by (subst search_from_find [where perm = perm]) (simp_all only: assms)
qed

theorem search_pow_first_nonce_witness:
  "search_pow (\<lambda>fs base n. map (\<lambda>i. poseidon_pow_digest_from_fields null_perm (fs[POW_NONCE_FIELD_INDEX := saturating_add base (of_nat i)])) [0..<n])
     sample_child 7 2 = Some 7"
proof -
  have "[0..<unat (2 :: u128)] = [0, 1]" by (simp add: upt_rec)
  moreover have "is_ok (validate_pow null_perm (sample_child\<lparr>bh_nonce := nonce\<rparr>))" for nonce
    by (simp add: validate_pow_def null_pow Let_def le256_lt_digits digits_le_bytes target_digits sample_child_def sample_genesis_def)
  ultimately show ?thesis by (simp add: search_pow_first_nonce [where perm = null_perm] saturating_add_def)
qed

end
