(* ===== verification/SparseMerkle.thy ===== *)
theory SparseMerkle
imports Transaction
begin

section \<open>Exact state hashing and sparse Merkle multiproofs\<close>

text \<open>
  Slot values (\<open>noid_chain/src/fri_state.rs\<close>), the domain-separated leaf and node hashes
  (\<open>noid_chain/src/exact_state_hash.rs\<close>) and the sparse Merkle cache with its canonical multiproofs
  (\<open>noid_chain/src/sparse_merkle.rs\<close>): the cache with leaf updates, the frontier coordinates and
  their analytical maximum, the structural plan and its evaluation, padding, root reconstruction, and the sequential expansion of an
  update into directed paths.

  Leaf indices are 32-bit words as in the code; depths, levels and node positions, which stay below \<open>2 ^ 33\<close>, are natural
  numbers. A \<open>BTreeMap\<close> keyed by position is the association list sorted by key, a \<open>BTreeSet\<close> the sorted list of its elements.
  The node cache is a finite map from level and position to a hash.

  The reference notion is the complete binary tree over a leaf function. The theorems show that the cache holds exactly the
  nodes of that tree, that a multiproof built from the cache reconstructs the root before and, with new leaves, after an update,
  that the hash plan derived by a verifier evaluates to the reconstructed root, that the steps of a sequential update authenticate
  each other from the old root to the new one, and that the analytical maximum bounds every proof.
\<close>

subsection \<open>Slots and hashes\<close>

record slot_value =
  sv_value :: block128
  sv_owner_hi :: block128
  sv_owner_lo :: block128

definition SLOT_EMPTY :: slot_value where
  "SLOT_EMPTY = \<lparr>sv_value = 0, sv_owner_hi = 0, sv_owner_lo = 0\<rparr>"

definition slot_is_empty :: "slot_value \<Rightarrow> bool" where
  "slot_is_empty s \<longleftrightarrow> s = SLOT_EMPTY"

definition slot_from_parts :: "u64 \<Rightarrow> u64 \<Rightarrow> block128 \<Rightarrow> block128 \<Rightarrow> slot_value" where
  "slot_from_parts amount creation_id owner_hi owner_lo =
     \<lparr>sv_value = pack_amount_creation_id amount creation_id, sv_owner_hi = owner_hi, sv_owner_lo = owner_lo\<rparr>"

definition slot_with_owner_fields :: "u64 \<Rightarrow> u64 \<Rightarrow> block128 \<times> block128 \<Rightarrow> slot_value" where
  "slot_with_owner_fields amount creation_id owner = slot_from_parts amount creation_id (fst owner) (snd owner)"

definition slot_amount :: "slot_value \<Rightarrow> u64" where
  "slot_amount s = fst (unpack_amount_creation_id (sv_value s))"

definition slot_creation_id :: "slot_value \<Rightarrow> u64" where
  "slot_creation_id s = snd (unpack_amount_creation_id (sv_value s))"

definition TAG_EXSTSLT :: domain_tag where "TAG_EXSTSLT = ascii ''EXSTSLT_''"
definition TAG_EXSTNOD :: domain_tag where "TAG_EXSTNOD = ascii ''EXSTNOD_''"

definition slot_leaf_hash :: "permutation \<Rightarrow> slot_value \<Rightarrow> digest" where
  "slot_leaf_hash perm s =
     (let sp = with_iv (capacity_iv TAG_EXSTSLT);
          sp = absorb perm (sv_value s) sp;
          sp = absorb_pair perm (sv_owner_hi s) (sv_owner_lo s) sp
      in finalize perm sp)"

definition state_node_hash :: "permutation \<Rightarrow> digest \<Rightarrow> digest \<Rightarrow> digest" where
  "state_node_hash perm left right = compress_with_tag perm TAG_EXSTNOD left right"

primrec zero_slot_roots :: "permutation \<Rightarrow> nat \<Rightarrow> digest list" where
  "zero_slot_roots perm 0 = [slot_leaf_hash perm SLOT_EMPTY]"
| "zero_slot_roots perm (Suc depth) =
     (let roots = zero_slot_roots perm depth; z = roots ! depth in roots @ [state_node_hash perm z z])"

subsection \<open>Errors and indices\<close>

datatype sparse_merkle_error =
    InvalidDepth nat
  | EmptyIndices
  | LeafCountMismatch nat nat
  | UnsortedIndices
  | DuplicateIndex u32
  | IndexOutOfRange u32 nat
  | ProofLengthMismatch nat nat
  | FrontierCapacityExceeded nat nat
  | PaddedProofLengthMismatch nat nat
  | NonCanonicalPadding nat
  | CacheDepthMismatch nat nat

definition validate_depth :: "nat \<Rightarrow> sparse_merkle_error + unit" where
  "validate_depth depth = (if depth > 32 then Inl (InvalidDepth depth) else Inr ())"

definition validate_index :: "u32 \<Rightarrow> nat \<Rightarrow> sparse_merkle_error + unit" where
  "validate_index index depth =
     rbind (validate_depth depth) (\<lambda>_.
     if unat index \<ge> 2 ^ depth then Inl (IndexOutOfRange index depth) else Inr ())"

definition validate_indices_step ::
  "nat \<Rightarrow> u32 option \<times> nat list \<Rightarrow> u32 \<Rightarrow> sparse_merkle_error + u32 option \<times> nat list" where
  "validate_indices_step depth = (\<lambda>(prev, out) index.
     rbind (validate_index index depth) (\<lambda>_.
     rbind (case prev of
              None \<Rightarrow> Inr ()
            | Some p \<Rightarrow> if index < p then Inl UnsortedIndices
                       else if index = p then Inl (DuplicateIndex index) else Inr ()) (\<lambda>_.
     Inr (Some index, insort_insert (unat index) out))))"

definition validate_indices :: "u32 list \<Rightarrow> nat \<Rightarrow> sparse_merkle_error + nat list" where
  "validate_indices indices depth =
     rbind (validate_depth depth) (\<lambda>_.
     if indices = [] then Inl EmptyIndices
     else rbind (rfold (validate_indices_step depth) (None, []) indices) (\<lambda>(_, out). Inr out))"

subsection \<open>The sparse cache\<close>

record sparse_cache =
  sc_depth :: nat
  sc_zero_roots :: "digest list"
  sc_nodes :: "nat \<times> nat \<rightharpoonup> digest"

definition cache_new :: "permutation \<Rightarrow> nat \<Rightarrow> sparse_merkle_error + sparse_cache" where
  "cache_new perm depth =
     rbind (validate_depth depth) (\<lambda>_.
     Inr \<lparr>sc_depth = depth, sc_zero_roots = zero_slot_roots perm depth, sc_nodes = Map.empty\<rparr>)"

definition node_hash :: "sparse_cache \<Rightarrow> nat \<Rightarrow> nat \<Rightarrow> digest" where
  "node_hash c level index = (case sc_nodes c (level, index) of Some h \<Rightarrow> h | None \<Rightarrow> sc_zero_roots c ! level)"

definition cache_root :: "sparse_cache \<Rightarrow> digest" where
  "cache_root c = node_hash c (sc_depth c) 0"

definition set_node :: "nat \<Rightarrow> nat \<Rightarrow> digest \<Rightarrow> sparse_cache \<Rightarrow> sparse_cache" where
  "set_node level index hash c =
     (if hash = sc_zero_roots c ! level
      then c\<lparr>sc_nodes := (sc_nodes c)((level, index) := None)\<rparr>
      else c\<lparr>sc_nodes := (sc_nodes c)((level, index) \<mapsto> hash)\<rparr>)"

primrec set_path :: "permutation \<Rightarrow> nat \<Rightarrow> nat \<Rightarrow> nat \<Rightarrow> digest \<Rightarrow> sparse_cache \<Rightarrow> sparse_cache" where
  "set_path perm 0 level idx hash c = c"
| "set_path perm (Suc n) level idx hash c =
     (let sibling_idx = xor idx 1;
          base = idx - idx mod 2;
          (left, right) = (if idx = base then (hash, node_hash c level sibling_idx) else (node_hash c level sibling_idx, hash));
          hash = state_node_hash perm left right;
          idx = base div 2
      in set_path perm n (level + 1) idx hash (set_node (level + 1) idx hash c))"

definition set_leaf :: "permutation \<Rightarrow> u32 \<Rightarrow> digest \<Rightarrow> sparse_cache \<Rightarrow> sparse_merkle_error + sparse_cache" where
  "set_leaf perm index leaf c =
     rbind (validate_index index (sc_depth c)) (\<lambda>_.
     Inr (set_path perm (sc_depth c) 0 (unat index) leaf (set_node 0 (unat index) leaf c)))"

definition from_leaves :: "permutation \<Rightarrow> nat \<Rightarrow> (u32 \<times> digest) list \<Rightarrow> sparse_merkle_error + sparse_cache" where
  "from_leaves perm depth leaves =
     rbind (cache_new perm depth) (\<lambda>cache. rfold (\<lambda>c (index, leaf). set_leaf perm index leaf c) cache leaves)"

subsection \<open>Frontiers\<close>

text \<open>The loop that every traversal of a level runs: the known positions in increasing order, each parent visited once.\<close>

definition visit_parents :: "(nat \<Rightarrow> 's \<Rightarrow> 's) \<Rightarrow> nat list \<Rightarrow> 's \<Rightarrow> 's" where
  "visit_parents f known s =
     snd (foldl (\<lambda>(processed, s) pos.
       let base = pos - pos mod 2
       in if base \<in> processed then (processed, s) else (insert base processed, f base s)) ({}, s) known)"

fun bt_insert :: "nat \<Rightarrow> 'a \<Rightarrow> (nat \<times> 'a) list \<Rightarrow> (nat \<times> 'a) list" where
  "bt_insert k v [] = [(k, v)]"
| "bt_insert k v ((k', v') # rest) =
     (if k < k' then (k, v) # (k', v') # rest else if k = k' then (k, v) # rest else (k', v') # bt_insert k v rest)"

primrec count_levels :: "nat \<Rightarrow> nat list \<Rightarrow> nat \<Rightarrow> nat" where
  "count_levels 0 known found = found"
| "count_levels (Suc n) known found =
     (let (nxt, found) = visit_parents (\<lambda>base (nxt, found).
            (insort_insert (base div 2) nxt,
             if (base \<in> set known) \<noteq> (base + 1 \<in> set known) then found + 1 else found)) known ([], found)
      in count_levels n nxt found)"

definition expected_sibling_count :: "u32 list \<Rightarrow> nat \<Rightarrow> sparse_merkle_error + nat" where
  "expected_sibling_count indices depth = rbind (validate_indices indices depth) (\<lambda>known. Inr (count_levels depth known 0))"

record frontier_position =
  fp_level :: nat
  fp_node_index :: nat

primrec position_levels :: "nat \<Rightarrow> nat \<Rightarrow> nat list \<Rightarrow> frontier_position list \<Rightarrow> frontier_position list" where
  "position_levels 0 level known positions = positions"
| "position_levels (Suc n) level known positions =
     (let (nxt, positions) = visit_parents (\<lambda>base (nxt, positions).
            (insort_insert (base div 2) nxt,
             if base \<in> set known \<and> base + 1 \<notin> set known then positions @ [\<lparr>fp_level = level, fp_node_index = base + 1\<rparr>]
             else if base \<notin> set known \<and> base + 1 \<in> set known then positions @ [\<lparr>fp_level = level, fp_node_index = base\<rparr>]
             else positions)) known ([], positions)
      in position_levels n (level + 1) nxt positions)"

definition frontier_sibling_positions :: "u32 list \<Rightarrow> nat \<Rightarrow> sparse_merkle_error + frontier_position list" where
  "frontier_sibling_positions indices depth =
     rbind (validate_indices indices depth) (\<lambda>known. Inr (position_levels depth 0 known []))"

subsection \<open>Reconstruction\<close>

definition reconstruct_parent ::
  "permutation \<Rightarrow> digest list \<Rightarrow> (nat \<times> digest) list \<Rightarrow> nat \<Rightarrow> (nat \<times> digest) list \<times> nat \<Rightarrow> (nat \<times> digest) list \<times> nat" where
  "reconstruct_parent perm siblings known base = (\<lambda>(nxt, cursor).
     case (map_of known base, map_of known (base + 1)) of
       (Some left, Some right) \<Rightarrow> (bt_insert (base div 2) (state_node_hash perm left right) nxt, cursor)
     | (Some left, None) \<Rightarrow> (bt_insert (base div 2) (state_node_hash perm left (siblings ! cursor)) nxt, cursor + 1)
     | (None, Some right) \<Rightarrow> (bt_insert (base div 2) (state_node_hash perm (siblings ! cursor) right) nxt, cursor + 1)
     | (None, None) \<Rightarrow> (nxt, cursor))"

primrec reconstruct_levels :: "permutation \<Rightarrow> digest list \<Rightarrow> nat \<Rightarrow> (nat \<times> digest) list \<Rightarrow> nat \<Rightarrow> (nat \<times> digest) list" where
  "reconstruct_levels perm siblings 0 known cursor = known"
| "reconstruct_levels perm siblings (Suc n) known cursor =
     (let (nxt, cursor) = visit_parents (reconstruct_parent perm siblings known) (map fst known) ([], cursor)
      in reconstruct_levels perm siblings n nxt cursor)"

definition collect_map :: "(nat \<times> 'a) list \<Rightarrow> (nat \<times> 'a) list" where
  "collect_map entries = foldl (\<lambda>m (k, v). bt_insert k v m) [] entries"

definition reconstruct_root :: "permutation \<Rightarrow> u32 list \<Rightarrow> digest list \<Rightarrow> digest list \<Rightarrow> nat \<Rightarrow> sparse_merkle_error + digest" where
  "reconstruct_root perm indices leaves siblings depth =
     rbind (ensure (length indices = length leaves) (LeafCountMismatch (length indices) (length leaves))) (\<lambda>_.
     rbind (expected_sibling_count indices depth) (\<lambda>expected.
     rbind (ensure (length siblings = expected) (ProofLengthMismatch expected (length siblings))) (\<lambda>_.
     let known = collect_map (map (\<lambda>(index, leaf). (unat index, leaf)) (zip indices leaves)) in
     case reconstruct_levels perm siblings depth known 0 of
       (k, root) # _ \<Rightarrow> if k = 0 then Inr root else Inl (InvalidDepth depth)
     | [] \<Rightarrow> Inl (InvalidDepth depth))))"

definition build_multiproof :: "sparse_cache \<Rightarrow> u32 list \<Rightarrow> nat \<Rightarrow> sparse_merkle_error + digest list" where
  "build_multiproof cache indices depth =
     rbind (ensure (sc_depth cache = depth) (CacheDepthMismatch (sc_depth cache) depth)) (\<lambda>_.
     rbind (frontier_sibling_positions indices depth) (\<lambda>positions.
     Inr (map (\<lambda>position. node_hash cache (fp_level position) (fp_node_index position)) positions)))"

subsection \<open>Structural plans\<close>

datatype structural_node_ref = TouchedLeaf nat | FrontierSibling nat | Combine nat

record structural_combine =
  co_left :: structural_node_ref
  co_right :: structural_node_ref

record structural_frontier_plan =
  pl_touched_leaf_count :: nat
  pl_frontier_positions :: "frontier_position list"
  pl_combines :: "structural_combine list"
  pl_root :: structural_node_ref

type_synonym plan_state = "(nat \<times> structural_node_ref) list \<times> frontier_position list \<times> structural_combine list"

definition plan_parent :: "nat \<Rightarrow> (nat \<times> structural_node_ref) list \<Rightarrow> nat \<Rightarrow> plan_state \<Rightarrow> plan_state" where
  "plan_parent level known base = (\<lambda>(nxt, positions, combines).
     let step = (\<lambda>left right positions.
           (bt_insert (base div 2) (Combine (length combines)) nxt, positions, combines @ [\<lparr>co_left = left, co_right = right\<rparr>]))
     in case (map_of known base, map_of known (base + 1)) of
          (Some left, Some right) \<Rightarrow> step left right positions
        | (Some left, None) \<Rightarrow>
            step left (FrontierSibling (length positions)) (positions @ [\<lparr>fp_level = level, fp_node_index = base + 1\<rparr>])
        | (None, Some right) \<Rightarrow>
            step (FrontierSibling (length positions)) right (positions @ [\<lparr>fp_level = level, fp_node_index = base\<rparr>])
        | (None, None) \<Rightarrow> (nxt, positions, combines))"

primrec plan_levels :: "nat \<Rightarrow> nat \<Rightarrow> plan_state \<Rightarrow> plan_state" where
  "plan_levels 0 level st = st"
| "plan_levels (Suc n) level st =
     (case st of (known, positions, combines) \<Rightarrow>
        plan_levels n (level + 1) (visit_parents (plan_parent level known) (map fst known) ([], positions, combines)))"

definition derive_structural_frontier_plan :: "u32 list \<Rightarrow> nat \<Rightarrow> sparse_merkle_error + structural_frontier_plan" where
  "derive_structural_frontier_plan indices depth =
     rbind (validate_indices indices depth) (\<lambda>_.
     let known = collect_map (map (\<lambda>(ordinal, index). (unat index, TouchedLeaf ordinal)) (enumerate 0 indices));
         (known, positions, combines) = plan_levels depth 0 (known, [], [])
     in case known of
          (k, root) # _ \<Rightarrow>
            if k = 0 then Inr \<lparr>pl_touched_leaf_count = length indices, pl_frontier_positions = positions, pl_combines = combines, pl_root = root\<rparr>
            else Inl (InvalidDepth depth)
        | [] \<Rightarrow> Inl (InvalidDepth depth))"

fun structural_node_hash :: "structural_node_ref \<Rightarrow> digest list \<Rightarrow> digest list \<Rightarrow> digest list \<Rightarrow> digest" where
  "structural_node_hash (TouchedLeaf ordinal) leaves siblings combines = leaves ! ordinal"
| "structural_node_hash (FrontierSibling ordinal) leaves siblings combines = siblings ! ordinal"
| "structural_node_hash (Combine ordinal) leaves siblings combines = combines ! ordinal"

record structural_frontier_evaluation =
  ev_root :: digest
  ev_combines :: "digest list"

definition run_combines :: "permutation \<Rightarrow> structural_combine list \<Rightarrow> digest list \<Rightarrow> digest list \<Rightarrow> digest list" where
  "run_combines perm combines leaves siblings =
     foldl (\<lambda>hashes c.
       let left = structural_node_hash (co_left c) leaves siblings hashes;
           right = structural_node_hash (co_right c) leaves siblings hashes
       in hashes @ [state_node_hash perm left right]) [] combines"

definition evaluate_structural_frontier ::
  "permutation \<Rightarrow> structural_frontier_plan \<Rightarrow> digest list \<Rightarrow> digest list \<Rightarrow> sparse_merkle_error + structural_frontier_evaluation" where
  "evaluate_structural_frontier perm plan leaves siblings =
     rbind (ensure (length leaves = pl_touched_leaf_count plan) (LeafCountMismatch (pl_touched_leaf_count plan) (length leaves))) (\<lambda>_.
     rbind (ensure (length siblings = length (pl_frontier_positions plan))
              (ProofLengthMismatch (length (pl_frontier_positions plan)) (length siblings))) (\<lambda>_.
     let combine_hashes = run_combines perm (pl_combines plan) leaves siblings;
         root = structural_node_hash (pl_root plan) leaves siblings combine_hashes
     in Inr \<lparr>ev_root = root, ev_combines = combine_hashes\<rparr>))"

subsection \<open>Padding and directed paths\<close>

definition STRUCTURAL_FRONTIER_PAD :: digest where "STRUCTURAL_FRONTIER_PAD = 0"

definition pad_frontier_siblings :: "u32 list \<Rightarrow> digest list \<Rightarrow> nat \<Rightarrow> nat \<Rightarrow> sparse_merkle_error + digest list" where
  "pad_frontier_siblings indices siblings depth capacity =
     rbind (expected_sibling_count indices depth) (\<lambda>required.
     rbind (ensure (length siblings = required) (ProofLengthMismatch required (length siblings))) (\<lambda>_.
     rbind (ensure (required \<le> capacity) (FrontierCapacityExceeded required capacity)) (\<lambda>_.
     Inr (siblings @ replicate (capacity - length siblings) STRUCTURAL_FRONTIER_PAD))))"

definition unpad_frontier_siblings :: "u32 list \<Rightarrow> digest list \<Rightarrow> nat \<Rightarrow> nat \<Rightarrow> sparse_merkle_error + digest list" where
  "unpad_frontier_siblings indices padded depth capacity =
     rbind (ensure (length padded = capacity) (PaddedProofLengthMismatch capacity (length padded))) (\<lambda>_.
     rbind (expected_sibling_count indices depth) (\<lambda>required.
     rbind (ensure (required \<le> capacity) (FrontierCapacityExceeded required capacity)) (\<lambda>_.
     case find (\<lambda>(offset, digest). digest \<noteq> STRUCTURAL_FRONTIER_PAD) (enumerate 0 (drop required padded)) of
       Some (offset, _) \<Rightarrow> Inl (NonCanonicalPadding (required + offset))
     | None \<Rightarrow> Inr (take required padded))))"

definition fold_directed_path :: "permutation \<Rightarrow> digest \<Rightarrow> digest list \<Rightarrow> bool list \<Rightarrow> digest" where
  "fold_directed_path perm leaf siblings directions =
     foldl (\<lambda>current (sibling, is_right).
       if is_right then state_node_hash perm sibling current else state_node_hash perm current sibling) leaf (zip siblings directions)"

subsection \<open>The maximum frontier\<close>

text \<open>The covering power of the loop is two to the covering depth.\<close>

function covering_depth :: "nat \<Rightarrow> nat \<Rightarrow> nat" where
  "covering_depth touched_count d = (if 2 ^ d < touched_count then covering_depth touched_count (d + 1) else d)"
  by pat_completeness auto
termination
  by (relation "measure (\<lambda>(t, d). t - 2 ^ d)") (auto intro: diff_less_mono2)

declare covering_depth.simps [simp del]

definition maximum_sibling_count :: "nat \<Rightarrow> nat \<Rightarrow> nat option" where
  "maximum_sibling_count touched_count depth =
     (if \<not> depth \<le> 32 then None
      else if touched_count = 0 then Some 0
      else if \<not> touched_count \<le> 2 ^ depth then None
      else
        let d = covering_depth touched_count 0;
            maximum = (depth - d) * touched_count + 2 ^ d - touched_count
        in if maximum \<le> 2 ^ 64 - 1 then Some maximum else None)"

subsection \<open>Sequential updates\<close>

record sequential_update =
  su_index :: u32
  su_old_leaf :: digest
  su_new_leaf :: digest
  su_siblings :: "digest list"
  su_directions :: "bool list"
  su_root_before :: digest
  su_root_after :: digest

type_synonym node_map = "nat \<times> nat \<rightharpoonup> digest"

text \<open>A lookup that the code wraps in \<open>expect\<close> yields None when the entry is absent.\<close>

definition fill_parent ::
  "permutation \<Rightarrow> nat \<Rightarrow> nat \<Rightarrow> ((nat \<times> digest) list \<times> node_map) option \<Rightarrow> ((nat \<times> digest) list \<times> node_map) option" where
  "fill_parent perm level base st =
     Option.bind st (\<lambda>(nxt, nodes).
     Option.bind (nodes (level, base)) (\<lambda>left.
     Option.bind (nodes (level, base + 1)) (\<lambda>right.
     let parent = state_node_hash perm left right
     in Some (bt_insert (base div 2) parent nxt, nodes((level + 1, base div 2) \<mapsto> parent)))))"

primrec fill_levels :: "permutation \<Rightarrow> nat \<Rightarrow> nat \<Rightarrow> (nat \<times> digest) list \<Rightarrow> node_map \<Rightarrow> node_map option" where
  "fill_levels perm 0 level current nodes = Some nodes"
| "fill_levels perm (Suc n) level current nodes =
     Option.bind (visit_parents (fill_parent perm level) (map fst current) (Some ([], nodes)))
       (\<lambda>(nxt, nodes). fill_levels perm n (level + 1) nxt nodes)"

primrec walk_path ::
  "permutation \<Rightarrow> nat \<Rightarrow> nat \<Rightarrow> nat \<Rightarrow> digest \<Rightarrow> digest list \<Rightarrow> bool list \<Rightarrow> node_map \<Rightarrow>
     (digest \<times> digest list \<times> bool list \<times> node_map) option" where
  "walk_path perm 0 level index hash sibs dirs nodes = Some (hash, sibs, dirs, nodes)"
| "walk_path perm (Suc n) level index hash sibs dirs nodes =
     (let position = drop_bit level index in
      Option.bind (nodes (level, xor position 1)) (\<lambda>sibling.
      let is_right = (and position 1 = 1);
          hash = (if is_right then state_node_hash perm sibling hash else state_node_hash perm hash sibling)
      in walk_path perm n (level + 1) index hash (sibs @ [sibling]) (dirs @ [is_right])
           (nodes((level + 1, position div 2) \<mapsto> hash))))"

primrec run_updates ::
  "permutation \<Rightarrow> nat \<Rightarrow> (u32 \<times> digest \<times> digest) list \<Rightarrow> digest \<Rightarrow> node_map \<Rightarrow> sequential_update list option" where
  "run_updates perm depth [] rolling_root nodes = Some []"
| "run_updates perm depth (e # es) rolling_root nodes =
     (case e of (index, old_leaf, new_leaf) \<Rightarrow>
        Option.bind (walk_path perm depth 0 (unat index) new_leaf [] [] (nodes((0, unat index) \<mapsto> new_leaf)))
          (\<lambda>(current_hash, path_siblings, directions, nodes).
        Option.bind (run_updates perm depth es current_hash nodes) (\<lambda>out.
        Some (\<lparr>su_index = index, su_old_leaf = old_leaf, su_new_leaf = new_leaf, su_siblings = path_siblings,
               su_directions = directions, su_root_before = rolling_root, su_root_after = current_hash\<rparr> # out))))"

definition partial_nodes :: "u32 list \<Rightarrow> digest list \<Rightarrow> frontier_position list \<Rightarrow> digest list \<Rightarrow> node_map" where
  "partial_nodes indices old_leaves positions siblings =
     foldl (\<lambda>nodes (position, sibling). nodes((fp_level position, fp_node_index position) \<mapsto> sibling))
       (foldl (\<lambda>nodes (index, leaf). nodes((0, unat index) \<mapsto> leaf)) Map.empty (zip indices old_leaves)) (zip positions siblings)"

definition expand_multiproof_sequential_updates ::
  "permutation \<Rightarrow> u32 list \<Rightarrow> digest list \<Rightarrow> digest list \<Rightarrow> digest list \<Rightarrow> nat \<Rightarrow>
     (sparse_merkle_error + sequential_update list) option" where
  "expand_multiproof_sequential_updates perm indices old_leaves new_leaves siblings depth =
     (if length indices \<noteq> length old_leaves then Some (Inl (LeafCountMismatch (length indices) (length old_leaves)))
      else if length indices \<noteq> length new_leaves then Some (Inl (LeafCountMismatch (length indices) (length new_leaves)))
      else case frontier_sibling_positions indices depth of
        Inl e \<Rightarrow> Some (Inl e)
      | Inr positions \<Rightarrow>
          if length siblings \<noteq> length positions then Some (Inl (ProofLengthMismatch (length positions) (length siblings)))
          else
            let nodes = partial_nodes indices old_leaves positions siblings;
                current = collect_map (map (\<lambda>(index, leaf). (unat index, leaf)) (zip indices old_leaves))
            in Option.bind (fill_levels perm depth 0 current nodes) (\<lambda>nodes.
               Option.bind (nodes (depth, 0)) (\<lambda>rolling_root.
               Option.bind (run_updates perm depth (zip indices (zip old_leaves new_leaves)) rolling_root nodes) (\<lambda>out.
               Some (rbind (reconstruct_root perm indices new_leaves siblings depth) (\<lambda>_. Inr out))))))"

subsection \<open>Reference notions\<close>

text \<open>The complete binary tree over a leaf function.\<close>

primrec tree_node :: "permutation \<Rightarrow> (nat \<Rightarrow> digest) \<Rightarrow> nat \<Rightarrow> nat \<Rightarrow> digest" where
  "tree_node perm leaf 0 i = leaf i"
| "tree_node perm leaf (Suc level) i = state_node_hash perm (tree_node perm leaf level (2 * i)) (tree_node perm leaf level (2 * i + 1))"

definition cache_ok :: "permutation \<Rightarrow> sparse_cache \<Rightarrow> (nat \<Rightarrow> digest) \<Rightarrow> bool" where
  "cache_ok perm c leaf \<longleftrightarrow>
     sc_depth c \<le> 32 \<and> (\<forall>level \<le> sc_depth c. \<forall>i < 2 ^ (sc_depth c - level). node_hash c level i = tree_node perm leaf level i)"

definition update_leaves :: "u32 list \<Rightarrow> digest list \<Rightarrow> (nat \<Rightarrow> digest) \<Rightarrow> nat \<Rightarrow> digest" where
  "update_leaves indices leaves leaf = foldl (\<lambda>f (index, v). f(unat index := v)) leaf (zip indices leaves)"

text \<open>The parents of a list of positions in increasing order, and the positions missing beside them.\<close>

definition parents :: "nat list \<Rightarrow> nat list" where
  "parents ps = sorted_list_of_set ((\<lambda>p. p div 2) ` set ps)"

definition missing_beside :: "nat list \<Rightarrow> nat \<Rightarrow> nat list" where
  "missing_beside ps q =
     (if 2 * q \<in> set ps \<and> 2 * q + 1 \<notin> set ps then [2 * q + 1]
      else if 2 * q \<notin> set ps \<and> 2 * q + 1 \<in> set ps then [2 * q] else [])"

definition missing :: "nat list \<Rightarrow> nat list" where
  "missing ps = concat (map (missing_beside ps) (parents ps))"

primrec frontier :: "nat \<Rightarrow> nat \<Rightarrow> nat list \<Rightarrow> frontier_position list" where
  "frontier 0 level ps = []"
| "frontier (Suc n) level ps =
     map (\<lambda>p. \<lparr>fp_level = level, fp_node_index = p\<rparr>) (missing ps) @ frontier n (Suc level) (parents ps)"

text \<open>A plan under construction evaluates to the nodes under reconstruction.\<close>

definition plan_sim ::
  "permutation \<Rightarrow> digest list \<Rightarrow> digest list \<Rightarrow> (nat \<times> digest) list \<times> nat \<Rightarrow> plan_state \<Rightarrow> bool" where
  "plan_sim perm leaves siblings = (\<lambda>(nxt, cursor) (refs, positions, combines).
     nxt = map (\<lambda>(p, r). (p, structural_node_hash r leaves siblings (run_combines perm combines leaves siblings))) refs \<and>
     cursor = length positions \<and> (\<forall>(p, r) \<in> set refs. \<forall>k. r = Combine k \<longrightarrow> k < length combines))"

text \<open>A chain of updates from one root to another, each step authenticated before and after by one path.\<close>

primrec authentic_chain :: "permutation \<Rightarrow> digest \<Rightarrow> sequential_update list \<Rightarrow> digest \<Rightarrow> bool" where
  "authentic_chain perm root [] root' \<longleftrightarrow> root = root'"
| "authentic_chain perm root (s # ss) root' \<longleftrightarrow>
     su_root_before s = root \<and>
     fold_directed_path perm (su_old_leaf s) (su_siblings s) (su_directions s) = root \<and>
     fold_directed_path perm (su_new_leaf s) (su_siblings s) (su_directions s) = su_root_after s \<and>
     authentic_chain perm (su_root_after s) ss root'"

text \<open>The nodes above a set of leaves, node maps in which each of them is the hash of its children, and the path above one leaf.\<close>

definition touched :: "nat set \<Rightarrow> nat \<Rightarrow> nat set" where
  "touched P l = (\<lambda>p. p div 2 ^ l) ` P"

definition consistent :: "permutation \<Rightarrow> nat \<Rightarrow> nat \<Rightarrow> nat set \<Rightarrow> node_map \<Rightarrow> bool" where
  "consistent perm lo hi P nodes \<longleftrightarrow>
     (\<forall>l q. lo \<le> l \<and> l < hi \<and> q \<in> touched P (Suc l) \<longrightarrow>
        (\<exists>a b. nodes (l, 2 * q) = Some a \<and> nodes (l, 2 * q + 1) = Some b \<and> nodes (Suc l, q) = Some (state_node_hash perm a b)))"

definition path_sibling :: "node_map \<Rightarrow> nat \<Rightarrow> nat \<Rightarrow> digest" where
  "path_sibling nodes p l = the (nodes (l, xor (p div 2 ^ l) 1))"

primrec path_value :: "permutation \<Rightarrow> node_map \<Rightarrow> nat \<Rightarrow> digest \<Rightarrow> nat \<Rightarrow> digest" where
  "path_value perm nodes p v 0 = v"
| "path_value perm nodes p v (Suc l) =
     (if odd (p div 2 ^ l) then state_node_hash perm (path_sibling nodes p l) (path_value perm nodes p v l)
      else state_node_hash perm (path_value perm nodes p v l) (path_sibling nodes p l))"

definition overlay :: "permutation \<Rightarrow> node_map \<Rightarrow> nat \<Rightarrow> digest \<Rightarrow> nat \<Rightarrow> node_map" where
  "overlay perm nodes p v level = (\<lambda>(l, i). if l \<le> level \<and> i = p div 2 ^ l then Some (path_value perm nodes p v l) else nodes (l, i))"

definition no_permutation :: permutation where "no_permutation s = s"

section \<open>Lemmas\<close>

subsection \<open>Traversals\<close>

lemma strict_sorted_parents: "sorted_wrt (<) (parents ps)" "set (parents ps) = (\<lambda>p. p div 2) ` set ps"
  by (simp_all add: parents_def)

lemma sorted_list_of_set_Cons:
  fixes q :: "'a::linorder"
  assumes "finite A" "q \<notin> A" "\<And>x. x \<in> A \<Longrightarrow> q \<le> x"
  shows "sorted_list_of_set (insert q A) = q # sorted_list_of_set A"
proof -
  have "Min (insert q A) = q" using assms by (intro Min_eqI) auto
  then show ?thesis using assms sorted_list_of_set_nonempty [of "insert q A"] by simp
qed

lemma visit_bases:
  "sorted ps \<Longrightarrow> snd (foldl (\<lambda>(processed, s) pos.
       let base = pos - pos mod 2
       in if base \<in> processed then (processed, s) else (insert base processed, f base s)) (P :: nat set, s) ps) =
     foldl (\<lambda>s q. f (2 * q) s) s (sorted_list_of_set {q \<in> (\<lambda>p. p div 2) ` set ps. 2 * q \<notin> P})"
proof (induction ps arbitrary: P s)
  case (Cons p ps)
  define q where "q = p div 2"
  have b: "p - p mod 2 = 2 * q" unfolding q_def by (simp add: minus_mod_eq_mult_div)
  have le: "q \<le> x div 2" if "x \<in> set ps" for x using Cons.prems that by (auto simp: q_def intro: div_le_mono)
  show ?case
  proof (cases "2 * q \<in> P")
    case True
    then have "{r \<in> (\<lambda>p. p div 2) ` set (p # ps). 2 * r \<notin> P} = {r \<in> (\<lambda>p. p div 2) ` set ps. 2 * r \<notin> P}"
      by (auto simp: q_def)
    then show ?thesis using Cons True by (simp add: b)
  next
    case False
    then have "{r \<in> (\<lambda>p. p div 2) ` set (p # ps). 2 * r \<notin> P} =
        insert q {r \<in> (\<lambda>p. p div 2) ` set ps. 2 * r \<notin> insert (2 * q) P}"
      by (auto simp: q_def)
    moreover have "sorted_list_of_set (insert q {r \<in> (\<lambda>p. p div 2) ` set ps. 2 * r \<notin> insert (2 * q) P}) =
        q # sorted_list_of_set {r \<in> (\<lambda>p. p div 2) ` set ps. 2 * r \<notin> insert (2 * q) P}"
      by (rule sorted_list_of_set_Cons) (auto intro: le)
    ultimately show ?thesis using Cons False by (simp add: b Let_def)
  qed
qed simp

lemma visit_parents_sorted: "sorted ps \<Longrightarrow> visit_parents f ps s = foldl (\<lambda>s q. f (2 * q) s) s (parents ps)"
  unfolding visit_parents_def by (subst visit_bases) (simp_all add: parents_def)

lemma bt_insert_last: "\<forall>x\<in>set m. fst x < k \<Longrightarrow> bt_insert k v m = m @ [(k, v)]"
  by (induction m) auto

lemma insort_insert_last: "\<forall>x\<in>set m. x < k \<Longrightarrow> insort_insert k m = m @ [k]" for k :: nat
  by (induction m) (auto simp: insort_insert_key_def split: if_splits)

lemma foldl_insort_parents:
  "sorted_wrt (<) qs \<Longrightarrow> \<forall>x\<in>set nxt. \<forall>q\<in>set qs. x < q \<Longrightarrow>
   foldl (\<lambda>(nxt, a) q. (insort_insert q nxt, g q a)) (nxt, a) qs = (nxt @ qs, foldl (\<lambda>a q. g q a) a qs)" for qs :: "nat list"
  by (induction qs arbitrary: nxt a) (auto simp: insort_insert_last)

lemma visit_insort_parents:
  assumes "sorted_wrt (<) ps"
  shows "visit_parents (\<lambda>base (nxt, a). (insort_insert (base div 2) nxt, g base a)) ps ([], a) =
    (parents ps, foldl (\<lambda>a q. g (2 * q) a) a (parents ps))"
  using foldl_insort_parents [OF strict_sorted_parents(1), of "[]" ps "\<lambda>q. g (2 * q)" a] strict_sorted_imp_sorted [OF assms]
  by (simp add: visit_parents_sorted case_prod_unfold)

lemma map_of_graph: "map_of (map (\<lambda>p. (p, V p)) ps) k = (if k \<in> set ps then Some (V k) else None)"
  by (induction ps) auto

lemma collect_sorted:
  assumes "sorted_wrt (<) (map fst es)"
  shows "collect_map es = es"
proof -
  have "sorted_wrt (<) (map fst (m @ es)) \<Longrightarrow> foldl (\<lambda>m (k, v). bt_insert k v m) m es = m @ es" for m
    by (induction es arbitrary: m) (auto simp: sorted_wrt_append bt_insert_last)
  then show ?thesis using assms by (simp add: collect_map_def)
qed

lemma missing_facts:
  assumes "p \<in> set (missing ps)"
  shows "p \<notin> set ps" "p div 2 \<in> set (parents ps)"
  using assms by (auto simp: missing_def missing_beside_def split: if_splits)

subsection \<open>Frontier coordinates\<close>

lemma count_parents:
  "foldl (\<lambda>found q. if (2 * q \<in> set ps) \<noteq> (2 * q + 1 \<in> set ps) then found + 1 else found) found qs =
     found + length (concat (map (missing_beside ps) qs))"
  by (induction qs arbitrary: found) (simp_all add: missing_beside_def)

lemma position_parents:
  "foldl (\<lambda>positions q.
        if 2 * q \<in> set ps \<and> 2 * q + 1 \<notin> set ps then positions @ [\<lparr>fp_level = level, fp_node_index = 2 * q + 1\<rparr>]
        else if 2 * q \<notin> set ps \<and> 2 * q + 1 \<in> set ps then positions @ [\<lparr>fp_level = level, fp_node_index = 2 * q\<rparr>]
        else positions) positions qs =
     positions @ map (\<lambda>p. \<lparr>fp_level = level, fp_node_index = p\<rparr>) (concat (map (missing_beside ps) qs))"
  by (induction qs arbitrary: positions) (simp_all add: missing_beside_def)

lemma count_levels_frontier: "sorted_wrt (<) ps \<Longrightarrow> count_levels n ps found = found + length (frontier n level ps)"
proof (induction n arbitrary: ps found level)
  case (Suc n)
  show ?case
    using Suc.IH [OF strict_sorted_parents(1), where level = "Suc level"]
    by (simp only: count_levels.simps visit_insort_parents [OF Suc.prems] Let_def prod.case count_parents)
      (simp add: missing_def)
qed simp

lemma position_levels_frontier: "sorted_wrt (<) ps \<Longrightarrow> position_levels n level ps positions = positions @ frontier n level ps"
proof (induction n arbitrary: ps positions level)
  case (Suc n)
  show ?case
    using Suc.IH [OF strict_sorted_parents(1)]
    by (simp only: position_levels.simps visit_insort_parents [OF Suc.prems] Let_def prod.case position_parents)
      (simp add: missing_def)
qed simp

subsection \<open>The validated indices\<close>

lemma validate_indices_step_Inr:
  "validate_indices_step depth (prev, out) i = Inr st \<longleftrightarrow>
     depth \<le> 32 \<and> unat i < 2 ^ depth \<and> (\<forall>p. prev = Some p \<longrightarrow> p < i) \<and> st = (Some i, insort_insert (unat i) out)"
  by (cases prev) (auto simp: validate_indices_step_def validate_index_def validate_depth_def)

lemma validate_indices_fold:
  "rfold (validate_indices_step depth) (prev, out) indices = Inr (final, out') \<longleftrightarrow>
     (indices = [] \<or> depth \<le> 32) \<and> (\<forall>i\<in>set indices. unat i < 2 ^ depth) \<and> sorted_wrt (<) indices \<and>
     (\<forall>p. prev = Some p \<longrightarrow> (\<forall>i\<in>set indices. p < i)) \<and>
     out' = foldl (\<lambda>out i. insort_insert (unat i) out) out indices \<and>
     final = (if indices = [] then prev else Some (List.last indices))"
proof (induction indices arbitrary: prev out)
  case (Cons i rest)
  show ?case by (simp add: rbind_eq_Inr validate_indices_step_Inr Cons.IH) (auto dest: less_trans)
qed auto

lemma foldl_insort_unat:
  "sorted_wrt (<) indices \<Longrightarrow> \<forall>x\<in>set out. \<forall>i\<in>set indices. x < unat i \<Longrightarrow>
   foldl (\<lambda>out i. insort_insert (unat i) out) out indices = out @ map unat indices" for indices :: "u32 list"
  by (induction indices arbitrary: out) (auto simp: insort_insert_last word_less_nat_alt)

lemma validate_indices_Inr:
  "validate_indices indices depth = Inr known \<longleftrightarrow>
     depth \<le> 32 \<and> indices \<noteq> [] \<and> (\<forall>i\<in>set indices. unat i < 2 ^ depth) \<and> sorted_wrt (<) indices \<and> known = map unat indices"
proof -
  have "rfold (validate_indices_step depth) (None, []) indices = Inr (final, out) \<longleftrightarrow>
     (indices = [] \<or> depth \<le> 32) \<and> (\<forall>i\<in>set indices. unat i < 2 ^ depth) \<and> sorted_wrt (<) indices \<and>
     out = map unat indices \<and> final = (if indices = [] then None else Some (List.last indices))" for final out
    unfolding validate_indices_fold by (auto simp: foldl_insort_unat)
  then show ?thesis
    by (auto simp: validate_indices_def validate_depth_def rbind_eq_Inr split: if_splits)
qed

lemma sorted_unat: "sorted_wrt (<) indices \<Longrightarrow> sorted_wrt (<) (map unat indices)" for indices :: "u32 list"
  by (simp add: sorted_wrt_map word_less_nat_alt [abs_def])

subsection \<open>The sparse cache holds the complete tree\<close>

lemma tree_node_cong: "(\<And>j. j div 2 ^ level = i \<Longrightarrow> f j = g j) \<Longrightarrow> tree_node perm f level i = tree_node perm g level i"
proof (induction level arbitrary: i)
  case (Suc level)
  have "tree_node perm f level k = tree_node perm g level k" if "k div 2 = i" for k
    by (rule Suc.IH, rule Suc.prems) (use that in \<open>auto simp: div_mult2_eq power_Suc2 simp del: power_Suc\<close>)
  then show ?case by simp
qed simp

lemma tree_node_upd: "idx div 2 ^ level \<noteq> i \<Longrightarrow> tree_node perm (f(idx := v)) level i = tree_node perm f level i"
  by (rule tree_node_cong) auto

lemma length_zero_slot_roots: "length (zero_slot_roots perm depth) = Suc depth"
  by (induction depth) (simp_all add: Let_def)

lemma zero_slot_roots_nth:
  "level \<le> depth \<Longrightarrow> zero_slot_roots perm depth ! level = tree_node perm (\<lambda>_. slot_leaf_hash perm SLOT_EMPTY) level i"
proof (induction depth arbitrary: level i)
  case (Suc depth)
  show ?case
  proof (cases "level = Suc depth")
    case True
    then show ?thesis
      using Suc.IH [of depth "2 * i"] Suc.IH [of depth "2 * i + 1"]
      by (simp add: Let_def nth_append length_zero_slot_roots)
  next
    case False
    then show ?thesis using Suc by (simp add: Let_def nth_append length_zero_slot_roots)
  qed
qed simp

lemma node_hash_set_node: "node_hash (set_node l i h c) l' i' = (if l' = l \<and> i' = i then h else node_hash c l' i')"
  by (auto simp: node_hash_def set_node_def split: option.splits)

lemma set_node_depth: "sc_depth (set_node l i h c) = sc_depth c"
  by (simp add: set_node_def)

lemma set_path_depth: "sc_depth (set_path perm n level idx h c) = sc_depth c"
  by (induction n arbitrary: level idx h c) (simp_all add: Let_def set_node_depth)

lemma path_hash:
  assumes "\<And>i. i div 2 = idx div 2 \<Longrightarrow> node_hash c level i = tree_node perm f level i" "h = tree_node perm f level idx"
  shows "(let sibling_idx = xor idx 1; base = idx - idx mod 2;
              (left, right) = (if idx = base then (h, node_hash c level sibling_idx) else (node_hash c level sibling_idx, h))
          in state_node_hash perm left right) = tree_node perm f (Suc level) (idx div 2)"
proof (cases "even idx")
  case True
  then obtain q where q: "idx = 2 * q" by blast
  show ?thesis using assms(1) [of "2 * q + 1"] assms(2) unfolding q by (simp add: xor_Suc_0_eq Let_def)
next
  case False
  then obtain q where q: "idx = 2 * q + 1" by (auto elim: oddE)
  show ?thesis using assms(1) [of "2 * q"] assms(2) unfolding q by (simp add: xor_Suc_0_eq Let_def)
qed

lemma set_path_tree:
  assumes "level + n = sc_depth c" "idx0 div 2 ^ level = idx" "idx < 2 ^ n" "h = tree_node perm (f(idx0 := v)) level idx"
    and "\<And>l i. l \<le> sc_depth c \<Longrightarrow> i < 2 ^ (sc_depth c - l) \<Longrightarrow>
      node_hash c l i = (if l \<le> level then tree_node perm (f(idx0 := v)) l i else tree_node perm f l i)"
    and "l \<le> sc_depth c" "i < 2 ^ (sc_depth c - l)"
  shows "node_hash (set_path perm n level idx h c) l i = tree_node perm (f(idx0 := v)) l i"
  using assms
proof (induction n arbitrary: level idx h c)
  case (Suc n)
  let ?f = "f(idx0 := v)" let ?h = "tree_node perm ?f (Suc level) (idx div 2)"
  let ?c = "set_node (Suc level) (idx div 2) ?h c"
  have idx: "idx div 2 < 2 ^ n" using Suc.prems(3) by auto
  have div: "idx0 div 2 ^ Suc level = idx div 2"
    using Suc.prems(2) by (simp add: div_mult2_eq power_Suc2 del: power_Suc)
  have step: "set_path perm (Suc n) level idx h c = set_path perm n (Suc level) (idx div 2) ?h ?c"
  proof -
    have "(let sibling_idx = xor idx 1; base = idx - idx mod 2;
              (left, right) = (if idx = base then (h, node_hash c level sibling_idx) else (node_hash c level sibling_idx, h))
          in state_node_hash perm left right) = ?h"
    proof (rule path_hash)
      fix k assume "k div 2 = idx div 2"
      then have "k < 2 ^ Suc n" using idx by auto
      moreover have "2 ^ (sc_depth c - level) = (2 :: nat) ^ Suc n" using Suc.prems(1) by (metis add_diff_cancel_left')
      ultimately show "node_hash c level k = tree_node perm ?f level k" using Suc.prems(1,5) by simp
    qed (rule Suc.prems(4))
    moreover have "(idx - idx mod 2) div 2 = idx div 2" by (simp add: minus_mod_eq_mult_div)
    ultimately show ?thesis by (simp add: Let_def case_prod_unfold)
  qed
  show ?case unfolding step
  proof (rule Suc.IH)
    fix l i :: nat assume "l \<le> sc_depth ?c" "i < 2 ^ (sc_depth ?c - l)"
    then have "node_hash c l i = (if l \<le> level then tree_node perm ?f l i else tree_node perm f l i)"
      using Suc.prems(5) by (simp add: set_node_depth)
    then show "node_hash ?c l i = (if l \<le> Suc level then tree_node perm ?f l i else tree_node perm f l i)"
      using div by (auto simp: node_hash_set_node le_Suc_eq tree_node_upd simp del: tree_node.simps)
  qed (use Suc.prems idx div in \<open>simp_all add: set_node_depth fun_upd_def del: tree_node.simps\<close>)
qed simp

lemma set_leaf_ok:
  assumes "cache_ok perm c f" "unat index < 2 ^ sc_depth c"
  obtains c' where "set_leaf perm index v c = Inr c'" "cache_ok perm c' (f(unat index := v))" "sc_depth c' = sc_depth c"
proof
  let ?c = "set_node 0 (unat index) v c"
  let ?r = "set_path perm (sc_depth c) 0 (unat index) v ?c"
  have d: "sc_depth c \<le> 32" and n: "\<And>l i. l \<le> sc_depth c \<Longrightarrow> i < 2 ^ (sc_depth c - l) \<Longrightarrow> node_hash c l i = tree_node perm f l i"
    using assms(1) by (auto simp: cache_ok_def)
  show "set_leaf perm index v c = Inr ?r"
    using assms(2) d by (simp add: set_leaf_def validate_index_def validate_depth_def)
  have "node_hash ?r l i = tree_node perm (f(unat index := v)) l i" if "l \<le> sc_depth c" "i < 2 ^ (sc_depth c - l)" for l i
  proof (rule set_path_tree)
    fix l i :: nat assume "l \<le> sc_depth ?c" "i < 2 ^ (sc_depth ?c - l)"
    then show "node_hash ?c l i = (if l \<le> 0 then tree_node perm (f(unat index := v)) l i else tree_node perm f l i)"
      using n [of l i] by (auto simp: set_node_depth node_hash_set_node)
  qed (use assms(2) that in \<open>simp_all add: set_node_depth\<close>)
  then show "cache_ok perm ?r (f(unat index := v))"
    using d by (simp add: cache_ok_def set_path_depth set_node_depth)
  show "sc_depth ?r = sc_depth c" by (simp add: set_path_depth set_node_depth)
qed

lemma cache_new_ok:
  assumes "depth \<le> 32"
  obtains c where "cache_new perm depth = Inr c" "cache_ok perm c (\<lambda>_. slot_leaf_hash perm SLOT_EMPTY)" "sc_depth c = depth"
  using assms by (simp add: cache_new_def validate_depth_def cache_ok_def node_hash_def zero_slot_roots_nth)

lemma set_leaves_ok:
  assumes "cache_ok perm c f" "\<forall>(index, v) \<in> set leaves. unat index < 2 ^ sc_depth c"
  shows "\<exists>c'. rfold (\<lambda>c (index, leaf). set_leaf perm index leaf c) c leaves = Inr c' \<and> sc_depth c' = sc_depth c \<and>
    cache_ok perm c' (foldl (\<lambda>f (index, v). f(unat index := v)) f leaves)"
  using assms
proof (induction leaves arbitrary: c f)
  case (Cons e leaves)
  obtain index v where e: "e = (index, v)" by (cases e)
  obtain c' where c': "set_leaf perm index v c = Inr c'" "cache_ok perm c' (f(unat index := v))" "sc_depth c' = sc_depth c"
    using Cons.prems set_leaf_ok [of perm c f index v] by (auto simp: e)
  then show ?case using Cons.IH [OF c'(2)] Cons.prems by (simp add: e)
qed simp

lemma from_leaves_ok:
  assumes "depth \<le> 32" "\<forall>(index, v) \<in> set leaves. unat index < 2 ^ depth"
  shows "\<exists>c. from_leaves perm depth leaves = Inr c \<and> sc_depth c = depth \<and>
    cache_ok perm c (foldl (\<lambda>f (index, v). f(unat index := v)) (\<lambda>_. slot_leaf_hash perm SLOT_EMPTY) leaves)"
proof -
  obtain c where c: "cache_new perm depth = Inr c" "cache_ok perm c (\<lambda>_. slot_leaf_hash perm SLOT_EMPTY)" "sc_depth c = depth"
    using cache_new_ok [OF assms(1)] .
  then show ?thesis using set_leaves_ok [OF c(2)] assms(2) by (simp add: from_leaves_def)
qed

lemma cache_ok_root: "cache_ok perm c f \<Longrightarrow> cache_root c = tree_node perm f (sc_depth c) 0"
  by (simp add: cache_ok_def cache_root_def)

subsection \<open>Reconstruction from a multiproof\<close>

lemma drop_append_eq: "drop k xs = ys @ zs \<Longrightarrow> drop (k + length ys) xs = zs"
  by (metis add.commute append_eq_conv_conj drop_drop)

lemma drop_Cons_nth: "drop k xs = y # ys \<Longrightarrow> xs ! k = y"
  by (metis drop_eq_Nil2 hd_drop_conv_nth linorder_not_le list.distinct(1) list.sel(1))

lemma reconstruct_parents:
  assumes "sorted_wrt (<) qs" "\<forall>x\<in>set nxt. \<forall>q\<in>set qs. fst x < q" "\<forall>q\<in>set qs. 2 * q \<in> set ps \<or> 2 * q + 1 \<in> set ps"
    and "drop cursor siblings = map V (concat (map (missing_beside ps) qs)) @ rest"
  shows "foldl (\<lambda>s q. reconstruct_parent perm siblings (map (\<lambda>p. (p, V p)) ps) (2 * q) s) (nxt, cursor) qs =
     (nxt @ map (\<lambda>q. (q, state_node_hash perm (V (2 * q)) (V (2 * q + 1)))) qs,
      cursor + length (concat (map (missing_beside ps) qs)))"
  using assms
proof (induction qs arbitrary: nxt cursor)
  case (Cons q qs)
  let ?m = "missing_beside ps q" let ?r = "concat (map (missing_beside ps) qs)"
  have here: "drop cursor siblings = map V ?m @ map V ?r @ rest" using Cons.prems(4) by simp
  have later: "drop (cursor + length ?m) siblings = map V ?r @ rest" using drop_append_eq [OF here] by simp
  have "reconstruct_parent perm siblings (map (\<lambda>p. (p, V p)) ps) (2 * q) (nxt, cursor) =
      (nxt @ [(q, state_node_hash perm (V (2 * q)) (V (2 * q + 1)))], cursor + length ?m)"
    using Cons.prems(2,3) here
    by (auto simp: reconstruct_parent_def map_of_graph bt_insert_last missing_beside_def dest!: drop_Cons_nth split: if_splits)
  moreover have "\<forall>x\<in>set (nxt @ [(q, state_node_hash perm (V (2 * q)) (V (2 * q + 1)))]). \<forall>q\<in>set qs. fst x < q"
    using Cons.prems(1,2) by auto
  ultimately show ?case using Cons.IH [OF _ _ _ later] Cons.prems(1,3) by simp
qed simp

lemma touched_Suc: "touched P (Suc l) = (\<lambda>p. p div 2) ` touched P l"
  by (simp add: touched_def image_image div_mult2_eq power_Suc2 del: power_Suc)

lemma touched_parent: "p \<in> P \<Longrightarrow> p div 2 ^ l div 2 \<in> touched P (Suc l)"
  by (simp only: touched_Suc) (rule imageI, simp add: touched_def)

lemma consistentE:
  assumes "consistent perm lo hi P nodes" "lo \<le> l" "l < hi" "q \<in> touched P (Suc l)"
  obtains a b where "nodes (l, 2 * q) = Some a" "nodes (l, 2 * q + 1) = Some b" "nodes (Suc l, q) = Some (state_node_hash perm a b)"
  using assms unfolding consistent_def by blast

lemma consistent_empty: "consistent perm l l P nodes"
  unfolding consistent_def by auto

lemma touched_child: "q \<in> touched P (Suc l) \<Longrightarrow> 2 * q \<in> touched P l \<or> 2 * q + 1 \<in> touched P l"
proof -
  assume "q \<in> touched P (Suc l)"
  then obtain p where "p \<in> touched P l" "q = p div 2" by (auto simp: touched_Suc)
  moreover have "p = 2 * (p div 2) \<or> p = 2 * (p div 2) + 1" by presburger
  ultimately show ?thesis by metis
qed

lemma reconstruct_levels_nodes:
  assumes "consistent perm level (level + n) P N" "sorted_wrt (<) ps" "set ps = touched P level"
    and "drop cursor siblings = map (\<lambda>pos. the (N (fp_level pos, fp_node_index pos))) (frontier n level ps)"
  shows "reconstruct_levels perm siblings n (map (\<lambda>p. (p, the (N (level, p)))) ps) cursor =
    map (\<lambda>p. (p, the (N (level + n, p)))) ((parents ^^ n) ps)"
  using assms
proof (induction n arbitrary: level ps cursor)
  case (Suc n)
  let ?m = "missing ps" let ?V = "\<lambda>p. the (N (level, p))"
  let ?rest = "map (\<lambda>pos. the (N (fp_level pos, fp_node_index pos))) (frontier n (Suc level) (parents ps))"
  have par: "set (parents ps) = touched P (Suc level)" by (simp add: strict_sorted_parents touched_Suc Suc.prems(3))
  have here: "drop cursor siblings = map ?V ?m @ ?rest" using Suc.prems(4) by (simp add: comp_def)
  have later: "drop (cursor + length ?m) siblings = ?rest" using drop_append_eq [OF here] by simp
  have side: "2 * q \<in> set ps \<or> 2 * q + 1 \<in> set ps" if "q \<in> set (parents ps)" for q
    using touched_child that par Suc.prems(3) by auto
  have "state_node_hash perm (?V (2 * q)) (?V (2 * q + 1)) = the (N (Suc level, q))" if "q \<in> set (parents ps)" for q
    using consistentE [OF Suc.prems(1), of level q] that par by force
  then have "visit_parents (reconstruct_parent perm siblings (map (\<lambda>p. (p, ?V p)) ps)) ps ([], cursor) =
      (map (\<lambda>p. (p, the (N (Suc level, p)))) (parents ps), cursor + length ?m)"
    using reconstruct_parents [OF strict_sorted_parents(1), where nxt = "[]" and perm = perm and V = ?V and ps = ps] side here
    by (simp add: visit_parents_sorted strict_sorted_imp_sorted Suc.prems(2) missing_def)
  moreover have "consistent perm (Suc level) (Suc level + n) P N" using Suc.prems(1) by (auto simp: consistent_def)
  ultimately show ?case
    using Suc.IH [OF _ strict_sorted_parents(1) par later] by (simp add: comp_def funpow_swap1)
qed simp

lemma reconstruct_levels_tree:
  assumes "sorted_wrt (<) ps" "drop cursor siblings = map (\<lambda>pos. tree_node perm f (fp_level pos) (fp_node_index pos)) (frontier n level ps)"
  shows "reconstruct_levels perm siblings n (map (\<lambda>p. (p, tree_node perm f level p)) ps) cursor =
    map (\<lambda>p. (p, tree_node perm f (level + n) p)) ((parents ^^ n) ps)"
proof -
  let ?N = "\<lambda>(l, i). Some (tree_node perm f l i)" let ?P = "(\<lambda>p. p * 2 ^ level) ` set ps"
  have "set ps = touched ?P level" by (simp add: touched_def image_image)
  moreover have "consistent perm level (level + n) ?P ?N" by (simp add: consistent_def)
  ultimately show ?thesis using reconstruct_levels_nodes [of perm level n ?P ?N ps cursor siblings] assms by simp
qed

lemma tree_node_frontier:
  assumes "\<And>j. f j \<noteq> g j \<Longrightarrow> j div 2 ^ level \<in> set ps" "pos \<in> set (frontier n level ps)"
  shows "tree_node perm f (fp_level pos) (fp_node_index pos) = tree_node perm g (fp_level pos) (fp_node_index pos)"
  using assms
proof (induction n arbitrary: level ps)
  case (Suc n)
  from Suc.prems(2) consider p where "p \<in> set (missing ps)" "pos = \<lparr>fp_level = level, fp_node_index = p\<rparr>"
    | "pos \<in> set (frontier n (Suc level) (parents ps))" by auto
  then show ?case
  proof cases
    case 1
    then have "tree_node perm f level p = tree_node perm g level p"
      using Suc.prems(1) missing_facts(1) by (intro tree_node_cong) blast
    then show ?thesis using 1 by simp
  next
    case 2
    have "j div 2 ^ Suc level \<in> set (parents ps)" if "f j \<noteq> g j" for j
      using Suc.prems(1) [OF that] by (auto simp: strict_sorted_parents div_mult2_eq power_Suc2 simp del: power_Suc)
    then show ?thesis using Suc.IH 2 by blast
  qed
qed simp

lemma frontier_bounds:
  assumes "\<forall>p\<in>set ps. p < 2 ^ n" "pos \<in> set (frontier n level ps)"
  shows "fp_level pos < level + n \<and> fp_node_index pos < 2 ^ (level + n - fp_level pos)"
  using assms
proof (induction n arbitrary: level ps)
  case (Suc n)
  from Suc.prems(2) consider p where "p \<in> set (missing ps)" "pos = \<lparr>fp_level = level, fp_node_index = p\<rparr>"
    | "pos \<in> set (frontier n (Suc level) (parents ps))" by auto
  moreover have q: "\<forall>q\<in>set (parents ps). q < 2 ^ n" using Suc.prems(1) by (auto simp: strict_sorted_parents)
  ultimately show ?case
  proof cases
    case 1
    then have "p div 2 < 2 ^ n" using missing_facts(2) q by blast
    then show ?thesis using 1 by auto
  qed (use Suc.IH q in fastforce)
qed simp

lemma parents_root:
  assumes "\<forall>p\<in>set ps. p < 2 ^ n" "ps \<noteq> []" "sorted_wrt (<) ps"
  shows "(parents ^^ n) ps = [0]"
  using assms
proof (induction n arbitrary: ps)
  case 0
  then show ?case by (cases ps; cases "tl ps") auto
next
  case (Suc n)
  have "parents ps \<noteq> []" using Suc.prems(2) strict_sorted_parents(2) [of ps] by fastforce
  moreover have "\<forall>p\<in>set (parents ps). p < 2 ^ n" using Suc.prems(1) by (auto simp: strict_sorted_parents)
  ultimately show ?case using Suc.IH strict_sorted_parents(1) by (simp add: funpow_swap1)
qed

lemma update_leaves_Cons: "update_leaves (i # is) (v # vs) f = update_leaves is vs (f(unat i := v))"
  by (simp add: update_leaves_def)

lemma update_leaves_other: "j \<notin> unat ` set indices \<Longrightarrow> update_leaves indices leaves f j = f j"
  by (induction indices leaves arbitrary: f rule: list_induct2') (auto simp: update_leaves_def)

lemma update_leaves_zip:
  assumes "length leaves = length indices" "sorted_wrt (<) indices"
  shows "zip (map unat indices) leaves = map (\<lambda>p. (p, update_leaves indices leaves f p)) (map unat indices)"
  using assms
proof (induction leaves indices arbitrary: f rule: list_induct2)
  case (Cons v vs i rest)
  have "unat i \<notin> unat ` set rest" using Cons.prems by (auto simp: word_less_nat_alt)
  then show ?case using Cons.IH [of "f(unat i := v)"] Cons.prems by (simp add: update_leaves_Cons update_leaves_other fun_upd_def)
qed simp

lemma collect_zip:
  fixes indices :: "u32 list"
  assumes "sorted_wrt (<) indices"
  shows "collect_map (map (\<lambda>(index, leaf). (unat index, leaf)) (zip indices leaves)) = zip (map unat indices) leaves"
proof -
  have "map (\<lambda>(index, leaf). (unat index, leaf)) (zip indices leaves) = zip (map unat indices) leaves"
    by (simp add: zip_map1)
  moreover have "sorted_wrt (<) (map fst (zip (map unat indices) leaves))"
    using sorted_unat [OF assms] sorted_wrt_take by (auto simp: map_fst_zip_take)
  ultimately show ?thesis by (simp add: collect_sorted)
qed

lemma validated_sorted: "validate_indices indices depth = Inr ps \<Longrightarrow> sorted_wrt (<) ps"
  using sorted_unat by (auto simp: validate_indices_Inr)

lemma expected_sibling_count_frontier:
  "validate_indices indices depth = Inr ps \<Longrightarrow> expected_sibling_count indices depth = Inr (length (frontier depth 0 ps))"
  using count_levels_frontier [OF validated_sorted, of indices depth ps depth 0 0] by (simp add: expected_sibling_count_def)

lemma frontier_sibling_positions_frontier:
  "validate_indices indices depth = Inr ps \<Longrightarrow> frontier_sibling_positions indices depth = Inr (frontier depth 0 ps)"
  using position_levels_frontier [OF validated_sorted, of indices depth ps depth 0 "[]"] by (simp add: frontier_sibling_positions_def)

lemma build_multiproof_tree:
  assumes "cache_ok perm c f" "validate_indices indices (sc_depth c) = Inr ps"
  shows "build_multiproof c indices (sc_depth c) =
    Inr (map (\<lambda>pos. tree_node perm f (fp_level pos) (fp_node_index pos)) (frontier (sc_depth c) 0 ps))"
proof -
  have "\<forall>p\<in>set ps. p < 2 ^ sc_depth c" using assms(2) by (auto simp: validate_indices_Inr)
  then have "node_hash c (fp_level pos) (fp_node_index pos) = tree_node perm f (fp_level pos) (fp_node_index pos)"
    if "pos \<in> set (frontier (sc_depth c) 0 ps)" for pos
    using frontier_bounds [OF _ that] assms(1) by (auto simp: cache_ok_def)
  then show ?thesis by (simp add: build_multiproof_def frontier_sibling_positions_frontier [OF assms(2)])
qed

lemma reconstruct_root_tree:
  assumes "validate_indices indices depth = Inr ps" "length leaves = length indices"
    and "siblings = map (\<lambda>pos. tree_node perm f (fp_level pos) (fp_node_index pos)) (frontier depth 0 ps)"
  shows "reconstruct_root perm indices leaves siblings depth = Inr (tree_node perm (update_leaves indices leaves f) depth 0)"
proof -
  let ?f = "update_leaves indices leaves f"
  have ps: "ps = map unat indices" "sorted_wrt (<) indices" "ps \<noteq> []" "\<forall>p\<in>set ps. p < 2 ^ depth"
    using assms(1) by (auto simp: validate_indices_Inr)
  have sorted: "sorted_wrt (<) ps" using sorted_unat [OF ps(2)] by (simp add: ps(1))
  have "siblings = map (\<lambda>pos. tree_node perm ?f (fp_level pos) (fp_node_index pos)) (frontier depth 0 ps)"
  proof -
    have "j div 2 ^ 0 \<in> set ps" if "f j \<noteq> ?f j" for j
      using that update_leaves_other [of j indices leaves f] by (auto simp: ps(1))
    then show ?thesis unfolding assms(3) using tree_node_frontier [of f ?f 0 ps] by (intro map_cong) blast+
  qed
  then have "reconstruct_levels perm siblings depth (map (\<lambda>p. (p, tree_node perm ?f 0 p)) ps) 0 = [(0, tree_node perm ?f depth 0)]"
    using reconstruct_levels_tree [OF sorted, of 0 siblings perm ?f depth 0] parents_root [OF ps(4,3) sorted] by simp
  moreover have "collect_map (map (\<lambda>(index, leaf). (unat index, leaf)) (zip indices leaves)) = map (\<lambda>p. (p, ?f p)) ps"
    using collect_zip [OF ps(2)] update_leaves_zip [OF assms(2) ps(2)] by (simp add: ps(1))
  ultimately show ?thesis
    using assms by (simp add: reconstruct_root_def expected_sibling_count_frontier)
qed

subsection \<open>Structural plans\<close>

lemma structural_node_hash_stable:
  "(\<And>k. r = Combine k \<Longrightarrow> k < length hs) \<Longrightarrow> structural_node_hash r leaves siblings (hs @ hs') = structural_node_hash r leaves siblings hs"
  by (cases r) (auto simp: nth_append)

lemma run_combines_snoc:
  "run_combines perm (cs @ [c]) leaves siblings =
     (let hs = run_combines perm cs leaves siblings
      in hs @ [state_node_hash perm (structural_node_hash (co_left c) leaves siblings hs)
           (structural_node_hash (co_right c) leaves siblings hs)])"
  by (simp add: run_combines_def Let_def)

lemma length_run_combines: "length (run_combines perm cs leaves siblings) = length cs"
  by (induction cs rule: rev_induct) (simp_all add: run_combines_def Let_def)

lemma visit_parents_sim:
  assumes "R s t" "\<And>base s t. base \<in> (\<lambda>p. p - p mod 2) ` set ps \<Longrightarrow> R s t \<Longrightarrow> R (f base s) (g base t)"
  shows "R (visit_parents f ps s) (visit_parents g ps t)"
proof -
  have "R (snd (foldl (\<lambda>(processed, s) pos. let base = pos - pos mod 2
             in if base \<in> processed then (processed, s) else (insert base processed, f base s)) (P, s) ps))
          (snd (foldl (\<lambda>(processed, s) pos. let base = pos - pos mod 2
             in if base \<in> processed then (processed, s) else (insert base processed, g base s)) (P, t) ps))" for P
    using assms by (induction ps arbitrary: P s t) (simp_all add: Let_def)
  then show ?thesis by (simp add: visit_parents_def)
qed

lemma bt_insert_map: "bt_insert k (h v) (map (\<lambda>(p, r). (p, h r)) m) = map (\<lambda>(p, r). (p, h r)) (bt_insert k v m)"
  by (induction m) auto

lemma set_bt_insert: "e \<in> set (bt_insert k v m) \<Longrightarrow> e = (k, v) \<or> e \<in> set m"
  by (induction k v m rule: bt_insert.induct) (auto split: if_splits)

lemma run_combines_append: "\<exists>hs. run_combines perm (cs @ extra) leaves siblings = run_combines perm cs leaves siblings @ hs"
proof (induction extra rule: rev_induct)
  case (snoc c extra)
  then show ?case using run_combines_snoc [of perm "cs @ extra" c leaves siblings] by (auto simp: Let_def)
qed simp

lemma eval_append:
  assumes "\<And>k. r = Combine k \<Longrightarrow> k < length cs"
  shows "structural_node_hash r leaves siblings (run_combines perm (cs @ extra) leaves siblings) =
    structural_node_hash r leaves siblings (run_combines perm cs leaves siblings)"
proof -
  obtain hs where "run_combines perm (cs @ extra) leaves siblings = run_combines perm cs leaves siblings @ hs"
    using run_combines_append by blast
  then show ?thesis using assms by (simp add: structural_node_hash_stable length_run_combines)
qed

lemma plan_sim_extend:
  assumes "plan_sim perm leaves siblings (nxt, cursor) (refs, positions, combines)"
    and "length positions' = cursor'"
  shows "plan_sim perm leaves siblings
     (bt_insert k (state_node_hash perm (structural_node_hash l leaves siblings (run_combines perm combines leaves siblings))
        (structural_node_hash r leaves siblings (run_combines perm combines leaves siblings))) nxt, cursor')
     (bt_insert k (Combine (length combines)) refs, positions', combines @ [\<lparr>co_left = l, co_right = r\<rparr>])"
proof -
  let ?cs = "combines @ [\<lparr>co_left = l, co_right = r\<rparr>]"
  let ?eval = "\<lambda>r. structural_node_hash r leaves siblings (run_combines perm ?cs leaves siblings)"
  have "nxt = map (\<lambda>(p, r). (p, ?eval r)) refs"
    using assms(1) by (auto simp: plan_sim_def eval_append)
  moreover have "state_node_hash perm (structural_node_hash l leaves siblings (run_combines perm combines leaves siblings))
        (structural_node_hash r leaves siblings (run_combines perm combines leaves siblings)) = ?eval (Combine (length combines))"
    by (simp add: run_combines_snoc Let_def nth_append length_run_combines)
  ultimately have "bt_insert k (state_node_hash perm (structural_node_hash l leaves siblings (run_combines perm combines leaves siblings))
        (structural_node_hash r leaves siblings (run_combines perm combines leaves siblings))) nxt =
      map (\<lambda>(p, r). (p, ?eval r)) (bt_insert k (Combine (length combines)) refs)"
    using bt_insert_map [of k ?eval] by metis
  then show ?thesis
    using assms by (fastforce simp: plan_sim_def dest!: set_bt_insert)
qed

lemma plan_parent_sim:
  assumes known: "plan_sim perm leaves siblings (known, c0) (refs, pos0, combines0)"
    and "plan_sim perm leaves siblings (nxt, cursor) (nrefs, positions, combines0 @ extra)"
  obtains extra' where
    "plan_sim perm leaves siblings (reconstruct_parent perm siblings known base (nxt, cursor))
       (plan_parent level refs base (nrefs, positions, combines0 @ extra))"
    "snd (snd (plan_parent level refs base (nrefs, positions, combines0 @ extra))) = combines0 @ extra'"
proof -
  let ?eval = "\<lambda>r. structural_node_hash r leaves siblings (run_combines perm (combines0 @ extra) leaves siblings)"
  have "known = map (\<lambda>(p, r). (p, ?eval r)) refs"
    using known by (auto simp: plan_sim_def eval_append)
  then have lookup: "map_of known b = map_option ?eval (map_of refs b)" for b by (simp add: map_of_map)
  have cursor: "cursor = length positions" using assms(2) by (simp add: plan_sim_def)
  have sib: "siblings ! length positions = ?eval (FrontierSibling (length positions))" by simp
  note ext = plan_sim_extend [OF assms(2)]
  show thesis
  proof (cases "map_of refs base"; cases "map_of refs (base + 1)")
    assume "map_of refs base = None" "map_of refs (base + 1) = None"
    then show thesis using that [of extra] assms(2) by (simp add: reconstruct_parent_def plan_parent_def lookup Let_def)
  next
    fix l assume "map_of refs base = Some l" "map_of refs (base + 1) = None"
    then show thesis
      using that [of "extra @ [\<lparr>co_left = l, co_right = FrontierSibling (length positions)\<rparr>]"]
        ext [where l = l and r = "FrontierSibling (length positions)"]
      by (simp add: reconstruct_parent_def plan_parent_def lookup Let_def cursor)
  next
    fix r assume "map_of refs base = None" "map_of refs (base + 1) = Some r"
    then show thesis
      using that [of "extra @ [\<lparr>co_left = FrontierSibling (length positions), co_right = r\<rparr>]"]
        ext [where l = "FrontierSibling (length positions)" and r = r]
      by (simp add: reconstruct_parent_def plan_parent_def lookup Let_def cursor)
  next
    fix l r assume "map_of refs base = Some l" "map_of refs (base + 1) = Some r"
    then show thesis
      using that [of "extra @ [\<lparr>co_left = l, co_right = r\<rparr>]"] ext [where l = l and r = r]
      by (simp add: reconstruct_parent_def plan_parent_def lookup Let_def cursor)
  qed
qed

lemma map_fst_sim: "plan_sim perm leaves siblings (known, c) (refs, positions, combines) \<Longrightarrow> map fst known = map fst refs"
  by (auto simp: plan_sim_def)

lemma plan_levels_sim:
  assumes "plan_sim perm leaves siblings (known, cursor) (refs, positions, combines)"
  shows "\<exists>cursor'. plan_sim perm leaves siblings (reconstruct_levels perm siblings n known cursor, cursor')
    (plan_levels n level (refs, positions, combines))"
  using assms
proof (induction n arbitrary: level known cursor refs positions combines)
  case (Suc n)
  let ?R = "\<lambda>s t. plan_sim perm leaves siblings s t \<and> (\<exists>extra. snd (snd t) = combines @ extra)"
  have "?R (visit_parents (reconstruct_parent perm siblings known) (map fst known) ([], cursor))
    (visit_parents (plan_parent level refs) (map fst known) ([], positions, combines))"
  proof (rule visit_parents_sim [where R = ?R])
    show "?R ([], cursor) ([], positions, combines)" using Suc.prems by (simp add: plan_sim_def)
    fix base s t assume R: "?R s t"
    obtain nxt c where s: "s = (nxt, c)" by (cases s)
    obtain nrefs p extra where t: "t = (nrefs, p, combines @ extra)" using R by (cases t) auto
    show "?R (reconstruct_parent perm siblings known base s) (plan_parent level refs base t)"
      using plan_parent_sim [OF Suc.prems] R unfolding s t by (metis (no_types, lifting))
  qed
  moreover obtain known' cursor' where s: "visit_parents (reconstruct_parent perm siblings known) (map fst known) ([], cursor) = (known', cursor')"
    by fastforce
  moreover obtain refs' positions' combines' where t:
    "visit_parents (plan_parent level refs) (map fst known) ([], positions, combines) = (refs', positions', combines')"
    by (metis prod_cases3)
  ultimately show ?case
    using Suc.IH [of known' cursor' refs' positions' combines' "level + 1"] map_fst_sim [OF Suc.prems] by simp
qed (auto simp: plan_sim_def)

lemma map_fst_bt_insert: "sorted_wrt (<) (map fst m) \<Longrightarrow> map fst (bt_insert k v m) = insort_insert k (map fst m)"
proof (induction m)
  case (Cons e m)
  obtain k' v' where e: "e = (k', v')" by (cases e)
  have "k' \<notin> fst ` set m" "k < k' \<Longrightarrow> k \<notin> fst ` set m" using Cons.prems by (auto simp: e)
  then show ?case using Cons by (simp add: e insort_insert_key_def)
qed (simp add: insort_insert_key_def)

lemma strict_sorted_insort_insert: "sorted_wrt (<) ks \<Longrightarrow> sorted_wrt (<) (insort_insert k ks)" for k :: nat
  by (auto simp: strict_sorted_iff sorted_insort_insert distinct_insort_insert)

lemma plan_parent_positions:
  assumes "sorted_wrt (<) (map fst nrefs)" "base \<in> (\<lambda>p. p - p mod 2) ` set (map fst refs)"
  shows "map fst (fst (plan_parent level refs base (nrefs, positions, combines))) = insort_insert (base div 2) (map fst nrefs)"
    "fst (snd (plan_parent level refs base (nrefs, positions, combines))) =
       (if base \<in> set (map fst refs) \<and> base + 1 \<notin> set (map fst refs) then positions @ [\<lparr>fp_level = level, fp_node_index = base + 1\<rparr>]
        else if base \<notin> set (map fst refs) \<and> base + 1 \<in> set (map fst refs) then positions @ [\<lparr>fp_level = level, fp_node_index = base\<rparr>]
        else positions)"
proof -
  have keyset: "k \<in> set (map fst refs) \<longleftrightarrow> map_of refs k \<noteq> None" for k by (simp add: map_of_eq_None_iff)
  obtain p where p: "p \<in> set (map fst refs)" "base = p - p mod 2" using assms(2) by blast
  have "p = base \<or> p = base + 1" unfolding p(2) by presburger
  then have "map_of refs base \<noteq> None \<or> map_of refs (base + 1) \<noteq> None" using p(1) keyset by blast
  then show "map fst (fst (plan_parent level refs base (nrefs, positions, combines))) = insort_insert (base div 2) (map fst nrefs)"
    "fst (snd (plan_parent level refs base (nrefs, positions, combines))) =
       (if base \<in> set (map fst refs) \<and> base + 1 \<notin> set (map fst refs) then positions @ [\<lparr>fp_level = level, fp_node_index = base + 1\<rparr>]
        else if base \<notin> set (map fst refs) \<and> base + 1 \<in> set (map fst refs) then positions @ [\<lparr>fp_level = level, fp_node_index = base\<rparr>]
        else positions)"
    unfolding keyset plan_parent_def
    by (auto simp: Let_def map_fst_bt_insert [OF assms(1)] split: option.splits)
qed

lemma plan_levels_positions:
  assumes "sorted_wrt (<) (map fst refs)"
  shows "fst (snd (plan_levels n level (refs, positions, combines))) = position_levels n level (map fst refs) positions \<and>
    map fst (fst (plan_levels n level (refs, positions, combines))) = (parents ^^ n) (map fst refs)"
  using assms
proof (induction n arbitrary: level refs positions combines)
  case (Suc n)
  let ?R = "\<lambda>s (t :: plan_state). case (s, t) of ((nxt, pos), (nrefs, positions, combines)) \<Rightarrow> nxt = map fst nrefs \<and> sorted_wrt (<) nxt \<and> pos = positions"
  let ?known = "map fst refs"
  let ?s = "visit_parents (\<lambda>base (nxt, positions).
            (insort_insert (base div 2) nxt,
             if base \<in> set ?known \<and> base + 1 \<notin> set ?known then positions @ [\<lparr>fp_level = level, fp_node_index = base + 1\<rparr>]
             else if base \<notin> set ?known \<and> base + 1 \<in> set ?known then positions @ [\<lparr>fp_level = level, fp_node_index = base\<rparr>]
             else positions)) ?known ([], positions)"
  let ?t = "visit_parents (plan_parent level refs) ?known ([], positions, combines)"
  have R: "?R ?s ?t"
  proof (rule visit_parents_sim [where R = ?R])
    fix base s t assume base: "base \<in> (\<lambda>p. p - p mod 2) ` set ?known" and R: "?R s t"
    obtain nrefs ps cs where t: "t = (nrefs, ps, cs)" by (cases t)
    have s: "s = (map fst nrefs, ps)" "sorted_wrt (<) (map fst nrefs)" using R by (auto simp: t split: prod.splits)
    obtain nrefs' ps' cs' where t': "plan_parent level refs base t = (nrefs', ps', cs')" by (cases "plan_parent level refs base t")
    show "?R ((\<lambda>base (nxt, positions).
            (insort_insert (base div 2) nxt,
             if base \<in> set ?known \<and> base + 1 \<notin> set ?known then positions @ [\<lparr>fp_level = level, fp_node_index = base + 1\<rparr>]
             else if base \<notin> set ?known \<and> base + 1 \<in> set ?known then positions @ [\<lparr>fp_level = level, fp_node_index = base\<rparr>]
             else positions)) base s) (plan_parent level refs base t)"
      using plan_parent_positions [OF s(2) base, of level ps cs] strict_sorted_insort_insert [OF s(2)] t'
      by (simp add: s t del: set_map)
  qed simp
  obtain nrefs ps cs where t: "?t = (nrefs, ps, cs)" by (cases ?t)
  have s: "?s = (map fst nrefs, ps)" "sorted_wrt (<) (map fst nrefs)" using R unfolding t by (auto split: prod.splits)
  have "map fst nrefs = parents ?known" using s(1) by (simp add: visit_insort_parents [OF Suc.prems])
  then show ?case
    using Suc.IH [OF s(2), of "level + 1" ps cs]
    by (simp only: plan_levels.simps position_levels.simps prod.case Let_def s(1) t) (simp add: funpow_swap1)
qed simp

lemma enumerate_refs:
  fixes indices :: "u32 list"
  assumes "sorted_wrt (<) indices"
  shows "collect_map (map (\<lambda>(ordinal, index). (unat index, TouchedLeaf ordinal)) (enumerate 0 indices)) =
    map (\<lambda>(ordinal, index). (unat index, TouchedLeaf ordinal)) (enumerate 0 indices)" (is "collect_map ?m = _")
    "map fst (map (\<lambda>(ordinal, index). (unat index, TouchedLeaf ordinal)) (enumerate 0 indices)) = map unat indices"
proof -
  show keys: "map fst ?m = map unat indices"
    by (rule nth_equalityI) (simp_all add: nth_enumerate_eq)
  show "collect_map ?m = ?m" using keys sorted_unat [OF assms] by (simp add: collect_sorted)
qed

lemma reconstruct_known:
  assumes "length leaves = length indices"
  shows "map (\<lambda>(index, leaf). (unat index, leaf)) (zip indices leaves) =
    map (\<lambda>(p, r). (p, structural_node_hash r leaves siblings hashes))
      (map (\<lambda>(ordinal, index). (unat index, TouchedLeaf ordinal)) (enumerate 0 indices))"
  by (rule nth_equalityI) (simp_all add: nth_enumerate_eq assms)

lemma plan_evaluates:
  assumes valid: "validate_indices indices depth = Inr ps"
  shows "rbind (derive_structural_frontier_plan indices depth) (\<lambda>plan. map_sum id ev_root (evaluate_structural_frontier perm plan leaves siblings)) =
    reconstruct_root perm indices leaves siblings depth"
proof -
  have ps: "ps = map unat indices" "sorted_wrt (<) indices" "indices \<noteq> []" "\<forall>p\<in>set ps. p < 2 ^ depth"
    using valid by (auto simp: validate_indices_Inr)
  let ?refs = "map (\<lambda>(ordinal, index). (unat index, TouchedLeaf ordinal)) (enumerate 0 indices)"
  obtain known positions combines where plan: "plan_levels depth 0 (?refs, [], []) = (known, positions, combines)" by (metis prod_cases3)
  have keys: "positions = frontier depth 0 ps" "map fst known = [0]"
    using plan_levels_positions [of ?refs depth 0 "[]" "[]"] enumerate_refs(2) [OF ps(2)] validated_sorted [OF valid]
      position_levels_frontier [of ps depth 0 "[]"] parents_root [OF ps(4)] ps(3) by (simp_all add: plan ps(1))
  have sim: "\<exists>cursor'. plan_sim perm leaves siblings (reconstruct_levels perm siblings depth
        (map (\<lambda>(index, leaf). (unat index, leaf)) (zip indices leaves)) 0, cursor') (known, positions, combines)"
    if "length leaves = length indices" for leaves
  proof -
    have "plan_sim perm leaves siblings (map (\<lambda>(index, leaf). (unat index, leaf)) (zip indices leaves), 0) (?refs, [], [])"
      using reconstruct_known [OF that] by (auto simp: plan_sim_def)
    then show ?thesis unfolding plan [symmetric] by (rule plan_levels_sim)
  qed
  obtain root where root: "known = [(0, root)]" using keys(2) by auto
  have derived: "derive_structural_frontier_plan indices depth =
      Inr \<lparr>pl_touched_leaf_count = length indices, pl_frontier_positions = frontier depth 0 ps, pl_combines = combines, pl_root = root\<rparr>"
    by (simp add: derive_structural_frontier_plan_def valid enumerate_refs(1) [OF ps(2)] plan root keys(1))
  have "reconstruct_levels perm siblings depth (map (\<lambda>(index, leaf). (unat index, leaf)) (zip indices leaves)) 0 =
      [(0, structural_node_hash root leaves siblings (run_combines perm combines leaves siblings))]"
    if "length leaves = length indices"
    using sim [OF that] by (auto simp: plan_sim_def root)
  then show ?thesis
    using collect_zip [OF ps(2), of leaves]
    by (simp add: derived evaluate_structural_frontier_def reconstruct_root_def expected_sibling_count_frontier [OF valid] zip_map1 Let_def ensure_def)
qed

subsection \<open>Sequential updates\<close>

lemma xor_one_neq: "xor i 1 \<noteq> i" for i :: nat
  using xor_Suc_0_eq [of i] by (cases "even i") (auto dest: odd_pos)

lemma fill_parents:
  assumes "sorted_wrt (<) qs" "\<forall>x\<in>set nxt. \<forall>q\<in>set qs. fst x < q"
    and "\<forall>q\<in>set qs. nodes (level, 2 * q) = Some (L q) \<and> nodes (level, 2 * q + 1) = Some (R q)"
  shows "foldl (\<lambda>s q. fill_parent perm level (2 * q) s) (Some (nxt, nodes)) qs =
    Some (nxt @ map (\<lambda>q. (q, state_node_hash perm (L q) (R q))) qs,
      \<lambda>(l, i). if l = Suc level \<and> i \<in> set qs then Some (state_node_hash perm (L i) (R i)) else nodes (l, i))"
  using assms
proof (induction qs arbitrary: nxt nodes)
  case (Cons q qs)
  have "fill_parent perm level (2 * q) (Some (nxt, nodes)) =
      Some (nxt @ [(q, state_node_hash perm (L q) (R q))], nodes((Suc level, q) \<mapsto> state_node_hash perm (L q) (R q)))"
    using Cons.prems by (simp add: fill_parent_def bt_insert_last Let_def)
  moreover have "\<forall>x\<in>set (nxt @ [(q, state_node_hash perm (L q) (R q))]). \<forall>q\<in>set qs. fst x < q" using Cons.prems by auto
  ultimately show ?case using Cons.IH Cons.prems by (auto simp: fun_eq_iff)
qed (auto simp: fun_eq_iff)

lemma fill_levels_ok:
  assumes "map fst current = ps" "sorted_wrt (<) ps" "set ps = touched P level"
    and "\<forall>p \<in> touched P level. nodes (level, p) \<noteq> None"
    and "\<forall>pos \<in> set (frontier n level ps). nodes (fp_level pos, fp_node_index pos) \<noteq> None"
  shows "\<exists>nodes'. fill_levels perm n level current nodes = Some nodes' \<and> consistent perm level (level + n) P nodes' \<and>
    (\<forall>l i. l \<le> level \<or> i \<notin> touched P l \<longrightarrow> nodes' (l, i) = nodes (l, i))"
  using assms
proof (induction n arbitrary: level current ps nodes)
  case (Suc n)
  define L where "L q = the (nodes (level, 2 * q))" for q
  define R where "R q = the (nodes (level, 2 * q + 1))" for q
  let ?nxt = "map (\<lambda>q. (q, state_node_hash perm (L q) (R q))) (parents ps)"
  let ?nodes = "\<lambda>(l, i). if l = Suc level \<and> i \<in> set (parents ps) then Some (state_node_hash perm (L i) (R i)) else nodes (l, i)"
  have par: "set (parents ps) = touched P (Suc level)" by (simp add: strict_sorted_parents touched_Suc Suc.prems(3))
  have LR: "nodes (level, 2 * q) = Some (L q) \<and> nodes (level, 2 * q + 1) = Some (R q)" if q: "q \<in> set (parents ps)" for q
  proof -
    have "nodes (level, i) \<noteq> None" if "i = 2 * q \<or> i = 2 * q + 1" for i
    proof (cases "i \<in> set ps")
      case True then show ?thesis using Suc.prems(3,4) by simp
    next
      case False
      then have "i \<in> set (missing ps)"
        using that q touched_child [of q P level] par Suc.prems(3) by (auto simp: missing_def missing_beside_def)
      then show ?thesis using bspec [OF Suc.prems(5), of "\<lparr>fp_level = level, fp_node_index = i\<rparr>"] by simp
    qed
    from this [of "2 * q"] this [of "2 * q + 1"] show ?thesis by (auto simp: L_def R_def)
  qed
  have visit: "visit_parents (fill_parent perm level) (map fst current) (Some ([], nodes)) = Some (?nxt, ?nodes)"
    using fill_parents [OF strict_sorted_parents(1), of "[]" ps nodes level L R perm] LR
    by (simp add: visit_parents_sorted strict_sorted_imp_sorted Suc.prems(1,2))
  have "\<exists>nodes'. fill_levels perm n (Suc level) ?nxt ?nodes = Some nodes' \<and> consistent perm (Suc level) (Suc level + n) P nodes' \<and>
    (\<forall>l i. l \<le> Suc level \<or> i \<notin> touched P l \<longrightarrow> nodes' (l, i) = ?nodes (l, i))"
    by (rule Suc.IH [where ps = "parents ps"])
      (use Suc.prems(5) par strict_sorted_parents(1) in \<open>auto simp: comp_def\<close>)
  then obtain nodes' where nodes': "fill_levels perm n (Suc level) ?nxt ?nodes = Some nodes'"
    "consistent perm (Suc level) (Suc level + n) P nodes'"
    "\<And>l i. l \<le> Suc level \<or> i \<notin> touched P l \<Longrightarrow> nodes' (l, i) = ?nodes (l, i)" by blast
  have "consistent perm level (level + Suc n) P nodes'"
    unfolding consistent_def
  proof (intro allI impI)
    fix l q assume lq: "level \<le> l \<and> l < level + Suc n \<and> q \<in> touched P (Suc l)"
    show "\<exists>a b. nodes' (l, 2 * q) = Some a \<and> nodes' (l, 2 * q + 1) = Some b \<and> nodes' (Suc l, q) = Some (state_node_hash perm a b)"
    proof (cases "l = level")
      case True then show ?thesis using lq LR [of q] nodes'(3) by (simp add: par)
    next
      case False then show ?thesis using lq nodes'(2) by (simp add: consistent_def)
    qed
  qed
  moreover have "nodes' (l, i) = nodes (l, i)" if "l \<le> level \<or> i \<notin> touched P l" for l i
    using that nodes'(3) [of l i] by (auto simp: par)
  ultimately show ?case using nodes'(1) visit by auto
qed (simp add: consistent_empty)

lemma sibling_defined:
  assumes "consistent perm 0 depth P nodes" "p \<in> P" "l < depth"
  shows "nodes (l, xor (p div 2 ^ l) 1) \<noteq> None"
proof -
  let ?i = "p div 2 ^ l"
  have "?i div 2 \<in> touched P (Suc l)" using assms(2) by (rule touched_parent)
  then obtain a b where "nodes (l, 2 * (?i div 2)) = Some a" "nodes (l, 2 * (?i div 2) + 1) = Some b"
    using consistentE [OF assms(1) _ assms(3)] by blast
  moreover have "xor ?i 1 = 2 * (?i div 2) \<or> xor ?i 1 = 2 * (?i div 2) + 1"
    using xor_Suc_0_eq [of ?i] by (cases "even ?i") (auto elim!: evenE oddE)
  ultimately show ?thesis by auto
qed

lemma walk_path_overlay:
  assumes "\<forall>l. level \<le> l \<and> l < level + n \<longrightarrow> nodes (l, xor (p div 2 ^ l) 1) \<noteq> None"
  shows "walk_path perm n level p (path_value perm nodes p v level) (map (path_sibling nodes p) [0..<level])
      (map (\<lambda>l. odd (p div 2 ^ l)) [0..<level]) (overlay perm nodes p v level) =
    Some (path_value perm nodes p v (level + n), map (path_sibling nodes p) [0..<level + n],
      map (\<lambda>l. odd (p div 2 ^ l)) [0..<level + n], overlay perm nodes p v (level + n))"
  using assms
proof (induction n arbitrary: level)
  case (Suc n)
  let ?i = "p div 2 ^ level"
  have ne: "xor ?i 1 \<noteq> ?i" by (rule xor_one_neq)
  have sib: "overlay perm nodes p v level (level, xor ?i 1) = Some (path_sibling nodes p level)"
    using Suc.prems ne by (simp add: overlay_def path_sibling_def)
  have "(overlay perm nodes p v level)((Suc level, ?i div 2) \<mapsto> path_value perm nodes p v (Suc level)) = overlay perm nodes p v (Suc level)"
    by (auto simp: overlay_def fun_eq_iff div_mult2_eq power_Suc2 simp del: power_Suc path_value.simps)
  moreover have "and ?i 1 = 1 \<longleftrightarrow> odd ?i" by (simp add: and_one_eq odd_iff_mod_2_eq_one)
  ultimately show ?case
    using Suc.IH [of "Suc level"] Suc.prems sib by (simp add: drop_bit_eq_div Let_def)
qed simp

lemma path_value_consistent:
  assumes "consistent perm 0 depth P nodes" "p \<in> P" "nodes (0, p) = Some v" "l \<le> depth"
  shows "nodes (l, p div 2 ^ l) = Some (path_value perm nodes p v l)"
  using assms(4)
proof (induction l)
  case (Suc l)
  let ?i = "p div 2 ^ l"
  have i: "p div 2 ^ Suc l = ?i div 2" by (simp add: div_mult2_eq power_Suc2 del: power_Suc)
  have "?i div 2 \<in> touched P (Suc l)" using assms(2) by (rule touched_parent)
  then obtain a b where ab: "nodes (l, 2 * (?i div 2)) = Some a" "nodes (l, 2 * (?i div 2) + 1) = Some b"
    "nodes (Suc l, ?i div 2) = Some (state_node_hash perm a b)"
    using consistentE [OF assms(1), of l] Suc.prems by (metis Suc_le_lessD le0)
  show ?case
  proof (cases "even ?i")
    case True
    then have "?i = 2 * (?i div 2)" "xor ?i 1 = 2 * (?i div 2) + 1" using xor_Suc_0_eq [of ?i] by auto
    then show ?thesis using ab Suc True by (simp add: i path_sibling_def del: power_Suc)
  next
    case False
    then have "?i = 2 * (?i div 2) + 1" "xor ?i 1 = 2 * (?i div 2)" using xor_Suc_0_eq [of ?i] by auto
    then show ?thesis using ab Suc False by (simp add: i path_sibling_def del: power_Suc)
  qed
qed (simp add: assms(3))

lemma fold_path_value:
  "fold_directed_path perm v (map (path_sibling nodes p) [0..<l]) (map (\<lambda>l. odd (p div 2 ^ l)) [0..<l]) = path_value perm nodes p v l"
  by (induction l) (simp_all add: fold_directed_path_def)

lemma overlay_consistent:
  assumes "consistent perm 0 depth P nodes" "p \<in> P"
  shows "consistent perm 0 depth P (overlay perm nodes p v depth)"
  unfolding consistent_def
proof (intro allI impI)
  fix l q assume lq: "0 \<le> l \<and> l < depth \<and> q \<in> touched P (Suc l)"
  then obtain a b where ab: "nodes (l, 2 * q) = Some a" "nodes (l, 2 * q + 1) = Some b" "nodes (Suc l, q) = Some (state_node_hash perm a b)"
    using consistentE [OF assms(1), of l q] by blast
  let ?i = "p div 2 ^ l" let ?N = "overlay perm nodes p v depth"
  have i: "p div 2 ^ Suc l = ?i div 2" by (simp add: div_mult2_eq power_Suc2 del: power_Suc)
  show "\<exists>a b. ?N (l, 2 * q) = Some a \<and> ?N (l, 2 * q + 1) = Some b \<and> ?N (Suc l, q) = Some (state_node_hash perm a b)"
  proof (cases "q = ?i div 2")
    case False
    then have "?i \<noteq> 2 * q" "?i \<noteq> 2 * q + 1" by auto
    then show ?thesis using ab False by (simp add: overlay_def i del: power_Suc)
  next
    case True
    have sib: "nodes (l, xor ?i 1) = Some (path_sibling nodes p l)"
      using sibling_defined [OF assms] lq by (auto simp: path_sibling_def)
    show ?thesis
    proof (cases "even ?i")
      case even: True
      then have "?i = 2 * q" "xor ?i 1 = 2 * q + 1" using xor_Suc_0_eq [of ?i] True by auto
      then show ?thesis using sib lq even True by (simp add: overlay_def i del: power_Suc)
    next
      case odd: False
      then have "?i = 2 * q + 1" "xor ?i 1 = 2 * q" using xor_Suc_0_eq [of ?i] True by auto
      moreover have "2 * q \<noteq> ?i" using odd by (metis dvd_triv_left)
      ultimately show ?thesis using sib lq odd True by (simp add: overlay_def i del: power_Suc)
    qed
  qed
qed

lemma run_updates_ok:
  assumes "consistent perm 0 depth P nodes" "\<forall>p\<in>P. p < 2 ^ depth" "nodes (depth, 0) = Some root"
    and "\<forall>(i, old, new) \<in> set es. unat i \<in> P \<and> nodes (0, unat i) = Some old" "distinct (map fst es)"
  shows "\<exists>out nodes' root'. run_updates perm depth es root nodes = Some out \<and> nodes' (depth, 0) = Some root' \<and>
    authentic_chain perm root out root' \<and> map (\<lambda>s. (su_index s, su_old_leaf s, su_new_leaf s)) out = es \<and>
    consistent perm 0 depth P nodes' \<and> (\<forall>(i, old, new) \<in> set es. nodes' (0, unat i) = Some new) \<and>
    (\<forall>p. p \<notin> unat ` fst ` set es \<longrightarrow> nodes' (0, p) = nodes (0, p)) \<and>
    (\<forall>l i. i \<notin> touched P l \<longrightarrow> nodes' (l, i) = nodes (l, i))"
  using assms
proof (induction es arbitrary: nodes root)
  case (Cons e es)
  obtain index old new where e: "e = (index, old, new)" by (cases e)
  let ?p = "unat index" let ?N = "overlay perm nodes ?p new depth" let ?r = "path_value perm nodes ?p new depth"
  have p: "?p \<in> P" "?p div 2 ^ depth = 0" "nodes (0, ?p) = Some old" using Cons.prems by (auto simp: e)
  have "overlay perm nodes ?p new 0 = nodes((0, ?p) \<mapsto> new)" by (auto simp: overlay_def fun_eq_iff)
  then have walk: "walk_path perm depth 0 ?p new [] [] (nodes((0, ?p) \<mapsto> new)) =
      Some (?r, map (path_sibling nodes ?p) [0..<depth], map (\<lambda>l. odd (?p div 2 ^ l)) [0..<depth], ?N)"
    using walk_path_overlay [of 0 depth nodes ?p perm new] sibling_defined [OF Cons.prems(1) p(1)] by simp
  have "path_value perm nodes ?p old depth = root"
    using path_value_consistent [OF Cons.prems(1) p(1,3), of depth] Cons.prems(3) p(2) by simp
  then have auth: "fold_directed_path perm old (map (path_sibling nodes ?p) [0..<depth]) (map (\<lambda>l. odd (?p div 2 ^ l)) [0..<depth]) = root"
    by (simp add: fold_path_value)
  have leaves: "\<forall>(i, old, new) \<in> set es. unat i \<in> P \<and> ?N (0, unat i) = Some old"
  proof (clarify)
    fix i o1 n1 assume "(i, o1, n1) \<in> set es"
    moreover from this have "i \<noteq> index" using Cons.prems(5) by (force simp: e)
    moreover from calculation have "unat i \<in> P" "nodes (0, unat i) = Some o1" using Cons.prems(4) by fastforce+
    ultimately show "unat i \<in> P \<and> ?N (0, unat i) = Some o1" by (auto simp: overlay_def dest: word_unat_eq_iff [THEN iffD2])
  qed
  have "?N (depth, 0) = Some ?r" using p(2) by (simp add: overlay_def)
  from Cons.IH [OF overlay_consistent [OF Cons.prems(1) p(1)] Cons.prems(2) this leaves]
  obtain out nodes' root' where ih: "run_updates perm depth es ?r ?N = Some out" "nodes' (depth, 0) = Some root'"
    "authentic_chain perm ?r out root'" "map (\<lambda>s. (su_index s, su_old_leaf s, su_new_leaf s)) out = es"
    "consistent perm 0 depth P nodes'" "\<forall>(i, old, new) \<in> set es. nodes' (0, unat i) = Some new"
    "\<And>p. p \<notin> unat ` fst ` set es \<Longrightarrow> nodes' (0, p) = ?N (0, p)"
    "\<And>l i. i \<notin> touched P l \<Longrightarrow> nodes' (l, i) = ?N (l, i)"
    using Cons.prems(5) by auto
  let ?s = "\<lparr>su_index = index, su_old_leaf = old, su_new_leaf = new, su_siblings = map (path_sibling nodes ?p) [0..<depth],
    su_directions = map (\<lambda>l. odd (?p div 2 ^ l)) [0..<depth], su_root_before = root, su_root_after = ?r\<rparr>"
  have "?p \<notin> unat ` fst ` set es"
  proof
    assume "?p \<in> unat ` fst ` set es"
    then have "index \<in> fst ` set es" by (force simp flip: word_unat_eq_iff)
    then show False using Cons.prems(5) by (simp add: e)
  qed
  then have "nodes' (0, ?p) = Some new" using ih(7) by (simp add: overlay_def)
  moreover have "nodes' (0, p) = nodes (0, p)" if "p \<notin> unat ` fst ` set (e # es)" for p
    using ih(7) [of p] that by (auto simp: e overlay_def)
  moreover have "nodes' (l, i) = nodes (l, i)" if "i \<notin> touched P l" for l i
    using ih(8) [OF that] that p(1) by (auto simp: overlay_def touched_def)
  moreover have "run_updates perm depth (e # es) root nodes = Some (?s # out)" by (simp add: e walk ih(1))
  moreover have "authentic_chain perm root (?s # out) root'" using ih(3) auth by (simp add: fold_path_value)
  ultimately show ?case using ih(2,4,5,6)
    by (intro exI [of _ "?s # out"] exI [of _ nodes'] exI [of _ root']) (auto simp: e)
next
  case Nil
  then show ?case by (intro exI [of _ "[]"] exI [of _ nodes] exI [of _ root]) simp
qed

lemma frontier_untouched:
  assumes "set ps = touched P level" "pos \<in> set (frontier n level ps)"
  shows "fp_node_index pos \<notin> touched P (fp_level pos)" "level \<le> fp_level pos"
proof -
  have "fp_node_index pos \<notin> touched P (fp_level pos) \<and> level \<le> fp_level pos"
    using assms
  proof (induction n arbitrary: level ps)
    case (Suc n)
    have par: "set (parents ps) = touched P (Suc level)" by (simp add: strict_sorted_parents touched_Suc Suc.prems(1))
    from Suc.prems(2) consider p where "p \<in> set (missing ps)" "pos = \<lparr>fp_level = level, fp_node_index = p\<rparr>"
      | "pos \<in> set (frontier n (Suc level) (parents ps))" by auto
    then show ?case
    proof cases
      case 1
      have "p \<notin> touched P level" using missing_facts(1) [OF 1(1)] unfolding Suc.prems(1) .
      then show ?thesis using 1(2) by simp
    next
      case 2
      then show ?thesis using Suc.IH [OF par] by auto
    qed
  qed simp
  then show "fp_node_index pos \<notin> touched P (fp_level pos)" "level \<le> fp_level pos" by simp_all
qed

lemma frontier_level: "pos \<in> set (frontier n level ps) \<Longrightarrow> level \<le> fp_level pos"
  by (induction n arbitrary: level ps) (auto dest: Suc_leD)

lemma missing_beside_div: "x \<in> set (missing_beside ps q) \<Longrightarrow> x div 2 = q"
  by (auto simp: missing_beside_def split: if_splits)

lemma distinct_missing: "distinct (missing ps)"
proof -
  have "distinct (concat (map (missing_beside ps) qs))" if "distinct qs" for qs
    using that
  proof (induction qs)
    case (Cons q qs)
    moreover have "distinct (missing_beside ps q)" by (simp add: missing_beside_def)
    moreover have "set (missing_beside ps q) \<inter> set (concat (map (missing_beside ps) qs)) = {}"
      using Cons.prems by (auto dest!: missing_beside_div)
    ultimately show ?case by simp
  qed simp
  then show ?thesis using strict_sorted_parents(1) [of ps] by (simp add: missing_def strict_sorted_iff)
qed

lemma distinct_frontier: "distinct (map (\<lambda>pos. (fp_level pos, fp_node_index pos)) (frontier n level ps))"
proof (induction n arbitrary: level ps)
  case (Suc n)
  have "distinct (map (\<lambda>p. (level, p)) (missing ps))" using distinct_missing by (simp add: distinct_map inj_on_def)
  moreover have "(level, p) \<notin> (\<lambda>pos. (fp_level pos, fp_node_index pos)) ` set (frontier n (Suc level) (parents ps))" for p
    using frontier_level by fastforce
  ultimately show ?case using Suc.IH by (auto simp: comp_def)
qed simp

lemma foldl_upd_other: "k \<notin> g ` set ks \<Longrightarrow> foldl (\<lambda>m (k, v). m(g k \<mapsto> v)) m (zip ks vs) k = m k"
  by (induction ks vs arbitrary: m rule: list_induct2') auto

lemma foldl_upd_lookup:
  "length vs = length ks \<Longrightarrow> distinct (map g ks) \<Longrightarrow> map (\<lambda>k. foldl (\<lambda>m (k, v). m(g k \<mapsto> v)) m (zip ks vs) (g k)) ks = map Some vs"
proof (induction vs ks arbitrary: m rule: list_induct2)
  case (Cons v vs k ks)
  then show ?case using foldl_upd_other [of "g k" g ks "m(g k \<mapsto> v)" vs] Cons.IH [of "m(g k \<mapsto> v)"] by (simp del: fun_upd_apply) (simp add: fun_upd_apply)
qed simp

lemma map_Some_defined:
  assumes "map f xs = map Some ys" "x \<in> set xs"
  shows "f x \<noteq> None"
proof -
  have "f x \<in> set (map Some ys)" using assms(2) unfolding assms(1) [symmetric] by simp
  then show ?thesis by auto
qed

lemma reconstruct_root_nodes:
  assumes valid: "validate_indices indices depth = Inr ps" and N: "consistent perm 0 depth (set ps) N"
    and leaves: "map (\<lambda>i. N (0, unat i)) indices = map Some leaves"
    and sibs: "map (\<lambda>pos. N (fp_level pos, fp_node_index pos)) (frontier depth 0 ps) = map Some siblings"
  obtains root where "N (depth, 0) = Some root" "reconstruct_root perm indices leaves siblings depth = Inr root"
proof -
  have ps: "ps = map unat indices" "sorted_wrt (<) indices" "ps \<noteq> []" "\<forall>p\<in>set ps. p < 2 ^ depth"
    using valid by (auto simp: validate_indices_Inr)
  have len: "length indices = length leaves" "length (frontier depth 0 ps) = length siblings"
    using arg_cong [OF leaves, of length] arg_cong [OF sibs, of length] by simp_all
  have "leaves = map (\<lambda>p. the (N (0, p))) ps" using arg_cong [OF leaves, of "map the"] by (simp add: ps(1) comp_def)
  then have known: "zip (map unat indices) leaves = map (\<lambda>p. (p, the (N (0, p)))) ps" by (simp add: ps(1) zip_map_map zip_same_conv_map)
  have "siblings = map (\<lambda>pos. the (N (fp_level pos, fp_node_index pos))) (frontier depth 0 ps)"
    using arg_cong [OF sibs, of "map the"] by (simp add: comp_def)
  moreover have "set ps = touched (set ps) 0" by (simp add: touched_def)
  ultimately have rec: "reconstruct_levels perm siblings depth (zip (map unat indices) leaves) 0 = [(0, the (N (depth, 0)))]"
    using reconstruct_levels_nodes [of perm 0 depth "set ps" N ps 0 siblings] N validated_sorted [OF valid] parents_root [OF ps(4,3)]
    by (simp add: known)
  obtain p where p: "p \<in> set ps" using ps(3) by (cases ps) auto
  have "N (depth, 0) \<noteq> None"
  proof (cases depth)
    case 0
    then have "ps = [0]" using p parents_root [OF ps(4,3) validated_sorted [OF valid]] by simp
    then show ?thesis using leaves 0 by (auto simp: ps(1))
  next
    case (Suc d)
    have "p div 2 ^ depth = 0" using p ps(4) by simp
    then have "0 \<in> touched (set ps) (Suc d)" using p by (force simp: touched_def Suc)
    then show ?thesis using consistentE [OF N, of d 0] by (auto simp: Suc)
  qed
  then obtain root where root: "N (depth, 0) = Some root" by blast
  moreover have "reconstruct_root perm indices leaves siblings depth = Inr root"
    using rec collect_zip [OF ps(2), of leaves] len root
    by (simp add: reconstruct_root_def expected_sibling_count_frontier [OF valid])
  ultimately show thesis by (rule that)
qed

lemma partial_nodes_lookup:
  assumes valid: "validate_indices indices depth = Inr ps" and len: "length old_leaves = length indices" "length siblings = length (frontier depth 0 ps)"
  shows "map (\<lambda>i. partial_nodes indices old_leaves (frontier depth 0 ps) siblings (0, unat i)) indices = map Some old_leaves"
    "map (\<lambda>pos. partial_nodes indices old_leaves (frontier depth 0 ps) siblings (fp_level pos, fp_node_index pos)) (frontier depth 0 ps) = map Some siblings"
proof -
  let ?leaf = "foldl (\<lambda>nodes (index, leaf). nodes((0 :: nat, unat index) \<mapsto> leaf)) Map.empty (zip indices old_leaves)"
  have ps: "ps = map unat indices" using valid by (simp add: validate_indices_Inr)
  have touched0: "set ps = touched (set ps) 0" by (simp add: touched_def)
  have "distinct (map (\<lambda>i. (0 :: nat, unat i)) indices)"
    using validated_sorted [OF valid] unfolding ps by (simp add: strict_sorted_iff distinct_map inj_on_def)
  then have leaf: "map (\<lambda>i. ?leaf (0, unat i)) indices = map Some old_leaves"
    by (rule foldl_upd_lookup [OF len(1)])
  have "(0, unat i) \<notin> (\<lambda>pos. (fp_level pos, fp_node_index pos)) ` set (frontier depth 0 ps)" if "i \<in> set indices" for i
    using frontier_untouched(1) [OF touched0] that by (force simp: ps touched_def)
  then have "partial_nodes indices old_leaves (frontier depth 0 ps) siblings (0, unat i) = ?leaf (0, unat i)" if "i \<in> set indices" for i
    using that unfolding partial_nodes_def by (intro foldl_upd_other) auto
  then show "map (\<lambda>i. partial_nodes indices old_leaves (frontier depth 0 ps) siblings (0, unat i)) indices = map Some old_leaves"
    unfolding leaf [symmetric] by (intro map_cong) auto
  show "map (\<lambda>pos. partial_nodes indices old_leaves (frontier depth 0 ps) siblings (fp_level pos, fp_node_index pos)) (frontier depth 0 ps) = map Some siblings"
    unfolding partial_nodes_def by (rule foldl_upd_lookup [OF len(2) distinct_frontier])
qed

lemma expected_valid:
  assumes "expected_sibling_count indices depth = Inr k"
  obtains ps where "validate_indices indices depth = Inr ps" "k = length (frontier depth 0 ps)"
proof -
  obtain ps where "validate_indices indices depth = Inr ps"
    using assms by (auto simp: expected_sibling_count_def rbind_eq_Inr)
  then show thesis using assms that by (simp add: expected_sibling_count_frontier)
qed

lemma sequential_updates_core:
  assumes "expected_sibling_count indices depth = Inr (length siblings)"
    and len: "length old_leaves = length indices" "length new_leaves = length indices"
  obtains out old_root new_root where
    "expand_multiproof_sequential_updates perm indices old_leaves new_leaves siblings depth = Some (Inr out)"
    "reconstruct_root perm indices old_leaves siblings depth = Inr old_root"
    "reconstruct_root perm indices new_leaves siblings depth = Inr new_root"
    "authentic_chain perm old_root out new_root"
    "map (\<lambda>s. (su_index s, su_old_leaf s, su_new_leaf s)) out = zip indices (zip old_leaves new_leaves)"
proof -
  obtain ps where valid: "validate_indices indices depth = Inr ps" and lensib: "length siblings = length (frontier depth 0 ps)"
    using expected_valid [OF assms(1)] by blast
  have ps: "ps = map unat indices" "sorted_wrt (<) indices" "\<forall>p\<in>set ps. p < 2 ^ depth"
    using valid by (auto simp: validate_indices_Inr)
  have touched0: "set ps = touched (set ps) 0" by (simp add: touched_def)
  let ?N = "partial_nodes indices old_leaves (frontier depth 0 ps) siblings"
  let ?current = "zip (map unat indices) old_leaves"
  note N = partial_nodes_lookup [OF valid len(1) lensib]
  have def_sib: "\<forall>pos\<in>set (frontier depth 0 ps). ?N (fp_level pos, fp_node_index pos) \<noteq> None"
    using map_Some_defined [OF N(2)] by blast
  have def_leaf: "\<forall>p\<in>touched (set ps) 0. ?N (0, p) \<noteq> None"
    using map_Some_defined [OF N(1)] unfolding touched0 [symmetric] by (auto simp: ps(1))
  obtain N1 where N1: "fill_levels perm depth 0 ?current ?N = Some N1" "consistent perm 0 depth (set ps) N1"
    "\<And>l i. l \<le> 0 \<or> i \<notin> touched (set ps) l \<Longrightarrow> N1 (l, i) = ?N (l, i)"
  proof -
    have "map fst ?current = ps" using len(1) by (simp add: ps(1))
    from fill_levels_ok [OF this validated_sorted [OF valid] touched0 def_leaf def_sib, of perm]
    show ?thesis using that unfolding add_0 by blast
  qed
  have leaf1: "map (\<lambda>i. N1 (0, unat i)) indices = map Some old_leaves" using N(1) N1(3) by simp
  have sib1: "map (\<lambda>pos. N1 (fp_level pos, fp_node_index pos)) (frontier depth 0 ps) = map Some siblings"
    unfolding N(2) [symmetric] using N1(3) frontier_untouched(1) [OF touched0] by (intro map_cong) auto
  obtain old_root where old: "N1 (depth, 0) = Some old_root" "reconstruct_root perm indices old_leaves siblings depth = Inr old_root"
    by (rule reconstruct_root_nodes [OF valid N1(2) leaf1 sib1])
  let ?es = "zip indices (zip old_leaves new_leaves)"
  have "\<forall>(i, old, new) \<in> set ?es. unat i \<in> set ps \<and> N1 (0, unat i) = Some old"
    using leaf1 len by (auto simp: ps(1) in_set_zip map_equality_iff)
  moreover have "distinct (map fst ?es)" using ps(2) len by (simp add: strict_sorted_iff)
  ultimately obtain out N2 new_root where run: "run_updates perm depth ?es old_root N1 = Some out" "N2 (depth, 0) = Some new_root"
    "authentic_chain perm old_root out new_root" "map (\<lambda>s. (su_index s, su_old_leaf s, su_new_leaf s)) out = ?es"
    "consistent perm 0 depth (set ps) N2" "\<forall>(i, old, new) \<in> set ?es. N2 (0, unat i) = Some new"
    "\<And>l i. i \<notin> touched (set ps) l \<Longrightarrow> N2 (l, i) = N1 (l, i)"
    using run_updates_ok [OF N1(2) ps(3) old(1), of ?es] by blast
  have leaf2: "map (\<lambda>i. N2 (0, unat i)) indices = map Some new_leaves"
  proof (rule nth_equalityI)
    fix k assume k: "k < length (map (\<lambda>i. N2 (0, unat i)) indices)"
    then have "(indices ! k, old_leaves ! k, new_leaves ! k) \<in> set ?es" using len by (auto simp: set_zip)
    then show "map (\<lambda>i. N2 (0, unat i)) indices ! k = map Some new_leaves ! k" using run(6) k len by auto
  qed (simp add: len)
  have sib2: "map (\<lambda>pos. N2 (fp_level pos, fp_node_index pos)) (frontier depth 0 ps) = map Some siblings"
    unfolding sib1 [symmetric] using run(7) frontier_untouched(1) [OF touched0] by (intro map_cong) auto
  have new: "reconstruct_root perm indices new_leaves siblings depth = Inr new_root"
    using reconstruct_root_nodes [OF valid run(5) leaf2 sib2] run(2) by (metis option.inject)
  have "expand_multiproof_sequential_updates perm indices old_leaves new_leaves siblings depth = Some (Inr out)"
    using len lensib collect_zip [OF ps(2), of old_leaves] N1(1) old(1) run(1) new
    by (simp add: expand_multiproof_sequential_updates_def frontier_sibling_positions_frontier [OF valid] Let_def)
  then show thesis using that old(2) new run(3,4) by blast
qed

subsection \<open>The maximum frontier\<close>

lemma covering_depth_bounds:
  assumes "d0 = 0 \<or> 2 ^ (d0 - 1) < t"
  shows "t \<le> 2 ^ covering_depth t d0" "covering_depth t d0 = 0 \<or> 2 ^ (covering_depth t d0 - 1) < t"
proof -
  have "t \<le> 2 ^ covering_depth t d0 \<and> (covering_depth t d0 = 0 \<or> 2 ^ (covering_depth t d0 - 1) < t)"
    using assms
  proof (induction t d0 rule: covering_depth.induct)
    case (1 t d)
    then show ?case by (cases "2 ^ d < t") (simp_all add: covering_depth.simps [of t d] not_less)
  qed
  then show "t \<le> 2 ^ covering_depth t d0" "covering_depth t d0 = 0 \<or> 2 ^ (covering_depth t d0 - 1) < t" by blast+
qed

lemma length_missing:
  assumes "sorted_wrt (<) ps"
  shows "length (missing ps) + length ps = 2 * length (parents ps)"
proof -
  let ?Q = "set (parents ps)"
  have "set (missing ps) \<union> set ps = (*) 2 ` ?Q \<union> (\<lambda>q. 2 * q + 1) ` ?Q"
  proof (intro equalityI subsetI)
    fix x assume "x \<in> set (missing ps) \<union> set ps"
    then have "x div 2 \<in> ?Q" using missing_facts(2) by (auto simp: strict_sorted_parents)
    moreover have "x = 2 * (x div 2) \<or> x = 2 * (x div 2) + 1" by presburger
    ultimately show "x \<in> (*) 2 ` ?Q \<union> (\<lambda>q. 2 * q + 1) ` ?Q" by blast
  next
    fix x assume "x \<in> (*) 2 ` ?Q \<union> (\<lambda>q. 2 * q + 1) ` ?Q"
    then obtain q where q: "q \<in> ?Q" "x = 2 * q \<or> x = 2 * q + 1" by blast
    then have "2 * q \<in> set ps \<or> 2 * q + 1 \<in> set ps" using touched_child [of q "set ps" 0] by (simp add: strict_sorted_parents touched_def)
    then show "x \<in> set (missing ps) \<union> set ps" using q by (auto simp: missing_def missing_beside_def)
  qed
  moreover have "set (missing ps) \<inter> set ps = {}" using missing_facts(1) by blast
  moreover have "distinct ps" "distinct (parents ps)" using assms strict_sorted_parents(1) [of ps] by (simp_all add: strict_sorted_iff)
  moreover have "(*) 2 ` ?Q \<inter> (\<lambda>q. 2 * q + 1) ` ?Q = {}" by (auto; presburger)
  ultimately have "card (set (missing ps)) + card (set ps) = card ((*) 2 ` ?Q) + card ((\<lambda>q. 2 * q + 1) ` ?Q)"
    by (metis List.finite_set card_Un_disjoint finite_imageI)
  then show ?thesis
    using \<open>distinct ps\<close> \<open>distinct (parents ps)\<close> distinct_missing [of ps]
    by (simp add: distinct_card card_image inj_on_def)
qed

lemma frontier_sum_bound:
  assumes "sorted_wrt (<) ps" "ps \<noteq> []" "\<forall>p\<in>set ps. p < 2 ^ n"
  shows "length (frontier n level ps) + length ps \<le> (\<Sum>j<n. min (length ps) (2 ^ j)) + 1"
  using assms
proof (induction n arbitrary: level ps)
  case 0
  then show ?case using parents_root [of ps 0] by simp
next
  case (Suc n)
  let ?Q = "parents ps"
  have Q: "?Q \<noteq> []" "\<forall>q\<in>set ?Q. q < 2 ^ n" "distinct ?Q"
    using Suc.prems strict_sorted_parents [of ps] by (auto simp: strict_sorted_iff)
  have "length ?Q \<le> length ps"
    using card_image_le [of "set ps" "\<lambda>p. p div 2"] Q(3) Suc.prems(1)
    by (simp add: strict_sorted_iff distinct_card flip: strict_sorted_parents(2))
  moreover have "length ?Q \<le> 2 ^ n"
    using card_mono [of "{..<2 ^ n}" "set ?Q"] Q(2,3) by (auto simp: distinct_card)
  moreover have "(\<Sum>j<n. min (length ?Q) (2 ^ j)) \<le> (\<Sum>j<n. min (length ps) (2 ^ j))"
    using \<open>length ?Q \<le> length ps\<close> by (intro sum_mono) simp
  ultimately show ?case
    using Suc.IH [OF strict_sorted_parents(1) Q(1,2), of "Suc level"] length_missing [OF Suc.prems(1)] by simp
qed

lemma sum_min_powers:
  assumes "t \<le> 2 ^ d" "d = 0 \<or> 2 ^ (d - 1) < t" "d \<le> n"
  shows "(\<Sum>j<n. min t (2 ^ j)) + 1 = (n - d) * t + 2 ^ d"
proof -
  have "(\<Sum>j<n. min t (2 ^ j)) = (\<Sum>j<d. min t (2 ^ j)) + (\<Sum>j\<in>{d..<n}. min t (2 ^ j))"
    using assms(3) by (metis atLeast0LessThan sum.atLeastLessThan_concat zero_le)
  moreover have "(\<Sum>j<d. min t (2 ^ j)) = (\<Sum>j<d. 2 ^ j)"
  proof (rule sum.cong)
    fix j assume "j \<in> {..<d}"
    then have "2 ^ j \<le> (2 :: nat) ^ (d - 1)" "d \<noteq> 0" by (auto intro: power_increasing)
    then have "2 ^ j < t" using assms(2) le_less_trans by blast
    then show "min t (2 ^ j) = 2 ^ j" by simp
  qed simp
  moreover have "(\<Sum>j\<in>{d..<n}. min t (2 ^ j)) = (\<Sum>j\<in>{d..<n}. t)"
  proof (rule sum.cong)
    fix j assume "j \<in> {d..<n}"
    then have "2 ^ d \<le> (2 :: nat) ^ j" by (auto intro: power_increasing)
    then have "t \<le> 2 ^ j" using assms(1) le_trans by blast
    then show "min t (2 ^ j) = t" by simp
  qed simp
  moreover have "(\<Sum>j<d. 2 ^ j) + 1 = (2 :: nat) ^ d" by (induction d) simp_all
  ultimately show ?thesis by simp
qed

lemma power_less_covering: "2 ^ k < (2 :: nat) ^ n \<Longrightarrow> Suc k \<le> n"
  by (metis Suc_leI one_less_numeral_iff power_less_imp_less_exp semiring_norm(76))

lemma frontier_maximum:
  assumes "validate_indices indices depth = Inr ps"
  obtains m where "maximum_sibling_count (length indices) depth = Some m" "length (frontier depth 0 ps) \<le> m"
proof -
  let ?t = "length indices" let ?d = "covering_depth ?t 0"
  have v: "depth \<le> 32" "ps \<noteq> []" "ps = map unat indices" "\<forall>p\<in>set ps. p < 2 ^ depth"
    using assms by (auto simp: validate_indices_Inr)
  have "distinct ps" using validated_sorted [OF assms] by (simp add: strict_sorted_iff)
  then have card: "card (set ps) = ?t" using distinct_card [of ps] by (simp add: v(3))
  have "set ps \<subseteq> {..<2 ^ depth}" using v(4) by auto
  then have "card (set ps) \<le> 2 ^ depth" using card_mono [of "{..<2 ^ depth}" "set ps"] by simp
  then have t: "?t \<le> 2 ^ depth" "0 < ?t" using card v(2,3) by auto
  have d: "?t \<le> 2 ^ ?d" "?d = 0 \<or> 2 ^ (?d - 1) < ?t" using covering_depth_bounds [of 0 ?t] by auto
  have "?d \<le> depth"
    using d(2) t(1) power_less_covering [of "?d - 1" depth] by fastforce
  then have bound: "length (frontier depth 0 ps) + ?t \<le> (depth - ?d) * ?t + 2 ^ ?d"
    using frontier_sum_bound [OF validated_sorted [OF assms] v(2,4), of 0] sum_min_powers [OF d, of depth] by (simp add: v(3))
  have "2 ^ ?d \<le> (2 :: nat) ^ 32" "?t \<le> 2 ^ 32"
    using \<open>?d \<le> depth\<close> v(1) t(1) power_increasing [of ?d 32 "2 :: nat"] power_increasing [of depth 32 "2 :: nat"] by linarith+
  moreover have "(depth - ?d) * ?t \<le> 32 * 2 ^ 32" using v(1) \<open>?t \<le> 2 ^ 32\<close> by (intro mult_le_mono) auto
  ultimately have "(depth - ?d) * ?t + 2 ^ ?d - ?t \<le> 2 ^ 64 - 1" by simp
  then show thesis
    using that [of "(depth - ?d) * ?t + 2 ^ ?d - ?t"] bound t v(1) by (simp add: maximum_sibling_count_def Let_def)
qed

subsection \<open>Padding\<close>

lemma find_pad_None: "find (\<lambda>(offset, digest). digest \<noteq> x) (enumerate k ys) = None \<longleftrightarrow> ys = replicate (length ys) x"
  by (induction ys arbitrary: k) auto

lemma pad_unpad:
  assumes "pad_frontier_siblings indices siblings depth capacity = Inr padded"
  shows "unpad_frontier_siblings indices padded depth capacity = Inr siblings"
proof -
  have "expected_sibling_count indices depth = Inr (length siblings)" "length siblings \<le> capacity"
    "padded = siblings @ replicate (capacity - length siblings) STRUCTURAL_FRONTIER_PAD"
    using assms by (auto simp: pad_frontier_siblings_def rbind_eq_Inr ensure_def split: if_splits)
  then show ?thesis using find_pad_None [of STRUCTURAL_FRONTIER_PAD 0 "replicate (capacity - length siblings) STRUCTURAL_FRONTIER_PAD"]
    by (simp add: unpad_frontier_siblings_def)
qed

lemma unpad_pad:
  assumes "unpad_frontier_siblings indices padded depth capacity = Inr siblings"
  shows "pad_frontier_siblings indices siblings depth capacity = Inr padded"
proof -
  obtain k where k: "expected_sibling_count indices depth = Inr k" "k \<le> capacity" "length padded = capacity" "siblings = take k padded"
    "drop k padded = replicate (length (drop k padded)) STRUCTURAL_FRONTIER_PAD"
    using assms by (auto simp: unpad_frontier_siblings_def rbind_eq_Inr ensure_def find_pad_None split: if_splits option.splits)
  then have "padded = siblings @ replicate (capacity - k) STRUCTURAL_FRONTIER_PAD"
    by (metis append_take_drop_id length_drop)
  then show ?thesis using k by (simp add: pad_frontier_siblings_def min_absorb2)
qed

section \<open>Properties\<close>

text \<open>C35: A cache built from a list of leaves exists whenever the depth is at most 32 and every index is in range, and its root is
  the root of the complete binary tree whose leaves are the empty slot hash except where the list sets them, the last entry for an
  index winning: the sparse representation, which drops every node equal to an empty subtree, loses nothing.\<close>

theorem sparse_cache_root_is_tree_root:
  assumes "depth \<le> 32" "\<forall>(index, v) \<in> set leaves. unat index < 2 ^ depth"
  shows "\<exists>c. from_leaves perm depth leaves = Inr c \<and>
    cache_root c = tree_node perm (foldl (\<lambda>f (index, v). f(unat index := v)) (\<lambda>_. slot_leaf_hash perm SLOT_EMPTY) leaves) depth 0"
  using from_leaves_ok [OF assms, of perm] cache_ok_root by blast

theorem sparse_cache_root_witness:
  "\<exists>c. from_leaves no_permutation 2 [(1, 5), (3, 7), (1, 6)] = Inr c \<and>
    cache_root c = tree_node no_permutation ((\<lambda>_. slot_leaf_hash no_permutation SLOT_EMPTY)(1 := 5, 3 := 7, 1 := 6)) 2 0"
  using sparse_cache_root_is_tree_root [of 2 "[(1, 5), (3, 7), (1, 6)]" no_permutation]
  by (simp del: fun_upd_apply)

text \<open>C36: The siblings that a cache of the tree supplies for a valid index list determine the root after any change of the touched
  leaves: reconstruction with whatever new leaves returns the root of the tree with exactly those leaves replaced and every other
  leaf unchanged. With the current leaves it returns the current root.\<close>

theorem multiproof_determines_updated_root:
  assumes "cache_ok perm c f" "validate_indices indices (sc_depth c) = Inr ps" "length leaves = length indices"
  shows "\<exists>siblings. build_multiproof c indices (sc_depth c) = Inr siblings \<and>
    reconstruct_root perm indices leaves siblings (sc_depth c) = Inr (tree_node perm (update_leaves indices leaves f) (sc_depth c) 0)"
  using build_multiproof_tree [OF assms(1,2)] reconstruct_root_tree [OF assms(2,3) refl] by blast

lemma no_permutation_cache:
  "cache_ok no_permutation \<lparr>sc_depth = 2, sc_zero_roots = zero_slot_roots no_permutation 2, sc_nodes = Map.empty\<rparr>
     (\<lambda>_. slot_leaf_hash no_permutation SLOT_EMPTY)"
  by (simp add: cache_ok_def node_hash_def zero_slot_roots_nth)

theorem multiproof_determines_updated_root_witness:
  "\<exists>siblings.
     build_multiproof \<lparr>sc_depth = 2, sc_zero_roots = zero_slot_roots no_permutation 2, sc_nodes = Map.empty\<rparr> [1, 2] 2 = Inr siblings \<and>
     reconstruct_root no_permutation [1, 2] [5, 7] siblings 2 =
       Inr (tree_node no_permutation (update_leaves [1, 2] [5, 7] (\<lambda>_. slot_leaf_hash no_permutation SLOT_EMPTY)) 2 0)"
  using multiproof_determines_updated_root [OF no_permutation_cache, of "[1, 2]" "[1, 2]" "[5, 7]"]
  by (simp add: validate_indices_Inr)

text \<open>C37: For a valid index list and a sibling vector of the canonical length, whatever the sibling values, the sequential expansion of an
  update returns (no lookup of the partial tree is ever missing). It has one step per touched slot in order; each step's path
  authenticates its old leaf against the root before it and its new leaf against the root after it; the steps chain from the root that
  reconstruction gives for the old leaves to the root that it gives for all new leaves at once.\<close>

theorem sequential_updates_authentic:
  assumes "expected_sibling_count indices depth = Inr (length siblings)"
    and "length old_leaves = length indices" "length new_leaves = length indices"
  shows "\<exists>out old_root new_root.
    expand_multiproof_sequential_updates perm indices old_leaves new_leaves siblings depth = Some (Inr out) \<and>
    reconstruct_root perm indices old_leaves siblings depth = Inr old_root \<and>
    reconstruct_root perm indices new_leaves siblings depth = Inr new_root \<and>
    authentic_chain perm old_root out new_root \<and>
    map (\<lambda>s. (su_index s, su_old_leaf s, su_new_leaf s)) out = zip indices (zip old_leaves new_leaves)"
  using sequential_updates_core [OF assms, of perm] by blast

theorem sequential_updates_authentic_witness:
  "expected_sibling_count [1, 2] 2 = Inr 2 \<and>
   (\<exists>out old_root new_root.
      expand_multiproof_sequential_updates no_permutation [1, 2] [10, 20] [11, 21] [30, 40] 2 = Some (Inr out) \<and>
      authentic_chain no_permutation old_root out new_root)"
proof -
  have "expected_sibling_count [1, 2] 2 = Inr 2" by code_simp
  then show ?thesis using sequential_updates_authentic [of "[1, 2]" 2 "[30, 40]" "[10, 20]" "[11, 21]" no_permutation] by auto
qed

text \<open>C38: For a valid index list, deriving the structural plan and evaluating it on leaves and siblings gives the same result as direct
  reconstruction, errors for wrong leaf and sibling counts included: the recorded combine schedule is the one reconstruction follows.\<close>

theorem structural_plan_matches_reconstruction:
  assumes "validate_indices indices depth = Inr ps"
  shows "rbind (derive_structural_frontier_plan indices depth)
      (\<lambda>plan. map_sum id ev_root (evaluate_structural_frontier perm plan leaves siblings)) =
    reconstruct_root perm indices leaves siblings depth"
  using plan_evaluates [OF assms] .

theorem structural_plan_matches_reconstruction_witness:
  "rbind (derive_structural_frontier_plan [1, 2] 2)
      (\<lambda>plan. map_sum id ev_root (evaluate_structural_frontier no_permutation plan [10, 20] [30, 40])) =
    reconstruct_root no_permutation [1, 2] [10, 20] [30, 40] 2"
proof -
  have "validate_indices [1, 2] 2 = Inr [1, 2]" by (simp add: validate_indices_Inr)
  then show ?thesis by (rule structural_plan_matches_reconstruction)
qed

text \<open>The analytical maximum bounds every proof: a valid index list never needs more siblings than the maximum for its number of
  leaves and its depth, for which the function does not panic.\<close>

theorem frontier_within_maximum:
  assumes "expected_sibling_count indices depth = Inr k"
  shows "\<exists>m. maximum_sibling_count (length indices) depth = Some m \<and> k \<le> m"
  using expected_valid [OF assms] frontier_maximum by metis

theorem frontier_within_maximum_witness:
  "\<exists>m. maximum_sibling_count (length [1, 2 :: u32]) 2 = Some m \<and> (2 :: nat) \<le> m"
proof -
  have "expected_sibling_count [1, 2] 2 = Inr 2" by code_simp
  then show ?thesis by (rule frontier_within_maximum)
qed

end
