(* ===== verification/ExactRoots.thy ===== *)
theory ExactRoots
imports SparseMerkle
begin

section \<open>Exact state roots\<close>

text \<open>
  The three ways in which the node computes the root of a segment of slots, and the compact tree above the segments: the
  streaming builder and the two-level root cache of \<open>noid_chain/src/state.rs\<close>, and the array tree of
  \<open>noid_chain/src/exact_segment_cache.rs\<close> with its in-place update and its read-only overlay.

  Depths, positions and array indices are natural numbers; the positions of the streaming builder stay at most \<open>2 ^ 32\<close>. A stack
  that the code keeps in a vector is the list with its top first. A \<open>BTreeMap\<close> of updates is its list of entries in key order. An
  \<open>expect\<close> on a result leaves the error in place, so that the theorems show that it never occurs.

  The theorems show that the streaming builder, the array tree and the overlay all compute the root of the complete tree over the
  slot hashes, and that the two-level cache is the complete tree over the segment roots after every update and resize.
\<close>

subsection \<open>Errors and columns\<close>

datatype exact_state_read_error = EvictedSegment u16 | SegmentRootMismatch u16 | ReadSparseMerkle sparse_merkle_error

datatype apply_exact_transition_error =
    ExactSlotOutOfRange
  | HeaderLogSlotsMismatch
  | ExactStateRead exact_state_read_error
  | CachedRootMismatch
  | ExactCirculatingSupplyInvariant

record segment_columns =
  sg_values :: "block128 list"
  sg_owners_hi :: "block128 list"
  sg_owners_lo :: "block128 list"

definition new_zero :: "nat \<Rightarrow> segment_columns" where
  "new_zero slots = \<lparr>sg_values = replicate slots 0, sg_owners_hi = replicate slots 0, sg_owners_lo = replicate slots 0\<rparr>"

definition column_slot :: "segment_columns \<Rightarrow> nat \<Rightarrow> slot_value" where
  "column_slot columns local =
     \<lparr>sv_value = sg_values columns ! local, sv_owner_hi = sg_owners_hi columns ! local, sv_owner_lo = sg_owners_lo columns ! local\<rparr>"

definition columns_length :: "segment_columns \<Rightarrow> nat \<Rightarrow> bool" where
  "columns_length columns n \<longleftrightarrow> length (sg_values columns) = n \<and> length (sg_owners_hi columns) = n \<and> length (sg_owners_lo columns) = n"

definition LOG_SEGMENT_SIZE :: nat where "LOG_SEGMENT_SIZE = 16"

subsection \<open>The streaming builder\<close>

record streaming_root =
  st_depth :: nat
  st_position :: nat
  st_zero_roots :: "digest list"
  st_stack :: "(nat \<times> digest) list"

definition stream_new :: "permutation \<Rightarrow> nat \<Rightarrow> apply_exact_transition_error + streaming_root" where
  "stream_new perm depth =
     rbind (ensure (depth < 64) HeaderLogSlotsMismatch) (\<lambda>_.
     Inr \<lparr>st_depth = depth, st_position = 0, st_zero_roots = zero_slot_roots perm depth, st_stack = []\<rparr>)"

fun append_block :: "permutation \<Rightarrow> nat \<Rightarrow> digest \<Rightarrow> (nat \<times> digest) list \<Rightarrow> (nat \<times> digest) list" where
  "append_block perm level hash [] = [(level, hash)]"
| "append_block perm level hash ((pending_level, left) # stack) =
     (if pending_level = level then append_block perm (level + 1) (state_node_hash perm left hash) stack
      else (level, hash) # (pending_level, left) # stack)"

text \<open>The position of the highest set bit, and of the lowest one.\<close>

fun ilog2 :: "nat \<Rightarrow> nat" where
  "ilog2 n = (if n < 2 then 0 else Suc (ilog2 (n div 2)))"

fun trailing_zeros :: "nat \<Rightarrow> nat" where
  "trailing_zeros n = (if n = 0 then 64 else if odd n then 0 else Suc (trailing_zeros (n div 2)))"

declare ilog2.simps [simp del] trailing_zeros.simps [simp del]

definition gap_level :: "nat \<Rightarrow> nat \<Rightarrow> nat \<Rightarrow> nat" where
  "gap_level depth position end_position =
     (let by_remaining = ilog2 (end_position - position);
          by_alignment = (if position = 0 then depth else min (trailing_zeros position) depth)
      in min by_remaining by_alignment)"

function fill_blocks :: "permutation \<Rightarrow> nat \<Rightarrow> streaming_root \<Rightarrow> streaming_root" where
  "fill_blocks perm end_position s =
     (if st_position s < end_position then
        let level = gap_level (st_depth s) (st_position s) end_position
        in fill_blocks perm end_position
             (s\<lparr>st_stack := append_block perm level (st_zero_roots s ! level) (st_stack s), st_position := st_position s + 2 ^ level\<rparr>)
      else s)"
  by pat_completeness auto
termination
  by (relation "measure (\<lambda>(_, e, s). e - st_position s)") (auto simp: Let_def intro: diff_less_mono2)

declare fill_blocks.simps [simp del]

definition fill_zero_gap :: "permutation \<Rightarrow> nat \<Rightarrow> streaming_root \<Rightarrow> apply_exact_transition_error + streaming_root" where
  "fill_zero_gap perm end_position s =
     rbind (ensure (st_depth s < 64) HeaderLogSlotsMismatch) (\<lambda>_.
     if end_position < st_position s \<or> end_position > 2 ^ st_depth s then Inl ExactSlotOutOfRange
     else Inr (fill_blocks perm end_position s))"

definition push_leaf :: "permutation \<Rightarrow> nat \<Rightarrow> digest \<Rightarrow> streaming_root \<Rightarrow> apply_exact_transition_error + streaming_root" where
  "push_leaf perm index hash s =
     rbind (fill_zero_gap perm index s) (\<lambda>s.
     Inr (s\<lparr>st_stack := append_block perm 0 hash (st_stack s), st_position := index + 1\<rparr>))"

definition stream_finish :: "permutation \<Rightarrow> streaming_root \<Rightarrow> apply_exact_transition_error + digest" where
  "stream_finish perm s =
     rbind (ensure (st_depth s < 64) HeaderLogSlotsMismatch) (\<lambda>_.
     rbind (fill_zero_gap perm (2 ^ st_depth s) s) (\<lambda>s.
     case st_stack s of
       [(level, root)] \<Rightarrow> if level = st_depth s then Inr root else Inl HeaderLogSlotsMismatch
     | _ \<Rightarrow> Inl HeaderLogSlotsMismatch))"

definition stream_slots :: "permutation \<Rightarrow> nat \<Rightarrow> (nat \<Rightarrow> slot_value) \<Rightarrow> apply_exact_transition_error + digest" where
  "stream_slots perm depth slot =
     rbind (stream_new perm depth) (\<lambda>stream.
     rbind (rfold (\<lambda>stream local.
              if slot_is_empty (slot local) then Inr stream
              else push_leaf perm local (slot_leaf_hash perm (slot local)) stream) stream [0..<2 ^ depth]) (stream_finish perm))"

definition exact_segment_root_with_updates ::
  "permutation \<Rightarrow> nat \<Rightarrow> segment_columns option \<Rightarrow> (nat \<times> slot_value) list \<Rightarrow> apply_exact_transition_error + digest" where
  "exact_segment_root_with_updates perm effective_log_seg columns updates =
     stream_slots perm effective_log_seg (\<lambda>local.
       case map_of updates local of
         Some v \<Rightarrow> v
       | None \<Rightarrow>
           (case columns of
              None \<Rightarrow> SLOT_EMPTY
            | Some columns \<Rightarrow> if local \<ge> length (sg_values columns) then SLOT_EMPTY else column_slot columns local))"

definition exact_local_subtree_root ::
  "permutation \<Rightarrow> segment_columns option \<Rightarrow> nat \<Rightarrow> nat \<Rightarrow> apply_exact_transition_error + digest" where
  "exact_local_subtree_root perm columns local_start level =
     (case columns of
        None \<Rightarrow> Inr (zero_slot_roots perm level ! level)
      | Some columns \<Rightarrow> stream_slots perm level (\<lambda>offset. column_slot columns (local_start + offset)))"

subsection \<open>The array tree of a segment\<close>

record segment_tree =
  tr_log_slots :: nat
  tr_nodes :: "digest list"
  tr_zeros :: "digest list"

definition leaf_or_zero :: "permutation \<Rightarrow> digest list \<Rightarrow> slot_value \<Rightarrow> digest" where
  "leaf_or_zero perm zeros v = (if slot_is_empty v then zeros ! 0 else slot_leaf_hash perm v)"

definition combine_zero :: "permutation \<Rightarrow> digest list \<Rightarrow> nat \<Rightarrow> digest \<Rightarrow> digest \<Rightarrow> digest" where
  "combine_zero perm zeros level left right =
     (if left = zeros ! level \<and> right = zeros ! level then zeros ! (level + 1) else state_node_hash perm left right)"

definition write_leaves :: "permutation \<Rightarrow> segment_columns \<Rightarrow> nat \<Rightarrow> digest list \<Rightarrow> digest list" where
  "write_leaves perm columns slots nodes =
     foldl (\<lambda>nodes local.
       let slot = column_slot columns local
       in if slot_is_empty slot then nodes else nodes[slots + local := slot_leaf_hash perm slot]) nodes [0..<slots]"

definition combine_level :: "permutation \<Rightarrow> digest list \<Rightarrow> nat \<Rightarrow> nat \<Rightarrow> digest list \<Rightarrow> digest list" where
  "combine_level perm zeros slots level nodes =
     (let start = drop_bit level slots
      in foldl (\<lambda>nodes node. nodes[node := combine_zero perm zeros (level - 1) (nodes ! (2 * node)) (nodes ! (2 * node + 1))])
           nodes [start..<2 * start])"

definition from_columns :: "permutation \<Rightarrow> nat \<Rightarrow> segment_columns \<Rightarrow> segment_tree option" where
  "from_columns perm log_slots columns =
     (let slots = 2 ^ log_slots in
      if \<not> columns_length columns slots then None
      else
        let zeros = zero_slot_roots perm log_slots;
            nodes = write_leaves perm columns slots (replicate (2 * slots) (zeros ! 0));
            nodes = foldl (\<lambda>nodes level. combine_level perm zeros slots level nodes) nodes [1..<Suc log_slots]
        in Some \<lparr>tr_log_slots = log_slots, tr_nodes = nodes, tr_zeros = zeros\<rparr>)"

definition tree_root :: "segment_tree \<Rightarrow> digest" where
  "tree_root t = tr_nodes t ! 1"

definition subtree_root :: "segment_tree \<Rightarrow> nat \<Rightarrow> nat \<Rightarrow> digest option" where
  "subtree_root t level index =
     (if level > tr_log_slots t then None
      else let width = 2 ^ (tr_log_slots t - level) in if index \<ge> width then None else Some (tr_nodes t ! (width + index)))"

function tree_climb :: "permutation \<Rightarrow> digest list \<Rightarrow> nat \<Rightarrow> nat \<Rightarrow> digest list \<Rightarrow> digest list" where
  "tree_climb perm zeros level node nodes =
     (if node > 1 then
        let hash = combine_zero perm zeros level (nodes ! (2 * (node div 2))) (nodes ! (2 * (node div 2) + 1))
        in if nodes ! (node div 2) = hash then nodes
           else tree_climb perm zeros (level + 1) (node div 2) (nodes[node div 2 := hash])
      else nodes)"
  by pat_completeness auto
termination
  by (relation "measure (\<lambda>(_, _, _, node, _). node)") auto

declare tree_climb.simps [simp del]

definition tree_set_slot :: "permutation \<Rightarrow> nat \<Rightarrow> slot_value \<Rightarrow> segment_tree \<Rightarrow> segment_tree" where
  "tree_set_slot perm local value t =
     (let node = 2 ^ tr_log_slots t + local;
          hash = leaf_or_zero perm (tr_zeros t) value
      in if tr_nodes t ! node = hash then t
         else t\<lparr>tr_nodes := tree_climb perm (tr_zeros t) 0 node ((tr_nodes t)[node := hash])\<rparr>)"

text \<open>The recursion of the overlay stops at width 1 in the code. Widths are powers of two, so testing for at most 1
  decides the same, and makes the recursion total.\<close>

function overlay_root :: "permutation \<Rightarrow> segment_tree \<Rightarrow> nat \<Rightarrow> nat \<Rightarrow> nat \<Rightarrow> (nat \<times> digest) list \<Rightarrow> digest" where
  "overlay_root perm t node start width updates =
     (if updates = [] then tr_nodes t ! node
      else if width \<le> 1 then snd (hd updates)
      else
        let half = width div 2;
            split = length (takeWhile (\<lambda>(local, _). local < start + half) updates);
            left = overlay_root perm t (2 * node) start half (take split updates);
            right = overlay_root perm t (2 * node + 1) (start + half) half (drop split updates)
        in state_node_hash perm left right)"
  by pat_completeness auto
termination
  by (relation "measure (\<lambda>(_, _, _, _, width, _). width)") auto

declare overlay_root.simps [simp del]

definition root_with_updates :: "permutation \<Rightarrow> segment_tree \<Rightarrow> (nat \<times> slot_value) list \<Rightarrow> digest option" where
  "root_with_updates perm t updates =
     (if \<exists>(local, _) \<in> set updates. \<not> local < 2 ^ tr_log_slots t then None
      else
        let leaves = map (\<lambda>(local, value). (local, leaf_or_zero perm (tr_zeros t) value)) updates
        in Some (overlay_root perm t 1 0 (2 ^ tr_log_slots t) leaves))"

subsection \<open>The two-level root cache\<close>

record root_cache =
  rc_log_slots :: nat
  rc_effective_log_seg :: nat
  rc_segment_roots :: "digest list"
  rc_tree :: "digest list"

definition build_tree :: "permutation \<Rightarrow> digest list \<Rightarrow> digest list" where
  "build_tree perm segment_roots =
     (let n = length segment_roots;
          tree = foldl (\<lambda>tree (index, root). tree[n + index := root]) (replicate (2 * n) 0) (enumerate 0 segment_roots)
      in foldl (\<lambda>tree index. tree[index := state_node_hash perm (tree ! (2 * index)) (tree ! (2 * index + 1))])
           tree (rev [1..<n]))"

definition empty_with_segment_log :: "permutation \<Rightarrow> nat \<Rightarrow> nat \<Rightarrow> root_cache" where
  "empty_with_segment_log perm log_slots effective_log_seg =
     (let segment_roots = replicate (2 ^ (log_slots - effective_log_seg)) (zero_slot_roots perm effective_log_seg ! effective_log_seg)
      in \<lparr>rc_log_slots = log_slots, rc_effective_log_seg = effective_log_seg, rc_segment_roots = segment_roots,
          rc_tree = build_tree perm segment_roots\<rparr>)"

definition root_cache_empty :: "permutation \<Rightarrow> nat \<Rightarrow> root_cache" where
  "root_cache_empty perm log_slots = empty_with_segment_log perm log_slots (min log_slots LOG_SEGMENT_SIZE)"

definition rc_root :: "root_cache \<Rightarrow> digest" where
  "rc_root c = (if length (rc_segment_roots c) = 1 then rc_segment_roots c ! 0 else rc_tree c ! 1)"

function climb :: "permutation \<Rightarrow> nat \<Rightarrow> digest list \<Rightarrow> digest list" where
  "climb perm node tree =
     (if node > 1 then
        climb perm (node div 2)
          (tree[node div 2 := state_node_hash perm (tree ! (2 * (node div 2))) (tree ! (2 * (node div 2) + 1))])
      else tree)"
  by pat_completeness auto
termination
  by (relation "measure (\<lambda>(_, node, _). node)") auto

declare climb.simps [simp del]

definition set_segment_root :: "permutation \<Rightarrow> u16 \<Rightarrow> digest \<Rightarrow> root_cache \<Rightarrow> root_cache" where
  "set_segment_root perm segment_id root c =
     (let index = unat segment_id;
          c = c\<lparr>rc_segment_roots := (rc_segment_roots c)[index := root]\<rparr>
      in if length (rc_segment_roots c) = 1 then c
         else
           let n = length (rc_segment_roots c); node = n + index
           in c\<lparr>rc_tree := climb perm node ((rc_tree c)[node := root])\<rparr>)"

definition segment_node_hash :: "root_cache \<Rightarrow> nat \<Rightarrow> nat \<Rightarrow> digest option" where
  "segment_node_hash c level node_index =
     (let n = length (rc_segment_roots c); upper_depth = ilog2 n in
      if level > upper_depth \<or> node_index \<ge> drop_bit level n then None
      else if level = 0 then (if node_index < n then Some (rc_segment_roots c ! node_index) else None)
      else
        let base = drop_bit level n
        in if base + node_index < length (rc_tree c) then Some (rc_tree c ! (base + node_index)) else None)"

definition rc_expand_one :: "permutation \<Rightarrow> root_cache \<Rightarrow> root_cache" where
  "rc_expand_one perm c =
     (let old_log_slots = rc_log_slots c;
          old_root = rc_root c;
          c = c\<lparr>rc_log_slots := old_log_slots + 1\<rparr>
      in if rc_log_slots c \<le> LOG_SEGMENT_SIZE then
           let empty_right = zero_slot_roots perm old_log_slots ! old_log_slots;
               roots = (rc_segment_roots c)[0 := state_node_hash perm old_root empty_right]
           in c\<lparr>rc_effective_log_seg := rc_log_slots c, rc_segment_roots := roots, rc_tree := build_tree perm roots\<rparr>
         else
           let zero_segment = zero_slot_roots perm (rc_effective_log_seg c) ! rc_effective_log_seg c;
               old_count = length (rc_segment_roots c);
               roots = rc_segment_roots c @ replicate (old_count * 2 - old_count) zero_segment
           in c\<lparr>rc_segment_roots := roots, rc_tree := build_tree perm roots\<rparr>)"

function rc_shrink_to :: "permutation \<Rightarrow> nat \<Rightarrow> root_cache \<Rightarrow> root_cache" where
  "rc_shrink_to perm target c =
     (if rc_log_slots c > target then
        let log_slots = rc_log_slots c - 1
        in if rc_log_slots c \<le> LOG_SEGMENT_SIZE then
             let roots = [zero_slot_roots perm log_slots ! log_slots]
             in rc_shrink_to perm target
                  (c\<lparr>rc_log_slots := log_slots, rc_effective_log_seg := log_slots, rc_segment_roots := roots,
                     rc_tree := build_tree perm roots\<rparr>)
           else
             let roots = take (length (rc_segment_roots c) div 2) (rc_segment_roots c)
             in rc_shrink_to perm target (c\<lparr>rc_log_slots := log_slots, rc_segment_roots := roots, rc_tree := build_tree perm roots\<rparr>)
      else c)"
  by pat_completeness auto
termination
  by (relation "measure (\<lambda>(_, _, c). rc_log_slots c)") auto

declare rc_shrink_to.simps [simp del]

subsection \<open>Reference notions\<close>

text \<open>A stack that covers the positions below p, top block first, and an array in which each node of the tree stands at its heap index.\<close>

fun stack_ok :: "permutation \<Rightarrow> (nat \<Rightarrow> digest) \<Rightarrow> nat \<Rightarrow> (nat \<times> digest) list \<Rightarrow> bool" where
  "stack_ok perm f p [] \<longleftrightarrow> p = 0"
| "stack_ok perm f p ((l, h) # rest) \<longleftrightarrow>
     2 ^ l \<le> p \<and> 2 ^ l dvd p \<and> 2 ^ Suc l dvd p - 2 ^ l \<and> h = tree_node perm f l (p div 2 ^ l - 1) \<and> stack_ok perm f (p - 2 ^ l) rest"

definition heap_ok :: "permutation \<Rightarrow> (nat \<Rightarrow> digest) \<Rightarrow> nat \<Rightarrow> digest list \<Rightarrow> bool" where
  "heap_ok perm f d nodes \<longleftrightarrow>
     length nodes = 2 * 2 ^ d \<and> (\<forall>l i. l \<le> d \<and> i < 2 ^ (d - l) \<longrightarrow> nodes ! (2 ^ (d - l) + i) = tree_node perm f l i)"

definition slot_hashes :: "permutation \<Rightarrow> (nat \<Rightarrow> slot_value) \<Rightarrow> nat \<Rightarrow> digest" where
  "slot_hashes perm slot i = slot_leaf_hash perm (slot i)"

definition segment_tree_ok :: "permutation \<Rightarrow> (nat \<Rightarrow> slot_value) \<Rightarrow> segment_tree \<Rightarrow> bool" where
  "segment_tree_ok perm slot t \<longleftrightarrow>
     tr_zeros t = zero_slot_roots perm (tr_log_slots t) \<and> heap_ok perm (slot_hashes perm slot) (tr_log_slots t) (tr_nodes t)"

definition root_cache_ok :: "permutation \<Rightarrow> root_cache \<Rightarrow> bool" where
  "root_cache_ok perm c \<longleftrightarrow>
     rc_effective_log_seg c = min (rc_log_slots c) LOG_SEGMENT_SIZE \<and>
     length (rc_segment_roots c) = 2 ^ (rc_log_slots c - rc_effective_log_seg c) \<and>
     (rc_log_slots c \<noteq> rc_effective_log_seg c \<longrightarrow>
        heap_ok perm ((!) (rc_segment_roots c)) (rc_log_slots c - rc_effective_log_seg c) (rc_tree c))"

definition stream_ok :: "permutation \<Rightarrow> (nat \<Rightarrow> digest) \<Rightarrow> nat \<Rightarrow> streaming_root \<Rightarrow> bool" where
  "stream_ok perm f depth s \<longleftrightarrow>
     st_depth s = depth \<and> st_zero_roots s = zero_slot_roots perm depth \<and> stack_ok perm f (st_position s) (st_stack s)"

definition node_ok :: "permutation \<Rightarrow> digest list \<Rightarrow> nat \<Rightarrow> bool" where
  "node_ok perm nodes k \<longleftrightarrow> nodes ! k = state_node_hash perm (nodes ! (2 * k)) (nodes ! (2 * k + 1))"

definition override :: "(nat \<Rightarrow> 'a) \<Rightarrow> (nat \<times> 'a) list \<Rightarrow> nat \<Rightarrow> 'a" where
  "override f us j = (case map_of us j of Some h \<Rightarrow> h | None \<Rightarrow> f j)"

section \<open>Lemmas\<close>

subsection \<open>The streaming builder\<close>

lemma odd_multiple:
  assumes "2 ^ Suc t dvd p - 2 ^ t" "2 ^ t \<le> (p :: nat)"
  obtains k where "p = 2 ^ t * (2 * k + 1)" "p - 2 ^ t = 2 ^ Suc t * k"
proof -
  obtain k where k: "p - 2 ^ t = 2 ^ Suc t * k" using assms(1) by (rule dvdE)
  then have "p = 2 ^ Suc t * k + 2 ^ t" using assms(2) by linarith
  then have "p = 2 ^ t * (2 * k + 1)" by simp
  then show thesis using k that by blast
qed

lemma dvd_pow_sub:
  assumes "2 ^ Suc t dvd p - 2 ^ t" "2 ^ t \<le> p" "2 ^ l dvd (p :: nat)" "l \<noteq> t"
  shows "2 ^ Suc l dvd p"
proof -
  obtain k where k: "p = 2 ^ t * (2 * k + 1)" using odd_multiple [OF assms(1,2)] by blast
  have "l \<le> t"
  proof (rule ccontr)
    assume "\<not> l \<le> t"
    then have "2 ^ Suc t dvd (2 :: nat) ^ l" by (intro le_imp_power_dvd) simp
    then have "2 ^ t * 2 dvd 2 ^ t * (2 * k + 1)" using assms(3) k by (metis dvd_trans power_Suc2)
    then have "2 dvd 2 * k + 1" by (simp only: nat_mult_dvd_cancel_disj) simp
    then show False by simp
  qed
  then have "2 ^ Suc l dvd (2 :: nat) ^ t" using assms(4) by (intro le_imp_power_dvd) simp
  then show ?thesis unfolding k by simp
qed

lemma append_block_ok:
  assumes "stack_ok perm f p stack" "2 ^ l dvd p" "h = tree_node perm f l (p div 2 ^ l)"
  shows "stack_ok perm f (p + 2 ^ l) (append_block perm l h stack)"
  using assms
proof (induction perm l h stack arbitrary: p rule: append_block.induct)
  case (1 perm l h)
  then show ?case by simp
next
  case (2 perm l h t left stack)
  note top = 2(2)[simplified]
  show ?case
  proof (cases "t = l")
    case False
    have "2 ^ Suc l dvd p" by (rule dvd_pow_sub [of t]) (use top 2(3) False in auto)
    then show ?thesis using False 2(2,3,4) by (simp add: div_add)
  next
    case True
    obtain k where p: "p = 2 ^ l * (2 * k + 1)" and k: "p - 2 ^ l = 2 ^ Suc l * k"
      using odd_multiple [of l p] top True by auto
    have "p div 2 ^ l = 2 * k + 1" unfolding p by simp
    then have "state_node_hash perm left h = tree_node perm f (Suc l) ((p - 2 ^ l) div 2 ^ Suc l)"
      using top 2(4) True k by simp
    then have "stack_ok perm f (p - 2 ^ l + 2 ^ Suc l) (append_block perm (l + 1) (state_node_hash perm left h) stack)"
      using 2(1) [OF True, of "p - 2 ^ l"] top True k by simp
    moreover have "p - 2 ^ l + 2 ^ Suc l = p + 2 ^ l" using top True by simp
    ultimately show ?thesis using True by (simp add: add.commute)
  qed
qed

lemma ilog2_bound: "0 < n \<Longrightarrow> 2 ^ ilog2 n \<le> n"
proof (induction n rule: ilog2.induct)
  case (1 n)
  then show ?case by (subst ilog2.simps) (auto simp: not_less)
qed

lemma trailing_zeros_dvd: "0 < n \<Longrightarrow> 2 ^ trailing_zeros n dvd n"
proof (induction n rule: trailing_zeros.induct)
  case (1 n)
  then show ?case by (subst trailing_zeros.simps) (auto elim!: evenE)
qed

lemma gap_level_facts:
  assumes "p < e"
  shows "2 ^ gap_level d p e dvd p" "p + 2 ^ gap_level d p e \<le> e" "gap_level d p e \<le> d"
proof -
  let ?l = "gap_level d p e"
  show "?l \<le> d" by (simp add: gap_level_def Let_def min_le_iff_disj)
  have "?l \<le> ilog2 (e - p)" by (simp add: gap_level_def Let_def)
  then have "2 ^ ?l \<le> (2 :: nat) ^ ilog2 (e - p)" by (intro power_increasing) auto
  then show "p + 2 ^ ?l \<le> e" using ilog2_bound [of "e - p"] assms by linarith
  show "2 ^ ?l dvd p"
  proof (cases "p = 0")
    case False
    then have "?l \<le> trailing_zeros p" by (simp add: gap_level_def Let_def)
    then have "2 ^ ?l dvd (2 :: nat) ^ trailing_zeros p" by (rule le_imp_power_dvd)
    then show ?thesis using trailing_zeros_dvd False dvd_trans by blast
  qed simp
qed

lemma fill_blocks_ok:
  assumes "stream_ok perm f depth s" "\<forall>j. st_position s \<le> j \<and> j < e \<longrightarrow> f j = slot_leaf_hash perm SLOT_EMPTY" "st_position s \<le> e"
  shows "stream_ok perm f depth (fill_blocks perm e s) \<and> st_position (fill_blocks perm e s) = e"
  using assms
proof (induction perm e s rule: fill_blocks.induct)
  case (1 perm e s)
  show ?case
  proof (cases "st_position s < e")
    case True
    let ?p = "st_position s" let ?l = "gap_level (st_depth s) ?p e"
    let ?s = "s\<lparr>st_stack := append_block perm ?l (st_zero_roots s ! ?l) (st_stack s), st_position := ?p + 2 ^ ?l\<rparr>"
    note gap = gap_level_facts [OF True, of "st_depth s"]
    have "st_zero_roots s ! ?l = tree_node perm (\<lambda>_. slot_leaf_hash perm SLOT_EMPTY) ?l (?p div 2 ^ ?l)"
      using 1(2) gap(3) by (simp add: stream_ok_def zero_slot_roots_nth)
    also have "\<dots> = tree_node perm f ?l (?p div 2 ^ ?l)"
    proof (rule tree_node_cong)
      fix j assume j: "j div 2 ^ ?l = ?p div 2 ^ ?l"
      have "?p = 2 ^ ?l * (?p div 2 ^ ?l)" using gap(1) by simp
      then have "?p + j mod 2 ^ ?l = j" using j div_mult_mod_eq [of j "2 ^ ?l"] by (simp add: algebra_simps)
      moreover have "j mod 2 ^ ?l < 2 ^ ?l" by simp
      ultimately have "?p \<le> j" "j < ?p + 2 ^ ?l" by linarith+
      then show "slot_leaf_hash perm SLOT_EMPTY = f j" using 1(3) gap(2) by simp
    qed
    finally have "stream_ok perm f depth ?s"
      using 1(2) append_block_ok [OF _ gap(1)] by (simp add: stream_ok_def)
    then show ?thesis
      using 1(1) [OF True refl] 1(3) gap(2) True by (simp add: fill_blocks.simps [of perm e s] Let_def)
  next
    case False
    then show ?thesis using 1 by (simp add: fill_blocks.simps [of perm e s])
  qed
qed

lemma stack_full:
  assumes "stack_ok perm f (2 ^ d) stack"
  shows "stack = [(d, tree_node perm f d 0)]"
proof (cases stack)
  case (Cons e rest)
  obtain l h where e: "e = (l, h)" by (cases e)
  have top: "2 ^ l \<le> (2 :: nat) ^ d" "2 ^ Suc l dvd (2 :: nat) ^ d - 2 ^ l" "stack_ok perm f (2 ^ d - 2 ^ l) rest"
    "h = tree_node perm f l (2 ^ d div 2 ^ l - 1)"
    using assms by (simp_all add: Cons e)
  have "l = d"
  proof (rule ccontr)
    assume "l \<noteq> d"
    then have "2 ^ Suc l dvd (2 :: nat) ^ d" using top(1) by (intro le_imp_power_dvd) simp
    then have "2 ^ Suc l dvd (2 :: nat) ^ l" using top(1,2) by (metis dvd_diff_nat diff_diff_cancel)
    then show False by (simp add: dvd_power_iff_le)
  qed
  moreover have "rest = []" using top(3) \<open>l = d\<close> by (cases rest) auto
  ultimately show ?thesis using top(4) by (simp add: Cons e)
qed (use assms in simp)

lemma fill_zero_gap_ok:
  assumes "stream_ok perm f depth s" "depth < 64" "st_position s \<le> e" "e \<le> 2 ^ depth"
    and "\<forall>j. st_position s \<le> j \<and> j < e \<longrightarrow> f j = slot_leaf_hash perm SLOT_EMPTY"
  obtains s' where "fill_zero_gap perm e s = Inr s'" "stream_ok perm f depth s'" "st_position s' = e"
proof
  show "fill_zero_gap perm e s = Inr (fill_blocks perm e s)" using assms by (simp add: fill_zero_gap_def stream_ok_def)
qed (use fill_blocks_ok [OF assms(1,5,3)] in auto)

lemma stream_fold_ok:
  assumes "n \<le> 2 ^ depth" "depth < 64"
  shows "\<exists>s. rfold (\<lambda>stream local.
              if slot_is_empty (slot local) then Inr stream
              else push_leaf perm local (slot_leaf_hash perm (slot local)) stream)
            \<lparr>st_depth = depth, st_position = 0, st_zero_roots = zero_slot_roots perm depth, st_stack = []\<rparr> [0..<n] = Inr s \<and>
    stream_ok perm (slot_hashes perm slot) depth s \<and> st_position s \<le> n \<and>
    (\<forall>j. st_position s \<le> j \<and> j < n \<longrightarrow> slot_is_empty (slot j))"
  using assms(1)
proof (induction n)
  case (Suc n)
  let ?f = "slot_hashes perm slot"
  let ?step = "\<lambda>stream local. if slot_is_empty (slot local) then Inr stream
              else push_leaf perm local (slot_leaf_hash perm (slot local)) stream"
  obtain s where s: "rfold ?step \<lparr>st_depth = depth, st_position = 0, st_zero_roots = zero_slot_roots perm depth, st_stack = []\<rparr> [0..<n] = Inr s"
    "stream_ok perm ?f depth s" "st_position s \<le> n" "\<forall>j. st_position s \<le> j \<and> j < n \<longrightarrow> slot_is_empty (slot j)"
    using Suc by auto
  show ?case
  proof (cases "slot_is_empty (slot n)")
    case True
    then show ?thesis using s by (auto simp: rfold_append less_Suc_eq)
  next
    case False
    have "\<forall>j. st_position s \<le> j \<and> j < n \<longrightarrow> ?f j = slot_leaf_hash perm SLOT_EMPTY"
      using s(4) by (simp add: slot_hashes_def slot_is_empty_def)
    then obtain s' where s': "fill_zero_gap perm n s = Inr s'" "stream_ok perm ?f depth s'" "st_position s' = n"
      using fill_zero_gap_ok [OF s(2) assms(2) s(3)] Suc.prems by auto
    have "stack_ok perm ?f (n + 2 ^ 0) (append_block perm 0 (slot_leaf_hash perm (slot n)) (st_stack s'))"
      using s'(2,3) by (intro append_block_ok) (simp_all add: stream_ok_def slot_hashes_def)
    then show ?thesis
      using s s' False by (simp add: rfold_append push_leaf_def stream_ok_def)
  qed
qed (simp add: stream_ok_def)

lemma stream_slots_exact:
  assumes "depth < 64"
  shows "stream_slots perm depth slot = Inr (tree_node perm (slot_hashes perm slot) depth 0)"
proof -
  let ?f = "slot_hashes perm slot"
  obtain s where s: "rfold (\<lambda>stream local.
              if slot_is_empty (slot local) then Inr stream
              else push_leaf perm local (slot_leaf_hash perm (slot local)) stream)
            \<lparr>st_depth = depth, st_position = 0, st_zero_roots = zero_slot_roots perm depth, st_stack = []\<rparr> [0..<2 ^ depth] = Inr s"
    "stream_ok perm ?f depth s" "st_position s \<le> 2 ^ depth" "\<forall>j. st_position s \<le> j \<and> j < 2 ^ depth \<longrightarrow> slot_is_empty (slot j)"
    using stream_fold_ok [OF order_refl assms] by blast
  have "\<forall>j. st_position s \<le> j \<and> j < 2 ^ depth \<longrightarrow> ?f j = slot_leaf_hash perm SLOT_EMPTY"
    using s(4) by (simp add: slot_hashes_def slot_is_empty_def)
  then obtain s' where s': "fill_zero_gap perm (2 ^ depth) s = Inr s'" "stream_ok perm ?f depth s'" "st_position s' = 2 ^ depth"
    using fill_zero_gap_ok [OF s(2) assms s(3) order_refl] by blast
  then have "st_stack s' = [(depth, tree_node perm ?f depth 0)]" using stack_full by (simp add: stream_ok_def)
  then show ?thesis using s(1,2) s' assms by (simp add: stream_slots_def stream_new_def stream_finish_def stream_ok_def)
qed

subsection \<open>Array trees\<close>

lemma heap_index:
  assumes "k \<noteq> 0" "k < 2 * (2 :: nat) ^ d"
  obtains l i where "l \<le> d" "i < 2 ^ (d - l)" "k = 2 ^ (d - l) + i"
  using assms
proof (induction d arbitrary: thesis)
  case 0
  then show ?case by simp
next
  case (Suc d)
  show ?case
  proof (cases "k < 2 * 2 ^ d")
    case True
    then obtain l i where li: "l \<le> d" "i < 2 ^ (d - l)" "k = 2 ^ (d - l) + i" using Suc by metis
    then show ?thesis using Suc.prems(1) [of "Suc l" i] by simp
  next
    case False
    then show ?thesis using Suc.prems(1) [of 0 "k - 2 ^ Suc d"] Suc.prems(3) by simp
  qed
qed

lemma heap_ok_iff:
  "heap_ok perm f d nodes \<longleftrightarrow>
     length nodes = 2 * 2 ^ d \<and> (\<forall>i < 2 ^ d. nodes ! (2 ^ d + i) = f i) \<and> (\<forall>k. 1 \<le> k \<and> k < 2 ^ d \<longrightarrow> node_ok perm nodes k)"
  (is "_ \<longleftrightarrow> ?len \<and> ?leaves \<and> ?inner")
proof
  assume h: "heap_ok perm f d nodes"
  then have node: "\<And>l i. l \<le> d \<Longrightarrow> i < 2 ^ (d - l) \<Longrightarrow> nodes ! (2 ^ (d - l) + i) = tree_node perm f l i" and len: ?len
    by (auto simp: heap_ok_def)
  have ?leaves using node [of 0] by simp
  moreover have ?inner
  proof (intro allI impI)
    fix k :: nat assume k: "1 \<le> k \<and> k < 2 ^ d"
    then obtain d' where d': "d = Suc d'" by (cases d) auto
    obtain l i where li: "l \<le> d'" "i < 2 ^ (d' - l)" "k = 2 ^ (d' - l) + i"
      using heap_index [of k d'] k by (auto simp: d')
    have "nodes ! k = tree_node perm f (Suc l) i" using node [of "Suc l" i] li by (simp add: d')
    moreover have "nodes ! (2 * k) = tree_node perm f l (2 * i)" "nodes ! (2 * k + 1) = tree_node perm f l (2 * i + 1)"
      using node [of l "2 * i"] node [of l "2 * i + 1"] li by (simp_all add: d' Suc_diff_le)
    ultimately show "node_ok perm nodes k" by (simp add: node_ok_def)
  qed
  ultimately show "?len \<and> ?leaves \<and> ?inner" using len by blast
next
  assume h: "?len \<and> ?leaves \<and> ?inner"
  have "nodes ! (2 ^ (d - l) + i) = tree_node perm f l i" if "l \<le> d" "i < 2 ^ (d - l)" for l i
    using that
  proof (induction l arbitrary: i)
    case (Suc l)
    have e: "2 ^ (d - l) = 2 * (2 :: nat) ^ (d - Suc l)" using Suc.prems(1) by (metis Suc_diff_Suc Suc_le_lessD power_Suc)
    have "(2 :: nat) ^ (d - Suc l) + i < 2 ^ d"
    proof -
      have "(2 :: nat) ^ (d - Suc l) + i < 2 * 2 ^ (d - Suc l)" using Suc.prems(2) by simp
      also have "\<dots> = 2 ^ (d - l)" by (simp add: e)
      also have "\<dots> \<le> 2 ^ d" by (intro power_increasing) auto
      finally show ?thesis .
    qed
    moreover have "1 \<le> (2 :: nat) ^ (d - Suc l) + i" by (simp add: Suc_le_eq)
    ultimately have "node_ok perm nodes (2 ^ (d - Suc l) + i)" using h by blast
    moreover have "2 * (2 ^ (d - Suc l) + i) = 2 ^ (d - l) + 2 * i" by (simp add: e)
    ultimately show ?case
      using Suc.IH [of "2 * i"] Suc.IH [of "2 * i + 1"] Suc.prems by (simp add: node_ok_def e)
  qed (use h in simp)
  then show "heap_ok perm f d nodes" using h by (auto simp: heap_ok_def)
qed

lemma node_ok_update:
  assumes "node_ok perm nodes k" "k \<noteq> j" "2 * k \<noteq> j" "2 * k + 1 \<noteq> j"
  shows "node_ok perm (nodes[j := x]) k"
  using assms by (simp add: node_ok_def)

lemma climb_ok:
  assumes "\<forall>k. 1 \<le> k \<and> k < n \<and> k \<noteq> node div 2 \<longrightarrow> node_ok perm tree k" "node < 2 * n" "length tree = 2 * n" "1 \<le> node"
  shows "(\<forall>k. 1 \<le> k \<and> k < n \<longrightarrow> node_ok perm (climb perm node tree) k) \<and> length (climb perm node tree) = 2 * n \<and>
    (\<forall>j. n \<le> j \<longrightarrow> climb perm node tree ! j = tree ! j)"
  using assms
proof (induction perm node tree rule: climb.induct)
  case (1 perm node tree)
  show ?case
  proof (cases "node > 1")
    case True
    let ?k = "node div 2" let ?t = "tree[?k := state_node_hash perm (tree ! (2 * ?k)) (tree ! (2 * ?k + 1))]"
    have k: "1 \<le> ?k" "?k < n" using True 1(3) by auto
    have "node_ok perm ?t j" if j: "1 \<le> j \<and> j < n \<and> j \<noteq> ?k div 2" for j
    proof (cases "j = ?k")
      case True
      then show ?thesis using k 1(4) by (simp add: node_ok_def)
    next
      case False
      then show ?thesis using 1(2) j by (intro node_ok_update) auto
    qed
    then show ?thesis
      using 1(1) [OF True] k 1(4) True by (simp add: climb.simps [of perm node tree])
  next
    case False
    then show ?thesis using 1 by (simp add: climb.simps [of perm node tree])
  qed
qed

lemma combine_zero_eq: "level < depth \<Longrightarrow> combine_zero perm (zero_slot_roots perm depth) level a b = state_node_hash perm a b"
  using zero_slot_roots_nth [of level depth perm 0] zero_slot_roots_nth [of level depth perm 1] zero_slot_roots_nth [of "Suc level" depth perm 0]
  by (auto simp: combine_zero_def)

lemma leaf_or_zero_eq: "leaf_or_zero perm (zero_slot_roots perm depth) v = slot_leaf_hash perm v"
  using zero_slot_roots_nth [of 0 depth perm 0] by (auto simp: leaf_or_zero_def slot_is_empty_def)

lemma tree_climb_ok:
  assumes "\<forall>k. 1 \<le> k \<and> k < 2 ^ d \<and> k \<noteq> node div 2 \<longrightarrow> node_ok perm nodes k" "length nodes = 2 * 2 ^ d" "level \<le> d"
    and "2 ^ (d - level) \<le> node" "node < 2 * 2 ^ (d - level)"
  shows "(\<forall>k. 1 \<le> k \<and> k < 2 ^ d \<longrightarrow> node_ok perm (tree_climb perm (zero_slot_roots perm d) level node nodes) k) \<and>
    length (tree_climb perm (zero_slot_roots perm d) level node nodes) = 2 * 2 ^ d \<and>
    (\<forall>j. 2 ^ d \<le> j \<longrightarrow> tree_climb perm (zero_slot_roots perm d) level node nodes ! j = nodes ! j)"
  using assms
proof (induction "d - level" arbitrary: level node nodes)
  case 0
  then show ?case by (simp add: tree_climb.simps [of perm _ level node nodes])
next
  case (Suc m)
  let ?k = "node div 2" let ?h = "state_node_hash perm (nodes ! (2 * ?k)) (nodes ! (2 * ?k + 1))"
  have d: "d - level = Suc (d - Suc level)" "level < d" using Suc.hyps(2) by auto
  have pow: "2 ^ (d - level) = 2 * (2 :: nat) ^ (d - Suc level)" unfolding d(1) by simp
  have "2 ^ (d - level) \<le> (2 :: nat) ^ d" by (intro power_increasing) auto
  have node: "1 < node" using Suc.prems(4) pow one_le_power [of "2 :: nat" "d - Suc level"] by linarith
  have k: "1 \<le> ?k" "?k < 2 ^ d" "2 ^ (d - Suc level) \<le> ?k" "?k < 2 * 2 ^ (d - Suc level)"
    using node Suc.prems(4,5) pow \<open>2 ^ (d - level) \<le> 2 ^ d\<close> by linarith+
  have step: "tree_climb perm (zero_slot_roots perm d) level node nodes =
      (if nodes ! ?k = ?h then nodes else tree_climb perm (zero_slot_roots perm d) (Suc level) ?k (nodes[?k := ?h]))"
    using node d(2) by (simp add: tree_climb.simps [of perm _ level node nodes] combine_zero_eq Let_def)
  show ?case
  proof (cases "nodes ! ?k = ?h")
    case True
    then have "node_ok perm nodes ?k" by (simp add: node_ok_def)
    then show ?thesis using Suc.prems(1,2) step True by auto
  next
    case False
    have "node_ok perm (nodes[?k := ?h]) j" if j: "1 \<le> j \<and> j < 2 ^ d \<and> j \<noteq> ?k div 2" for j
    proof (cases "j = ?k")
      case True
      then show ?thesis using k Suc.prems(2) by (simp add: node_ok_def)
    next
      case False
      then show ?thesis using Suc.prems(1) j by (intro node_ok_update) auto
    qed
    then show ?thesis
      using Suc.hyps(1) [of "Suc level" ?k "nodes[?k := ?h]"] Suc.hyps(2) Suc.prems(2) d(2) k False step by simp
  qed
qed

lemma write_roots:
  assumes "n + k + length roots \<le> length tree"
  shows "foldl (\<lambda>tree (index, root). tree[n + index := root]) tree (enumerate k roots) =
    take (n + k) tree @ roots @ drop (n + k + length roots) tree"
  using assms
proof (induction roots arbitrary: tree k)
  case (Cons r roots)
  have "foldl (\<lambda>tree (index, root). tree[n + index := root]) (tree[n + k := r]) (enumerate (Suc k) roots) =
      take (n + Suc k) (tree[n + k := r]) @ roots @ drop (n + Suc k + length roots) (tree[n + k := r])"
    using Cons.prems by (intro Cons.IH) simp
  then show ?case using Cons.prems by (simp add: take_Suc_conv_app_nth list_update_append)
qed simp

lemma build_down:
  assumes "1 \<le> a" "a \<le> n" "length tree = 2 * n"
  shows "let t = foldl (\<lambda>tree index. tree[index := state_node_hash perm (tree ! (2 * index)) (tree ! (2 * index + 1))]) tree (rev [a..<n])
    in length t = 2 * n \<and> (\<forall>k. a \<le> k \<and> k < n \<longrightarrow> node_ok perm t k) \<and> (\<forall>j. n \<le> j \<longrightarrow> t ! j = tree ! j)"
  using assms
proof (induction "n - a" arbitrary: a)
  case (Suc m)
  let ?g = "\<lambda>tree index. tree[index := state_node_hash perm (tree ! (2 * index)) (tree ! (2 * index + 1))]"
  let ?t = "foldl ?g tree (rev [Suc a..<n])"
  have a: "a < n" using Suc.hyps(2) by simp
  have ih: "length ?t = 2 * n" "\<forall>k. Suc a \<le> k \<and> k < n \<longrightarrow> node_ok perm ?t k" "\<forall>j. n \<le> j \<longrightarrow> ?t ! j = tree ! j"
    using Suc.hyps(1) [of "Suc a"] Suc.hyps(2) Suc.prems a by (auto simp: Let_def)
  have t: "foldl ?g tree (rev [a..<n]) = ?g ?t a" using a by (simp add: upt_conv_Cons)
  have "node_ok perm (?g ?t a) k" if "a \<le> k \<and> k < n" for k
  proof (cases "k = a")
    case True
    then show ?thesis using Suc.prems(1) a ih(1) by (simp add: node_ok_def)
  next
    case False
    then show ?thesis using ih(2) that Suc.prems(1) by (intro node_ok_update) auto
  qed
  then show ?case using ih a unfolding Let_def t by simp
qed auto

lemma build_tree_ok:
  assumes "length roots = 2 ^ d"
  shows "heap_ok perm ((!) roots) d (build_tree perm roots)"
proof -
  let ?n = "length roots"
  let ?t = "foldl (\<lambda>tree (index, root). tree[?n + index := root]) (replicate (2 * ?n) 0) (enumerate 0 roots)"
  have t: "?t = replicate ?n 0 @ roots" using write_roots [of ?n 0 roots "replicate (2 * ?n) 0"] by simp
  then have "length ?t = 2 * ?n" by simp
  moreover have "1 \<le> ?n" using assms by simp
  ultimately have "let b = build_tree perm roots in
      length b = 2 * ?n \<and> (\<forall>k. 1 \<le> k \<and> k < ?n \<longrightarrow> node_ok perm b k) \<and> (\<forall>j. ?n \<le> j \<longrightarrow> b ! j = ?t ! j)"
    using build_down [of 1 ?n ?t perm] unfolding build_tree_def Let_def by auto
  moreover have "?t ! (?n + i) = roots ! i" for i unfolding t by (simp add: nth_append)
  ultimately show ?thesis using assms by (simp add: heap_ok_iff Let_def)
qed

lemma tree_node_trees: "tree_node perm (tree_node perm f e) u i = tree_node perm f (e + u) i"
  by (induction u arbitrary: i) simp_all

lemma combine_range:
  assumes "0 < a" "a \<le> b" "b \<le> length nodes"
  shows "length (foldl (\<lambda>nodes node. nodes[node := g (nodes ! (2 * node)) (nodes ! (2 * node + 1))]) nodes [a..<b]) = length nodes"
    "foldl (\<lambda>nodes node. nodes[node := g (nodes ! (2 * node)) (nodes ! (2 * node + 1))]) nodes [a..<b] ! j =
      (if a \<le> j \<and> j < b then g (nodes ! (2 * j)) (nodes ! (2 * j + 1)) else nodes ! j)"
proof -
  let ?F = "\<lambda>b. foldl (\<lambda>nodes node. nodes[node := g (nodes ! (2 * node)) (nodes ! (2 * node + 1))]) nodes [a..<b]"
  have "length (?F b) = length nodes \<and> (\<forall>j. ?F b ! j = (if a \<le> j \<and> j < b then g (nodes ! (2 * j)) (nodes ! (2 * j + 1)) else nodes ! j))"
    using assms(2,3)
  proof (induction b rule: dec_induct)
    case (step b)
    then show ?case using assms(1) by (auto simp: nth_list_update)
  qed auto
  then show "length (?F b) = length nodes" "?F b ! j = (if a \<le> j \<and> j < b then g (nodes ! (2 * j)) (nodes ! (2 * j + 1)) else nodes ! j)"
    by blast+
qed

lemma combine_level_ok:
  assumes "length nodes = 2 * 2 ^ d" "1 \<le> level" "level \<le> d"
  shows "length (combine_level perm (zero_slot_roots perm d) (2 ^ d) level nodes) = 2 * 2 ^ d"
    "combine_level perm (zero_slot_roots perm d) (2 ^ d) level nodes ! j =
      (if 2 ^ (d - level) \<le> j \<and> j < 2 * 2 ^ (d - level) then state_node_hash perm (nodes ! (2 * j)) (nodes ! (2 * j + 1)) else nodes ! j)"
proof -
  have start: "drop_bit level (2 ^ d :: nat) = 2 ^ (d - level)"
    using assms(3) by (simp add: drop_bit_eq_div power_diff)
  have "(2 :: nat) * 2 ^ (d - level) \<le> 2 * 2 ^ d" by (simp add: power_increasing)
  then show "length (combine_level perm (zero_slot_roots perm d) (2 ^ d) level nodes) = 2 * 2 ^ d"
    "combine_level perm (zero_slot_roots perm d) (2 ^ d) level nodes ! j =
      (if 2 ^ (d - level) \<le> j \<and> j < 2 * 2 ^ (d - level) then state_node_hash perm (nodes ! (2 * j)) (nodes ! (2 * j + 1)) else nodes ! j)"
    using assms combine_range [of "2 ^ (d - level)" "2 * 2 ^ (d - level)" nodes "state_node_hash perm"]
    by (simp_all add: combine_level_def start combine_zero_eq Let_def)
qed

lemma combine_levels_ok:
  assumes "length nodes = 2 * 2 ^ d" "\<forall>i < 2 ^ d. nodes ! (2 ^ d + i) = f i" "m \<le> d"
  shows "let t = foldl (\<lambda>nodes level. combine_level perm (zero_slot_roots perm d) (2 ^ d) level nodes) nodes [1..<Suc m]
    in length t = 2 * 2 ^ d \<and> (\<forall>l i. l \<le> m \<and> i < 2 ^ (d - l) \<longrightarrow> t ! (2 ^ (d - l) + i) = tree_node perm f l i)"
  using assms(3)
proof (induction m)
  case (Suc m)
  let ?t = "foldl (\<lambda>nodes level. combine_level perm (zero_slot_roots perm d) (2 ^ d) level nodes) nodes [1..<Suc m]"
  let ?c = "combine_level perm (zero_slot_roots perm d) (2 ^ d) (Suc m) ?t"
  have ih: "length ?t = 2 * 2 ^ d" "\<forall>l i. l \<le> m \<and> i < 2 ^ (d - l) \<longrightarrow> ?t ! (2 ^ (d - l) + i) = tree_node perm f l i"
    using Suc by (auto simp: Let_def)
  note c = combine_level_ok [OF ih(1), of "Suc m" perm]
  have e: "2 ^ (d - m) = 2 * (2 :: nat) ^ (d - Suc m)" using Suc.prems by (metis Suc_diff_Suc Suc_le_lessD power_Suc)
  have "?c ! (2 ^ (d - l) + i) = tree_node perm f l i" if "l \<le> Suc m" "i < 2 ^ (d - l)" for l i
  proof (cases "l = Suc m")
    case True
    have "2 * (2 ^ (d - Suc m) + i) = 2 ^ (d - m) + 2 * i" by (simp add: e)
    then show ?thesis
      using True that ih(2) [rule_format, of m "2 * i"] ih(2) [rule_format, of m "2 * i + 1"] c(2) Suc.prems by (simp add: e)
  next
    case False
    then have "2 ^ (d - m) \<le> (2 :: nat) ^ (d - l)" using that by (intro power_increasing) auto
    then show ?thesis using False that ih(2) c(2) Suc.prems by (simp add: e)
  qed
  then show ?case using c(1) Suc.prems by (simp add: Let_def)
qed (use assms in simp)

lemma write_leaves_ok:
  assumes "length nodes = 2 * n" "m \<le> n" "\<forall>i < n. nodes ! (n + i) = slot_leaf_hash perm SLOT_EMPTY"
  shows "let t = foldl (\<lambda>nodes local. let slot = column_slot columns local
       in if slot_is_empty slot then nodes else nodes[n + local := slot_leaf_hash perm slot]) nodes [0..<m]
    in length t = 2 * n \<and> (\<forall>i < n. t ! (n + i) = (if i < m then slot_leaf_hash perm (column_slot columns i) else nodes ! (n + i)))"
  using assms(2)
proof (induction m)
  case (Suc m)
  then show ?case using assms(1,3) by (auto simp: Let_def slot_is_empty_def nth_list_update less_Suc_eq)
qed (use assms in simp)

lemma from_columns_ok:
  assumes "columns_length columns (2 ^ d)"
  obtains t where "from_columns perm d columns = Some t" "tr_log_slots t = d" "segment_tree_ok perm (column_slot columns) t"
proof -
  let ?z = "zero_slot_roots perm d" let ?n = "(2 :: nat) ^ d"
  let ?w = "write_leaves perm columns ?n (replicate (2 * ?n) (?z ! 0))"
  let ?t = "foldl (\<lambda>nodes level. combine_level perm ?z ?n level nodes) ?w [1..<Suc d]"
  have z: "?z ! 0 = slot_leaf_hash perm SLOT_EMPTY" using zero_slot_roots_nth [of 0 d perm 0] by simp
  have w: "length ?w = 2 * ?n" "\<forall>i < ?n. ?w ! (?n + i) = slot_hashes perm (column_slot columns) i"
    using write_leaves_ok [of "replicate (2 * ?n) (?z ! 0)" ?n ?n perm columns]
    by (simp_all add: write_leaves_def slot_hashes_def Let_def z)
  have "heap_ok perm (slot_hashes perm (column_slot columns)) d ?t"
    using combine_levels_ok [OF w order_refl, of perm] unfolding heap_ok_def Let_def by blast
  then show thesis
    using that [of "\<lparr>tr_log_slots = d, tr_nodes = ?t, tr_zeros = ?z\<rparr>"] assms
    by (simp add: from_columns_def segment_tree_ok_def Let_def del: upt_Suc)
qed

lemma tree_set_slot_ok:
  assumes "segment_tree_ok perm slot t" "local < 2 ^ tr_log_slots t"
  shows "segment_tree_ok perm (slot(local := v)) (tree_set_slot perm local v t)" "tr_log_slots (tree_set_slot perm local v t) = tr_log_slots t"
proof -
  let ?d = "tr_log_slots t" let ?n = "(2 :: nat) ^ ?d" let ?h = "slot_leaf_hash perm v" let ?node = "?n + local"
  let ?f = "slot_hashes perm slot" let ?g = "slot_hashes perm (slot(local := v))"
  have z: "tr_zeros t = zero_slot_roots perm ?d" and h: "heap_ok perm ?f ?d (tr_nodes t)" using assms(1) by (auto simp: segment_tree_ok_def)
  note heap = h [unfolded heap_ok_iff]
  have g: "?g i = (if i = local then ?h else ?f i)" for i by (simp add: slot_hashes_def)
  have set: "tree_set_slot perm local v t = (if tr_nodes t ! ?node = ?h then t
      else t\<lparr>tr_nodes := tree_climb perm (zero_slot_roots perm ?d) 0 ?node ((tr_nodes t)[?node := ?h])\<rparr>)"
    by (simp add: tree_set_slot_def z leaf_or_zero_eq Let_def)
  show "tr_log_slots (tree_set_slot perm local v t) = ?d" by (simp add: set)
  show "segment_tree_ok perm (slot(local := v)) (tree_set_slot perm local v t)"
  proof (cases "tr_nodes t ! ?node = ?h")
    case True
    then have "?g i = ?f i" if "i < ?n" for i using heap assms(2) g by metis
    then have "heap_ok perm ?g ?d (tr_nodes t)" using heap by (simp add: heap_ok_iff)
    then show ?thesis using True z by (simp add: set segment_tree_ok_def)
  next
    case False
    let ?nodes = "(tr_nodes t)[?node := ?h]"
    have "\<forall>k. 1 \<le> k \<and> k < ?n \<and> k \<noteq> ?node div 2 \<longrightarrow> node_ok perm ?nodes k"
      using heap by (auto intro!: node_ok_update)
    then have c: "\<forall>k. 1 \<le> k \<and> k < ?n \<longrightarrow> node_ok perm (tree_climb perm (zero_slot_roots perm ?d) 0 ?node ?nodes) k"
      "length (tree_climb perm (zero_slot_roots perm ?d) 0 ?node ?nodes) = 2 * ?n"
      "\<forall>j. ?n \<le> j \<longrightarrow> tree_climb perm (zero_slot_roots perm ?d) 0 ?node ?nodes ! j = ?nodes ! j"
      using tree_climb_ok [of ?d ?node perm ?nodes 0] heap assms(2) by auto
    have "?nodes ! (?n + i) = ?g i" if "i < ?n" for i using that heap assms(2) g by (auto simp: nth_list_update)
    then have "heap_ok perm ?g ?d (tree_climb perm (zero_slot_roots perm ?d) 0 ?node ?nodes)" using c by (simp add: heap_ok_iff)
    then show ?thesis using False z by (simp add: set segment_tree_ok_def)
  qed
qed

lemma takeWhile_split:
  assumes "sorted_wrt (<) (map fst us)"
  shows "takeWhile (\<lambda>(j, _). j < m) us = filter (\<lambda>(j, _). j < m) us \<and> dropWhile (\<lambda>(j, _). j < m) us = filter (\<lambda>(j, _). \<not> j < (m :: nat)) us"
  using assms
proof (induction us)
  case (Cons u us)
  show ?case
  proof (cases "fst u < m")
    case False
    then have "\<forall>x\<in>set us. \<not> fst x < m" using Cons.prems by auto
    then show ?thesis using False by (auto simp: case_prod_unfold filter_empty_conv filter_id_conv)
  qed (use Cons in \<open>auto simp: case_prod_unfold\<close>)
qed simp

lemma override_filter:
  assumes "P j"
  shows "override f (filter (\<lambda>(j, _). P j) us) j = override f us j"
proof -
  have "map_of (filter (\<lambda>(j, _). P j) us) j = map_of us j" using assms by (induction us) auto
  then show ?thesis by (simp add: override_def)
qed

lemma overlay_root_ok:
  assumes "heap_ok perm f d (tr_nodes t)" "l \<le> d" "i < 2 ^ (d - l)" "sorted_wrt (<) (map fst us)"
    and "\<forall>(j, _) \<in> set us. j div 2 ^ l = i"
  shows "overlay_root perm t (2 ^ (d - l) + i) (i * 2 ^ l) (2 ^ l) us = tree_node perm (override f us) l i"
  using assms(2-)
proof (induction l arbitrary: i us)
  case 0
  show ?case
  proof (cases us)
    case Nil
    then show ?thesis using assms(1) 0 by (subst overlay_root.simps) (auto simp: heap_ok_iff override_def)
  next
    case (Cons u us')
    then show ?thesis using 0 by (subst overlay_root.simps) (auto simp: override_def)
  qed
next
  case (Suc l)
  show ?case
  proof (cases "us = []")
    case True
    then have "tree_node perm (override f us) (Suc l) i = tree_node perm f (Suc l) i" by (intro tree_node_cong) (simp add: override_def)
    then show ?thesis using assms(1) Suc.prems True by (subst overlay_root.simps) (simp add: heap_ok_def)
  next
    case False
    let ?m = "(2 * i + 1) * 2 ^ l"
    let ?L = "filter (\<lambda>(j, _). j < ?m) us" let ?R = "filter (\<lambda>(j, _). \<not> j < ?m) us"
    have e: "2 ^ (d - l) = 2 * (2 :: nat) ^ (d - Suc l)" using Suc.prems(1) by (metis Suc_diff_Suc Suc_le_lessD power_Suc)
    have lt: "j < ?m \<longleftrightarrow> j div 2 ^ l < 2 * i + 1" for j by (simp add: less_mult_imp_div_less div_less_iff_less_mult)
    have key: "(j < ?m \<longrightarrow> j div 2 ^ l = 2 * i) \<and> (\<not> j < ?m \<longrightarrow> j div 2 ^ l = 2 * i + 1)" if "j div 2 ^ Suc l = i" for j
    proof -
      have "j div 2 ^ l div 2 = i" using that by (simp add: div_mult2_eq power_Suc2 del: power_Suc)
      then show ?thesis unfolding lt by auto
    qed
    have half: "(2 :: nat) ^ Suc l div 2 = 2 ^ l" "i * 2 ^ Suc l + 2 ^ l = ?m" by (simp_all add: algebra_simps)
    have tw: "take (length (takeWhile (\<lambda>(j, _). j < ?m) us)) us = ?L" "drop (length (takeWhile (\<lambda>(j, _). j < ?m) us)) us = ?R"
      unfolding takeWhile_eq_take [symmetric] dropWhile_eq_drop [symmetric]
      using takeWhile_split [OF Suc.prems(3), of ?m] by blast+
    have nodes: "2 * (2 ^ (d - Suc l) + i) = 2 ^ (d - l) + 2 * i" by (simp add: e)
    have wide: "\<not> 2 ^ Suc l \<le> (1 :: nat)" using one_less_power [of "2 :: nat" "Suc l"] by linarith
    have "overlay_root perm t (2 ^ (d - Suc l) + i) (i * 2 ^ Suc l) (2 ^ Suc l) us =
        state_node_hash perm (overlay_root perm t (2 ^ (d - l) + 2 * i) (i * 2 ^ Suc l) (2 ^ l) ?L)
          (overlay_root perm t (2 ^ (d - l) + 2 * i + 1) ?m (2 ^ l) ?R)"
      by (subst overlay_root.simps) (simp only: False wide if_False half Let_def tw nodes)
    moreover have "i * 2 ^ Suc l = 2 * i * 2 ^ l" by simp
    moreover have sorted: "sorted_wrt (<) (map fst ?L)" "sorted_wrt (<) (map fst ?R)"
      using Suc.prems(3) by (simp_all add: sorted_wrt_map sorted_wrt_filter)
    moreover have "overlay_root perm t (2 ^ (d - l) + 2 * i) (2 * i * 2 ^ l) (2 ^ l) ?L = tree_node perm (override f ?L) l (2 * i)"
      "overlay_root perm t (2 ^ (d - l) + (2 * i + 1)) ((2 * i + 1) * 2 ^ l) (2 ^ l) ?R = tree_node perm (override f ?R) l (2 * i + 1)"
      using Suc.prems(1,2,4) key sorted by (intro Suc.IH; fastforce simp: e)+
    moreover have "tree_node perm (override f ?L) l (2 * i) = tree_node perm (override f us) l (2 * i)"
      by (intro tree_node_cong override_filter) (simp only: lt; simp)
    moreover have "tree_node perm (override f ?R) l (2 * i + 1) = tree_node perm (override f us) l (2 * i + 1)"
      by (intro tree_node_cong override_filter) (simp only: lt; simp)
    ultimately show ?thesis by (simp only: tree_node.simps add.assoc)
  qed
qed

lemma override_hashes:
  "override (slot_hashes perm slot) (map (\<lambda>(local, value). (local, slot_leaf_hash perm value)) us) = slot_hashes perm (override slot us)"
proof
  fix j
  have "map_of (map (\<lambda>(local, value). (local, slot_leaf_hash perm value)) us) j = map_option (slot_leaf_hash perm) (map_of us j)"
    by (simp add: map_of_map)
  then show "override (slot_hashes perm slot) (map (\<lambda>(local, value). (local, slot_leaf_hash perm value)) us) j = slot_hashes perm (override slot us) j"
    by (simp add: override_def slot_hashes_def split: option.splits)
qed

lemma root_with_updates_ok:
  assumes "segment_tree_ok perm slot t" "sorted_wrt (<) (map fst us)" "\<forall>(j, _) \<in> set us. j < 2 ^ tr_log_slots t"
  shows "root_with_updates perm t us = Some (tree_node perm (slot_hashes perm (override slot us)) (tr_log_slots t) 0)"
proof -
  let ?d = "tr_log_slots t" let ?us = "map (\<lambda>(local, value). (local, slot_leaf_hash perm value)) us"
  have ok: "tr_zeros t = zero_slot_roots perm ?d" "heap_ok perm (slot_hashes perm slot) ?d (tr_nodes t)"
    using assms(1) by (auto simp: segment_tree_ok_def)
  have "sorted_wrt (<) (map fst ?us)" using assms(2) by (simp add: comp_def case_prod_unfold)
  moreover have "\<forall>(j, _) \<in> set ?us. j div 2 ^ ?d = 0" using assms(3) by auto
  ultimately have "overlay_root perm t 1 0 (2 ^ ?d) ?us = tree_node perm (slot_hashes perm (override slot us)) ?d 0"
    using overlay_root_ok [OF ok(2) order_refl, of 0 ?us] by (simp add: override_hashes)
  moreover have "\<not> (\<exists>(j, _) \<in> set us. \<not> j < 2 ^ ?d)" using assms(3) by auto
  ultimately show ?thesis by (simp add: root_with_updates_def ok(1) leaf_or_zero_eq Let_def)
qed

lemma set_slots_ok:
  assumes "segment_tree_ok perm slot t" "\<forall>(j, _) \<in> set us. j < 2 ^ tr_log_slots t" "distinct (map fst us)"
  shows "segment_tree_ok perm (override slot us) (foldl (\<lambda>t (j, v). tree_set_slot perm j v t) t us) \<and>
    tr_log_slots (foldl (\<lambda>t (j, v). tree_set_slot perm j v t) t us) = tr_log_slots t"
  using assms
proof (induction us arbitrary: slot t)
  case Nil
  then show ?case by (simp add: override_def)
next
  case (Cons u us)
  obtain j v where u: "u = (j, v)" by (cases u)
  note set = tree_set_slot_ok [OF Cons.prems(1), of j v]
  have "j \<notin> fst ` set us" using Cons.prems(3) by (simp add: u)
  then have "map_of us j = None" by (simp add: map_of_eq_None_iff)
  then have over: "override (slot(j := v)) us = override slot (u # us)" by (auto simp: override_def u fun_eq_iff split: option.splits)
  let ?t = "tree_set_slot perm j v t"
  have j: "j < 2 ^ tr_log_slots t" using Cons.prems(2) by (simp add: u)
  have "segment_tree_ok perm (override (slot(j := v)) us) (foldl (\<lambda>t (j, v). tree_set_slot perm j v t) ?t us) \<and>
      tr_log_slots (foldl (\<lambda>t (j, v). tree_set_slot perm j v t) ?t us) = tr_log_slots ?t"
    by (rule Cons.IH [OF set(1) [OF j]]) (use Cons.prems(2,3) set(2) [OF j] in \<open>auto simp: u\<close>)
  then show ?case unfolding over by (simp add: u set(2) [OF j])
qed

lemma heap_root:
  assumes "heap_ok perm f d nodes"
  shows "nodes ! 1 = tree_node perm f d 0"
proof -
  have "d \<le> d \<and> 0 < (2 :: nat) ^ (d - d) \<longrightarrow> nodes ! (2 ^ (d - d) + 0) = tree_node perm f d 0"
    using assms unfolding heap_ok_def by blast
  then show ?thesis by simp
qed

lemma segment_tree_root: "segment_tree_ok perm slot t \<Longrightarrow> tree_root t = tree_node perm (slot_hashes perm slot) (tr_log_slots t) 0"
  by (simp only: segment_tree_ok_def tree_root_def heap_root)

subsection \<open>The two-level root cache\<close>

lemma root_cache_heap:
  assumes "root_cache_ok perm c" "rc_log_slots c \<noteq> rc_effective_log_seg c"
  shows "heap_ok perm ((!) (rc_segment_roots c)) (rc_log_slots c - rc_effective_log_seg c) (rc_tree c)"
    "rc_log_slots c - rc_effective_log_seg c \<noteq> 0"
proof -
  show "heap_ok perm ((!) (rc_segment_roots c)) (rc_log_slots c - rc_effective_log_seg c) (rc_tree c)"
    using assms unfolding root_cache_ok_def by blast
  have "rc_effective_log_seg c \<le> rc_log_slots c" using assms(1) by (simp add: root_cache_ok_def)
  then show "rc_log_slots c - rc_effective_log_seg c \<noteq> 0" using assms(2) by linarith
qed

lemma root_cacheI:
  assumes "rc_effective_log_seg c = min (rc_log_slots c) LOG_SEGMENT_SIZE"
    and "length (rc_segment_roots c) = 2 ^ (rc_log_slots c - rc_effective_log_seg c)"
    and "rc_log_slots c \<noteq> rc_effective_log_seg c \<Longrightarrow>
      heap_ok perm ((!) (rc_segment_roots c)) (rc_log_slots c - rc_effective_log_seg c) (rc_tree c)"
  shows "root_cache_ok perm c"
  unfolding root_cache_ok_def using assms by blast

lemma root_cache_effective: "root_cache_ok perm c \<Longrightarrow> rc_effective_log_seg c = min (rc_log_slots c) LOG_SEGMENT_SIZE"
  unfolding root_cache_ok_def by blast

lemma root_cache_length: "root_cache_ok perm c \<Longrightarrow> length (rc_segment_roots c) = 2 ^ (rc_log_slots c - rc_effective_log_seg c)"
  unfolding root_cache_ok_def by blast

lemma rc_root_ok:
  assumes "root_cache_ok perm c"
  shows "rc_root c = tree_node perm ((!) (rc_segment_roots c)) (rc_log_slots c - rc_effective_log_seg c) 0"
proof (cases "rc_log_slots c = rc_effective_log_seg c")
  case False
  let ?u = "rc_log_slots c - rc_effective_log_seg c"
  have "length (rc_segment_roots c) \<noteq> 1" using root_cache_length [OF assms] root_cache_heap(2) [OF assms False] by simp
  moreover have "rc_tree c ! 1 = tree_node perm ((!) (rc_segment_roots c)) ?u 0"
    using root_cache_heap(1) [OF assms False] by (rule heap_root)
  ultimately show ?thesis by (simp add: rc_root_def)
next
  case True
  then show ?thesis using root_cache_length [OF assms] by (simp add: rc_root_def)
qed

lemma root_cache_empty_ok:
  "root_cache_ok perm (root_cache_empty perm log_slots)" "rc_log_slots (root_cache_empty perm log_slots) = log_slots"
  by (simp_all add: root_cache_empty_def empty_with_segment_log_def root_cache_ok_def build_tree_ok Let_def)

lemma set_segment_root_ok:
  assumes "root_cache_ok perm c" "unat seg < length (rc_segment_roots c)"
  shows "root_cache_ok perm (set_segment_root perm seg root c)"
    "rc_segment_roots (set_segment_root perm seg root c) = (rc_segment_roots c)[unat seg := root]"
    "rc_log_slots (set_segment_root perm seg root c) = rc_log_slots c"
    "rc_effective_log_seg (set_segment_root perm seg root c) = rc_effective_log_seg c"
proof -
  let ?u = "rc_log_slots c - rc_effective_log_seg c" let ?n = "(2 :: nat) ^ ?u" let ?roots = "(rc_segment_roots c)[unat seg := root]"
  note len = root_cache_length [OF assms(1)]
  show "rc_segment_roots (set_segment_root perm seg root c) = ?roots"
    "rc_log_slots (set_segment_root perm seg root c) = rc_log_slots c"
    "rc_effective_log_seg (set_segment_root perm seg root c) = rc_effective_log_seg c"
    by (simp_all add: set_segment_root_def Let_def)
  show "root_cache_ok perm (set_segment_root perm seg root c)"
  proof (cases "rc_log_slots c = rc_effective_log_seg c")
    case True
    then show ?thesis using root_cache_effective [OF assms(1)] len by (intro root_cacheI) (simp_all add: set_segment_root_def Let_def)
  next
    case False
    note heap = root_cache_heap(1) [OF assms(1) False]
    have n: "?n \<noteq> 1" using root_cache_heap(2) [OF assms(1) False] by simp
    let ?t = "(rc_tree c)[?n + unat seg := root]" let ?c = "climb perm (?n + unat seg) ?t"
    have "\<forall>k. 1 \<le> k \<and> k < ?n \<and> k \<noteq> (?n + unat seg) div 2 \<longrightarrow> node_ok perm ?t k"
      using heap by (auto simp: heap_ok_iff intro!: node_ok_update)
    then have c: "\<forall>k. 1 \<le> k \<and> k < ?n \<longrightarrow> node_ok perm ?c k" "length ?c = 2 * ?n" "\<forall>j. ?n \<le> j \<longrightarrow> ?c ! j = ?t ! j"
      using climb_ok [of ?n "?n + unat seg" perm ?t] heap assms(2) by (auto simp: heap_ok_iff len)
    have "?t ! (?n + i) = ?roots ! i" if "i < ?n" for i
      using that heap assms(2) by (auto simp: heap_ok_iff len nth_list_update)
    then have "heap_ok perm ((!) ?roots) ?u ?c" using c by (simp add: heap_ok_iff)
    moreover have "set_segment_root perm seg root c = c\<lparr>rc_segment_roots := ?roots, rc_tree := ?c\<rparr>"
      using n by (simp add: set_segment_root_def len Let_def)
    ultimately show ?thesis using root_cache_effective [OF assms(1)] len by (intro root_cacheI) simp_all
  qed
qed

lemma rc_expand_one_ok:
  assumes "root_cache_ok perm c"
  shows "root_cache_ok perm (rc_expand_one perm c)" "rc_log_slots (rc_expand_one perm c) = Suc (rc_log_slots c)"
    "rc_root (rc_expand_one perm c) = state_node_hash perm (rc_root c) (zero_slot_roots perm (rc_log_slots c) ! rc_log_slots c)"
proof -
  let ?g = "rc_log_slots c" let ?e = "rc_effective_log_seg c" let ?z = "zero_slot_roots perm ?g ! ?g"
  have e: "?e = min ?g LOG_SEGMENT_SIZE" and len: "length (rc_segment_roots c) = 2 ^ (?g - ?e)" using assms by (auto simp: root_cache_ok_def)
  have "root_cache_ok perm (rc_expand_one perm c) \<and> rc_log_slots (rc_expand_one perm c) = Suc ?g \<and>
      rc_root (rc_expand_one perm c) = state_node_hash perm (rc_root c) ?z"
  proof (cases "Suc ?g \<le> LOG_SEGMENT_SIZE")
    case True
    then have one: "?g = ?e" "length (rc_segment_roots c) = 1" using e len by auto
    then obtain r where "rc_segment_roots c = [r]" by (auto simp: length_Suc_conv)
    then show ?thesis using True one by (simp add: rc_expand_one_def root_cache_ok_def rc_root_def Let_def)
  next
    case False
    let ?u = "?g - ?e" let ?zero = "zero_slot_roots perm ?e ! ?e"
    let ?roots = "rc_segment_roots c @ replicate (2 ^ ?u) ?zero"
    have u: "Suc ?g - ?e = Suc ?u" "?e \<le> ?g" "?e = LOG_SEGMENT_SIZE" using e False by auto
    have x: "rc_expand_one perm c = c\<lparr>rc_log_slots := Suc ?g, rc_segment_roots := ?roots, rc_tree := build_tree perm ?roots\<rparr>"
      using False len by (simp add: rc_expand_one_def Let_def)
    have "heap_ok perm ((!) ?roots) (Suc ?u) (build_tree perm ?roots)" by (rule build_tree_ok) (simp add: len)
    then have ok: "root_cache_ok perm (rc_expand_one perm c)"
      using u False len by (simp add: root_cache_ok_def x)
    have "tree_node perm ((!) ?roots) ?u 0 = tree_node perm ((!) (rc_segment_roots c)) ?u 0"
      by (rule tree_node_cong) (simp add: nth_append len div_eq_0_iff)
    moreover have "tree_node perm ((!) ?roots) ?u 1 = tree_node perm (tree_node perm (\<lambda>_. slot_leaf_hash perm SLOT_EMPTY) ?e) ?u 1"
    proof (rule tree_node_cong)
      fix j :: nat assume j: "j div 2 ^ ?u = 1"
      have "2 ^ ?u \<le> j" "j < 2 * 2 ^ ?u"
        using j div_times_less_eq_dividend [of j "2 ^ ?u"] dividend_less_div_times [of "2 ^ ?u" j] by simp_all
      then show "?roots ! j = tree_node perm (\<lambda>_. slot_leaf_hash perm SLOT_EMPTY) ?e j"
        by (simp add: nth_append len zero_slot_roots_nth [of ?e ?e perm j])
    qed
    moreover have "tree_node perm (tree_node perm (\<lambda>_. slot_leaf_hash perm SLOT_EMPTY) ?e) ?u 1 = ?z"
      using zero_slot_roots_nth [of ?g ?g perm 1] u(2) by (simp add: tree_node_trees)
    ultimately have "rc_root (rc_expand_one perm c) = state_node_hash perm (rc_root c) ?z"
      using rc_root_ok [OF ok] rc_root_ok [OF assms] u by (simp add: x)
    then show ?thesis using ok by (simp add: x)
  qed
  then show "root_cache_ok perm (rc_expand_one perm c)" "rc_log_slots (rc_expand_one perm c) = Suc ?g"
    "rc_root (rc_expand_one perm c) = state_node_hash perm (rc_root c) ?z" by blast+
qed

lemma segment_root_stream:
  assumes "columns_length columns (2 ^ d)" "d < 64"
  shows "exact_segment_root_with_updates perm d (Some columns) us =
    Inr (tree_node perm (slot_hashes perm (override (column_slot columns) us)) d 0)"
proof -
  let ?slot = "\<lambda>local. case map_of us local of Some v \<Rightarrow> v
    | None \<Rightarrow> if local \<ge> length (sg_values columns) then SLOT_EMPTY else column_slot columns local"
  have "tree_node perm (slot_hashes perm ?slot) d 0 = tree_node perm (slot_hashes perm (override (column_slot columns) us)) d 0"
    by (rule tree_node_cong)
      (use assms(1) in \<open>auto simp: slot_hashes_def override_def columns_length_def div_eq_0_iff split: option.splits\<close>)
  moreover have "exact_segment_root_with_updates perm d (Some columns) us = stream_slots perm d ?slot"
    by (simp add: exact_segment_root_with_updates_def cong: option.case_cong)
  ultimately show ?thesis using stream_slots_exact [OF assms(2), of perm ?slot] by argo
qed

lemma segment_root_empty:
  assumes "d < 64"
  shows "exact_segment_root_with_updates perm d None us = Inr (tree_node perm (slot_hashes perm (override (\<lambda>_. SLOT_EMPTY) us)) d 0)"
  using stream_slots_exact [OF assms] by (simp add: exact_segment_root_with_updates_def override_def [abs_def] cong: option.case_cong)

section \<open>Properties\<close>

text \<open>C39: The three computations of a segment root under pending updates agree: the streaming builder over the updated slots, the
  read-only overlay of the array tree, and the array tree after setting the slots one by one with its early exit. All return the
  root of the complete binary tree over the hashes of the updated slots, and none of them fails.\<close>

theorem segment_root_computations_agree:
  assumes "columns_length columns (2 ^ d)" "d < 64" "sorted_wrt (<) (map fst updates)" "\<forall>(local, _) \<in> set updates. local < 2 ^ d"
  shows "\<exists>t root. from_columns perm d columns = Some t \<and>
    root = tree_node perm (slot_hashes perm (override (column_slot columns) updates)) d 0 \<and>
    exact_segment_root_with_updates perm d (Some columns) updates = Inr root \<and>
    root_with_updates perm t updates = Some root \<and>
    tree_root (foldl (\<lambda>t (local, v). tree_set_slot perm local v t) t updates) = root"
proof -
  obtain t where t: "from_columns perm d columns = Some t" "tr_log_slots t = d" "segment_tree_ok perm (column_slot columns) t"
    by (rule from_columns_ok [OF assms(1)])
  have "distinct (map fst updates)" using assms(3) by (simp add: strict_sorted_iff)
  then have set: "segment_tree_ok perm (override (column_slot columns) updates) (foldl (\<lambda>t (local, v). tree_set_slot perm local v t) t updates)"
    "tr_log_slots (foldl (\<lambda>t (local, v). tree_set_slot perm local v t) t updates) = d"
    using set_slots_ok [OF t(3), of updates] assms(4) t(2) by auto
  have "root_with_updates perm t updates = Some (tree_node perm (slot_hashes perm (override (column_slot columns) updates)) d 0)"
    using root_with_updates_ok [OF t(3) assms(3)] assms(4) t(2) by simp
  then show ?thesis
    using t(1) segment_root_stream [OF assms(1,2)] segment_tree_root [OF set(1)] set(2) by simp
qed

theorem segment_root_computations_agree_witness:
  "columns_length (new_zero 2) (2 ^ 1) \<and>
   (\<exists>t root. from_columns no_permutation 1 (new_zero 2) = Some t \<and>
      exact_segment_root_with_updates no_permutation 1 (Some (new_zero 2)) [(1, \<lparr>sv_value = 5, sv_owner_hi = 6, sv_owner_lo = 7\<rparr>)] = Inr root \<and>
      root_with_updates no_permutation t [(1, \<lparr>sv_value = 5, sv_owner_hi = 6, sv_owner_lo = 7\<rparr>)] = Some root)"
proof -
  have "columns_length (new_zero 2) (2 ^ 1)" by (simp add: columns_length_def new_zero_def)
  then show ?thesis
    using segment_root_computations_agree [of "new_zero 2" 1 "[(1, \<lparr>sv_value = 5, sv_owner_hi = 6, sv_owner_lo = 7\<rparr>)]" no_permutation] by auto
qed

end
