(* ===== verification/Segments.thy ===== *)
theory Segments
imports ExactRoots
begin

section \<open>The segmented slot store\<close>

text \<open>
  The slot store of \<open>noid_chain/src/segmented_state.rs\<close>: segments of at most \<open>2 ^ 16\<close> slots that are virtual (all empty),
  resident in memory, or evicted to the database, with the live count of each segment and the dirty sets of the database and of the
  exact roots; slot reads, batched writes, eviction and restoration, and growth and shrinking of the slot domain.

  The columns behind \<open>Arc\<close> are values, so copy on write is plain update. Of the raw segment commitments the record keeps the set of
  stale ones, because flushing them panics on an evicted segment; their hashes and the tree over them are left out. So is the cache of
  hot array trees: the exact root of a segment is computed from its columns as on a cache miss. Slot indices and segment numbers are
  words of the widths in the code, exponents and lengths natural numbers.

  The abstraction is a map from slot positions to values. The theorems show that every sequence of operations keeps the store a
  representation of that map, whatever part of it is evicted.
\<close>

subsection \<open>State\<close>

datatype state_error = StateSlotOutOfRange

datatype state_resize_error =
    InvalidTarget nat nat
  | EvictedUpperSegment u16
  | NonEmptyUpperHalf u16

datatype resize_failure = ResizeError state_resize_error | FlushPanic

record segmented =
  ss_log_slots :: nat
  ss_effective_log_seg :: nat
  ss_num_segments :: nat
  ss_segments :: "segment_columns option list"
  ss_live_counts :: "u32 list"
  ss_dirty :: "u16 set"
  ss_mdbx_dirty :: "u16 set"
  ss_exact_dirty :: "u16 set"
  ss_evicted :: "u16 set"

definition new_empty :: "nat \<Rightarrow> segmented option" where
  "new_empty log_slots =
     (if \<not> log_slots \<ge> 1 then None
      else
        let num = (if log_slots > LOG_SEGMENT_SIZE then 2 ^ (log_slots - LOG_SEGMENT_SIZE) else 1)
        in Some \<lparr>ss_log_slots = log_slots, ss_effective_log_seg = min log_slots LOG_SEGMENT_SIZE, ss_num_segments = num,
             ss_segments = replicate num None, ss_live_counts = replicate num 0,
             ss_dirty = {}, ss_mdbx_dirty = {}, ss_exact_dirty = {}, ss_evicted = {}\<rparr>)"

definition num_slots :: "segmented \<Rightarrow> nat" where
  "num_slots s = 2 ^ ss_log_slots s"

definition seg_id_of :: "segmented \<Rightarrow> u32 \<Rightarrow> u16" where
  "seg_id_of s idx = ucast (drop_bit (ss_effective_log_seg s) idx)"

definition local_idx_of :: "segmented \<Rightarrow> u32 \<Rightarrow> u16" where
  "local_idx_of s idx = ucast (and idx (push_bit (ss_effective_log_seg s) 1 - 1))"

definition segment_slot_count :: "segmented \<Rightarrow> nat" where
  "segment_slot_count s = 2 ^ ss_effective_log_seg s"

definition segment_live_count :: "segmented \<Rightarrow> u16 \<Rightarrow> u32" where
  "segment_live_count s seg_id = (if unat seg_id < length (ss_live_counts s) then ss_live_counts s ! unat seg_id else 0)"

definition count_live :: "segment_columns \<Rightarrow> u32" where
  "count_live cols =
     of_nat (length (filter (\<lambda>((v, hi), lo). v \<noteq> 0 \<or> hi \<noteq> 0 \<or> lo \<noteq> 0)
       (zip (zip (sg_values cols) (sg_owners_hi cols)) (sg_owners_lo cols))))"

definition is_evicted :: "segmented \<Rightarrow> u16 \<Rightarrow> bool" where
  "is_evicted s seg_id \<longleftrightarrow> seg_id \<in> ss_evicted s"

definition try_get_segment_columns :: "segmented \<Rightarrow> u16 \<Rightarrow> segment_columns option" where
  "try_get_segment_columns s seg_id = ss_segments s ! unat seg_id"

definition slot :: "segmented \<Rightarrow> u32 \<Rightarrow> slot_value" where
  "slot s idx =
     (case ss_segments s ! unat (seg_id_of s idx) of
        None \<Rightarrow> SLOT_EMPTY
      | Some cols \<Rightarrow> column_slot cols (unat (local_idx_of s idx)))"

definition active_segment_ids :: "segmented \<Rightarrow> u16 list" where
  "active_segment_ids s = map (\<lambda>(i, _). of_nat i) (filter (\<lambda>(_, live). live > 0) (enumerate 0 (ss_live_counts s)))"

subsection \<open>Writes\<close>

definition write_columns :: "segment_columns \<Rightarrow> nat \<Rightarrow> slot_value \<Rightarrow> segment_columns" where
  "write_columns cols loc v =
     \<lparr>sg_values = (sg_values cols)[loc := sv_value v], sg_owners_hi = (sg_owners_hi cols)[loc := sv_owner_hi v],
      sg_owners_lo = (sg_owners_lo cols)[loc := sv_owner_lo v]\<rparr>"

definition mark_dirty :: "u16 \<Rightarrow> segmented \<Rightarrow> segmented" where
  "mark_dirty seg s = s\<lparr>ss_dirty := insert seg (ss_dirty s), ss_mdbx_dirty := insert seg (ss_mdbx_dirty s), ss_exact_dirty := insert seg (ss_exact_dirty s)\<rparr>"

definition write_slot :: "segmented \<Rightarrow> u32 \<times> slot_value \<Rightarrow> segmented" where
  "write_slot s = (\<lambda>(idx, v).
     let seg = seg_id_of s idx;
         loc = unat (local_idx_of s idx);
         seg_idx = unat seg;
         old = slot s idx
     in if old = v then s
        else if ss_segments s ! seg_idx = None \<and> slot_is_empty v then s
        else
          let (cols, s) =
                (case ss_segments s ! seg_idx of
                   Some cols \<Rightarrow> (cols, s)
                 | None \<Rightarrow> (new_zero (segment_slot_count s), s\<lparr>ss_evicted := ss_evicted s - {seg}\<rparr>));
              s = s\<lparr>ss_segments := (ss_segments s)[seg_idx := Some (write_columns cols loc v)]\<rparr>;
              live = ss_live_counts s ! seg_idx;
              live = (if slot_is_empty old \<and> \<not> slot_is_empty v then saturating_add live 1
                      else if \<not> slot_is_empty old \<and> slot_is_empty v then saturating_sub live 1 else live);
              s = s\<lparr>ss_live_counts := (ss_live_counts s)[seg_idx := live]\<rparr>;
              s = (if live = 0 then s\<lparr>ss_segments := (ss_segments s)[seg_idx := None], ss_evicted := ss_evicted s - {seg}\<rparr> else s)
          in mark_dirty seg s)"

definition apply_delta_in_place :: "segmented \<Rightarrow> (u32 \<times> slot_value) list \<Rightarrow> state_error + segmented" where
  "apply_delta_in_place s deltas =
     (if \<exists>(idx, _) \<in> set deltas. unat idx \<ge> num_slots s then Inl StateSlotOutOfRange
      else Inr (foldl write_slot s deltas))"

definition clear_dirty :: "segmented \<Rightarrow> segmented" where
  "clear_dirty s = s\<lparr>ss_mdbx_dirty := {}\<rparr>"

definition clear_exact_dirty :: "segmented \<Rightarrow> segmented" where
  "clear_exact_dirty s = s\<lparr>ss_exact_dirty := {}\<rparr>"

subsection \<open>Eviction and restoration\<close>

definition evict_segment :: "u16 \<Rightarrow> segmented \<Rightarrow> segmented" where
  "evict_segment seg_id s =
     (if ss_segments s ! unat seg_id \<noteq> None
      then s\<lparr>ss_segments := (ss_segments s)[unat seg_id := None], ss_evicted := insert seg_id (ss_evicted s)\<rparr>
      else s)"

definition evict_clean_segments :: "segmented \<Rightarrow> segmented" where
  "evict_clean_segments s =
     foldl (\<lambda>s sid.
       if ss_segments s ! sid \<noteq> None \<and> of_nat sid \<notin> ss_mdbx_dirty s
       then s\<lparr>ss_segments := (ss_segments s)[sid := None], ss_evicted := insert (of_nat sid) (ss_evicted s)\<rparr> else s) s [0..<ss_num_segments s]"

definition evict_all_persisted_segments :: "segmented \<Rightarrow> segmented option" where
  "evict_all_persisted_segments s =
     (if ss_mdbx_dirty s \<noteq> {} then None
      else Some (foldl (\<lambda>s sid.
        if ss_segments s ! sid \<noteq> None \<and> ss_live_counts s ! sid \<noteq> 0
        then s\<lparr>ss_segments := (ss_segments s)[sid := None], ss_evicted := insert (of_nat sid) (ss_evicted s)\<rparr> else s) s [0..<ss_num_segments s]))"

definition restore_evicted_segment :: "u16 \<Rightarrow> segment_columns \<Rightarrow> segmented \<Rightarrow> segmented" where
  "restore_evicted_segment seg_id cols s =
     (let live = count_live cols
      in s\<lparr>ss_live_counts := (ss_live_counts s)[unat seg_id := live],
           ss_segments := (ss_segments s)[unat seg_id := (if live = 0 then None else Some cols)],
           ss_evicted := ss_evicted s - {seg_id}, ss_dirty := insert seg_id (ss_dirty s)\<rparr>)"

text \<open>Start-up from durable summaries: the live count of a segment without its columns, and without a raw commitment.\<close>

definition install_evicted_exact_summary :: "u16 \<Rightarrow> u32 \<Rightarrow> segmented \<Rightarrow> unit + segmented" where
  "install_evicted_exact_summary seg_id live_count s =
     (if unat seg_id \<ge> ss_num_segments s \<or> live_count = 0 then Inl ()
      else Inr (s\<lparr>ss_segments := (ss_segments s)[unat seg_id := None], ss_live_counts := (ss_live_counts s)[unat seg_id := live_count],
             ss_evicted := insert seg_id (ss_evicted s), ss_dirty := insert seg_id (ss_dirty s)\<rparr>))"

definition finish_evicted_exact_summaries :: "segmented \<Rightarrow> segmented" where
  "finish_evicted_exact_summaries s = s\<lparr>ss_mdbx_dirty := {}, ss_exact_dirty := {}\<rparr>"

definition restore_persisted_segment_summary_and_evict :: "u16 \<Rightarrow> digest option \<Rightarrow> segmented \<Rightarrow> unit + segmented" where
  "restore_persisted_segment_summary_and_evict seg_id parent_root s =
     (if unat seg_id \<ge> ss_num_segments s then Inl ()
      else if seg_id \<in> ss_mdbx_dirty s \<or> seg_id \<in> ss_exact_dirty s then Inl ()
      else
        let s = s\<lparr>ss_segments := (ss_segments s)[unat seg_id := None]\<rparr>;
            empty = ss_live_counts s ! unat seg_id = 0;
            s = s\<lparr>ss_evicted := (if empty then ss_evicted s - {seg_id} else insert seg_id (ss_evicted s))\<rparr>
        in Inr (s\<lparr>ss_dirty := (if empty \<or> parent_root \<noteq> None then ss_dirty s - {seg_id} else insert seg_id (ss_dirty s))\<rparr>))"

definition exact_segment_root :: "permutation \<Rightarrow> segmented \<Rightarrow> u16 \<Rightarrow> exact_state_read_error + digest option" where
  "exact_segment_root perm s seg_id =
     (if is_evicted s seg_id then Inl (EvictedSegment seg_id)
      else
        case try_get_segment_columns s seg_id of
          None \<Rightarrow> Inr (Some (zero_slot_roots perm (ss_effective_log_seg s) ! ss_effective_log_seg s))
        | Some columns \<Rightarrow> Inr (map_option tree_root (from_columns perm (ss_effective_log_seg s) columns)))"

subsection \<open>Growth and shrinking of the slot domain\<close>

definition flush_all_dirty :: "segmented \<Rightarrow> segmented option" where
  "flush_all_dirty s = (if ss_dirty s \<inter> ss_evicted s \<noteq> {} then None else Some (s\<lparr>ss_dirty := {}\<rparr>))"

definition extend_columns :: "nat \<Rightarrow> segment_columns \<Rightarrow> segment_columns" where
  "extend_columns extra cols =
     \<lparr>sg_values = sg_values cols @ replicate extra 0, sg_owners_hi = sg_owners_hi cols @ replicate extra 0,
      sg_owners_lo = sg_owners_lo cols @ replicate extra 0\<rparr>"

definition truncate_columns :: "nat \<Rightarrow> segment_columns \<Rightarrow> segment_columns" where
  "truncate_columns keep cols =
     \<lparr>sg_values = take keep (sg_values cols), sg_owners_hi = take keep (sg_owners_hi cols), sg_owners_lo = take keep (sg_owners_lo cols)\<rparr>"

definition expand :: "segmented \<Rightarrow> segmented option" where
  "expand s =
     (let s = s\<lparr>ss_log_slots := ss_log_slots s + 1\<rparr>
      in if ss_log_slots s \<le> LOG_SEGMENT_SIZE then
           let extra = 2 ^ (ss_log_slots s - 1)
           in flush_all_dirty (s\<lparr>ss_effective_log_seg := ss_log_slots s,
                ss_segments := (ss_segments s)[0 := map_option (extend_columns extra) (ss_segments s ! 0)],
                ss_dirty := insert 0 (ss_dirty s), ss_exact_dirty := insert 0 (ss_exact_dirty s)\<rparr>)
         else
           let old_num_seg = ss_num_segments s; num = old_num_seg * 2
           in Some (s\<lparr>ss_num_segments := num,
                ss_segments := ss_segments s @ replicate (num - length (ss_segments s)) None,
                ss_live_counts := ss_live_counts s @ replicate (num - length (ss_live_counts s)) 0\<rparr>))"

definition expand_exact_metadata_for_replay :: "segmented \<Rightarrow> state_resize_error + segmented" where
  "expand_exact_metadata_for_replay s =
     (if ss_effective_log_seg s \<noteq> LOG_SEGMENT_SIZE \<or> ss_log_slots s \<ge> 32
      then Inl (InvalidTarget (ss_log_slots s) (ss_log_slots s + 1))
      else
        let num = ss_num_segments s * 2
        in Inr (s\<lparr>ss_log_slots := ss_log_slots s + 1, ss_num_segments := num,
                  ss_segments := ss_segments s @ replicate (num - length (ss_segments s)) None,
                  ss_live_counts := ss_live_counts s @ replicate (num - length (ss_live_counts s)) 0\<rparr>))"

definition retain_below :: "nat \<Rightarrow> u16 set \<Rightarrow> u16 set" where
  "retain_below n ids = {id \<in> ids. unat id < n}"

definition truncate_segments :: "nat \<Rightarrow> segmented \<Rightarrow> segmented" where
  "truncate_segments num s =
     s\<lparr>ss_num_segments := num, ss_segments := take num (ss_segments s), ss_live_counts := take num (ss_live_counts s),
       ss_evicted := retain_below num (ss_evicted s), ss_dirty := retain_below num (ss_dirty s), ss_mdbx_dirty := retain_below num (ss_mdbx_dirty s),
       ss_exact_dirty := retain_below num (ss_exact_dirty s)\<rparr>"

definition shrink_single :: "segmented \<Rightarrow> resize_failure + segmented" where
  "shrink_single s =
     (if 0 \<in> ss_evicted s then Inl (ResizeError (EvictedUpperSegment 0))
      else
        let keep = 2 ^ (ss_log_slots s - 1) in
        rbind (case ss_segments s ! 0 of
                 None \<Rightarrow> Inr s
               | Some cols \<Rightarrow>
                   if \<not> (list_all (\<lambda>v. v = 0) (drop keep (sg_values cols)) \<and> list_all (\<lambda>v. v = 0) (drop keep (sg_owners_hi cols)) \<and>
                          list_all (\<lambda>v. v = 0) (drop keep (sg_owners_lo cols)))
                   then Inl (ResizeError (NonEmptyUpperHalf 0))
                   else
                     let cols = truncate_columns keep cols; live = count_live cols
                     in Inr (s\<lparr>ss_live_counts := (ss_live_counts s)[0 := live],
                               ss_segments := (ss_segments s)[0 := (if live = 0 then None else Some cols)]\<rparr>)) (\<lambda>s.
        let log = ss_log_slots s - 1
        in ok_or FlushPanic (flush_all_dirty (mark_dirty 0 (s\<lparr>ss_log_slots := log, ss_effective_log_seg := log\<rparr>)))))"

definition shrink_half :: "segmented \<Rightarrow> resize_failure + segmented" where
  "shrink_half s =
     (let num = ss_num_segments s div 2 in
      rbind (for_each (\<lambda>id.
               let seg_id = of_nat id in
               rbind (ensure (seg_id \<notin> ss_evicted s) (ResizeError (EvictedUpperSegment seg_id))) (\<lambda>_.
               ensure (ss_live_counts s ! id = 0) (ResizeError (NonEmptyUpperHalf seg_id)))) [num..<ss_num_segments s]) (\<lambda>_.
      Inr (truncate_segments num (s\<lparr>ss_log_slots := ss_log_slots s - 1\<rparr>))))"

definition shrink_step :: "segmented \<Rightarrow> resize_failure + segmented" where
  "shrink_step s =
     rbind (ok_or FlushPanic (flush_all_dirty s)) (\<lambda>s. if ss_log_slots s \<le> LOG_SEGMENT_SIZE then shrink_single s else shrink_half s)"

primrec shrink_steps :: "nat \<Rightarrow> segmented \<Rightarrow> resize_failure + segmented" where
  "shrink_steps 0 s = Inr s"
| "shrink_steps (Suc n) s = rbind (shrink_step s) (shrink_steps n)"

definition shrink_to_log_slots :: "nat \<Rightarrow> segmented \<Rightarrow> resize_failure + segmented" where
  "shrink_to_log_slots target s =
     (if target < 1 \<or> target > ss_log_slots s then Inl (ResizeError (InvalidTarget (ss_log_slots s) target))
      else shrink_steps (ss_log_slots s - target) s)"

definition shrink_exact_metadata_to_log_slots :: "nat \<Rightarrow> segmented \<Rightarrow> state_resize_error + segmented" where
  "shrink_exact_metadata_to_log_slots target s =
     (if target = ss_log_slots s then Inr s
      else if ss_effective_log_seg s \<noteq> LOG_SEGMENT_SIZE \<or> target < LOG_SEGMENT_SIZE \<or> target > ss_log_slots s
      then Inl (InvalidTarget (ss_log_slots s) target)
      else
        let num = 2 ^ (target - LOG_SEGMENT_SIZE) in
        rbind (for_each (\<lambda>index.
                 let segment_id = of_nat index in
                 rbind (ensure (segment_id \<notin> ss_evicted s) (EvictedUpperSegment segment_id)) (\<lambda>_.
                 ensure (ss_live_counts s ! index = 0 \<and> ss_segments s ! index = None) (NonEmptyUpperHalf segment_id)))
                 [num..<ss_num_segments s]) (\<lambda>_.
        Inr (truncate_segments num (s\<lparr>ss_log_slots := target\<rparr>))))"

subsection \<open>Reference notions\<close>

definition seg_live :: "(nat \<Rightarrow> slot_value) \<Rightarrow> nat \<Rightarrow> nat \<Rightarrow> nat" where
  "seg_live f e k = card {i \<in> {k * 2 ^ e..<(k + 1) * 2 ^ e}. f i \<noteq> SLOT_EMPTY}"

definition geometry :: "segmented \<Rightarrow> bool" where
  "geometry s \<longleftrightarrow>
     1 \<le> ss_log_slots s \<and> ss_log_slots s \<le> 32 \<and> ss_effective_log_seg s = min (ss_log_slots s) LOG_SEGMENT_SIZE \<and>
     ss_num_segments s = 2 ^ (ss_log_slots s - ss_effective_log_seg s) \<and>
     length (ss_segments s) = ss_num_segments s \<and> length (ss_live_counts s) = ss_num_segments s \<and>
     (\<forall>id \<in> ss_evicted s. unat id < ss_num_segments s)"

text \<open>The store represents a map of slots: resident segments hold it and are not empty, virtual ones are empty in it, and the live counts, those of
  evicted segments included, count it.\<close>

definition segment_rep :: "segmented \<Rightarrow> (nat \<Rightarrow> slot_value) \<Rightarrow> nat \<Rightarrow> bool" where
  "segment_rep s f k \<longleftrightarrow>
     (let e = ss_effective_log_seg s in
      unat (ss_live_counts s ! k) = seg_live f e k \<and>
      (case ss_segments s ! k of
         Some cols \<Rightarrow> columns_length cols (2 ^ e) \<and> (\<forall>j < 2 ^ e. column_slot cols j = f (k * 2 ^ e + j)) \<and>
           of_nat k \<notin> ss_evicted s \<and> seg_live f e k \<noteq> 0
       | None \<Rightarrow> of_nat k \<in> ss_evicted s \<or> seg_live f e k = 0))"

definition represents :: "segmented \<Rightarrow> (nat \<Rightarrow> slot_value) \<Rightarrow> bool" where
  "represents s f \<longleftrightarrow> geometry s \<and> (\<forall>k < ss_num_segments s. segment_rep s f k) \<and> (\<forall>i \<ge> num_slots s. f i = SLOT_EMPTY)"

definition resident :: "segmented \<Rightarrow> nat \<Rightarrow> bool" where
  "resident s i \<longleftrightarrow> of_nat (i div 2 ^ ss_effective_log_seg s) \<notin> ss_evicted s"

definition columns_or_zero :: "segmented \<Rightarrow> nat \<Rightarrow> segment_columns" where
  "columns_or_zero s k = (case ss_segments s ! k of Some cols \<Rightarrow> cols | None \<Rightarrow> new_zero (segment_slot_count s))"

definition live_after :: "u32 \<Rightarrow> slot_value \<Rightarrow> slot_value \<Rightarrow> u32" where
  "live_after live old v =
     (if slot_is_empty old \<and> \<not> slot_is_empty v then saturating_add live 1
      else if \<not> slot_is_empty old \<and> slot_is_empty v then saturating_sub live 1 else live)"

definition write_all :: "(nat \<Rightarrow> slot_value) \<Rightarrow> (u32 \<times> slot_value) list \<Rightarrow> nat \<Rightarrow> slot_value" where
  "write_all f deltas = foldl (\<lambda>g (i, v). g(unat i := v)) f deltas"

definition empty_above :: "(nat \<Rightarrow> slot_value) \<Rightarrow> nat \<Rightarrow> bool" where
  "empty_above f log \<longleftrightarrow> (\<forall>i \<ge> 2 ^ log. f i = SLOT_EMPTY)"

definition evicted_within :: "segmented \<Rightarrow> nat \<Rightarrow> bool" where
  "evicted_within s log \<longleftrightarrow> (\<forall>sid \<in> ss_evicted s. (unat sid + 1) * 2 ^ ss_effective_log_seg s \<le> 2 ^ log)"

inductive store_reach :: "segmented \<Rightarrow> (nat \<Rightarrow> slot_value) \<Rightarrow> bool" where
  start: "new_empty log_slots = Some s \<Longrightarrow> log_slots \<le> 32 \<Longrightarrow> store_reach s (\<lambda>_. SLOT_EMPTY)"
| written: "store_reach s f \<Longrightarrow> apply_delta_in_place s deltas = Inr s' \<Longrightarrow> \<forall>d \<in> set deltas. resident s (unat (fst d)) \<Longrightarrow>
    store_reach s' (write_all f deltas)"
| evict: "store_reach s f \<Longrightarrow> unat sid < ss_num_segments s \<Longrightarrow> store_reach (evict_segment sid s) f"
| evict_clean: "store_reach s f \<Longrightarrow> store_reach (evict_clean_segments s) f"
| evict_all: "store_reach s f \<Longrightarrow> evict_all_persisted_segments s = Some s' \<Longrightarrow> store_reach s' f"
| restore: "store_reach s f \<Longrightarrow> sid \<in> ss_evicted s \<Longrightarrow> columns_length cols (segment_slot_count s) \<Longrightarrow>
    (\<And>j. j < segment_slot_count s \<Longrightarrow> column_slot cols j = f (unat sid * segment_slot_count s + j)) \<Longrightarrow>
    store_reach (restore_evicted_segment sid cols s) f"
| installed: "store_reach s f \<Longrightarrow> install_evicted_exact_summary sid live s = Inr s' \<Longrightarrow>
    unat live = seg_live g (ss_effective_log_seg s) (unat sid) \<Longrightarrow>
    (\<And>i. i div 2 ^ ss_effective_log_seg s \<noteq> unat sid \<Longrightarrow> g i = f i) \<Longrightarrow> store_reach s' g"
| install_finished: "store_reach s f \<Longrightarrow> store_reach (finish_evicted_exact_summaries s) f"
| summary_restored: "store_reach s f \<Longrightarrow> restore_persisted_segment_summary_and_evict sid root s = Inr s' \<Longrightarrow> store_reach s' f"
| cleared: "store_reach s f \<Longrightarrow> store_reach (clear_dirty s) f"
| exact_cleared: "store_reach s f \<Longrightarrow> store_reach (clear_exact_dirty s) f"
| grow: "store_reach s f \<Longrightarrow> ss_log_slots s < 32 \<Longrightarrow> expand s = Some s' \<Longrightarrow> store_reach s' f"
| grow_metadata: "store_reach s f \<Longrightarrow> expand_exact_metadata_for_replay s = Inr s' \<Longrightarrow> store_reach s' f"
| shrink: "store_reach s f \<Longrightarrow> shrink_to_log_slots t s = Inr s' \<Longrightarrow> store_reach s' f"
| shrink_metadata: "store_reach s f \<Longrightarrow> shrink_exact_metadata_to_log_slots t s = Inr s' \<Longrightarrow> store_reach s' f"

definition sample_slot :: slot_value where
  "sample_slot = \<lparr>sv_value = 7, sv_owner_hi = 1, sv_owner_lo = 2\<rparr>"

definition sample_store :: segmented where
  "sample_store = the (new_empty 2)"

section \<open>Lemmas\<close>

subsection \<open>Geometry\<close>

lemma geometry_facts:
  assumes "geometry s"
  shows "ss_effective_log_seg s \<le> 16" "ss_effective_log_seg s \<le> ss_log_slots s" "ss_log_slots s \<le> 32" "1 \<le> ss_log_slots s"
    "ss_num_segments s * 2 ^ ss_effective_log_seg s = num_slots s" "ss_num_segments s \<le> 2 ^ 16" "num_slots s \<le> 2 ^ 32"
    "length (ss_segments s) = ss_num_segments s" "length (ss_live_counts s) = ss_num_segments s"
proof -
  have g: "1 \<le> ss_log_slots s" "ss_log_slots s \<le> 32" "ss_effective_log_seg s = min (ss_log_slots s) 16"
    "ss_num_segments s = 2 ^ (ss_log_slots s - ss_effective_log_seg s)"
    "length (ss_segments s) = ss_num_segments s" "length (ss_live_counts s) = ss_num_segments s"
    using assms unfolding geometry_def LOG_SEGMENT_SIZE_def by blast+
  show "ss_effective_log_seg s \<le> 16" "ss_effective_log_seg s \<le> ss_log_slots s" using g(3) by simp_all
  show "ss_log_slots s \<le> 32" "1 \<le> ss_log_slots s" "length (ss_segments s) = ss_num_segments s"
    "length (ss_live_counts s) = ss_num_segments s" by (fact g)+
  show "ss_num_segments s * 2 ^ ss_effective_log_seg s = num_slots s"
    using \<open>ss_effective_log_seg s \<le> ss_log_slots s\<close> by (simp add: num_slots_def g(4) flip: power_add)
  have "ss_log_slots s - ss_effective_log_seg s \<le> 16" using g(2,3) by linarith
  then show "ss_num_segments s \<le> 2 ^ 16" unfolding g(4) by (intro power_increasing) auto
  show "num_slots s \<le> 2 ^ 32" unfolding num_slots_def using g(2) by (intro power_increasing) auto
qed

lemma unat_u16_of_nat: "k < 2 ^ 16 \<Longrightarrow> unat (of_nat k :: u16) = k"
  by (simp add: unat_of_nat)

lemma seg_index_lt:
  assumes "geometry s" "i < num_slots s"
  shows "i div 2 ^ ss_effective_log_seg s < ss_num_segments s"
  using assms geometry_facts(5) [OF assms(1)] by (simp add: less_mult_imp_div_less)

lemma u32_parts:
  fixes w :: u32
  shows "unat (ucast w :: u16) = unat w mod 2 ^ 16" "unat (drop_bit e w) = unat w div 2 ^ e"
    "unat (and w (push_bit e 1 - 1)) = unat w mod 2 ^ e"
proof -
  show "unat (ucast w :: u16) = unat w mod 2 ^ 16" by (simp add: unsigned_ucast_eq take_bit_eq_mod)
  show "unat (drop_bit e w) = unat w div 2 ^ e" unfolding unat_drop_bit_eq by (rule drop_bit_eq_div)
  have "and w (push_bit e 1 - 1) = take_bit e w" unfolding take_bit_eq_mask mask_eq_exp_minus_1 push_bit_of_1 ..
  then have "unat (and w (push_bit e 1 - 1)) = take_bit e (unat w)" by (simp only: unsigned_take_bit_eq)
  then show "unat (and w (push_bit e 1 - 1)) = unat w mod 2 ^ e" unfolding take_bit_eq_mod .
qed

lemma unat_seg_id:
  assumes "geometry s" "unat idx < num_slots s"
  shows "unat (seg_id_of s idx) = unat idx div 2 ^ ss_effective_log_seg s"
    "seg_id_of s idx = of_nat (unat idx div 2 ^ ss_effective_log_seg s)"
    "unat (local_idx_of s idx) = unat idx mod 2 ^ ss_effective_log_seg s"
proof -
  let ?e = "ss_effective_log_seg s"
  note g = geometry_facts [OF assms(1)]
  have d: "unat idx div 2 ^ ?e < 2 ^ 16" using seg_index_lt [OF assms] g(6) by linarith
  then show seg: "unat (seg_id_of s idx) = unat idx div 2 ^ ?e"
    by (simp only: seg_id_of_def u32_parts mod_less)
  then show "seg_id_of s idx = of_nat (unat idx div 2 ^ ?e)"
    using unat_u16_of_nat [OF d] by (simp add: word_unat_eq_iff)
  have "unat idx mod 2 ^ ?e < 2 ^ ?e" by simp
  also have "\<dots> \<le> 2 ^ 16" using g(1) by (intro power_increasing) auto
  finally show "unat (local_idx_of s idx) = unat idx mod 2 ^ ?e"
    by (simp only: local_idx_of_def u32_parts mod_less)
qed

lemma segment_repD:
  assumes "represents s f" "k < ss_num_segments s"
  shows "unat (ss_live_counts s ! k) = seg_live f (ss_effective_log_seg s) k"
    "ss_segments s ! k = Some cols \<Longrightarrow> columns_length cols (2 ^ ss_effective_log_seg s)"
    "ss_segments s ! k = Some cols \<Longrightarrow> j < 2 ^ ss_effective_log_seg s \<Longrightarrow> column_slot cols j = f (k * 2 ^ ss_effective_log_seg s + j)"
    "ss_segments s ! k = None \<Longrightarrow> of_nat k \<in> ss_evicted s \<or> seg_live f (ss_effective_log_seg s) k = 0"
    "ss_segments s ! k = Some cols \<Longrightarrow> of_nat k \<notin> ss_evicted s"
    "ss_segments s ! k = Some cols \<Longrightarrow> seg_live f (ss_effective_log_seg s) k \<noteq> 0"
  using assms by (auto simp: represents_def segment_rep_def Let_def)

lemma seg_live_0: "seg_live f e k = 0 \<longleftrightarrow> (\<forall>j < 2 ^ e. f (k * 2 ^ e + j) = SLOT_EMPTY)"
proof -
  have "seg_live f e k = 0 \<longleftrightarrow> {i \<in> {k * 2 ^ e..<(k + 1) * 2 ^ e}. f i \<noteq> SLOT_EMPTY} = {}" by (simp add: seg_live_def)
  also have "\<dots> \<longleftrightarrow> (\<forall>j < 2 ^ e. f (k * 2 ^ e + j) = SLOT_EMPTY)"
  proof
    assume a: "\<forall>j < 2 ^ e. f (k * 2 ^ e + j) = SLOT_EMPTY"
    have "f i = SLOT_EMPTY" if "k * 2 ^ e \<le> i" "i < (k + 1) * 2 ^ e" for i
      using a [rule_format, of "i - k * 2 ^ e"] that by (simp add: algebra_simps)
    then show "{i \<in> {k * 2 ^ e..<(k + 1) * 2 ^ e}. f i \<noteq> SLOT_EMPTY} = {}" by auto
  qed auto
  finally show ?thesis .
qed

lemma slot_represents:
  assumes "represents s f" "unat idx < num_slots s" "resident s (unat idx)"
  shows "slot s idx = f (unat idx)"
proof -
  let ?e = "ss_effective_log_seg s" let ?k = "unat idx div 2 ^ ?e" let ?j = "unat idx mod 2 ^ ?e"
  have g: "geometry s" using assms(1) by (simp add: represents_def)
  note id = unat_seg_id [OF g assms(2)]
  note k = seg_index_lt [OF g assms(2)]
  have i: "?k * 2 ^ ?e + ?j = unat idx" by (rule div_mult_mod_eq)
  show ?thesis
  proof (cases "ss_segments s ! ?k")
    case None
    then have "seg_live f ?e ?k = 0" using segment_repD(4) [OF assms(1) k] assms(3) by (simp add: resident_def)
    then have "f (?k * 2 ^ ?e + ?j) = SLOT_EMPTY" unfolding seg_live_0 by simp
    then show ?thesis using None unfolding i by (simp add: slot_def id(1,3))
  next
    case (Some cols)
    then show ?thesis using segment_repD(3) [OF assms(1) k Some, of ?j] unfolding i by (simp add: slot_def id(1,3))
  qed
qed

subsection \<open>Writes\<close>

lemma seg_range: "i div 2 ^ e = k \<longleftrightarrow> k * 2 ^ e \<le> i \<and> i < (k + 1) * 2 ^ e" for i :: nat
proof
  assume "i div 2 ^ e = k"
  then show "k * 2 ^ e \<le> i \<and> i < (k + 1) * 2 ^ e"
    using div_times_less_eq_dividend [of i "2 ^ e"] dividend_less_div_times [of "2 ^ e" i] by auto
qed (intro div_nat_eqI; simp add: algebra_simps)

lemma seg_live_div: "seg_live f e k = card {i. i div 2 ^ e = k \<and> f i \<noteq> SLOT_EMPTY}"
  unfolding seg_live_def seg_range by (rule arg_cong [where f = card]) auto

lemma finite_seg: "finite {i :: nat. i div 2 ^ e = k \<and> P i}"
  by (rule finite_subset [of _ "{..<(k + 1) * 2 ^ e}"]) (auto simp: seg_range)

lemma seg_live_le: "seg_live f e k \<le> 2 ^ e"
proof -
  have "card {i \<in> {k * 2 ^ e..<(k + 1) * 2 ^ e}. f i \<noteq> SLOT_EMPTY} \<le> card {k * 2 ^ e..<(k + 1) * 2 ^ e}" by (rule card_mono) auto
  then show ?thesis by (simp add: seg_live_def)
qed

lemma seg_live_other: "i div 2 ^ e \<noteq> k \<Longrightarrow> seg_live (f(i := v)) e k = seg_live f e k"
  unfolding seg_live_div by (rule arg_cong [where f = card]) auto

lemma seg_live_upd:
  assumes "i div 2 ^ e = k"
  shows "f i = SLOT_EMPTY \<Longrightarrow> v \<noteq> SLOT_EMPTY \<Longrightarrow> seg_live (f(i := v)) e k = Suc (seg_live f e k)"
    "f i \<noteq> SLOT_EMPTY \<Longrightarrow> v = SLOT_EMPTY \<Longrightarrow> Suc (seg_live (f(i := v)) e k) = seg_live f e k"
    "(f i = SLOT_EMPTY) = (v = SLOT_EMPTY) \<Longrightarrow> seg_live (f(i := v)) e k = seg_live f e k"
proof -
  let ?A = "{j. j div 2 ^ e = k \<and> f j \<noteq> SLOT_EMPTY}" let ?B = "{j. j div 2 ^ e = k \<and> (f(i := v)) j \<noteq> SLOT_EMPTY}"
  note fin = finite_seg [of e k]
  show "seg_live (f(i := v)) e k = Suc (seg_live f e k)" if "f i = SLOT_EMPTY" "v \<noteq> SLOT_EMPTY"
  proof -
    have "?B = insert i ?A" "i \<notin> ?A" using that assms by auto
    then show ?thesis unfolding seg_live_div using fin by simp
  qed
  show "Suc (seg_live (f(i := v)) e k) = seg_live f e k" if "f i \<noteq> SLOT_EMPTY" "v = SLOT_EMPTY"
  proof -
    have "?A = insert i ?B" "i \<notin> ?B" using that assms by auto
    then show ?thesis unfolding seg_live_div using fin by simp
  qed
  show "seg_live (f(i := v)) e k = seg_live f e k" if "(f i = SLOT_EMPTY) = (v = SLOT_EMPTY)"
  proof -
    have "?B = ?A" using that by auto
    then show ?thesis unfolding seg_live_div by simp
  qed
qed

lemma column_slot_write:
  assumes "columns_length cols n" "loc < n" "j < n"
  shows "column_slot (write_columns cols loc v) j = (if j = loc then v else column_slot cols j)"
  using assms by (simp add: column_slot_def write_columns_def columns_length_def)

lemma columns_length_write: "columns_length cols n \<Longrightarrow> columns_length (write_columns cols loc v) n"
  by (simp add: columns_length_def write_columns_def)

lemma new_zero_facts: "columns_length (new_zero n) n" "j < n \<Longrightarrow> column_slot (new_zero n) j = SLOT_EMPTY"
  by (simp_all add: new_zero_def columns_length_def column_slot_def SLOT_EMPTY_def)

text \<open>The columns that a write starts from, and the store after a write, written as one update.\<close>

lemma write_slot_eq:
  assumes "seg_id_of s idx \<notin> ss_evicted s" "slot s idx \<noteq> v"
  shows "write_slot s (idx, v) =
    (let seg = seg_id_of s idx; k = unat seg; live = live_after (ss_live_counts s ! k) (slot s idx) v
     in mark_dirty seg (s\<lparr>ss_live_counts := (ss_live_counts s)[k := live],
          ss_segments := (ss_segments s)[k := (if live = 0 then None else Some (write_columns (columns_or_zero s k) (unat (local_idx_of s idx)) v))]\<rparr>))"
proof -
  let ?k = "unat (seg_id_of s idx)"
  have none: "\<not> (ss_segments s ! ?k = None \<and> slot_is_empty v)" using assms(2) by (auto simp: slot_def slot_is_empty_def)
  have ev: "ss_evicted s - {seg_id_of s idx} = ss_evicted s" using assms(1) by simp
  show ?thesis
  proof (cases "ss_segments s ! ?k")
    case None
    then show ?thesis
      unfolding write_slot_def Let_def prod.case live_after_def [symmetric] using assms(2) none ev
      by (simp add: columns_or_zero_def mark_dirty_def)
  next
    case (Some cols)
    then show ?thesis
      unfolding write_slot_def Let_def prod.case live_after_def [symmetric] using assms(2) none ev
      by (simp add: columns_or_zero_def mark_dirty_def)
  qed
qed

lemma segment_rep_cong:
  assumes "ss_effective_log_seg s' = ss_effective_log_seg s" "ss_live_counts s' ! k = ss_live_counts s ! k" "ss_segments s' ! k = ss_segments s ! k"
    "(of_nat k \<in> ss_evicted s') = (of_nat k \<in> ss_evicted s)"
    "\<And>i. i div 2 ^ ss_effective_log_seg s = k \<Longrightarrow> f' i = f i"
  shows "segment_rep s' f' k = segment_rep s f k"
proof -
  let ?e = "ss_effective_log_seg s"
  have "f' (k * 2 ^ ?e + j) = f (k * 2 ^ ?e + j)" if "j < 2 ^ ?e" for j by (rule assms(5)) (use that in simp)
  moreover have "seg_live f' ?e k = seg_live f ?e k" unfolding seg_live_div using assms(5) by (metis (mono_tags, lifting))
  ultimately show ?thesis by (simp add: segment_rep_def assms(1-4) Let_def split: option.splits)
qed

lemma slot_is_empty_iff: "slot_is_empty v \<longleftrightarrow> v = SLOT_EMPTY"
  by (simp add: slot_is_empty_def)

lemma unat_live_after:
  assumes "unat live = seg_live f e k" "i div 2 ^ e = k" "e \<le> 16"
  shows "unat (live_after live (f i) v) = seg_live (f(i := v)) e k"
proof -
  have "seg_live f e k \<le> 2 ^ 16" using seg_live_le [of f e k] power_increasing [OF assms(3), of "2 :: nat"] by simp
  then have sat: "unat (saturating_add live 1) = unat live + 1" using assms(1) by (simp add: saturating_add_def unat_add_exact)
  consider "f i = SLOT_EMPTY" "v \<noteq> SLOT_EMPTY" | "f i \<noteq> SLOT_EMPTY" "v = SLOT_EMPTY" | "(f i = SLOT_EMPTY) = (v = SLOT_EMPTY)" by blast
  then show ?thesis
  proof cases
    case 1
    then show ?thesis using seg_live_upd(1) [of i e k f v, OF assms(2) 1] sat assms(1) by (simp add: live_after_def slot_is_empty_iff)
  next
    case 2
    note s = seg_live_upd(2) [of i e k f v, OF assms(2) 2]
    then have "1 \<le> live" using assms(1) by (simp add: word_le_nat_alt)
    then have "unat (saturating_sub live 1) = unat live - 1" by (simp add: saturating_sub_def unat_sub)
    then show ?thesis using 2 s assms(1) by (simp add: live_after_def slot_is_empty_iff)
  next
    case 3
    then show ?thesis using seg_live_upd(3) [of i e k f v, OF assms(2) 3] assms(1) by (simp add: live_after_def slot_is_empty_iff)
  qed
qed

lemma columns_or_zero_facts:
  assumes "represents s f" "k < ss_num_segments s" "of_nat k \<notin> ss_evicted s"
  shows "columns_length (columns_or_zero s k) (2 ^ ss_effective_log_seg s)"
    "j < 2 ^ ss_effective_log_seg s \<Longrightarrow> column_slot (columns_or_zero s k) j = f (k * 2 ^ ss_effective_log_seg s + j)"
proof -
  have "columns_length (columns_or_zero s k) (2 ^ ss_effective_log_seg s) \<and>
      (j < 2 ^ ss_effective_log_seg s \<longrightarrow> column_slot (columns_or_zero s k) j = f (k * 2 ^ ss_effective_log_seg s + j))"
  proof (cases "ss_segments s ! k")
    case None
    then have "seg_live f (ss_effective_log_seg s) k = 0" using segment_repD(4) [OF assms(1,2)] assms(3) by simp
    then show ?thesis using None by (simp add: columns_or_zero_def segment_slot_count_def new_zero_facts seg_live_0)
  next
    case (Some cols)
    then show ?thesis using segment_repD(2,3) [OF assms(1,2) Some] by (simp add: columns_or_zero_def)
  qed
  then show "columns_length (columns_or_zero s k) (2 ^ ss_effective_log_seg s)"
    "j < 2 ^ ss_effective_log_seg s \<Longrightarrow> column_slot (columns_or_zero s k) j = f (k * 2 ^ ss_effective_log_seg s + j)" by blast+
qed

lemma write_slot_represents:
  assumes rep: "represents s f" and idx: "unat idx < num_slots s" "resident s (unat idx)"
  shows "represents (write_slot s (idx, v)) (f(unat idx := v))"
    "ss_evicted (write_slot s (idx, v)) = ss_evicted s" "ss_log_slots (write_slot s (idx, v)) = ss_log_slots s"
    "ss_effective_log_seg (write_slot s (idx, v)) = ss_effective_log_seg s"
proof -
  let ?e = "ss_effective_log_seg s" let ?i = "unat idx" let ?k = "?i div 2 ^ ?e"
  have g: "geometry s" using rep by (simp add: represents_def)
  note id = unat_seg_id [OF g idx(1)] and k = seg_index_lt [OF g idx(1)] and gf = geometry_facts [OF g]
  have ev: "seg_id_of s idx \<notin> ss_evicted s" using idx(2) id(2) by (simp add: resident_def)
  note old = slot_represents [OF rep idx]
  have "represents (write_slot s (idx, v)) (f(?i := v)) \<and> ss_evicted (write_slot s (idx, v)) = ss_evicted s \<and>
      ss_log_slots (write_slot s (idx, v)) = ss_log_slots s \<and> ss_effective_log_seg (write_slot s (idx, v)) = ?e"
  proof (cases "f ?i = v")
    case True
    then have "write_slot s (idx, v) = s" "f(?i := v) = f" using old by (auto simp: write_slot_def Let_def)
    then show ?thesis using rep by simp
  next
    case False
    let ?live = "live_after (ss_live_counts s ! ?k) (f ?i) v" let ?cols = "write_columns (columns_or_zero s ?k) (?i mod 2 ^ ?e) v"
    let ?s = "write_slot s (idx, v)"
    have s': "?s = mark_dirty (seg_id_of s idx) (s\<lparr>ss_live_counts := (ss_live_counts s)[?k := ?live],
          ss_segments := (ss_segments s)[?k := (if ?live = 0 then None else Some ?cols)]\<rparr>)"
      using write_slot_eq [OF ev, of v] False unfolding Let_def id(1,3) old by simp
    have live: "unat ?live = seg_live (f(?i := v)) ?e ?k"
      using segment_repD(1) [OF rep k] gf(1) by (intro unat_live_after) auto
    have sel: "ss_effective_log_seg ?s = ?e" "ss_evicted ?s = ss_evicted s" "ss_log_slots ?s = ss_log_slots s" "ss_num_segments ?s = ss_num_segments s"
      "ss_live_counts ?s = (ss_live_counts s)[?k := ?live]" "ss_segments ?s = (ss_segments s)[?k := (if ?live = 0 then None else Some ?cols)]"
      unfolding s' mark_dirty_def by simp_all
    have "segment_rep ?s (f(?i := v)) j" if j: "j < ss_num_segments s" for j
    proof (cases "j = ?k")
      case False
      have "segment_rep s f j" using rep j by (simp add: represents_def)
      then show ?thesis using False j by (subst segment_rep_cong [where f = f and s = s]) (auto simp: sel)
    next
      case True
      have nk: "of_nat ?k \<notin> ss_evicted s" using ev id(2) by simp
      have cols: "columns_length ?cols (2 ^ ?e)" by (rule columns_length_write [OF columns_or_zero_facts(1) [OF rep k nk]])
      have "column_slot ?cols m = (f(?i := v)) (?k * 2 ^ ?e + m)" if m: "m < 2 ^ ?e" for m
      proof -
        have "column_slot ?cols m = (if m = ?i mod 2 ^ ?e then v else f (?k * 2 ^ ?e + m))"
          using column_slot_write [OF columns_or_zero_facts(1) [OF rep k nk] _ m, of "?i mod 2 ^ ?e" v] columns_or_zero_facts(2) [OF rep k nk m] by simp
        moreover have "?k * 2 ^ ?e + m = ?i \<longleftrightarrow> m = ?i mod 2 ^ ?e" using div_mult_mod_eq [of ?i "2 ^ ?e"] by linarith
        ultimately show ?thesis by simp
      qed
      moreover have "ss_segments ?s ! ?k = (if ?live = 0 then None else Some ?cols)" "ss_live_counts ?s ! ?k = ?live"
        using k gf(8,9) by (simp_all add: sel)
      ultimately show ?thesis
        using True live cols nk by (simp add: segment_rep_def sel Let_def word_unat_eq_iff)
    qed
    moreover have "geometry ?s" using g unfolding geometry_def sel length_list_update by blast
    moreover have "\<forall>i \<ge> num_slots ?s. (f(?i := v)) i = SLOT_EMPTY" using rep idx(1) by (simp add: represents_def num_slots_def sel)
    ultimately show ?thesis using sel by (simp add: represents_def)
  qed
  then show "represents (write_slot s (idx, v)) (f(?i := v))" "ss_evicted (write_slot s (idx, v)) = ss_evicted s"
    "ss_log_slots (write_slot s (idx, v)) = ss_log_slots s" "ss_effective_log_seg (write_slot s (idx, v)) = ?e" by blast+
qed

lemma write_all_simps [simp]: "write_all f [] = f" "write_all f (d # deltas) = write_all (f(unat (fst d) := snd d)) deltas"
  by (simp_all add: write_all_def case_prod_beta)

lemma foldl_write_slot_represents:
  assumes "represents s f" "\<forall>d \<in> set deltas. unat (fst d) < num_slots s \<and> resident s (unat (fst d))"
  shows "represents (foldl write_slot s deltas) (write_all f deltas) \<and> ss_evicted (foldl write_slot s deltas) = ss_evicted s \<and>
    ss_log_slots (foldl write_slot s deltas) = ss_log_slots s \<and> ss_effective_log_seg (foldl write_slot s deltas) = ss_effective_log_seg s"
  using assms
proof (induction deltas arbitrary: s f)
  case (Cons d deltas)
  obtain i v where d: "d = (i, v)" by (cases d)
  have i: "unat i < num_slots s" "resident s (unat i)" using Cons.prems d by simp_all
  note w = write_slot_represents [OF Cons.prems(1) i, of v]
  have "\<forall>d \<in> set deltas. unat (fst d) < num_slots (write_slot s (i, v)) \<and> resident (write_slot s (i, v)) (unat (fst d))"
    using Cons.prems(2) by (simp add: num_slots_def resident_def w(2-4))
  from Cons.IH [OF w(1) this] show ?case unfolding d foldl_Cons write_all_simps fst_conv snd_conv w(2-4) .
qed simp

lemma apply_delta_represents:
  assumes "represents s f" "\<forall>d \<in> set deltas. unat (fst d) < num_slots s \<and> resident s (unat (fst d))"
  shows "\<exists>s'. apply_delta_in_place s deltas = Inr s' \<and> represents s' (write_all f deltas) \<and> ss_evicted s' = ss_evicted s \<and>
    ss_log_slots s' = ss_log_slots s \<and> ss_effective_log_seg s' = ss_effective_log_seg s"
proof -
  have "\<not> (\<exists>(idx, _) \<in> set deltas. unat idx \<ge> num_slots s)" using assms(2) by fastforce
  then show ?thesis using foldl_write_slot_represents [OF assms] by (simp add: apply_delta_in_place_def)
qed

lemma apply_delta_rejects:
  "(\<exists>d \<in> set deltas. num_slots s \<le> unat (fst d)) \<longleftrightarrow> apply_delta_in_place s deltas = Inl StateSlotOutOfRange"
  by (auto simp: apply_delta_in_place_def case_prod_beta)

lemma seg_live_shift: "seg_live f e k = card {j. j < 2 ^ e \<and> f (k * 2 ^ e + j) \<noteq> SLOT_EMPTY}"
proof -
  have "{i \<in> {k * 2 ^ e..<(k + 1) * 2 ^ e}. f i \<noteq> SLOT_EMPTY} = (\<lambda>j. k * 2 ^ e + j) ` {j. j < 2 ^ e \<and> f (k * 2 ^ e + j) \<noteq> SLOT_EMPTY}"
    (is "?A = ?h ` ?B")
  proof
    show "?A \<subseteq> ?h ` ?B"
    proof
      fix i assume "i \<in> ?A"
      then have "i = ?h (i - k * 2 ^ e)" "i - k * 2 ^ e \<in> ?B" by (auto simp: algebra_simps)
      then show "i \<in> ?h ` ?B" by (rule image_eqI)
    qed
  qed (auto simp: algebra_simps)
  then show ?thesis by (simp add: seg_live_def card_image)
qed

lemma unat_count_live:
  assumes "columns_length cols n" "n < 2 ^ 32"
  shows "unat (count_live cols) = card {j. j < n \<and> column_slot cols j \<noteq> SLOT_EMPTY}"
proof -
  let ?P = "\<lambda>((v, hi), lo). v \<noteq> 0 \<or> hi \<noteq> 0 \<or> lo \<noteq> (0 :: u128)"
  let ?xs = "zip (zip (sg_values cols) (sg_owners_hi cols)) (sg_owners_lo cols)"
  have l: "length (sg_values cols) = n" "length (sg_owners_hi cols) = n" "length (sg_owners_lo cols) = n" using assms(1) by (simp_all add: columns_length_def)
  have "length (filter ?P ?xs) = card {j. j < n \<and> ?P (?xs ! j)}" by (simp add: length_filter_conv_card l)
  also have "{j. j < n \<and> ?P (?xs ! j)} = {j. j < n \<and> column_slot cols j \<noteq> SLOT_EMPTY}"
    by (auto simp: l column_slot_def SLOT_EMPTY_def)
  finally have c: "length (filter ?P ?xs) = card {j. j < n \<and> column_slot cols j \<noteq> SLOT_EMPTY}" .
  have "card {j. j < n \<and> column_slot cols j \<noteq> SLOT_EMPTY} \<le> card {..<n}" by (rule card_mono) auto
  then have "length (filter ?P ?xs) < 2 ^ 32" using c assms(2) by simp
  then show ?thesis unfolding count_live_def c [symmetric] by (simp add: unat_of_nat)
qed

lemma count_live_segment:
  assumes "columns_length cols (2 ^ e)" "\<And>j. j < 2 ^ e \<Longrightarrow> column_slot cols j = f (k * 2 ^ e + j)" "e \<le> 16"
  shows "unat (count_live cols) = seg_live f e k"
proof -
  have "(2 :: nat) ^ e \<le> 2 ^ 16" by (rule power_increasing) (use assms(3) in auto)
  then have "(2 :: nat) ^ e < 2 ^ 32" by simp
  moreover have "{j. j < 2 ^ e \<and> column_slot cols j \<noteq> SLOT_EMPTY} = {j. j < 2 ^ e \<and> f (k * 2 ^ e + j) \<noteq> SLOT_EMPTY}" using assms(2) by auto
  ultimately show ?thesis using unat_count_live [OF assms(1)] by (simp add: seg_live_shift)
qed

lemma representsI:
  assumes "geometry s" "\<And>k. k < ss_num_segments s \<Longrightarrow> segment_rep s f k" "\<And>i. num_slots s \<le> i \<Longrightarrow> f i = SLOT_EMPTY"
  shows "represents s f"
  using assms by (simp add: represents_def)

lemma representsD:
  assumes "represents s f"
  shows "geometry s" "k < ss_num_segments s \<Longrightarrow> segment_rep s f k" "num_slots s \<le> i \<Longrightarrow> f i = SLOT_EMPTY"
  using assms by (simp_all add: represents_def)

lemma of_nat_u16_inject:
  assumes "geometry s" "j < ss_num_segments s" "k < ss_num_segments s"
  shows "(of_nat j :: u16) = of_nat k \<longleftrightarrow> j = k"
  using assms geometry_facts(6) [OF assms(1)] by (metis order_less_le_trans unat_u16_of_nat)

lemma evict_segment_represents:
  assumes rep: "represents s f" and k: "unat sid < ss_num_segments s"
  shows "represents (evict_segment sid s) f"
proof (cases "ss_segments s ! unat sid")
  case None
  then show ?thesis using rep by (simp add: evict_segment_def)
next
  case (Some cols)
  let ?s = "evict_segment sid s"
  note g = representsD(1) [OF rep]
  have sel: "ss_segments ?s = (ss_segments s)[unat sid := None]" "ss_evicted ?s = insert sid (ss_evicted s)" "ss_live_counts ?s = ss_live_counts s"
    "ss_log_slots ?s = ss_log_slots s" "ss_effective_log_seg ?s = ss_effective_log_seg s" "ss_num_segments ?s = ss_num_segments s"
    using Some by (simp_all add: evict_segment_def)
  show ?thesis
  proof (rule representsI)
    show "geometry ?s" using g k unfolding geometry_def sel length_list_update by blast
    show "segment_rep ?s f j" if "j < ss_num_segments ?s" for j
    proof (cases "j = unat sid")
      case False
      then have "(of_nat j :: u16) \<noteq> sid" using of_nat_u16_inject [OF g _ k, of j] that by (simp add: sel)
      then show ?thesis using representsD(2) [OF rep, of j] that False by (subst segment_rep_cong [where s = s and f = f]) (auto simp: sel)
    next
      case True
      then show ?thesis using segment_repD(1) [OF rep k] geometry_facts(8) [OF g] k by (simp add: segment_rep_def sel)
    qed
    show "f i = SLOT_EMPTY" if "num_slots ?s \<le> i" for i using representsD(3) [OF rep, of i] that by (simp add: num_slots_def sel)
  qed
qed

lemma restore_represents:
  assumes rep: "represents s f" and k: "unat sid < ss_num_segments s"
    and cols: "columns_length cols (2 ^ ss_effective_log_seg s)"
      "\<And>j. j < 2 ^ ss_effective_log_seg s \<Longrightarrow> column_slot cols j = f (unat sid * 2 ^ ss_effective_log_seg s + j)"
  shows "represents (restore_evicted_segment sid cols s) f" "ss_evicted (restore_evicted_segment sid cols s) = ss_evicted s - {sid}"
    "ss_log_slots (restore_evicted_segment sid cols s) = ss_log_slots s" "ss_effective_log_seg (restore_evicted_segment sid cols s) = ss_effective_log_seg s"
proof -
  let ?s = "restore_evicted_segment sid cols s" let ?e = "ss_effective_log_seg s"
  note g = representsD(1) [OF rep]
  have live: "unat (count_live cols) = seg_live f ?e (unat sid)" by (rule count_live_segment [OF cols]) (use geometry_facts(1) [OF g] in auto)
  have sel: "ss_segments ?s = (ss_segments s)[unat sid := (if count_live cols = 0 then None else Some cols)]" "ss_evicted ?s = ss_evicted s - {sid}"
    "ss_live_counts ?s = (ss_live_counts s)[unat sid := count_live cols]"
    "ss_log_slots ?s = ss_log_slots s" "ss_effective_log_seg ?s = ?e" "ss_num_segments ?s = ss_num_segments s"
    by (simp_all add: restore_evicted_segment_def Let_def)
  then show "ss_evicted ?s = ss_evicted s - {sid}" "ss_log_slots ?s = ss_log_slots s" "ss_effective_log_seg ?s = ?e" by simp_all
  show "represents ?s f"
  proof (rule representsI)
    show "geometry ?s" using g unfolding geometry_def sel length_list_update by blast
    show "segment_rep ?s f j" if "j < ss_num_segments ?s" for j
    proof (cases "j = unat sid")
      case False
      then have "(of_nat j :: u16) \<noteq> sid" using of_nat_u16_inject [OF g _ k, of j] that by (simp add: sel)
      then show ?thesis using representsD(2) [OF rep, of j] that False by (subst segment_rep_cong [where s = s and f = f]) (auto simp: sel)
    next
      case True
      then show ?thesis using live cols geometry_facts(8,9) [OF g] k by (simp add: segment_rep_def sel word_unat_eq_iff)
    qed
    show "f i = SLOT_EMPTY" if "num_slots ?s \<le> i" for i using representsD(3) [OF rep, of i] that by (simp add: num_slots_def sel)
  qed
qed

lemma tree_node_shift:
  assumes "level \<le> e"
  shows "tree_node perm (\<lambda>j. f (k * 2 ^ e + j)) level i = tree_node perm f level (k * 2 ^ (e - level) + i)"
  using assms
proof (induction level arbitrary: i)
  case (Suc level)
  have "(2 :: nat) ^ (e - level) = 2 * 2 ^ (e - Suc level)" using Suc.prems by (simp flip: power_Suc add: Suc_diff_Suc)
  then have "k * 2 ^ (e - level) + 2 * i = 2 * (k * 2 ^ (e - Suc level) + i)"
    "k * 2 ^ (e - level) + (2 * i + 1) = 2 * (k * 2 ^ (e - Suc level) + i) + 1" by (simp_all add: algebra_simps)
  then show ?case unfolding tree_node.simps Suc.IH [OF Suc_leD [OF Suc.prems]] by (simp only:)
qed simp

lemma exact_segment_root_represents:
  assumes rep: "represents s f" and k: "unat sid < ss_num_segments s" and res: "sid \<notin> ss_evicted s"
  shows "exact_segment_root perm s sid = Inr (Some (tree_node perm (slot_hashes perm f) (ss_effective_log_seg s) (unat sid)))"
proof -
  let ?e = "ss_effective_log_seg s" let ?k = "unat sid"
  have shift: "tree_node perm (slot_hashes perm g) ?e 0 = tree_node perm (slot_hashes perm f) ?e ?k"
    if "\<And>j. j < 2 ^ ?e \<Longrightarrow> g j = f (?k * 2 ^ ?e + j)" for g
  proof -
    have "tree_node perm (slot_hashes perm g) ?e 0 = tree_node perm (\<lambda>j. slot_hashes perm f (?k * 2 ^ ?e + j)) ?e 0"
      by (rule tree_node_cong) (use that in \<open>simp add: slot_hashes_def div_eq_0_iff\<close>)
    then show ?thesis using tree_node_shift [of ?e ?e perm "slot_hashes perm f" ?k 0] by simp
  qed
  show ?thesis
  proof (cases "ss_segments s ! ?k")
    case None
    then have "seg_live f ?e ?k = 0" using segment_repD(4) [OF rep k] res by simp
    then have "tree_node perm (slot_hashes perm (\<lambda>_. SLOT_EMPTY)) ?e 0 = tree_node perm (slot_hashes perm f) ?e ?k"
      by (intro shift) (simp add: seg_live_0)
    moreover have "zero_slot_roots perm ?e ! ?e = tree_node perm (slot_hashes perm (\<lambda>_. SLOT_EMPTY)) ?e 0"
      unfolding slot_hashes_def by (rule zero_slot_roots_nth) simp
    ultimately show ?thesis using None res by (simp add: exact_segment_root_def is_evicted_def try_get_segment_columns_def)
  next
    case (Some cols)
    obtain t where t: "from_columns perm ?e cols = Some t" "tr_log_slots t = ?e" "segment_tree_ok perm (column_slot cols) t"
      by (rule from_columns_ok [OF segment_repD(2) [OF rep k Some]])
    have "tree_root t = tree_node perm (slot_hashes perm (column_slot cols)) ?e 0" using segment_tree_root [OF t(3)] t(2) by simp
    also have "\<dots> = tree_node perm (slot_hashes perm f) ?e ?k" by (rule shift [OF segment_repD(3) [OF rep k Some]])
    finally show ?thesis using Some t(1) res by (simp add: exact_segment_root_def is_evicted_def try_get_segment_columns_def)
  qed
qed

lemma new_empty_represents:
  assumes "1 \<le> log_slots" "log_slots \<le> 32"
  obtains s where "new_empty log_slots = Some s" "represents s (\<lambda>_. SLOT_EMPTY)" "ss_log_slots s = log_slots" "ss_evicted s = {}"
proof -
  define num where "num = (if log_slots > LOG_SEGMENT_SIZE then 2 ^ (log_slots - LOG_SEGMENT_SIZE) else (1 :: nat))"
  define s where "s = \<lparr>ss_log_slots = log_slots, ss_effective_log_seg = min log_slots LOG_SEGMENT_SIZE, ss_num_segments = num,
             ss_segments = replicate num None, ss_live_counts = replicate num 0,
             ss_dirty = {}, ss_mdbx_dirty = {}, ss_exact_dirty = {}, ss_evicted = {}\<rparr>"
  have "new_empty log_slots = Some s" using assms by (simp add: new_empty_def s_def num_def Let_def)
  moreover have "represents s (\<lambda>_. SLOT_EMPTY)"
    using assms by (intro representsI) (simp_all add: s_def geometry_def segment_rep_def seg_live_def num_def min_def)
  ultimately show ?thesis using that by (simp add: s_def)
qed

lemma seg_live_beyond: "(\<And>i. k * 2 ^ e \<le> i \<Longrightarrow> f i = SLOT_EMPTY) \<Longrightarrow> seg_live f e k = 0"
  by (simp add: seg_live_0)

lemma seg_live_single:
  assumes "\<And>i. 2 ^ e \<le> i \<Longrightarrow> f i = SLOT_EMPTY" "e \<le> e'"
  shows "seg_live f e' 0 = seg_live f e 0"
proof -
  have "(2 :: nat) ^ e \<le> 2 ^ e'" using assms(2) by (intro power_increasing) auto
  then have "i < 2 ^ e' \<and> f i \<noteq> SLOT_EMPTY \<longleftrightarrow> i < 2 ^ e \<and> f i \<noteq> SLOT_EMPTY" for i using assms(1) [of i] by linarith
  then have "{i \<in> {0..<2 ^ e'}. f i \<noteq> SLOT_EMPTY} = {i \<in> {0..<2 ^ e}. f i \<noteq> SLOT_EMPTY}" by simp
  then show ?thesis by (simp add: seg_live_def)
qed

lemma geometry_evicted: "geometry s \<Longrightarrow> sid \<in> ss_evicted s \<Longrightarrow> unat sid < ss_num_segments s"
  unfolding geometry_def by blast

lemma geometry_small:
  assumes "geometry s" "ss_log_slots s \<le> 16"
  shows "ss_effective_log_seg s = ss_log_slots s" "ss_num_segments s = 1"
  using assms by (simp_all add: geometry_def LOG_SEGMENT_SIZE_def)

lemma geometry_large:
  assumes "geometry s" "16 \<le> ss_log_slots s"
  shows "ss_effective_log_seg s = 16" "ss_num_segments s = 2 ^ (ss_log_slots s - 16)"
  using assms by (simp_all add: geometry_def LOG_SEGMENT_SIZE_def)

lemma extend_columns_facts:
  assumes "columns_length cols n"
  shows "columns_length (extend_columns m cols) (n + m)"
    "j < n + m \<Longrightarrow> column_slot (extend_columns m cols) j = (if j < n then column_slot cols j else SLOT_EMPTY)"
  using assms by (simp_all add: columns_length_def extend_columns_def column_slot_def nth_append SLOT_EMPTY_def)

lemma expand_small:
  assumes rep: "represents s f" and small: "ss_log_slots s < 16"
    and ex: "expand s = Some s'"
  shows "represents s' f \<and> ss_log_slots s' = Suc (ss_log_slots s) \<and> ss_evicted s' = ss_evicted s"
proof -
  let ?e = "ss_log_slots s"
  note g = representsD(1) [OF rep] and gf = geometry_facts [OF g]
  note e = geometry_small [OF g less_imp_le [OF small]]
  have beyond: "f i = SLOT_EMPTY" if "2 ^ ?e \<le> i" for i using representsD(3) [OF rep] that by (simp add: num_slots_def)
  have sel: "ss_log_slots s' = Suc ?e" "ss_effective_log_seg s' = Suc ?e" "ss_num_segments s' = 1" "ss_live_counts s' = ss_live_counts s"
    "ss_segments s' = (ss_segments s)[0 := map_option (extend_columns (2 ^ ?e)) (ss_segments s ! 0)]" "ss_evicted s' = ss_evicted s"
    using small e ex by (auto simp: expand_def flush_all_dirty_def Let_def LOG_SEGMENT_SIZE_def split: if_splits)
  have live: "seg_live f (Suc ?e) 0 = seg_live f ?e 0" by (rule seg_live_single [OF beyond]) auto
  have "segment_rep s' f 0"
  proof (cases "ss_segments s ! 0")
    case None
    then show ?thesis using segment_repD(1,4) [OF rep, of 0] gf(8) by (simp add: segment_rep_def sel e live)
  next
    case (Some cols)
    have c: "columns_length cols (2 ^ ?e)" "\<And>j. j < 2 ^ ?e \<Longrightarrow> column_slot cols j = f j" using segment_repD(2,3) [OF rep _ Some] e by simp_all
    have "column_slot (extend_columns (2 ^ ?e) cols) j = f j" if "j < 2 ^ Suc ?e" for j
      using that extend_columns_facts(2) [OF c(1), of j "2 ^ ?e"] c(2) [of j] beyond [of j] by (simp add: mult_2)
    moreover have "columns_length (extend_columns (2 ^ ?e) cols) (2 ^ Suc ?e)" using extend_columns_facts(1) [OF c(1), of "2 ^ ?e"] by (simp add: mult_2)
    ultimately show ?thesis using Some segment_repD(1,5,6) [OF rep, of 0] gf(8) by (simp add: segment_rep_def sel e live)
  qed
  moreover have "geometry s'" using g small e unfolding geometry_def sel by (simp add: LOG_SEGMENT_SIZE_def)
  moreover have "f i = SLOT_EMPTY" if "num_slots s' \<le> i" for i using that by (intro beyond) (simp add: num_slots_def sel)
  ultimately show ?thesis by (auto intro!: representsI simp: sel)
qed

lemma expand_large:
  assumes rep: "represents s f" and large: "16 \<le> ss_log_slots s" "ss_log_slots s < 32"
  shows "\<exists>s'. expand s = Some s' \<and> represents s' f \<and> ss_log_slots s' = Suc (ss_log_slots s) \<and> ss_evicted s' = ss_evicted s"
proof -
  let ?s = "the (expand s)" let ?n = "ss_num_segments s"
  note g = representsD(1) [OF rep] and gf = geometry_facts [OF g]
  note e = geometry_large [OF g large(1)]
  have ex: "expand s = Some ?s" using large by (simp add: expand_def Let_def LOG_SEGMENT_SIZE_def)
  have sel: "ss_log_slots ?s = Suc (ss_log_slots s)" "ss_effective_log_seg ?s = 16" "ss_num_segments ?s = 2 * ?n"
    "ss_live_counts ?s = ss_live_counts s @ replicate ?n 0" "ss_segments ?s = ss_segments s @ replicate ?n None" "ss_evicted ?s = ss_evicted s"
    using large e gf(8,9) by (simp_all add: expand_def Let_def LOG_SEGMENT_SIZE_def mult.commute)
  have "segment_rep ?s f k" if k: "k < 2 * ?n" for k
  proof (cases "k < ?n")
    case True
    then show ?thesis using representsD(2) [OF rep True] gf(8,9) by (subst segment_rep_cong [where s = s and f = f]) (auto simp: sel e nth_append)
  next
    case False
    have "seg_live f 16 k = 0"
    proof (rule seg_live_beyond, rule representsD(3) [OF rep])
      fix i :: nat
      assume "k * 2 ^ 16 \<le> i"
      moreover have "num_slots s = ?n * 2 ^ 16" using gf(5) e(1) by simp
      ultimately show "num_slots s \<le> i" using mult_le_mono1 [of ?n k "2 ^ 16"] False by linarith
    qed
    then show ?thesis using False k gf(8,9) by (simp add: segment_rep_def sel nth_append)
  qed
  moreover have "geometry ?s"
  proof -
    have n: "2 * ?n = 2 ^ (Suc (ss_log_slots s) - 16)" unfolding e(2) Suc_diff_le [OF large(1)] by (simp only: power_Suc)
    have "unat sid < 2 * ?n" if "sid \<in> ss_evicted s" for sid using geometry_evicted [OF g that] by linarith
    moreover have "16 = min (Suc (ss_log_slots s)) 16" "length (ss_segments s) + ?n = 2 * ?n" "length (ss_live_counts s) + ?n = 2 * ?n"
      "1 \<le> Suc (ss_log_slots s)" "Suc (ss_log_slots s) \<le> 32" using large gf(8,9) by linarith+
    ultimately show ?thesis using n unfolding geometry_def sel LOG_SEGMENT_SIZE_def length_append length_replicate by blast
  qed
  moreover have "f i = SLOT_EMPTY" if "num_slots ?s \<le> i" for i
    using that by (intro representsD(3) [OF rep]) (simp add: num_slots_def sel)
  ultimately have "represents ?s f" by (intro representsI) (simp_all only: sel)
  then show ?thesis using ex sel by blast
qed

lemma expand_represents:
  assumes "represents s f" "ss_log_slots s < 32" "expand s = Some s'"
  shows "represents s' f" "ss_log_slots s' = Suc (ss_log_slots s)" "ss_evicted s' = ss_evicted s"
  using expand_small [OF assms(1) _ assms(3)] expand_large [OF assms(1) _ assms(2)] assms(3) by (cases "ss_log_slots s < 16"; auto)+

lemma expand_exact_metadata_is_expand:
  assumes "represents s f"
  shows "expand_exact_metadata_for_replay s =
    (if 16 \<le> ss_log_slots s \<and> ss_log_slots s < 32 then Inr (the (expand s)) else Inl (InvalidTarget (ss_log_slots s) (ss_log_slots s + 1)))"
proof -
  note g = representsD(1) [OF assms]
  show ?thesis
  proof (cases "16 \<le> ss_log_slots s")
    case True
    then show ?thesis
      using geometry_large(1) [OF g True] by (simp add: expand_exact_metadata_for_replay_def expand_def LOG_SEGMENT_SIZE_def Let_def)
  next
    case False
    then show ?thesis using geometry_small(1) [OF g] by (simp add: expand_exact_metadata_for_replay_def LOG_SEGMENT_SIZE_def)
  qed
qed

lemma empty_above_mono: "empty_above f log \<Longrightarrow> log \<le> log' \<Longrightarrow> empty_above f log'"
  unfolding empty_above_def by (meson le_trans one_le_numeral power_increasing)

lemma evicted_within_mono: "evicted_within s log \<Longrightarrow> log \<le> log' \<Longrightarrow> evicted_within s log'"
  unfolding evicted_within_def by (meson le_trans one_le_numeral power_increasing)

lemma truncate_columns_facts:
  assumes "columns_length cols n" "m \<le> n"
  shows "columns_length (truncate_columns m cols) m" "j < m \<Longrightarrow> column_slot (truncate_columns m cols) j = column_slot cols j"
  using assms by (simp_all add: columns_length_def truncate_columns_def column_slot_def)

lemma list_all_drop: "list_all P (drop m xs) \<longleftrightarrow> (\<forall>j. m \<le> j \<and> j < length xs \<longrightarrow> P (xs ! j))"
proof
  assume a: "list_all P (drop m xs)"
  show "\<forall>j. m \<le> j \<and> j < length xs \<longrightarrow> P (xs ! j)"
  proof (intro allI impI)
    fix j
    assume j: "m \<le> j \<and> j < length xs"
    then have "P (drop m xs ! (j - m))" using a by (simp only: list_all_length length_drop diff_less_mono)
    then show "P (xs ! j)" using j by simp
  qed
qed (simp add: list_all_length)

lemma columns_upper_empty:
  assumes "columns_length cols n"
  shows "(list_all (\<lambda>v. v = 0) (drop keep (sg_values cols)) \<and> list_all (\<lambda>v. v = 0) (drop keep (sg_owners_hi cols)) \<and>
      list_all (\<lambda>v. v = 0) (drop keep (sg_owners_lo cols))) \<longleftrightarrow> (\<forall>j. keep \<le> j \<and> j < n \<longrightarrow> column_slot cols j = SLOT_EMPTY)"
  using assms unfolding list_all_drop columns_length_def column_slot_def SLOT_EMPTY_def by auto

lemma represents_flags:
  assumes "represents s f" "ss_log_slots s' = ss_log_slots s" "ss_effective_log_seg s' = ss_effective_log_seg s" "ss_num_segments s' = ss_num_segments s"
    "ss_segments s' = ss_segments s" "ss_live_counts s' = ss_live_counts s" "ss_evicted s' = ss_evicted s"
  shows "represents s' f"
  using assms(1) unfolding represents_def geometry_def segment_rep_def num_slots_def assms(2-7) .

lemma evicted_single:
  assumes "geometry s" "ss_num_segments s = 1" "sid \<in> ss_evicted s"
  shows "sid = 0"
proof -
  have "unat sid < 1" using geometry_evicted [OF assms(1,3)] assms(2) by (simp only:)
  then show ?thesis by (simp add: unat_eq_0)
qed

lemma shrunk_single_represents:
  assumes rep: "represents s f" and d: "ss_log_slots s = Suc d" "1 \<le> d" and log: "ss_log_slots s \<le> 16"
    and em: "empty_above f d" and nev: "ss_evicted s = {}" and live: "unat live = seg_live f d 0"
    and seg: "case seg of None \<Rightarrow> live = 0 | Some cols \<Rightarrow> live \<noteq> 0 \<and> columns_length cols (2 ^ d) \<and> (\<forall>j < 2 ^ d. column_slot cols j = f j)"
  shows "represents (mark_dirty 0 (s\<lparr>ss_live_counts := (ss_live_counts s)[0 := live], ss_segments := (ss_segments s)[0 := seg],
      ss_log_slots := d, ss_effective_log_seg := d\<rparr>)\<lparr>ss_dirty := {}\<rparr>) f" (is "represents ?s f")
proof (rule representsI)
  note g = representsD(1) [OF rep] and gf = geometry_facts [OF g]
  note e = geometry_small [OF g log, unfolded d]
  have sel: "ss_log_slots ?s = d" "ss_effective_log_seg ?s = d" "ss_num_segments ?s = 1" "ss_live_counts ?s = (ss_live_counts s)[0 := live]"
    "ss_segments ?s = (ss_segments s)[0 := seg]" "ss_evicted ?s = {}"
    using nev e by (simp_all add: mark_dirty_def)
  show "geometry ?s" using d log gf(8,9) e unfolding geometry_def sel by (simp add: LOG_SEGMENT_SIZE_def)
  show "segment_rep ?s f k" if "k < ss_num_segments ?s" for k
  proof -
    have "k = 0" using that sel by simp
    then show ?thesis using live seg gf(8,9) e unfolding segment_rep_def sel by (auto simp: word_unat_eq_iff split: option.splits)
  qed
  show "f i = SLOT_EMPTY" if "num_slots ?s \<le> i" for i using em that by (simp add: empty_above_def num_slots_def sel)
qed

lemma shrink_single_represents:
  assumes rep: "represents s f" and log: "2 \<le> ss_log_slots s" "ss_log_slots s \<le> 16"
  shows "(\<exists>s'. shrink_single s = Inr s') \<longleftrightarrow> empty_above f (ss_log_slots s - 1) \<and> 0 \<notin> ss_evicted s"
    "shrink_single s = Inr s' \<Longrightarrow> represents s' f \<and> ss_log_slots s' = ss_log_slots s - 1 \<and> ss_evicted s' = {} \<and> ss_dirty s' = {}"
proof -
  obtain d where d: "ss_log_slots s = Suc d" "1 \<le> d" using log(1) by (cases "ss_log_slots s") auto
  note g = representsD(1) [OF rep] and gf = geometry_facts [OF g]
  note e = geometry_small [OF g log(2), unfolded d]
  have beyond: "f i = SLOT_EMPTY" if "2 ^ Suc d \<le> i" for i using representsD(3) [OF rep, of i] that d by (simp add: num_slots_def)
  have ev: "ss_evicted s = {}" if "0 \<notin> ss_evicted s" using evicted_single [OF g e(2)] that by blast
  note fin = shrunk_single_represents [OF rep d log(2)]
  have flush: "flush_all_dirty (mark_dirty 0 u) = Some (mark_dirty 0 u\<lparr>ss_dirty := {}\<rparr>)" if "ss_evicted u = {}" for u
    using that by (simp add: flush_all_dirty_def mark_dirty_def)
  have len: "0 < length (ss_segments s)" "0 < length (ss_live_counts s)" using gf(8,9) e by simp_all
  have "((\<exists>s'. shrink_single s = Inr s') \<longleftrightarrow> empty_above f d \<and> 0 \<notin> ss_evicted s) \<and>
    (\<forall>s'. shrink_single s = Inr s' \<longrightarrow> represents s' f \<and> ss_log_slots s' = d \<and> ss_evicted s' = {} \<and> ss_dirty s' = {})"
  proof (cases "0 \<in> ss_evicted s")
    case True
    then show ?thesis by (simp add: shrink_single_def)
  next
    case nev: False
    show ?thesis
    proof (cases "ss_segments s ! 0")
      case None
      have z: "seg_live f (Suc d) 0 = 0" "ss_live_counts s ! 0 = 0"
        using segment_repD(1,4) [OF rep, of 0] None nev e by (auto simp: word_unat_eq_iff)
      then have all: "f i = SLOT_EMPTY" for i using beyond [of i] unfolding seg_live_0 by (cases "i < 2 ^ Suc d") auto
      then have em: "empty_above f d" by (simp add: empty_above_def)
      have "shrink_single s = Inr (mark_dirty 0 (s\<lparr>ss_live_counts := (ss_live_counts s)[0 := 0], ss_segments := (ss_segments s)[0 := None],
          ss_log_slots := d, ss_effective_log_seg := d\<rparr>)\<lparr>ss_dirty := {}\<rparr>)"
        using None nev d z(2) list_update_id [of "ss_segments s" 0] list_update_id [of "ss_live_counts s" 0]
        by (simp add: shrink_single_def Let_def flush ev [OF nev])
      then show ?thesis using fin [OF em ev [OF nev], of 0 None] em nev ev [OF nev] by (simp add: seg_live_0 all mark_dirty_def)
    next
      case (Some cols)
      let ?cols = "truncate_columns (2 ^ d) cols" let ?live = "count_live ?cols"
      have c: "columns_length cols (2 ^ Suc d)" "\<And>j. j < 2 ^ Suc d \<Longrightarrow> column_slot cols j = f j" using segment_repD(2,3) [OF rep _ Some] e by simp_all
      have "(\<forall>j. 2 ^ d \<le> j \<and> j < 2 ^ Suc d \<longrightarrow> column_slot cols j = SLOT_EMPTY) \<longleftrightarrow> empty_above f d"
        unfolding empty_above_def using c(2) beyond by (metis not_le)
      note em = columns_upper_empty [OF c(1), of "2 ^ d", unfolded this]
      have t: "columns_length ?cols (2 ^ d)" "\<And>j. j < 2 ^ d \<Longrightarrow> column_slot ?cols j = f j"
        using truncate_columns_facts [OF c(1), of "2 ^ d"] c(2) by simp_all
      have live: "unat ?live = seg_live f d 0" by (rule count_live_segment) (use t d log in auto)
      have "shrink_single s = (if \<not> empty_above f d then Inl (ResizeError (NonEmptyUpperHalf 0))
        else Inr (mark_dirty 0 (s\<lparr>ss_live_counts := (ss_live_counts s)[0 := ?live],
          ss_segments := (ss_segments s)[0 := (if ?live = 0 then None else Some ?cols)], ss_log_slots := d, ss_effective_log_seg := d\<rparr>)\<lparr>ss_dirty := {}\<rparr>))"
        unfolding shrink_single_def Let_def d diff_Suc_1 Some option.case em using nev ev [OF nev] by (simp add: d flush)
      then show ?thesis using fin [OF _ ev [OF nev] live, of "if ?live = 0 then None else Some ?cols"] t nev ev [OF nev] by (auto simp: mark_dirty_def split: if_splits)
    qed
  qed
  then show "(\<exists>s'. shrink_single s = Inr s') \<longleftrightarrow> empty_above f (ss_log_slots s - 1) \<and> 0 \<notin> ss_evicted s"
    "shrink_single s = Inr s' \<Longrightarrow> represents s' f \<and> ss_log_slots s' = ss_log_slots s - 1 \<and> ss_evicted s' = {} \<and> ss_dirty s' = {}" using d by simp_all
qed

lemma upper_segments_clear:
  assumes rep: "represents s f" and t: "16 \<le> t" "t \<le> ss_log_slots s"
  shows "(\<forall>k. 2 ^ (t - 16) \<le> k \<and> k < ss_num_segments s \<longrightarrow> of_nat k \<notin> ss_evicted s \<and> ss_live_counts s ! k = 0) \<longleftrightarrow>
    empty_above f t \<and> evicted_within s t" (is "?L \<longleftrightarrow> ?R")
proof -
  note g = representsD(1) [OF rep] and gf = geometry_facts [OF g]
  have e: "ss_effective_log_seg s = 16" using geometry_large [OF g] t by linarith
  let ?m = "(2 :: nat) ^ (t - 16)" let ?n = "ss_num_segments s"
  have m: "?m * 2 ^ 16 = 2 ^ t" using t(1) by (simp only: power_add [symmetric] le_add_diff_inverse2)
  have n: "?n * 2 ^ 16 = num_slots s" using gf(5) e by simp
  have live: "ss_live_counts s ! k = 0 \<longleftrightarrow> (\<forall>j < 2 ^ 16. f (k * 2 ^ 16 + j) = SLOT_EMPTY)" if "k < ?n" for k
    using segment_repD(1) [OF rep that] e seg_live_0 [of f 16 k] by (simp only: word_unat_eq_iff unat_0)
  show ?thesis
  proof
    assume l: ?L
    have "f i = SLOT_EMPTY" if i: "2 ^ t \<le> i" for i
    proof (cases "i < num_slots s")
      case True
      let ?k = "i div 2 ^ 16"
      have "?k < ?n" using True n by (simp only: less_mult_imp_div_less)
      moreover have "?m \<le> ?k" using i m by (metis div_le_mono nonzero_mult_div_cancel_right power_not_zero zero_neq_numeral)
      ultimately have "\<forall>j < 2 ^ 16. f (?k * 2 ^ 16 + j) = SLOT_EMPTY" using l live [of ?k] by blast
      moreover have "i mod 2 ^ 16 < 2 ^ 16" by (rule mod_less_divisor) simp
      ultimately have "f (?k * 2 ^ 16 + i mod 2 ^ 16) = SLOT_EMPTY" by blast
      then show ?thesis by (simp only: div_mult_mod_eq)
    qed (use representsD(3) [OF rep] in auto)
    moreover have "(unat sid + 1) * 2 ^ 16 \<le> 2 ^ t" if "sid \<in> ss_evicted s" for sid
    proof -
      have "unat sid < ?m" using l [rule_format, of "unat sid"] geometry_evicted [OF g that] that unfolding of_nat_unat ucast_id by (meson not_le)
      then have "(unat sid + 1) * 2 ^ 16 \<le> ?m * 2 ^ 16" by (intro mult_le_mono1) simp
      then show ?thesis by (simp only: m)
    qed
    ultimately show ?R by (simp only: empty_above_def evicted_within_def e) blast
  next
    assume r: ?R
    show ?L
    proof (intro allI impI conjI)
      fix k
      assume k: "?m \<le> k \<and> k < ?n"
      then have le: "2 ^ t \<le> k * 2 ^ 16" using mult_le_mono1 [of ?m k "2 ^ 16"] m by linarith
      then show "ss_live_counts s ! k = 0" using r k live [of k] by (auto simp: empty_above_def)
      have "unat (of_nat k :: u16) = k" using k gf(6) by (intro unat_u16_of_nat) linarith
      then show "(of_nat k :: u16) \<notin> ss_evicted s" using r le unfolding evicted_within_def e by fastforce
    qed
  qed
qed

lemma truncate_represents:
  assumes rep: "represents s f" and t: "16 \<le> t" "t \<le> ss_log_slots s" and em: "empty_above f t" and ev: "evicted_within s t"
  shows "represents (truncate_segments (2 ^ (t - 16)) (s\<lparr>ss_log_slots := t\<rparr>)) f" (is "represents ?s f")
    "ss_evicted (truncate_segments (2 ^ (t - 16)) (s\<lparr>ss_log_slots := t\<rparr>)) = ss_evicted s"
proof -
  note g = representsD(1) [OF rep] and gf = geometry_facts [OF g]
  have e: "ss_effective_log_seg s = 16" and num: "ss_num_segments s = 2 ^ (ss_log_slots s - 16)" using geometry_large [OF g] t by linarith+
  let ?m = "(2 :: nat) ^ (t - 16)"
  have m: "?m * 2 ^ 16 = 2 ^ t" using t(1) by (simp only: power_add [symmetric] le_add_diff_inverse2)
  have mn: "?m \<le> ss_num_segments s" unfolding num using t by (intro power_increasing) auto
  have within: "unat sid < ?m" if "sid \<in> ss_evicted s" for sid
  proof -
    have "(unat sid + 1) * 2 ^ 16 \<le> ?m * 2 ^ 16" using ev that unfolding evicted_within_def e m by blast
    then show ?thesis by simp
  qed
  have sel: "ss_log_slots ?s = t" "ss_effective_log_seg ?s = 16" "ss_num_segments ?s = ?m" "ss_live_counts ?s = take ?m (ss_live_counts s)"
    "ss_segments ?s = take ?m (ss_segments s)" "ss_evicted ?s = ss_evicted s"
    using within e by (auto simp: truncate_segments_def retain_below_def)
  then show "ss_evicted ?s = ss_evicted s" by simp
  show "represents ?s f"
  proof (rule representsI)
    have "min t 16 = 16" "1 \<le> t" "t \<le> 32" "length (take ?m (ss_segments s)) = ?m" "length (take ?m (ss_live_counts s)) = ?m" "\<forall>sid \<in> ss_evicted s. unat sid < ?m"
      using t gf(3,8,9) mn within by simp_all
    then show "geometry ?s" unfolding geometry_def sel LOG_SEGMENT_SIZE_def by (simp only:)
    show "segment_rep ?s f k" if "k < ss_num_segments ?s" for k
      using representsD(2) [OF rep, of k] that mn by (subst segment_rep_cong [where s = s and f = f]) (auto simp: sel e)
    show "f i = SLOT_EMPTY" if "num_slots ?s \<le> i" for i using em that by (simp add: empty_above_def num_slots_def sel)
  qed
qed

lemma shrink_half_represents:
  assumes rep: "represents s f" and log: "16 < ss_log_slots s"
  shows "shrink_half s = Inr s' \<longleftrightarrow> empty_above f (ss_log_slots s - 1) \<and> evicted_within s (ss_log_slots s - 1) \<and>
    s' = truncate_segments (2 ^ (ss_log_slots s - 1 - 16)) (s\<lparr>ss_log_slots := ss_log_slots s - 1\<rparr>)"
proof -
  obtain d where d: "ss_log_slots s = Suc d" "16 \<le> d" using log by (cases "ss_log_slots s") auto
  have "ss_num_segments s = 2 ^ (Suc d - 16)" using geometry_large [OF representsD(1) [OF rep]] d by simp
  then have num: "ss_num_segments s div 2 = 2 ^ (d - 16)" unfolding Suc_diff_le [OF d(2)] power_Suc by simp
  have "empty_above f d \<and> evicted_within s d \<longleftrightarrow>
    (\<forall>k. 2 ^ (d - 16) \<le> k \<and> k < ss_num_segments s \<longrightarrow> of_nat k \<notin> ss_evicted s \<and> ss_live_counts s ! k = 0)"
    by (rule upper_segments_clear [OF rep d(2), symmetric]) (use d in simp)
  then show ?thesis unfolding shrink_half_def Let_def num d(1) diff_Suc_1
    by (auto simp: rbind_eq_Inr for_each_eq_Inr)
qed

lemma flush_represents:
  assumes "represents s f"
  shows "represents (s\<lparr>ss_dirty := {}\<rparr>) f"
  by (rule represents_flags [OF assms]) simp_all

lemma shrink_step_eq:
  "shrink_step s = (if ss_dirty s \<inter> ss_evicted s = {}
     then if ss_log_slots s \<le> LOG_SEGMENT_SIZE then shrink_single (s\<lparr>ss_dirty := {}\<rparr>) else shrink_half (s\<lparr>ss_dirty := {}\<rparr>)
     else Inl FlushPanic)"
  by (simp add: shrink_step_def flush_all_dirty_def)

lemma shrink_step_small:
  assumes rep: "represents s f" and log: "2 \<le> ss_log_slots s" "ss_log_slots s \<le> 16" and fl: "ss_dirty s \<inter> ss_evicted s = {}"
  defines "d \<equiv> ss_log_slots s - 1"
  shows "(\<exists>s'. shrink_step s = Inr s') \<longleftrightarrow> empty_above f d \<and> evicted_within s d"
    "shrink_step s = Inr s' \<Longrightarrow> represents s' f \<and> ss_log_slots s' = d \<and> ss_dirty s' = {} \<and> (\<forall>t \<le> d. evicted_within s' t \<longleftrightarrow> evicted_within s t)"
proof -
  let ?s = "s\<lparr>ss_dirty := {}\<rparr>"
  note g = representsD(1) [OF rep]
  note e = geometry_small [OF g log(2)]
  have st: "shrink_step s = shrink_single ?s" using log fl by (simp add: shrink_step_eq LOG_SEGMENT_SIZE_def)
  have sel: "ss_log_slots ?s = ss_log_slots s" "ss_evicted ?s = ss_evicted s" by simp_all
  note sh = shrink_single_represents [OF flush_represents [OF rep], unfolded sel, OF log, folded d_def st]
  have ev: "evicted_within s t \<longleftrightarrow> 0 \<notin> ss_evicted s" if "t \<le> d" for t
  proof -
    have "(2 :: nat) ^ t < 2 ^ ss_log_slots s" using that log by (intro power_strict_increasing) (auto simp: d_def)
    then have "\<not> (unat sid + 1) * 2 ^ ss_log_slots s \<le> 2 ^ t" for sid :: u16 by (simp add: trans_less_add1 not_le)
    moreover have "sid \<in> ss_evicted s \<Longrightarrow> sid = 0" for sid by (rule evicted_single [OF g e(2)])
    ultimately show ?thesis unfolding evicted_within_def e(1) by blast
  qed
  show iff: "(\<exists>s'. shrink_step s = Inr s') \<longleftrightarrow> empty_above f d \<and> evicted_within s d" using sh(1) ev [of d] by blast
  assume a: "shrink_step s = Inr s'"
  have "0 \<notin> ss_evicted s" using sh(1) a by blast
  then have "evicted_within s' t \<longleftrightarrow> evicted_within s t" if "t \<le> d" for t using sh(2) [OF a] ev [OF that] unfolding evicted_within_def by blast
  then show "represents s' f \<and> ss_log_slots s' = d \<and> ss_dirty s' = {} \<and> (\<forall>t \<le> d. evicted_within s' t \<longleftrightarrow> evicted_within s t)"
    using sh(2) [OF a] by blast
qed

lemma shrink_step_large:
  assumes rep: "represents s f" and log: "16 < ss_log_slots s" and fl: "ss_dirty s \<inter> ss_evicted s = {}"
  defines "d \<equiv> ss_log_slots s - 1"
  shows "shrink_step s = Inr s' \<longleftrightarrow> empty_above f d \<and> evicted_within s d \<and>
    s' = truncate_segments (2 ^ (d - 16)) (s\<lparr>ss_dirty := {}, ss_log_slots := d\<rparr>)"
proof -
  let ?s = "s\<lparr>ss_dirty := {}\<rparr>"
  have st: "shrink_step s = shrink_half ?s" using log fl by (simp add: shrink_step_eq LOG_SEGMENT_SIZE_def)
  have sel: "ss_log_slots ?s = ss_log_slots s" "evicted_within ?s d = evicted_within s d" by (simp_all add: evicted_within_def)
  show ?thesis using shrink_half_represents [OF flush_represents [OF rep], unfolded sel(1), OF log, folded d_def] unfolding st sel by blast
qed

lemma truncate_flags:
  "ss_effective_log_seg (truncate_segments k (s\<lparr>ss_dirty := {}, ss_log_slots := d\<rparr>)) = ss_effective_log_seg s"
  "ss_log_slots (truncate_segments k (s\<lparr>ss_dirty := {}, ss_log_slots := d\<rparr>)) = d"
  "ss_dirty (truncate_segments k (s\<lparr>ss_dirty := {}, ss_log_slots := d\<rparr>)) = {}"
  by (simp_all add: truncate_segments_def retain_below_def)

lemma truncate_flushed:
  assumes "represents s f" "16 \<le> t" "t \<le> ss_log_slots s" "empty_above f t" "evicted_within s t"
  shows "represents (truncate_segments (2 ^ (t - 16)) (s\<lparr>ss_dirty := {}, ss_log_slots := t\<rparr>)) f"
    "ss_evicted (truncate_segments (2 ^ (t - 16)) (s\<lparr>ss_dirty := {}, ss_log_slots := t\<rparr>)) = ss_evicted s"
proof -
  let ?s = "s\<lparr>ss_dirty := {}\<rparr>"
  have "t \<le> ss_log_slots ?s" "evicted_within ?s t" using assms(3,5) by (simp_all add: evicted_within_def)
  from truncate_represents [OF flush_represents [OF assms(1)] assms(2) this(1) assms(4) this(2)]
  show "represents (truncate_segments (2 ^ (t - 16)) (s\<lparr>ss_dirty := {}, ss_log_slots := t\<rparr>)) f"
    "ss_evicted (truncate_segments (2 ^ (t - 16)) (s\<lparr>ss_dirty := {}, ss_log_slots := t\<rparr>)) = ss_evicted s" by simp_all
qed

lemma shrink_step_represents:
  assumes rep: "represents s f" and log: "2 \<le> ss_log_slots s" and fl: "ss_dirty s \<inter> ss_evicted s = {}"
  defines "d \<equiv> ss_log_slots s - 1"
  shows "(\<exists>s'. shrink_step s = Inr s') \<longleftrightarrow> empty_above f d \<and> evicted_within s d"
    "shrink_step s = Inr s' \<Longrightarrow> represents s' f \<and> ss_log_slots s' = d \<and> ss_dirty s' = {} \<and> (\<forall>t \<le> d. evicted_within s' t \<longleftrightarrow> evicted_within s t)"
proof -
  have "((\<exists>s'. shrink_step s = Inr s') \<longleftrightarrow> empty_above f d \<and> evicted_within s d) \<and> (\<forall>s'. shrink_step s = Inr s' \<longrightarrow>
    represents s' f \<and> ss_log_slots s' = d \<and> ss_dirty s' = {} \<and> (\<forall>t \<le> d. evicted_within s' t \<longleftrightarrow> evicted_within s t))"
  proof (cases "ss_log_slots s \<le> 16")
    case True
    note sh = shrink_step_small [OF rep log True fl, folded d_def]
    show ?thesis by (intro conjI allI impI sh(1)) (drule sh(2), blast)+
  next
    case False
    then have d: "16 \<le> d" "d \<le> ss_log_slots s" "16 < ss_log_slots s" by (simp_all add: d_def)
    note sh = shrink_step_large [OF rep d(3) fl, folded d_def] and tr = truncate_flushed [OF rep d(1,2)]
    have "evicted_within (truncate_segments (2 ^ (d - 16)) (s\<lparr>ss_dirty := {}, ss_log_slots := d\<rparr>)) t \<longleftrightarrow> evicted_within s t"
      if "empty_above f d" "evicted_within s d" for t using tr(2) [OF that] by (simp only: evicted_within_def truncate_flags)
    then show ?thesis unfolding sh using tr(1) by (auto simp: truncate_flags)
  qed
  then show "(\<exists>s'. shrink_step s = Inr s') \<longleftrightarrow> empty_above f d \<and> evicted_within s d"
    "shrink_step s = Inr s' \<Longrightarrow> represents s' f \<and> ss_log_slots s' = d \<and> ss_dirty s' = {} \<and> (\<forall>t \<le> d. evicted_within s' t \<longleftrightarrow> evicted_within s t)" by blast+
qed

lemma shrink_steps_panic: "ss_dirty s \<inter> ss_evicted s \<noteq> {} \<Longrightarrow> shrink_steps (Suc n) s = Inl FlushPanic"
  by (simp add: shrink_step_eq)

lemma shrink_steps_represents:
  assumes "represents s f" "n < ss_log_slots s" "ss_dirty s \<inter> ss_evicted s = {}"
  shows "((\<exists>s'. shrink_steps n s = Inr s') \<longleftrightarrow> n = 0 \<or> empty_above f (ss_log_slots s - n) \<and> evicted_within s (ss_log_slots s - n)) \<and>
    (\<forall>s'. shrink_steps n s = Inr s' \<longrightarrow> represents s' f \<and> ss_log_slots s' = ss_log_slots s - n)"
  using assms
proof (induction n arbitrary: s)
  case (Suc n)
  let ?d = "ss_log_slots s - 1"
  have log: "2 \<le> ss_log_slots s" using Suc.prems(2) by linarith
  note st = shrink_step_represents [OF Suc.prems(1) log Suc.prems(3)]
  have le: "ss_log_slots s - Suc n \<le> ?d" "ss_log_slots s - Suc n = ?d - n" by simp_all
  show ?case
  proof (cases "shrink_step s")
    case (Inl err)
    then have "\<not> (empty_above f ?d \<and> evicted_within s ?d)" using st(1) by (metis Inl_Inr_False)
    then have "\<not> (empty_above f (ss_log_slots s - Suc n) \<and> evicted_within s (ss_log_slots s - Suc n))"
      using empty_above_mono [OF _ le(1)] evicted_within_mono [OF _ le(1)] by blast
    moreover have "shrink_steps (Suc n) s = Inl err" using Inl by (simp only: shrink_steps.simps rbind_simps)
    ultimately show ?thesis by simp
  next
    case (Inr s1)
    note s1 = st(2) [OF Inr]
    have "n < ss_log_slots s1" "ss_dirty s1 \<inter> ss_evicted s1 = {}" using s1 Suc.prems(2) by auto
    note ih = Suc.IH [OF conjunct1 [OF s1] this]
    have eq: "shrink_steps (Suc n) s = shrink_steps n s1" using Inr by (simp only: shrink_steps.simps rbind_simps)
    have "empty_above f ?d \<and> evicted_within s ?d" using st(1) Inr by blast
    then have "n = 0 \<Longrightarrow> empty_above f (?d - n) \<and> evicted_within s (?d - n)" by simp
    moreover have "evicted_within s1 (?d - n) \<longleftrightarrow> evicted_within s (?d - n)" using s1 diff_le_self by blast
    moreover have "ss_log_slots s1 = ?d" using s1 by blast
    moreover have "Suc n \<noteq> 0" by simp
    ultimately show ?thesis using ih unfolding eq le(2) by (simp only:) blast
  qed
qed simp

lemma shrink_to_represents:
  assumes rep: "represents s f" and t: "1 \<le> t" "t < ss_log_slots s"
  shows "(\<exists>s'. shrink_to_log_slots t s = Inr s') \<longleftrightarrow> ss_dirty s \<inter> ss_evicted s = {} \<and> empty_above f t \<and> evicted_within s t"
    "shrink_to_log_slots t s = Inr s' \<Longrightarrow> represents s' f \<and> ss_log_slots s' = t"
proof -
  obtain n where n: "ss_log_slots s - t = Suc n" "ss_log_slots s - Suc n = t" "Suc n < ss_log_slots s" using t by (cases "ss_log_slots s - t") auto
  have eq: "shrink_to_log_slots t s = shrink_steps (Suc n) s" using t n(1) by (simp add: shrink_to_log_slots_def)
  have "((\<exists>s'. shrink_steps (Suc n) s = Inr s') \<longleftrightarrow> ss_dirty s \<inter> ss_evicted s = {} \<and> empty_above f t \<and> evicted_within s t) \<and>
    (\<forall>s'. shrink_steps (Suc n) s = Inr s' \<longrightarrow> represents s' f \<and> ss_log_slots s' = t)"
  proof (cases "ss_dirty s \<inter> ss_evicted s = {}")
    case True
    then show ?thesis using shrink_steps_represents [OF rep n(3) True, unfolded n(2)] by blast
  qed (simp add: shrink_steps_panic del: shrink_steps.simps)
  then show "(\<exists>s'. shrink_to_log_slots t s = Inr s') \<longleftrightarrow> ss_dirty s \<inter> ss_evicted s = {} \<and> empty_above f t \<and> evicted_within s t"
    "shrink_to_log_slots t s = Inr s' \<Longrightarrow> represents s' f \<and> ss_log_slots s' = t" unfolding eq by blast+
qed

lemma shrink_to_panics:
  assumes "1 \<le> t" "t < ss_log_slots s" "ss_dirty s \<inter> ss_evicted s \<noteq> {}"
  shows "shrink_to_log_slots t s = Inl FlushPanic"
proof -
  obtain n where "ss_log_slots s - t = Suc n" using assms(2) by (cases "ss_log_slots s - t") auto
  then show ?thesis using assms shrink_steps_panic [OF assms(3), of n] by (simp add: shrink_to_log_slots_def del: shrink_steps.simps)
qed

lemma shrink_same: "1 \<le> ss_log_slots s \<Longrightarrow> shrink_to_log_slots (ss_log_slots s) s = Inr s"
  by (simp add: shrink_to_log_slots_def)

lemma truncate_truncate:
  assumes "m \<le> n"
  shows "truncate_segments m (truncate_segments n s\<lparr>ss_dirty := {}, ss_log_slots := t\<rparr>) = truncate_segments m (s\<lparr>ss_dirty := {}, ss_log_slots := t\<rparr>)"
  using assms by (cases s) (auto simp: truncate_segments_def retain_below_def)

lemma shrink_steps_large:
  assumes "represents s f" "16 \<le> ss_log_slots s - Suc n" "ss_dirty s \<inter> ss_evicted s = {}"
  shows "shrink_steps (Suc n) s = Inr s' \<longleftrightarrow> empty_above f (ss_log_slots s - Suc n) \<and> evicted_within s (ss_log_slots s - Suc n) \<and>
    s' = truncate_segments (2 ^ (ss_log_slots s - Suc n - 16)) (s\<lparr>ss_dirty := {}, ss_log_slots := ss_log_slots s - Suc n\<rparr>)"
  using assms
proof (induction n arbitrary: s)
  case 0
  then have "16 < ss_log_slots s" by simp
  then show ?case using shrink_step_large [OF 0(1) _ 0(3), of s'] by (simp add: rbind_eq_Inr)
next
  case (Suc n)
  let ?d = "ss_log_slots s - 1" let ?t = "ss_log_slots s - Suc (Suc n)"
  let ?s1 = "truncate_segments (2 ^ (?d - 16)) (s\<lparr>ss_dirty := {}, ss_log_slots := ?d\<rparr>)"
  have log: "16 < ss_log_slots s" "16 \<le> ?d" "?d \<le> ss_log_slots s" "?t \<le> ?d" using Suc.prems(2) by simp_all
  note large = shrink_step_large [OF Suc.prems(1) log(1) Suc.prems(3)]
  have step: "shrink_steps (Suc (Suc n)) s = rbind (shrink_step s) (shrink_steps (Suc n))" by (rule shrink_steps.simps(2))
  show ?case
  proof (cases "empty_above f ?d \<and> evicted_within s ?d")
    case False
    then have "\<not> (empty_above f ?t \<and> evicted_within s ?t)" using empty_above_mono [OF _ log(4)] evicted_within_mono [OF _ log(4)] by blast
    moreover have "shrink_step s \<noteq> Inr s1" for s1 using False large by blast
    ultimately show ?thesis unfolding step rbind_eq_Inr by blast
  next
    case True
    note tr = truncate_flushed [OF Suc.prems(1) log(2,3) conjunct1 [OF True] conjunct2 [OF True]]
    have half: "shrink_step s = Inr ?s1" using True large by blast
    have t: "?d - Suc n = ?t" by simp
    have fl: "ss_dirty ?s1 \<inter> ss_evicted ?s1 = {}" unfolding truncate_flags by (rule Int_empty_left)
    have ih: "shrink_steps (Suc n) ?s1 = Inr s' \<longleftrightarrow> empty_above f ?t \<and> evicted_within ?s1 ?t \<and>
        s' = truncate_segments (2 ^ (?t - 16)) (?s1\<lparr>ss_dirty := {}, ss_log_slots := ?t\<rparr>)"
      using Suc.IH [OF tr(1) _ fl] Suc.prems(2) unfolding truncate_flags t by blast
    have "evicted_within ?s1 ?t \<longleftrightarrow> evicted_within s ?t" unfolding evicted_within_def truncate_flags tr(2) ..
    moreover have "truncate_segments (2 ^ (?t - 16)) (?s1\<lparr>ss_dirty := {}, ss_log_slots := ?t\<rparr>) =
        truncate_segments (2 ^ (?t - 16)) (s\<lparr>ss_dirty := {}, ss_log_slots := ?t\<rparr>)"
      by (subst truncate_truncate) (use log(4) in \<open>auto intro: power_increasing diff_le_mono\<close>)
    ultimately show ?thesis unfolding step half rbind_simps ih by (simp only:)
  qed
qed

lemma resident_count_zero:
  assumes "represents s f" "k < ss_num_segments s" "of_nat k \<notin> ss_evicted s"
  shows "ss_live_counts s ! k = 0 \<and> ss_segments s ! k = None \<longleftrightarrow> ss_live_counts s ! k = 0"
proof -
  have "ss_segments s ! k = None" if "ss_live_counts s ! k = 0"
  proof (cases "ss_segments s ! k")
    case (Some cols)
    then show ?thesis using segment_repD(1,6) [OF assms(1,2)] that by simp
  qed
  then show ?thesis by blast
qed

lemma shrink_exact_is_shrink:
  assumes rep: "represents s f" and t: "16 \<le> t" "t < ss_log_slots s"
  shows "shrink_exact_metadata_to_log_slots t s = Inr s' \<longleftrightarrow>
      empty_above f t \<and> evicted_within s t \<and> s' = truncate_segments (2 ^ (t - 16)) (s\<lparr>ss_log_slots := t\<rparr>)"
    "shrink_to_log_slots t s = Inr s' \<longleftrightarrow> ss_dirty s \<inter> ss_evicted s = {} \<and>
      (\<exists>s1. shrink_exact_metadata_to_log_slots t s = Inr s1 \<and> s' = s1\<lparr>ss_dirty := {}\<rparr>)"
proof -
  obtain n where n: "ss_log_slots s - t = Suc n" "ss_log_slots s - Suc n = t" using t(2) by (cases "ss_log_slots s - t") auto
  have e: "ss_effective_log_seg s = 16" using geometry_large [OF representsD(1) [OF rep]] t by linarith
  let ?R = "\<lambda>k. of_nat k \<notin> ss_evicted s \<and> ss_live_counts s ! k = 0 \<and> ss_segments s ! k = None"
  let ?r = "truncate_segments (2 ^ (t - 16)) (s\<lparr>ss_log_slots := t\<rparr>)"
  have le: "t \<le> ss_log_slots s" using t(2) by simp
  have ex: "shrink_exact_metadata_to_log_slots t s = Inr s' \<longleftrightarrow> empty_above f t \<and> evicted_within s t \<and> s' = ?r" for s'
  proof -
    have "shrink_exact_metadata_to_log_slots t s = Inr s' \<longleftrightarrow> (\<forall>k. 2 ^ (t - 16) \<le> k \<and> k < ss_num_segments s \<longrightarrow> ?R k) \<and> s' = ?r"
      using t e unfolding shrink_exact_metadata_to_log_slots_def Let_def LOG_SEGMENT_SIZE_def
      by (auto simp: rbind_eq_Inr for_each_eq_Inr)
    also have "(\<forall>k. 2 ^ (t - 16) \<le> k \<and> k < ss_num_segments s \<longrightarrow> ?R k) \<longleftrightarrow>
      (\<forall>k. 2 ^ (t - 16) \<le> k \<and> k < ss_num_segments s \<longrightarrow> of_nat k \<notin> ss_evicted s \<and> ss_live_counts s ! k = 0)"
      using resident_count_zero [OF rep] by blast
    also have "\<dots> \<longleftrightarrow> empty_above f t \<and> evicted_within s t" by (rule upper_segments_clear [OF rep t(1) le])
    finally show ?thesis by simp
  qed
  then show "shrink_exact_metadata_to_log_slots t s = Inr s' \<longleftrightarrow> empty_above f t \<and> evicted_within s t \<and> s' = ?r" .
  have to: "shrink_to_log_slots t s = shrink_steps (Suc n) s" using t n(1) by (simp add: shrink_to_log_slots_def)
  have flag: "truncate_segments k (s\<lparr>ss_dirty := {}, ss_log_slots := t\<rparr>) = truncate_segments k (s\<lparr>ss_log_slots := t\<rparr>)\<lparr>ss_dirty := {}\<rparr>" for k
    by (cases s) (simp add: truncate_segments_def retain_below_def)
  show "shrink_to_log_slots t s = Inr s' \<longleftrightarrow> ss_dirty s \<inter> ss_evicted s = {} \<and>
      (\<exists>s1. shrink_exact_metadata_to_log_slots t s = Inr s1 \<and> s' = s1\<lparr>ss_dirty := {}\<rparr>)"
  proof (cases "ss_dirty s \<inter> ss_evicted s = {}")
    case True
    then show ?thesis using shrink_steps_large [OF rep, of n s', unfolded n(2), OF t(1) True] unfolding to ex flag by blast
  qed (simp add: to shrink_steps_panic del: shrink_steps.simps)
qed

lemma apply_delta_resident:
  assumes "represents s f" "apply_delta_in_place s deltas = Inr s'" "\<forall>d \<in> set deltas. resident s (unat (fst d))"
  shows "represents s' (write_all f deltas)" "ss_evicted s' = ss_evicted s" "ss_log_slots s' = ss_log_slots s"
    "ss_effective_log_seg s' = ss_effective_log_seg s"
proof -
  have "\<not> (\<exists>d \<in> set deltas. num_slots s \<le> unat (fst d))" using assms(2) apply_delta_rejects [of deltas s] by auto
  then have "\<forall>d \<in> set deltas. unat (fst d) < num_slots s \<and> resident s (unat (fst d))" using assms(3) by (meson not_le)
  from apply_delta_represents [OF assms(1) this] assms(2)
  show "represents s' (write_all f deltas)" "ss_evicted s' = ss_evicted s" "ss_log_slots s' = ss_log_slots s"
    "ss_effective_log_seg s' = ss_effective_log_seg s" by auto
qed

lemma shrink_success:
  assumes rep: "represents s f" and "shrink_to_log_slots t s = Inr s'"
  shows "represents s' f" "ss_log_slots s' = t"
proof -
  have t: "1 \<le> t" "t \<le> ss_log_slots s" using assms(2) by (auto simp: shrink_to_log_slots_def split: if_splits)
  have "represents s' f \<and> ss_log_slots s' = t"
  proof (cases "t = ss_log_slots s")
    case True
    then show ?thesis using rep t assms(2) shrink_same [of s] by simp
  next
    case False
    then have "t < ss_log_slots s" using t by simp
    then show ?thesis using shrink_to_represents(2) [OF rep t(1) _ assms(2)] by blast
  qed
  then show "represents s' f" "ss_log_slots s' = t" by blast+
qed

lemma shrink_exact_success:
  assumes rep: "represents s f" and sh: "shrink_exact_metadata_to_log_slots t s = Inr s'"
  shows "represents s' f" "ss_log_slots s' = t"
proof -
  have "represents s' f \<and> ss_log_slots s' = t"
  proof (cases "t = ss_log_slots s")
    case True
    then show ?thesis using rep sh by (simp add: shrink_exact_metadata_to_log_slots_def)
  next
    case False
    then have t: "16 \<le> t" "t < ss_log_slots s" using sh by (auto simp: shrink_exact_metadata_to_log_slots_def LOG_SEGMENT_SIZE_def split: if_splits)
    then have "empty_above f t" "evicted_within s t" and s': "s' = truncate_segments (2 ^ (t - 16)) (s\<lparr>ss_log_slots := t\<rparr>)"
      using shrink_exact_is_shrink(1) [OF rep t] sh by blast+
    then have "represents s' f" unfolding s' using truncate_represents(1) [OF rep t(1) less_imp_le [OF t(2)]] by blast
    then show ?thesis by (simp add: s' truncate_segments_def)
  qed
  then show "represents s' f" "ss_log_slots s' = t" by blast+
qed

text \<open>Evicting a selection of the segments one by one.\<close>

lemma evict_selected_represents:
  assumes "represents s f" "\<forall>sid \<in> set sids. sid < ss_num_segments s"
  shows "represents (foldl (\<lambda>s sid. if ss_segments s ! sid \<noteq> None \<and> P s sid
    then s\<lparr>ss_segments := (ss_segments s)[sid := None], ss_evicted := insert (of_nat sid) (ss_evicted s)\<rparr> else s) s sids) f"
  using assms
proof (induction sids arbitrary: s)
  case (Cons sid sids)
  let ?s = "if ss_segments s ! sid \<noteq> None \<and> P s sid
    then s\<lparr>ss_segments := (ss_segments s)[sid := None], ss_evicted := insert (of_nat sid) (ss_evicted s)\<rparr> else s"
  have k: "sid < ss_num_segments s" using Cons.prems(2) by simp
  then have u: "unat (of_nat sid :: u16) = sid" using geometry_facts(6) [OF representsD(1) [OF Cons.prems(1)]] by (intro unat_u16_of_nat) linarith
  then have alt: "?s = s \<or> ?s = evict_segment (of_nat sid) s" by (simp add: evict_segment_def)
  have "represents (evict_segment (of_nat sid) s) f" by (rule evict_segment_represents [OF Cons.prems(1)]) (simp only: u k)
  then have "represents ?s f" using alt Cons.prems(1) by (elim disjE) (simp_all only:)
  moreover have "\<forall>sid \<in> set sids. sid < ss_num_segments ?s" using Cons.prems(2) by simp
  ultimately show ?case unfolding foldl_Cons by (rule Cons.IH)
qed simp

lemma dropped_segment_represents:
  assumes rep: "represents s f" and k: "unat sid < ss_num_segments s" and live: "unat live = seg_live g (ss_effective_log_seg s) (unat sid)"
    and g: "\<And>i. i div 2 ^ ss_effective_log_seg s \<noteq> unat sid \<Longrightarrow> g i = f i"
    and sel: "ss_segments s' = (ss_segments s)[unat sid := None]" "ss_live_counts s' = (ss_live_counts s)[unat sid := live]"
      "ss_log_slots s' = ss_log_slots s" "ss_effective_log_seg s' = ss_effective_log_seg s" "ss_num_segments s' = ss_num_segments s"
    and ev: "\<And>i. i \<noteq> sid \<Longrightarrow> i \<in> ss_evicted s' \<longleftrightarrow> i \<in> ss_evicted s" "sid \<in> ss_evicted s' \<or> live = 0"
  shows "represents s' g"
proof (rule representsI)
  note geo = representsD(1) [OF rep] and gf = geometry_facts [OF geo]
  have "\<forall>i \<in> ss_evicted s'. unat i < ss_num_segments s" using geometry_evicted [OF geo] ev(1) k by metis
  then show "geometry s'" using geo unfolding geometry_def sel length_list_update by blast
  show "segment_rep s' g j" if j: "j < ss_num_segments s'" for j
  proof (cases "j = unat sid")
    case False
    then have "(of_nat j :: u16) \<noteq> sid" using of_nat_u16_inject [OF geo _ k, of j] j by (simp add: sel)
    then show ?thesis using representsD(2) [OF rep, of j] j False ev(1) g
      by (subst segment_rep_cong [where s = s and f = f]) (auto simp: sel)
  next
    case True
    then show ?thesis using live ev(2) k gf(8,9) by (auto simp: segment_rep_def sel)
  qed
  show "g i = SLOT_EMPTY" if i: "num_slots s' \<le> i" for i
  proof -
    have "num_slots s' = num_slots s" by (simp add: num_slots_def sel)
    then have "ss_num_segments s * 2 ^ ss_effective_log_seg s \<le> i" using i gf(5) by simp
    then have "ss_num_segments s \<le> i div 2 ^ ss_effective_log_seg s" by (simp add: less_eq_div_iff_mult_less_eq)
    then have "g i = f i" using k by (intro g) simp
    then show ?thesis using representsD(3) [OF rep, of i] i \<open>num_slots s' = num_slots s\<close> by simp
  qed
qed

lemma store_reach_represents: "store_reach s f \<Longrightarrow> represents s f"
proof (induction rule: store_reach.induct)
  case (start log_slots s)
  then have "1 \<le> log_slots" by (auto simp: new_empty_def split: if_splits)
  then obtain s' where "new_empty log_slots = Some s'" "represents s' (\<lambda>_. SLOT_EMPTY)" by (rule new_empty_represents [OF _ start(2)])
  then show ?case using start(1) by simp
next
  case (written s f deltas s')
  then show ?case by (intro apply_delta_resident(1))
next
  case (evict s f sid)
  then show ?case by (intro evict_segment_represents)
next
  case (evict_clean s f)
  show ?case unfolding evict_clean_segments_def by (rule evict_selected_represents [OF evict_clean.IH]) simp
next
  case (evict_all s f s')
  then show ?case unfolding evict_all_persisted_segments_def
    using evict_selected_represents [OF evict_all.IH, of "[0..<ss_num_segments s]" "\<lambda>s sid. ss_live_counts s ! sid \<noteq> 0"]
    by (simp split: if_splits)
next
  case (restore s f sid cols)
  then show ?case unfolding segment_slot_count_def
    by (intro restore_represents(1)) (auto intro: geometry_evicted dest: representsD(1))
next
  case (installed s f sid live s' g)
  then have "unat sid < ss_num_segments s" by (auto simp: install_evicted_exact_summary_def split: if_splits)
  then show ?case using installed
    by (intro dropped_segment_represents [OF installed.IH _ installed.hyps(3,4), where s' = s'])
      (auto simp: install_evicted_exact_summary_def split: if_splits)
next
  case (install_finished s f)
  show ?case by (rule represents_flags [OF install_finished.IH]) (simp_all add: finish_evicted_exact_summaries_def)
next
  case (summary_restored s f sid root s')
  then have k: "unat sid < ss_num_segments s" by (auto simp: restore_persisted_segment_summary_and_evict_def split: if_splits)
  have "ss_live_counts s' = (ss_live_counts s)[unat sid := ss_live_counts s ! unat sid]"
    using summary_restored.hyps(2) by (auto simp: restore_persisted_segment_summary_and_evict_def Let_def split: if_splits)
  then show ?case using summary_restored.hyps(2)
    by (intro dropped_segment_represents [OF summary_restored.IH k segment_repD(1) [OF summary_restored.IH k], where s' = s'])
      (auto simp: restore_persisted_segment_summary_and_evict_def Let_def split: if_splits)
next
  case (cleared s f)
  show ?case by (rule represents_flags [OF cleared.IH]) (simp_all add: clear_dirty_def)
next
  case (exact_cleared s f)
  show ?case by (rule represents_flags [OF exact_cleared.IH]) (simp_all add: clear_exact_dirty_def)
next
  case (grow s f s')
  show ?case by (rule expand_represents(1) [OF grow.IH grow.hyps(2,3)])
next
  case (grow_metadata s f s')
  then show ?case using expand_exact_metadata_is_expand [OF grow_metadata.IH] expand_large [OF grow_metadata.IH] by (auto split: if_splits)
next
  case (shrink s f t s')
  show ?case by (rule shrink_success(1) [OF shrink.IH shrink.hyps(2)])
next
  case (shrink_metadata s f t s')
  show ?case by (rule shrink_exact_success(1) [OF shrink_metadata.IH shrink_metadata.hyps(2)])
qed

section \<open>Properties\<close>

text \<open>C11: Every store that writes, evictions, restorations, growth and shrinking lead to represents the slot map of its writes. A
  slot outside the evicted segments reads as its last written value. The live count of every segment, evicted or not, is the number
  of its nonempty slots, and the exact root of a segment in memory is the root of the tree over its slots.\<close>

theorem store_refines_slot_map:
  assumes "store_reach s f"
  shows "(\<forall>idx. unat idx < num_slots s \<and> resident s (unat idx) \<longrightarrow> slot s idx = f (unat idx)) \<and>
    (\<forall>sid. unat sid < ss_num_segments s \<longrightarrow>
       unat (segment_live_count s sid) = seg_live f (ss_effective_log_seg s) (unat sid) \<and>
       (\<not> is_evicted s sid \<longrightarrow>
          exact_segment_root perm s sid = Inr (Some (tree_node perm (slot_hashes perm f) (ss_effective_log_seg s) (unat sid)))))"
proof -
  note rep = store_reach_represents [OF assms]
  have "length (ss_live_counts s) = ss_num_segments s" by (rule geometry_facts(9) [OF representsD(1) [OF rep]])
  then show ?thesis
    using slot_represents [OF rep] segment_repD(1) [OF rep] exact_segment_root_represents [OF rep]
    by (simp add: segment_live_count_def is_evicted_def)
qed

lemma sample_store_reach: "store_reach (write_slot sample_store (1, sample_slot)) (write_all (\<lambda>_. SLOT_EMPTY) [(1, sample_slot)])"
proof -
  have new: "new_empty 2 = Some sample_store" by (simp add: sample_store_def new_empty_def Let_def)
  have s: "store_reach sample_store (\<lambda>_. SLOT_EMPTY)" by (rule store_reach.start [OF new]) simp
  have log: "ss_log_slots sample_store = 2" "ss_evicted sample_store = {}" by (simp_all add: sample_store_def new_empty_def Let_def)
  have "apply_delta_in_place sample_store [(1, sample_slot)] = Inr (write_slot sample_store (1, sample_slot))"
    by (simp add: apply_delta_in_place_def num_slots_def log)
  then show ?thesis by (rule store_reach.written [OF s]) (simp add: resident_def log)
qed

theorem store_refines_slot_map_witness: "slot (write_slot sample_store (1, sample_slot)) 1 = sample_slot"
proof -
  let ?s = "write_slot sample_store (1, sample_slot)"
  have "ss_log_slots ?s = 2 \<and> ss_evicted ?s = {}"
    by (simp add: sample_store_def new_empty_def LOG_SEGMENT_SIZE_def write_slot_def seg_id_of_def slot_def mark_dirty_def Let_def
        slot_is_empty_def sample_slot_def SLOT_EMPTY_def saturating_add_def)
  then show ?thesis
    using store_refines_slot_map [OF sample_store_reach, of no_permutation] by (simp add: num_slots_def resident_def)
qed

text \<open>C40: A store shrinks to a smaller slot domain exactly when every slot above the new bound is empty, no evicted segment reaches
  above it and no evicted segment has a stale commitment, and it then holds the same slots. The variant for replay, which checks all
  upper segments at once and flushes nothing, gives the same store as the repeated halving up to the stale commitments. With a stale
  commitment of an evicted segment, as every live segment has after a start from exact summaries, the ordinary shrink panics.\<close>

theorem shrink_exactly_when_clear:
  assumes "represents s f" "1 \<le> t" "t < ss_log_slots s"
  shows "((\<exists>s'. shrink_to_log_slots t s = Inr s') \<longleftrightarrow> ss_dirty s \<inter> ss_evicted s = {} \<and> empty_above f t \<and> evicted_within s t) \<and>
    (\<forall>s'. shrink_to_log_slots t s = Inr s' \<longrightarrow> represents s' f \<and> ss_log_slots s' = t) \<and>
    (LOG_SEGMENT_SIZE \<le> t \<longrightarrow> (\<forall>s'. shrink_to_log_slots t s = Inr s' \<longleftrightarrow> ss_dirty s \<inter> ss_evicted s = {} \<and>
      (\<exists>s1. shrink_exact_metadata_to_log_slots t s = Inr s1 \<and> s' = s1\<lparr>ss_dirty := {}\<rparr>))) \<and>
    (ss_dirty s \<inter> ss_evicted s \<noteq> {} \<longrightarrow> shrink_to_log_slots t s = Inl FlushPanic)"
  using shrink_to_panics [OF assms(2,3)] shrink_to_represents [OF assms] shrink_exact_is_shrink(2) [OF assms(1) _ assms(3)] unfolding LOG_SEGMENT_SIZE_def by blast

theorem shrink_exactly_when_clear_witness: "\<exists>s'. shrink_to_log_slots 1 sample_store = Inr s' \<and> ss_log_slots s' = 1"
proof -
  have log: "ss_log_slots sample_store = 2" "ss_evicted sample_store = {}" by (simp_all add: sample_store_def new_empty_def Let_def)
  have "new_empty 2 = Some sample_store" by (simp add: sample_store_def new_empty_def Let_def)
  then have "store_reach sample_store (\<lambda>_. SLOT_EMPTY)" by (rule store_reach.start) simp
  then have rep: "represents sample_store (\<lambda>_. SLOT_EMPTY)" by (rule store_reach_represents)
  show ?thesis
    using shrink_exactly_when_clear [OF rep, of 1] log by (auto simp: empty_above_def evicted_within_def)
qed

end
