(* ===== verification/ChainState.thy ===== *)
theory ChainState
imports HeaderChain Segments
begin

section \<open>The chain state and its transitions\<close>

text \<open>
  The chain state of \<open>noid_chain/src/state.rs\<close>: the slot store with its exact root, the occupancy and allocation counters and the
  circulating supply; the application of a transaction, the refresh of the exact root, growth of the slot domain, and the
  authenticated restoration of an evicted segment.

  A panic is the failure \<open>Panicked\<close>. Hash sets are sets; where the code iterates over one, the iteration order is the argument
  \<open>iter\<close>. Where the code prefers a cached array tree, the model takes the branch of a cache miss and hashes the columns; theory
  \<open>ExactRoots\<close> shows that both give the same root.

  The theorems on applied transactions assume \<open>real_claims\<close>: no live input claims an output that equals the empty slot, with amount,
  creation id and owner all zero. The code compares the claim with the slot and would let such a claim match an empty slot.

  The theorems show that an applied transaction changes exactly the slots it names, that occupancy and supply keep counting the live
  slots and their amounts, that over a sequence of transactions the supply follows the coinbases and the fees, that a spent output
  never returns, and that the refreshed root is the root of the tree over all slots.
\<close>

subsection \<open>Creation ids\<close>

text \<open>The activation height depends on a build feature. The model is the default build, without the feature
  \<open>isolated-v2-1-fork-testnet\<close>; no proof uses the value.\<close>

definition ISOLATED_V2_1_FORK_TESTNET :: bool where "ISOLATED_V2_1_FORK_TESTNET = False"

definition V2_1_ACTIVATION_HEIGHT :: "u64 option" where
  "V2_1_ACTIVATION_HEIGHT = (if ISOLATED_V2_1_FORK_TESTNET then Some 24 else Some 279370)"

definition v2_1_active :: "u64 \<Rightarrow> bool" where
  "v2_1_active height = (case V2_1_ACTIVATION_HEIGHT of Some activation \<Rightarrow> height \<ge> activation | None \<Rightarrow> False)"

definition COINBASE_CREATION_TAG :: u64 where "COINBASE_CREATION_TAG = push_bit 63 1"
definition NATIVE_CREATION_TAG :: u64 where "NATIVE_CREATION_TAG = push_bit 62 1"
definition NATIVE_SEQUENCE_MAX :: u64 where "NATIVE_SEQUENCE_MAX = NATIVE_CREATION_TAG - 1"

definition is_coinbase_creation_id :: "u64 \<Rightarrow> bool" where
  "is_coinbase_creation_id creation_id \<longleftrightarrow> and creation_id COINBASE_CREATION_TAG \<noteq> 0"

definition coinbase_creation_id :: "u64 \<Rightarrow> u64" where
  "coinbase_creation_id height = or COINBASE_CREATION_TAG height"

definition coinbase_creation_height :: "u64 \<Rightarrow> u64" where
  "coinbase_creation_height creation_id = and creation_id (not COINBASE_CREATION_TAG)"

definition creation_id_within_boundary :: "u64 \<Rightarrow> u64 \<Rightarrow> u64 \<Rightarrow> bool" where
  "creation_id_within_boundary creation_id alloc_counter height =
     (if is_coinbase_creation_id creation_id then coinbase_creation_height creation_id \<le> height
      else if v2_1_active height \<and> and creation_id NATIVE_CREATION_TAG \<noteq> 0 then
        let sequence = and creation_id NATIVE_SEQUENCE_MAX in sequence \<noteq> 0 \<and> sequence \<le> alloc_counter
      else creation_id \<le> alloc_counter)"

subsection \<open>State\<close>

datatype 'e failure = Failed 'e | Panicked

record chain_state =
  cs_state :: segmented
  cs_utxo_root :: digest
  cs_active_slot_count :: u64
  cs_alloc_counter :: u64
  cs_circulating_supply :: u128
  cs_exact_roots :: root_cache

definition with_log_slots :: "permutation \<Rightarrow> nat \<Rightarrow> chain_state option" where
  "with_log_slots perm log_slots =
     map_option (\<lambda>state. \<lparr>cs_state = state, cs_utxo_root = zero_slot_roots perm log_slots ! log_slots, cs_active_slot_count = 0,
       cs_alloc_counter = 0, cs_circulating_supply = 0, cs_exact_roots = root_cache_empty perm log_slots\<rparr>) (new_empty log_slots)"

text \<open>The entries of an ordered map after inserting the updates in turn.\<close>

definition canonical_updates :: "('k :: linorder \<times> 'v) list \<Rightarrow> ('k \<times> 'v) list" where
  "canonical_updates updates = map (\<lambda>k. (k, the (map_of (rev updates) k))) (sort (remdups (map fst updates)))"

definition supply_step :: "segmented \<Rightarrow> u128 \<Rightarrow> u32 \<times> slot_value \<Rightarrow> unit + u128" where
  "supply_step state supply = (\<lambda>(slot_index, value).
     rbind (if unat slot_index < num_slots state then
              if is_evicted state (ucast (drop_bit (ss_effective_log_seg state) slot_index)) then Inl ()
              else Inr (slot state slot_index)
            else Inr SLOT_EMPTY) (\<lambda>previous.
     rbind (ok_or () (checked_sub supply (ucast (slot_amount previous)))) (\<lambda>supply.
     ok_or () (checked_add supply (ucast (slot_amount value))))))"

definition supply_after_slot_updates :: "chain_state \<Rightarrow> (u32 \<times> slot_value) list \<Rightarrow> unit + u128" where
  "supply_after_slot_updates cs slot_updates =
     rfold (supply_step (cs_state cs)) (cs_circulating_supply cs) (canonical_updates slot_updates)"

definition chain_expand_one :: "permutation \<Rightarrow> chain_state \<Rightarrow> chain_state option" where
  "chain_expand_one perm cs =
     (let old_log_slots = ss_log_slots (cs_state cs);
          exact_cache_was_current =
            ss_exact_dirty (cs_state cs) = {} \<and> rc_log_slots (cs_exact_roots cs) = old_log_slots \<and> rc_root (cs_exact_roots cs) = cs_utxo_root cs;
          empty_right = zero_slot_roots perm old_log_slots ! old_log_slots
      in map_option (\<lambda>state.
           let cs = cs\<lparr>cs_state := state, cs_exact_roots := rc_expand_one perm (cs_exact_roots cs),
                       cs_utxo_root := state_node_hash perm (cs_utxo_root cs) empty_right\<rparr>
           in if exact_cache_was_current then cs\<lparr>cs_state := clear_exact_dirty (cs_state cs)\<rparr> else cs) (expand (cs_state cs)))"

definition chain_expand_exact_metadata :: "permutation \<Rightarrow> chain_state \<Rightarrow> state_resize_error + chain_state" where
  "chain_expand_exact_metadata perm cs =
     (let old_log_slots = ss_log_slots (cs_state cs); empty_right = zero_slot_roots perm old_log_slots ! old_log_slots in
      rbind (expand_exact_metadata_for_replay (cs_state cs)) (\<lambda>state.
      Inr (cs\<lparr>cs_state := state, cs_exact_roots := rc_expand_one perm (cs_exact_roots cs),
              cs_utxo_root := state_node_hash perm (cs_utxo_root cs) empty_right\<rparr>)))"

definition align_roots :: "permutation \<Rightarrow> nat \<Rightarrow> root_cache \<Rightarrow> root_cache" where
  "align_roots perm log_slots roots =
     (let roots = (rc_expand_one perm ^^ (log_slots - rc_log_slots roots)) roots
      in if rc_log_slots roots > log_slots then rc_shrink_to perm log_slots roots else roots)"

definition refresh_segment :: "permutation \<Rightarrow> segmented \<Rightarrow> root_cache \<Rightarrow> u16 \<Rightarrow> exact_state_read_error failure + root_cache" where
  "refresh_segment perm state roots segment_id =
     (if is_evicted state segment_id then Inl (Failed (EvictedSegment segment_id))
      else case exact_segment_root perm state segment_id of
          Inl err \<Rightarrow> Inl (Failed err)
        | Inr None \<Rightarrow> Inl Panicked
        | Inr (Some root) \<Rightarrow> Inr (set_segment_root perm segment_id root roots))"

definition try_state_root ::
  "permutation \<Rightarrow> (u16 set \<Rightarrow> u16 list) \<Rightarrow> chain_state \<Rightarrow> exact_state_read_error failure + digest \<times> chain_state" where
  "try_state_root perm iter cs =
     (let state = cs_state cs; roots = align_roots perm (ss_log_slots state) (cs_exact_roots cs) in
      rbind (rfold (refresh_segment perm state) roots (iter (ss_exact_dirty state))) (\<lambda>roots.
      Inr (rc_root roots, cs\<lparr>cs_state := clear_exact_dirty state, cs_exact_roots := roots, cs_utxo_root := rc_root roots\<rparr>)))"

definition chain_restore_evicted_segment ::
  "permutation \<Rightarrow> u16 \<Rightarrow> segment_columns \<Rightarrow> chain_state \<Rightarrow> exact_state_read_error failure + chain_state" where
  "chain_restore_evicted_segment perm segment_id columns cs =
     (let state = cs_state cs; expected_len = 2 ^ ss_effective_log_seg state; mismatch = Failed (SegmentRootMismatch segment_id) in
      if length (sg_values columns) \<noteq> expected_len \<or> length (sg_owners_hi columns) \<noteq> expected_len \<or> length (sg_owners_lo columns) \<noteq> expected_len
      then Inl mismatch
      else
        let actual_live = length (filter (\<lambda>local. \<not> slot_is_empty (column_slot columns local)) [0..<expected_len]) in
        if unat (segment_live_count state segment_id) \<noteq> actual_live then Inl mismatch
        else case from_columns perm (ss_effective_log_seg state) columns of
            None \<Rightarrow> Inl Panicked
          | Some tree \<Rightarrow>
              let roots = rc_segment_roots (cs_exact_roots cs) in
              if unat segment_id < length roots \<and> roots ! unat segment_id = tree_root tree
              then Inr (cs\<lparr>cs_state := restore_evicted_segment segment_id columns state\<rparr>) else Inl mismatch)"

subsection \<open>Applying a transaction\<close>

datatype apply_error =
    TxSlotOutOfRange
  | UnknownOrSpentInput
  | NativeInputRequiresNativeOperation
  | OutputSlotNotEmpty
  | TxDuplicateOutputSlot
  | TxInputOutputSlotOverlap
  | ActiveSlotCountUnderflow
  | ActiveSlotCountOverflow
  | AllocCounterOverflow
  | CoinbaseMintHeightMissing
  | ExactStateUnavailable
  | CirculatingSupplyInvariant

definition collect_input_slots :: "bool \<Rightarrow> tx_body \<Rightarrow> apply_error + u32 set" where
  "collect_input_slots native_active body =
     rfold (\<lambda>input_slots (_, input).
       if native_active \<and> and (in_creation_id input) (push_bit 62 3) = NATIVE_CREATION_TAG then Inl NativeInputRequiresNativeOperation
       else if in_slot_index input \<in> input_slots then Inl UnknownOrSpentInput
       else Inr (insert (in_slot_index input) input_slots)) {} (live_inputs body)"

definition collect_output_slots :: "u32 set \<Rightarrow> tx_body \<Rightarrow> apply_error + u32 set" where
  "collect_output_slots input_slots body =
     rfold (\<lambda>seen (_, output).
       if out_slot_index output \<in> seen then Inl TxDuplicateOutputSlot
       else if out_slot_index output \<in> input_slots then Inl TxInputOutputSlotOverlap
       else Inr (insert (out_slot_index output) seen)) {} (live_outputs body)"

definition spend_delta :: "segmented \<Rightarrow> tx_body \<Rightarrow> nat \<times> tx_input \<Rightarrow> apply_error + u32 \<times> slot_value" where
  "spend_delta state body = (\<lambda>(_, input).
     let slot_index = in_slot_index input in
     if unat slot_index \<ge> num_slots state then Inl TxSlotOutOfRange
     else if is_evicted state (ucast (drop_bit (ss_effective_log_seg state) slot_index)) then Inl ExactStateUnavailable
     else if slot state slot_index \<noteq> slot_with_owner_fields (in_amount input) (in_creation_id input) (digest_fields (tx_input_owner body))
     then Inl UnknownOrSpentInput
     else Inr (slot_index, SLOT_EMPTY))"

definition mint_delta ::
  "segmented \<Rightarrow> tx_body \<Rightarrow> u64 option \<Rightarrow> u64 \<times> (u32 \<times> slot_value) list \<Rightarrow> nat \<times> tx_output \<Rightarrow> apply_error + u64 \<times> (u32 \<times> slot_value) list" where
  "mint_delta state body mint_height = (\<lambda>(alloc_cursor, deltas) (_, output).
     let slot_index = out_slot_index output in
     if unat slot_index \<ge> num_slots state then Inl TxSlotOutOfRange
     else if is_evicted state (ucast (drop_bit (ss_effective_log_seg state) slot_index)) then Inl ExactStateUnavailable
     else if slot state slot_index \<noteq> SLOT_EMPTY then Inl OutputSlotNotEmpty
     else
       rbind (ok_or AllocCounterOverflow (checked_add alloc_cursor 1)) (\<lambda>alloc_cursor.
       rbind (if is_primary_coinbase_shape body then map_sum id coinbase_creation_id (ok_or CoinbaseMintHeightMissing mint_height)
              else Inr alloc_cursor) (\<lambda>creation_id.
       Inr (alloc_cursor, deltas @ [(slot_index, slot_with_owner_fields (out_amount output) creation_id (digest_fields (out_owner output)))]))))"

definition apply_tx_checked_deferred_root :: "tx_body \<Rightarrow> u64 option \<Rightarrow> chain_state \<Rightarrow> apply_error failure + chain_state" where
  "apply_tx_checked_deferred_root body coinbase_mint_height cs =
     (let state = cs_state cs;
          native_active = (case coinbase_mint_height of Some height \<Rightarrow> v2_1_active height | None \<Rightarrow> False);
          input_count = of_nat (live_input_count body); output_count = of_nat (live_output_count body)
      in
      if tx_is_coinbase body \<and> coinbase_mint_height = None then Inl (Failed CoinbaseMintHeightMissing)
      else
        rbind (map_sum Failed id (
          rbind (collect_input_slots native_active body) (\<lambda>input_slots.
          rbind (collect_output_slots input_slots body) (\<lambda>_.
          rbind (rmap (spend_delta state body) (live_inputs body)) (\<lambda>deltas.
          rbind (ok_or ActiveSlotCountUnderflow (checked_sub (cs_active_slot_count cs) input_count)) (\<lambda>active_after_spends.
          rbind (ok_or ActiveSlotCountOverflow (checked_add active_after_spends output_count)) (\<lambda>active_after.
          rbind (ok_or AllocCounterOverflow (checked_add (cs_alloc_counter cs) output_count)) (\<lambda>final_alloc_counter.
          rbind (ensure (\<not> is_coinbase_creation_id final_alloc_counter) AllocCounterOverflow) (\<lambda>_.
          rbind (ensure (\<not> (native_active \<and> final_alloc_counter > NATIVE_SEQUENCE_MAX)) AllocCounterOverflow) (\<lambda>_.
          rbind (rfold (mint_delta state body coinbase_mint_height) (cs_alloc_counter cs, deltas) (live_outputs body)) (\<lambda>(_, deltas).
          rbind (map_sum (\<lambda>_. CirculatingSupplyInvariant) id (supply_after_slot_updates cs deltas)) (\<lambda>supply.
          Inr (deltas, active_after, final_alloc_counter, supply))))))))))))) (\<lambda>(deltas, active_after, final_alloc_counter, supply).
        rbind (map_sum (\<lambda>_. Panicked) id (apply_delta_in_place state deltas)) (\<lambda>state.
        Inr (cs\<lparr>cs_state := state, cs_active_slot_count := active_after, cs_alloc_counter := final_alloc_counter,
                cs_circulating_supply := supply\<rparr>))))"

definition apply_tx_inner ::
  "permutation \<Rightarrow> (u16 set \<Rightarrow> u16 list) \<Rightarrow> tx_body \<Rightarrow> u64 option \<Rightarrow> chain_state \<Rightarrow> apply_error failure + digest \<times> chain_state" where
  "apply_tx_inner perm iter body block_height cs =
     rbind (apply_tx_checked_deferred_root body block_height cs) (\<lambda>snapshot.
     map_sum (case_failure (\<lambda>_. Failed ExactStateUnavailable) Panicked) id (try_state_root perm iter snapshot))"

definition apply_tx ::
  "permutation \<Rightarrow> (u16 set \<Rightarrow> u16 list) \<Rightarrow> tx_body \<Rightarrow> chain_state \<Rightarrow> apply_error failure + digest \<times> chain_state" where
  "apply_tx perm iter body cs =
     (if tx_is_coinbase body then Inl (Failed CoinbaseMintHeightMissing) else apply_tx_inner perm iter body None cs)"

definition apply_tx_at ::
  "permutation \<Rightarrow> (u16 set \<Rightarrow> u16 list) \<Rightarrow> tx_body \<Rightarrow> u64 \<Rightarrow> chain_state \<Rightarrow> apply_error failure + digest \<times> chain_state" where
  "apply_tx_at perm iter body block_height cs = apply_tx_inner perm iter body (Some block_height) cs"

subsection \<open>Reference notions\<close>

text \<open>The number of live slots and the sum of their amounts, which the counters of the state hold.\<close>

definition live_slots :: "(nat \<Rightarrow> slot_value) \<Rightarrow> nat \<Rightarrow> nat" where
  "live_slots f n = card {i. i < n \<and> f i \<noteq> SLOT_EMPTY}"

definition live_amount :: "(nat \<Rightarrow> slot_value) \<Rightarrow> nat \<Rightarrow> nat" where
  "live_amount f n = (\<Sum>i < n. unat (slot_amount (f i)))"

definition iterates :: "(u16 set \<Rightarrow> u16 list) \<Rightarrow> bool" where
  "iterates iter \<longleftrightarrow> (\<forall>ids. set (iter ids) = ids)"

definition counters_ok :: "chain_state \<Rightarrow> (nat \<Rightarrow> slot_value) \<Rightarrow> bool" where
  "counters_ok cs f \<longleftrightarrow>
     unat (cs_active_slot_count cs) = live_slots f (num_slots (cs_state cs)) \<and>
     unat (cs_circulating_supply cs) = live_amount f (num_slots (cs_state cs))"

text \<open>Every segment root that is not marked stale is the root of the tree over the slots of its segment.\<close>

definition roots_ok :: "permutation \<Rightarrow> segmented \<Rightarrow> root_cache \<Rightarrow> (nat \<Rightarrow> slot_value) \<Rightarrow> bool" where
  "roots_ok perm s roots f \<longleftrightarrow>
     root_cache_ok perm roots \<and> rc_log_slots roots = ss_log_slots s \<and> (\<forall>sid \<in> ss_exact_dirty s. unat sid < ss_num_segments s) \<and>
     (\<forall>k < ss_num_segments s. of_nat k \<notin> ss_exact_dirty s \<longrightarrow>
        rc_segment_roots roots ! k = tree_node perm (slot_hashes perm f) (ss_effective_log_seg s) k)"

definition input_value :: "tx_body \<Rightarrow> tx_input \<Rightarrow> slot_value" where
  "input_value body input = slot_with_owner_fields (in_amount input) (in_creation_id input) (digest_fields (tx_input_owner body))"

primrec minted :: "tx_body \<Rightarrow> u64 option \<Rightarrow> u64 \<Rightarrow> (nat \<times> tx_output) list \<Rightarrow> (u32 \<times> slot_value) list" where
  "minted body h c [] = []"
| "minted body h c (out # outs) =
     (out_slot_index (snd out), slot_with_owner_fields (out_amount (snd out))
        (if is_primary_coinbase_shape body then coinbase_creation_id (the h) else c + 1) (digest_fields (out_owner (snd out)))) #
     minted body h (c + 1) outs"

definition spent :: "tx_body \<Rightarrow> (u32 \<times> slot_value) list" where
  "spent body = map (\<lambda>x. (in_slot_index (snd x), SLOT_EMPTY)) (live_inputs body)"

definition tx_deltas :: "tx_body \<Rightarrow> u64 option \<Rightarrow> u64 \<Rightarrow> (u32 \<times> slot_value) list" where
  "tx_deltas body h c = spent body @ minted body h c (live_outputs body)"

definition native_at :: "u64 option \<Rightarrow> bool" where
  "native_at h = (case h of Some height \<Rightarrow> v2_1_active height | None \<Rightarrow> False)"

text \<open>When a transaction applies: the named slots are distinct and in memory, the spent ones hold what the inputs claim, the others
  are empty, and the allocation counter stays in its namespace.\<close>

definition tx_ready :: "tx_body \<Rightarrow> u64 option \<Rightarrow> chain_state \<Rightarrow> (nat \<Rightarrow> slot_value) \<Rightarrow> bool" where
  "tx_ready body h cs f \<longleftrightarrow>
     (tx_is_coinbase body \<longrightarrow> h \<noteq> None) \<and> slots_disjoint body \<and>
     (\<forall>(_, input) \<in> set (live_inputs body).
        \<not> (native_at h \<and> and (in_creation_id input) (push_bit 62 3) = NATIVE_CREATION_TAG) \<and>
        unat (in_slot_index input) < num_slots (cs_state cs) \<and> resident (cs_state cs) (unat (in_slot_index input)) \<and>
        f (unat (in_slot_index input)) = input_value body input) \<and>
     (\<forall>(_, output) \<in> set (live_outputs body).
        unat (out_slot_index output) < num_slots (cs_state cs) \<and> resident (cs_state cs) (unat (out_slot_index output)) \<and>
        f (unat (out_slot_index output)) = SLOT_EMPTY) \<and>
     unat (cs_alloc_counter cs) + length (live_outputs body) < (if native_at h then 2 ^ 62 else 2 ^ 63)"

text \<open>What an applied transaction leaves behind.\<close>

definition tx_applied :: "tx_body \<Rightarrow> u64 option \<Rightarrow> chain_state \<Rightarrow> (nat \<Rightarrow> slot_value) \<Rightarrow> chain_state \<Rightarrow> bool" where
  "tx_applied body h cs f cs' \<longleftrightarrow>
     apply_delta_in_place (cs_state cs) (tx_deltas body h (cs_alloc_counter cs)) = Inr (cs_state cs') \<and>
     cs_utxo_root cs' = cs_utxo_root cs \<and> cs_exact_roots cs' = cs_exact_roots cs \<and>
     unat (cs_alloc_counter cs') = unat (cs_alloc_counter cs) + length (live_outputs body) \<and>
     unat (cs_active_slot_count cs') + length (live_inputs body) = unat (cs_active_slot_count cs) + length (live_outputs body) \<and>
     unat (cs_circulating_supply cs') = live_amount (write_all f (tx_deltas body h (cs_alloc_counter cs))) (2 ^ 32)"

text \<open>The invariant of a chain state, and a state whose exact root is refreshed.\<close>

definition chain_ok :: "permutation \<Rightarrow> chain_state \<Rightarrow> (nat \<Rightarrow> slot_value) \<Rightarrow> bool" where
  "chain_ok perm cs f \<longleftrightarrow>
     represents (cs_state cs) f \<and> counters_ok cs f \<and> roots_ok perm (cs_state cs) (cs_exact_roots cs) f \<and>
     ss_exact_dirty (cs_state cs) \<inter> ss_evicted (cs_state cs) = {}"

definition sealed :: "permutation \<Rightarrow> chain_state \<Rightarrow> (nat \<Rightarrow> slot_value) \<Rightarrow> bool" where
  "sealed perm cs f \<longleftrightarrow>
     ss_exact_dirty (cs_state cs) = {} \<and> cs_utxo_root cs = tree_node perm (slot_hashes perm f) (ss_log_slots (cs_state cs)) 0"

text \<open>A sequence of transactions, each with the height of its block.\<close>

definition apply_txs :: "(tx_body \<times> u64) list \<Rightarrow> chain_state \<Rightarrow> apply_error failure + chain_state" where
  "apply_txs txs cs = rfold (\<lambda>cs (body, height). apply_tx_checked_deferred_root body (Some height) cs) cs txs"

definition real_claims :: "tx_body \<Rightarrow> bool" where
  "real_claims body \<longleftrightarrow> (\<forall>x \<in> set (live_inputs body). input_value body (snd x) \<noteq> SLOT_EMPTY)"

definition fees_paid :: "(tx_body \<times> u64) list \<Rightarrow> nat" where
  "fees_paid txs = (\<Sum>(body, _) \<leftarrow> txs. unat (tx_fee body))"

definition coins_minted :: "(tx_body \<times> u64) list \<Rightarrow> nat" where
  "coins_minted txs = (\<Sum>(body, _) \<leftarrow> txs. if tx_is_coinbase body then output_total body else 0)"

definition fund_body :: tx_body where
  "fund_body = \<lparr>tx_epoch_anchor = 0, tx_fee = 0, tx_input_owner = 0, tx_inputs = replicate 8 dummy_input,
     tx_outputs = [\<lparr>out_slot_index = 4, out_amount = 10, out_owner = 9\<rparr>, \<lparr>out_slot_index = 5, out_amount = 20, out_owner = 7\<rparr>],
     tx_validity_bitmap = 0x300, tx_is_coinbase = True\<rparr>"

definition sample_iter :: "u16 set \<Rightarrow> u16 list" where
  "sample_iter ids = sorted_list_of_set ids"

section \<open>Lemmas\<close>

subsection \<open>Ordered updates\<close>

lemma canonical_keys: "map fst (canonical_updates us) = sort (remdups (map fst us))"
  by (simp add: canonical_updates_def comp_def)

lemma canonical_keys_set: "distinct (map fst (canonical_updates us))" "fst ` set (canonical_updates us) = fst ` set us"
proof -
  show "distinct (map fst (canonical_updates us))" unfolding canonical_keys by simp
  have "set (map fst (canonical_updates us)) = set (map fst us)" unfolding canonical_keys by simp
  then show "fst ` set (canonical_updates us) = fst ` set us" by simp
qed

lemma map_of_canonical: "map_of (canonical_updates us) = map_of (rev us)"
proof
  fix k
  show "map_of (canonical_updates us) k = map_of (rev us) k"
  proof (cases "k \<in> fst ` set us")
    case True
    then obtain v where v: "map_of (rev us) k = Some v" using map_of_eq_None_iff [of "rev us" k] by fastforce
    have "map_of (map (\<lambda>k. (k, g k)) ks) k = (if k \<in> set ks then Some (g k) else None)" for ks and g :: "'a \<Rightarrow> 'b"
      by (induction ks) auto
    then show ?thesis using True v by (simp add: canonical_updates_def)
  next
    case False
    then have "map_of (rev us) k = None" by (simp add: map_of_eq_None_iff)
    moreover have "map_of (canonical_updates us) k = None" using False by (simp add: map_of_eq_None_iff canonical_keys_set)
    ultimately show ?thesis by simp
  qed
qed

lemma write_all_snoc: "write_all f (us @ [d]) = (write_all f us)(unat (fst d) := snd d)"
  by (simp add: write_all_def case_prod_beta)

lemma write_all_at: "write_all f us (unat k) = (case map_of (rev us) k of Some v \<Rightarrow> v | None \<Rightarrow> f (unat k))"
proof (induction us rule: rev_induct)
  case (snoc d us)
  then show ?case unfolding write_all_snoc by (simp add: word_unat_eq_iff)
qed simp

lemma write_all_other: "(\<And>d. d \<in> set us \<Longrightarrow> unat (fst d) \<noteq> i) \<Longrightarrow> write_all f us i = f i"
  by (induction us arbitrary: f) auto

lemma map_of_rev_distinct: "distinct (map fst xs) \<Longrightarrow> map_of (rev xs) = map_of xs"
  by (rule map_of_inject_set [THEN iffD2]) (simp_all add: rev_map [symmetric])

lemma write_all_cong:
  assumes "map_of (rev us) = map_of (rev vs)"
  shows "write_all f us = write_all f vs"
proof
  fix i
  show "write_all f us i = write_all f vs i"
  proof (cases "i < 2 ^ 32")
    case True
    then have "i = unat (of_nat i :: u32)" by (simp add: unat_of_nat)
    then show ?thesis using assms write_all_at by metis
  next
    case False
    have "unat (w :: u32) \<noteq> i" for w using False unat_lt_exp [of w] by auto
    then show ?thesis by (simp add: write_all_other)
  qed
qed

lemma write_all_canonical: "write_all f (canonical_updates us) = write_all f us"
  by (rule write_all_cong) (simp add: map_of_rev_distinct canonical_keys_set map_of_canonical)

subsection \<open>Occupancy and supply\<close>

lemma sum_fun_upd:
  fixes h :: "'b \<Rightarrow> nat"
  assumes "a < (n :: nat)"
  shows "(\<Sum>i < n. h ((g(a := v)) i)) + h (g a) = (\<Sum>i < n. h (g i)) + h v"
proof -
  have "(\<Sum>i < n. h ((g(a := v)) i)) = h v + (\<Sum>i \<in> {..<n} - {a}. h ((g(a := v)) i))"
    using assms by (subst sum.remove [of _ a]) auto
  also have "(\<Sum>i \<in> {..<n} - {a}. h ((g(a := v)) i)) = (\<Sum>i \<in> {..<n} - {a}. h (g i))" by (rule sum.cong) auto
  finally show ?thesis using assms sum.remove [of "{..<n}" a "\<lambda>i. h (g i)"] by simp
qed

lemma live_amount_upd: "a < n \<Longrightarrow> live_amount (g(a := v)) n + unat (slot_amount (g a)) = live_amount g n + unat (slot_amount v)"
  unfolding live_amount_def by (rule sum_fun_upd [where h = "\<lambda>v. unat (slot_amount v)"])

lemma live_slots_sum: "live_slots f n = (\<Sum>i < n. of_bool (f i \<noteq> SLOT_EMPTY))"
proof -
  have "{i. i < n \<and> f i \<noteq> SLOT_EMPTY} = {..<n} \<inter> {i. f i \<noteq> SLOT_EMPTY}" by auto
  then show ?thesis by (simp add: live_slots_def of_bool_def sum.If_cases)
qed

lemma live_slots_upd: "a < n \<Longrightarrow> live_slots (g(a := v)) n + of_bool (g a \<noteq> SLOT_EMPTY) = live_slots g n + of_bool (v \<noteq> SLOT_EMPTY)"
  unfolding live_slots_sum by (rule sum_fun_upd [where h = "\<lambda>v. of_bool (v \<noteq> SLOT_EMPTY)"])

lemma slot_amount_empty [simp]: "slot_amount SLOT_EMPTY = 0"
  by (simp add: slot_amount_def SLOT_EMPTY_def unpack_amount_creation_id_def)

lemma live_beyond:
  assumes "\<And>i. n \<le> i \<Longrightarrow> f i = SLOT_EMPTY" "n \<le> m"
  shows "live_amount f m = live_amount f n" "live_slots f m = live_slots f n"
proof -
  have split: "(\<Sum>i < m. h (f i)) = (\<Sum>i < n. h (f i))" if "h SLOT_EMPTY = (0 :: nat)" for h
    by (rule sum.mono_neutral_right) (use assms that in auto)
  show "live_amount f m = live_amount f n" unfolding live_amount_def by (rule split [of "\<lambda>v. unat (slot_amount v)"]) simp
  show "live_slots f m = live_slots f n" unfolding live_slots_sum by (rule split [of "\<lambda>v. of_bool (v \<noteq> SLOT_EMPTY)"]) simp
qed

lemma live_amount_bound: "n \<le> 2 ^ 32 \<Longrightarrow> live_amount f n < 2 ^ 96 + 1"
proof -
  assume n: "n \<le> 2 ^ 32"
  have "unat (slot_amount (f i)) \<le> 2 ^ 64" for i using unat_lt_exp [of "slot_amount (f i)"] by simp
  then have "live_amount f n \<le> (\<Sum>i < n. 2 ^ 64)" unfolding live_amount_def by (intro sum_mono)
  also have "\<dots> = n * 2 ^ 64" by simp
  also have "\<dots> \<le> 2 ^ 32 * 2 ^ 64" using n by (rule mult_le_mono1)
  finally show ?thesis by simp
qed

lemma seg_id_resident:
  fixes idx :: u32
  assumes "geometry s" "unat idx < num_slots s"
  shows "is_evicted s (ucast (drop_bit (ss_effective_log_seg s) idx)) \<longleftrightarrow> \<not> resident s (unat idx)"
  using unat_seg_id(2) [OF assms] by (simp add: is_evicted_def resident_def seg_id_of_def)

lemma live_amount_represents:
  assumes "represents s f"
  shows "live_amount f (2 ^ 32) = live_amount f (num_slots s)" "live_slots f (2 ^ 32) = live_slots f (num_slots s)"
  using live_beyond [of "num_slots s" f "2 ^ 32"] representsD(3) [OF assms] geometry_facts(7) [OF representsD(1) [OF assms]] by auto

lemma supply_step_exact:
  assumes rep: "represents s f" and idx: "unat idx < num_slots s \<Longrightarrow> resident s (unat idx)" and g: "g (unat idx) = f (unat idx)"
    and sup: "unat held = live_amount g (2 ^ 32)"
  shows "\<exists>t. supply_step s held (idx, v) = Inr t \<and> unat t = live_amount (g(unat idx := v)) (2 ^ 32)"
proof -
  have lt: "unat idx < 2 ^ 32" using unat_lt_exp [of idx] by simp
  have prev: "(if unat idx < num_slots s then
      if is_evicted s (ucast (drop_bit (ss_effective_log_seg s) idx)) then Inl () else Inr (slot s idx) else Inr SLOT_EMPTY) = Inr (g (unat idx))"
    using slot_represents [OF rep] idx seg_id_resident [OF representsD(1) [OF rep]] representsD(3) [OF rep, of "unat idx"] g by simp
  note upd = live_amount_upd [OF lt, of g v]
  have "unat (slot_amount (g (unat idx))) \<le> live_amount g (2 ^ 32)"
    unfolding live_amount_def by (rule member_le_sum) (use lt in auto)
  then have le: "(ucast (slot_amount (g (unat idx))) :: u128) \<le> held"
    using sup by (simp add: word_le_nat_alt unsigned_ucast_eq take_bit_eq_mod)
  define mid where "mid = held - ucast (slot_amount (g (unat idx)))"
  have mid: "unat mid = unat held - unat (slot_amount (g (unat idx)))"
    using le unat_lt_exp [of "slot_amount (g (unat idx))"] by (simp add: mid_def unat_sub unsigned_ucast_eq take_bit_eq_mod)
  have "unat mid + unat (slot_amount v) = live_amount (g(unat idx := v)) (2 ^ 32)" using upd mid sup le
      \<open>unat (slot_amount (g (unat idx))) \<le> live_amount g (2 ^ 32)\<close> by linarith
  moreover have "live_amount (g(unat idx := v)) (2 ^ 32) < 2 ^ 128" using live_amount_bound [of "2 ^ 32" "g(unat idx := v)"] by simp
  moreover have "unat (ucast (slot_amount v) :: u128) = unat (slot_amount v)"
    using unat_lt_exp [of "slot_amount v"] by (simp add: unsigned_ucast_eq take_bit_eq_mod)
  ultimately have add: "checked_add mid (ucast (slot_amount v)) = Some (mid + ucast (slot_amount v))"
    "unat (mid + ucast (slot_amount v)) = live_amount (g(unat idx := v)) (2 ^ 32)"
    by (simp_all add: checked_add_def unat_add_exact)
  have "checked_sub held (ucast (slot_amount (g (unat idx)))) = Some mid" using le by (simp add: checked_sub_def mid_def)
  then show ?thesis using add unfolding supply_step_def case_prod_conv prev by simp
qed

lemma supply_fold_exact:
  assumes "represents s f" "distinct (map fst us)" "\<forall>d \<in> set us. unat (fst d) < num_slots s \<longrightarrow> resident s (unat (fst d))"
    "\<forall>d \<in> set us. g (unat (fst d)) = f (unat (fst d))" "unat held = live_amount g (2 ^ 32)"
  shows "\<exists>t. rfold (supply_step s) held us = Inr t \<and> unat t = live_amount (write_all g us) (2 ^ 32)"
  using assms
proof (induction us arbitrary: g held)
  case (Cons d us)
  obtain idx v where d: "d = (idx, v)" by (cases d)
  obtain t where t: "supply_step s held (idx, v) = Inr t" "unat t = live_amount (g(unat idx := v)) (2 ^ 32)"
    using supply_step_exact [OF Cons.prems(1), of idx g held v] Cons.prems(3-5) d by auto
  have "\<forall>d \<in> set us. (g(unat idx := v)) (unat (fst d)) = f (unat (fst d))"
    using Cons.prems(2,4) d by (auto simp: word_unat_eq_iff [symmetric])
  moreover have "distinct (map fst us)" "\<forall>d \<in> set us. unat (fst d) < num_slots s \<longrightarrow> resident s (unat (fst d))" using Cons.prems(2,3) by simp_all
  ultimately show ?case using Cons.IH [OF Cons.prems(1) _ _ _ t(2)] unfolding d rfold.simps t(1) rbind_simps write_all_simps fst_conv snd_conv by blast
qed simp

lemma supply_after_exact:
  assumes "represents (cs_state cs) f" "unat (cs_circulating_supply cs) = live_amount f (num_slots (cs_state cs))"
    "\<forall>d \<in> set us. unat (fst d) < num_slots (cs_state cs) \<longrightarrow> resident (cs_state cs) (unat (fst d))"
  shows "\<exists>t. supply_after_slot_updates cs us = Inr t \<and> unat t = live_amount (write_all f us) (2 ^ 32)"
proof -
  have keys: "fst d \<in> fst ` set us" if "d \<in> set (canonical_updates us)" for d using that canonical_keys_set(2) [of us] by blast
  have "\<forall>d \<in> set (canonical_updates us). unat (fst d) < num_slots (cs_state cs) \<longrightarrow> resident (cs_state cs) (unat (fst d))"
    using keys assms(3) by fastforce
  from supply_fold_exact [OF assms(1) canonical_keys_set(1) this, of f "cs_circulating_supply cs"] show ?thesis
    using assms(2) live_amount_represents(1) [OF assms(1)] by (simp add: supply_after_slot_updates_def write_all_canonical)
qed

lemma supply_fold_rejects:
  assumes "geometry s" "d \<in> set us" "unat (fst d) < num_slots s" "\<not> resident s (unat (fst d))"
  shows "rfold (supply_step s) held us = Inl ()"
proof -
  have "rfold (supply_step s) held us \<noteq> Inr t" for t
    using assms(2)
  proof (induction us arbitrary: held)
    case (Cons e us)
    show ?case
    proof (cases "e = d")
      case True
      then have "supply_step s held e = Inl ()" using assms(3,4) seg_id_resident [OF assms(1,3)]
        by (cases d) (simp add: supply_step_def)
      then show ?thesis by simp
    next
      case False
      then show ?thesis using Cons by (simp add: rbind_eq_Inr)
    qed
  qed simp
  then show ?thesis by (cases "rfold (supply_step s) held us") auto
qed

lemma supply_after_rejects:
  assumes "represents (cs_state cs) f" "d \<in> set us" "unat (fst d) < num_slots (cs_state cs)" "\<not> resident (cs_state cs) (unat (fst d))"
  shows "supply_after_slot_updates cs us = Inl ()"
proof -
  have "fst d \<in> fst ` set (canonical_updates us)" using assms(2) canonical_keys_set(2) [of us] by simp
  then obtain e where "e \<in> set (canonical_updates us)" "fst e = fst d" by auto
  then show ?thesis unfolding supply_after_slot_updates_def
    using supply_fold_rejects [OF representsD(1) [OF assms(1)]] assms(3,4) by metis
qed

subsection \<open>Applying a transaction\<close>

lemma rfold_fresh_guarded:
  "rfold (\<lambda>seen x. if bad x then Inl e1 else if k x \<in> seen then Inl e2 else Inr (insert (k x) seen)) S xs = Inr T \<longleftrightarrow>
     (\<forall>x \<in> set xs. \<not> bad x) \<and> distinct (map k xs) \<and> k ` set xs \<inter> S = {} \<and> T = k ` set xs \<union> S"
  by (induction xs arbitrary: S) auto

lemma rfold_fresh_then_guard:
  "rfold (\<lambda>seen x. if k x \<in> seen then Inl e1 else if bad x then Inl e2 else Inr (insert (k x) seen)) S xs = Inr T \<longleftrightarrow>
     (\<forall>x \<in> set xs. \<not> bad x) \<and> distinct (map k xs) \<and> k ` set xs \<inter> S = {} \<and> T = k ` set xs \<union> S"
  by (induction xs arbitrary: S) auto

lemma collect_slots_iff:
  "(\<exists>seen. rbind (collect_input_slots native body) (\<lambda>ins. collect_output_slots ins body) = Inr seen) \<longleftrightarrow>
    slots_disjoint body \<and> (\<forall>(_, input) \<in> set (live_inputs body). \<not> (native \<and> and (in_creation_id input) (push_bit 62 3) = NATIVE_CREATION_TAG))"
  unfolding collect_input_slots_def collect_output_slots_def rbind_eq_Inr case_prod_beta rfold_fresh_guarded rfold_fresh_then_guard slots_disjoint_def
  by (fastforce simp: comp_def image_iff)

lemma spend_delta_iff:
  assumes "represents s f"
  shows "spend_delta s body x = Inr d \<longleftrightarrow>
    unat (in_slot_index (snd x)) < num_slots s \<and> resident s (unat (in_slot_index (snd x))) \<and>
    f (unat (in_slot_index (snd x))) = input_value body (snd x) \<and> d = (in_slot_index (snd x), SLOT_EMPTY)"
  using slot_represents [OF assms] seg_id_resident [OF representsD(1) [OF assms], of "in_slot_index (snd x)"]
  by (cases x) (auto simp: spend_delta_def Let_def input_value_def split: if_splits)

lemma spend_deltas_iff:
  assumes "represents s f"
  shows "rmap (spend_delta s body) xs = Inr ds \<longleftrightarrow>
    (\<forall>x \<in> set xs. unat (in_slot_index (snd x)) < num_slots s \<and> resident s (unat (in_slot_index (snd x))) \<and>
       f (unat (in_slot_index (snd x))) = input_value body (snd x)) \<and>
    ds = map (\<lambda>x. (in_slot_index (snd x), SLOT_EMPTY)) xs"
  by (induction xs arbitrary: ds) (auto simp: rbind_eq_Inr spend_delta_iff [OF assms])

lemma mint_delta_iff:
  assumes "represents s f" "unat c + 1 < 2 ^ 64" "is_primary_coinbase_shape body \<longrightarrow> h \<noteq> None"
  shows "mint_delta s body h (c, ds) x = Inr r \<longleftrightarrow>
    unat (out_slot_index (snd x)) < num_slots s \<and> resident s (unat (out_slot_index (snd x))) \<and> f (unat (out_slot_index (snd x))) = SLOT_EMPTY \<and>
    r = (c + 1, ds @ minted body h c [x])"
proof -
  have "checked_add c 1 = Some (c + 1)" using assms(2) by (simp add: checked_add_def)
  moreover have "is_primary_coinbase_shape body \<Longrightarrow> \<exists>height. h = Some height" using assms(3) by blast
  ultimately show ?thesis
    using slot_represents [OF assms(1), of "out_slot_index (snd x)"] seg_id_resident [OF representsD(1) [OF assms(1)], of "out_slot_index (snd x)"]
    by (cases x) (auto simp: mint_delta_def Let_def split: if_splits)
qed

lemma mint_deltas_iff:
  assumes "represents s f" "is_primary_coinbase_shape body \<longrightarrow> h \<noteq> None" "unat c + length xs < 2 ^ 64"
  shows "rfold (mint_delta s body h) (c, ds) xs = Inr r \<longleftrightarrow>
    (\<forall>x \<in> set xs. unat (out_slot_index (snd x)) < num_slots s \<and> resident s (unat (out_slot_index (snd x))) \<and>
       f (unat (out_slot_index (snd x))) = SLOT_EMPTY) \<and>
    r = (c + of_nat (length xs), ds @ minted body h c xs)"
  using assms(3)
proof (induction xs arbitrary: c ds)
  case (Cons x xs)
  have c: "unat c + 1 < 2 ^ 64" using Cons.prems by simp
  then have "unat (c + 1) = unat c + 1" by (simp add: unat_add_exact)
  then have "unat (c + 1) + length xs < 2 ^ 64" using Cons.prems by simp
  note ih = Cons.IH [OF this, of "ds @ minted body h c [x]"]
  show ?case unfolding rfold.simps rbind_eq_Inr mint_delta_iff [OF assms(1) c assms(2)]
    using ih by (auto simp: add.assoc [symmetric] add.commute [of _ 1])
qed auto

lemma map_sum_eq_Inr [result_simps]: "map_sum e id m = Inr y \<longleftrightarrow> m = Inr y"
  by (cases m) auto

lemma top_bit_iff: "bit c 63 \<longleftrightarrow> 2 ^ 63 \<le> unat c" for c :: u64
proof -
  have "bit c 63 = bit (unat c) 63" by (simp add: bit_unsigned_iff)
  also have "\<dots> \<longleftrightarrow> odd (unat c div 2 ^ 63)" by (rule bit_iff_odd)
  also have "odd (unat c div 2 ^ 63) \<longleftrightarrow> 1 \<le> unat c div 2 ^ 63"
  proof -
    have "unat c div 2 ^ 63 < 2" using unat_lt_exp [of c] by (simp add: less_mult_imp_div_less)
    then consider "unat c div 2 ^ 63 = 0" | "unat c div 2 ^ 63 = 1" by linarith
    then show ?thesis by cases (simp_all only: odd_one even_zero le_zero_eq one_neq_zero order_refl simp_thms)
  qed
  also have "\<dots> \<longleftrightarrow> 2 ^ 63 \<le> unat c" by (simp add: less_eq_div_iff_mult_less_eq)
  finally show ?thesis .
qed

lemma coinbase_tag_iff: "is_coinbase_creation_id c \<longleftrightarrow> 2 ^ 63 \<le> unat c"
  unfolding is_coinbase_creation_id_def COINBASE_CREATION_TAG_def and_push_bit_one by (rule top_bit_iff)

lemma native_max_iff: "c > NATIVE_SEQUENCE_MAX \<longleftrightarrow> 2 ^ 62 \<le> unat c"
  by (auto simp: NATIVE_SEQUENCE_MAX_def NATIVE_CREATION_TAG_def word_less_nat_alt)

lemma sum_write_all:
  fixes h :: "slot_value \<Rightarrow> nat"
  assumes "distinct (map fst us)"
  shows "(\<Sum>i < 2 ^ 32. h (write_all g us i)) + (\<Sum>d \<leftarrow> us. h (g (unat (fst d)))) = (\<Sum>i < 2 ^ 32. h (g i)) + (\<Sum>d \<leftarrow> us. h (snd d))"
  using assms
proof (induction us arbitrary: g)
  case (Cons d us)
  let ?g = "g(unat (fst d) := snd d)"
  have "unat (fst d) < 2 ^ 32" using unat_lt_exp [of "fst d"] by simp
  note upd = sum_fun_upd [OF this, of h g "snd d"]
  have "?g (unat (fst e)) = g (unat (fst e))" if "e \<in> set us" for e
  proof -
    have "fst e \<in> fst ` set us" using that by simp
    moreover have "fst d \<notin> fst ` set us" using Cons.prems by simp
    ultimately have "fst e \<noteq> fst d" by metis
    then show ?thesis by (simp add: word_unat_eq_iff)
  qed
  then have "(\<Sum>d \<leftarrow> us. h (?g (unat (fst d)))) = (\<Sum>d \<leftarrow> us. h (g (unat (fst d))))" by (simp cong: map_cong)
  then show ?case using Cons.IH [of ?g] Cons.prems upd unfolding write_all_simps list.map sum_list.Cons distinct.simps by linarith
qed simp

lemma minted_keys: "map fst (minted body h c outs) = map (out_slot_index \<circ> snd) outs"
  by (induction outs arbitrary: c) simp_all

lemma tx_delta_keys: "map fst (tx_deltas body h c) = map (in_slot_index \<circ> snd) (live_inputs body) @ map (out_slot_index \<circ> snd) (live_outputs body)"
  by (simp add: tx_deltas_def spent_def minted_keys comp_def)

lemma slot_parts [simp]: "slot_amount (slot_with_owner_fields a c owner) = a" "slot_creation_id (slot_with_owner_fields a c owner) = c"
  by (simp_all add: slot_amount_def slot_creation_id_def slot_with_owner_fields_def slot_from_parts_def)

lemma slot_nonempty: "slot_creation_id v \<noteq> 0 \<Longrightarrow> v \<noteq> SLOT_EMPTY"
  by (auto simp: slot_creation_id_def SLOT_EMPTY_def unpack_amount_creation_id_def)

lemma coinbase_creation_id_nonzero: "coinbase_creation_id height \<noteq> 0"
proof -
  have "bit (coinbase_creation_id height) 63" unfolding coinbase_creation_id_def COINBASE_CREATION_TAG_def bit_or_iff by (simp add: bit_push_bit_iff)
  then show ?thesis by auto
qed

lemma minted_values:
  assumes "unat c + length outs < 2 ^ 64"
  shows "(\<Sum>d \<leftarrow> minted body h c outs. of_bool (snd d \<noteq> SLOT_EMPTY)) = length outs"
    "(\<Sum>d \<leftarrow> minted body h c outs. unat (slot_amount (snd d))) = (\<Sum>x \<leftarrow> outs. unat (out_amount (snd x)))"
proof -
  show "(\<Sum>d \<leftarrow> minted body h c outs. unat (slot_amount (snd d))) = (\<Sum>x \<leftarrow> outs. unat (out_amount (snd x)))"
    by (induction outs arbitrary: c) simp_all
  show "(\<Sum>d \<leftarrow> minted body h c outs. of_bool (snd d \<noteq> SLOT_EMPTY)) = length outs" using assms
  proof (induction outs arbitrary: c)
    case (Cons x outs)
    have c: "unat (c + 1) = unat c + 1" using Cons.prems by (simp add: unat_add_exact)
    then have "c + 1 \<noteq> 0" by (metis add_is_0 one_neq_zero unat_0)
    then have "slot_with_owner_fields a (if p then coinbase_creation_id k else c + 1) owner \<noteq> SLOT_EMPTY" for a p k owner
      by (intro slot_nonempty) (simp add: coinbase_creation_id_nonzero)
    moreover have "unat (c + 1) + length outs < 2 ^ 64" using Cons.prems c by simp
    ultimately show ?case using Cons.IH [of "c + 1"] by simp
  qed simp
qed

lemma rbind_assoc_const: "rbind a (\<lambda>x. rbind (f x) (\<lambda>_. r)) = rbind (rbind a f) (\<lambda>_. r)"
  by (cases a) auto

lemma apply_tx_checked_eq:
  "apply_tx_checked_deferred_root body h cs = Inr cs' \<longleftrightarrow>
    (tx_is_coinbase body \<longrightarrow> h \<noteq> None) \<and>
    (\<exists>seen. rbind (collect_input_slots (native_at h) body) (\<lambda>ins. collect_output_slots ins body) = Inr seen) \<and>
    (\<exists>ds active_spent active alloc c deltas t s'.
       rmap (spend_delta (cs_state cs) body) (live_inputs body) = Inr ds \<and>
       checked_sub (cs_active_slot_count cs) (of_nat (live_input_count body)) = Some active_spent \<and>
       checked_add active_spent (of_nat (live_output_count body)) = Some active \<and>
       checked_add (cs_alloc_counter cs) (of_nat (live_output_count body)) = Some alloc \<and>
       \<not> is_coinbase_creation_id alloc \<and> \<not> (native_at h \<and> alloc > NATIVE_SEQUENCE_MAX) \<and>
       rfold (mint_delta (cs_state cs) body h) (cs_alloc_counter cs, ds) (live_outputs body) = Inr (c, deltas) \<and>
       supply_after_slot_updates cs deltas = Inr t \<and> apply_delta_in_place (cs_state cs) deltas = Inr s' \<and>
       cs' = cs\<lparr>cs_state := s', cs_active_slot_count := active, cs_alloc_counter := alloc, cs_circulating_supply := t\<rparr>)"
proof (cases "tx_is_coinbase body \<and> h = None")
  case True
  then show ?thesis by (simp add: apply_tx_checked_deferred_root_def)
next
  case False
  have *: "map_sum e id m = Inr y \<longleftrightarrow> m = Inr y" for e :: "'x \<Rightarrow> 'y" and m and y :: 'z by (cases m) auto
  show ?thesis
    using False unfolding apply_tx_checked_deferred_root_def Let_def if_not_P [OF False] native_at_def [symmetric] rbind_assoc_const
    unfolding rbind_eq_Inr * ok_or_eq_Inr ensure_eq_Inr case_prod_beta
    by (simp add: split_paired_Ex rbind_eq_Inr * del: not_less) blast
qed

lemma live_output_count_length:
  assumes "tx_body_typed b"
  shows "live_output_count b = length (live_outputs b)"
proof -
  let ?w = "tx_validity_bitmap b"
  have len16: "LENGTH(16) = 16" by simp
  have "and (drop_bit 8 ?w) 3 = take_bit 2 (drop_bit 8 ?w)" by (simp add: take_bit_eq_mask mask_eq_exp_minus_1)
  moreover have "bit (take_bit 2 (drop_bit 8 ?w)) = output_is_live b"
    by (rule ext) (simp add: bit_take_bit_iff bit_drop_bit_eq output_is_live_bit)
  ultimately have "live_output_count b = length (filter (output_is_live b) [0..<16])"
    by (simp only: live_output_count_def tx_const_defs count_ones_def len16)
  also have "[0..<16] = [0..<2] @ [2..<16]" using upt_add_eq_append [of 0 2 14] by simp
  also have "filter (output_is_live b) ([0..<2] @ [2..<16]) = filter (output_is_live b) [0..<2]"
    by (simp only: filter_append) (auto simp: output_is_live_bit filter_empty_conv)
  also have "length \<dots> = length (live_outputs b)"
    using assms by (simp only: live_outputs_def length_filter_enumerate tx_body_typed_def tx_const_defs add_0)
  finally show ?thesis .
qed

lemma live_inputs_occupy:
  assumes "represents s f" "slots_disjoint body"
    and "\<forall>x \<in> set (live_inputs body). unat (in_slot_index (snd x)) < num_slots s \<and> f (unat (in_slot_index (snd x))) \<noteq> SLOT_EMPTY"
  shows "length (live_inputs body) \<le> live_slots f (num_slots s)"
proof -
  let ?k = "\<lambda>x. unat (in_slot_index (snd x))"
  have "distinct (map (in_slot_index \<circ> snd) (live_inputs body))" using assms(2) by (simp add: slots_disjoint_def)
  then have "distinct (map unat (map (in_slot_index \<circ> snd) (live_inputs body)))" by (subst distinct_map) (auto simp: inj_on_def word_unat_eq_iff)
  then have "distinct (map ?k (live_inputs body))" by (simp add: comp_def)
  then have "length (live_inputs body) = card (?k ` set (live_inputs body))" using distinct_card [of "map ?k (live_inputs body)"] by simp
  also have "\<dots> \<le> card {i. i < num_slots s \<and> f i \<noteq> SLOT_EMPTY}" by (rule card_mono) (use assms(3) in auto)
  finally show ?thesis by (simp add: live_slots_def)
qed

lemma apply_tx_checked_ready:
  assumes rep: "represents (cs_state cs) f" and typed: "tx_body_typed body" and ap: "apply_tx_checked_deferred_root body h cs = Inr cs'"
  shows "tx_ready body h cs f"
proof -
  let ?s = "cs_state cs"
  obtain ds a1 a2 al c deltas t s' where
    h: "tx_is_coinbase body \<longrightarrow> h \<noteq> None"
    and col: "\<exists>seen. rbind (collect_input_slots (native_at h) body) (\<lambda>ins. collect_output_slots ins body) = Inr seen"
    and ds: "rmap (spend_delta ?s body) (live_inputs body) = Inr ds"
    and al: "checked_add (cs_alloc_counter cs) (of_nat (live_output_count body)) = Some al"
    and tag: "\<not> is_coinbase_creation_id al" "\<not> (native_at h \<and> al > NATIVE_SEQUENCE_MAX)"
    and mint: "rfold (mint_delta ?s body h) (cs_alloc_counter cs, ds) (live_outputs body) = Inr (c, deltas)"
    using ap unfolding apply_tx_checked_eq by blast
  have n: "length (live_outputs body) \<le> 2" "unat (of_nat (live_output_count body) :: u64) = length (live_outputs body)"
    using length_live_outputs [OF typed] live_output_count_length [OF typed] by (simp_all add: unat_of_nat)
  have "unat al = unat (cs_alloc_counter cs) + length (live_outputs body)" using al n(2) by (simp only: checked_add_eq_Some)
  then have bound: "unat (cs_alloc_counter cs) + length (live_outputs body) < (if native_at h then 2 ^ 62 else 2 ^ 63)"
    using tag unfolding coinbase_tag_iff native_max_iff by (auto simp: not_le)
  have prim: "is_primary_coinbase_shape body \<longrightarrow> h \<noteq> None" using h by (simp add: is_primary_coinbase_shape_def)
  have "unat (cs_alloc_counter cs) + length (live_outputs body) < 2 ^ 64" using bound by (simp split: if_splits)
  note outs = iffD1 [OF mint_deltas_iff [OF rep prim this] mint]
  note ins = iffD1 [OF spend_deltas_iff [OF rep] ds] and col = iffD1 [OF collect_slots_iff col]
  show ?thesis unfolding tx_ready_def using h bound outs ins col by (auto simp: case_prod_beta)
qed

lemma apply_tx_checked_applies:
  assumes rep: "represents (cs_state cs) f" and cnt: "counters_ok cs f" and typed: "tx_body_typed body"
    and claims: "\<forall>x \<in> set (live_inputs body). input_value body (snd x) \<noteq> SLOT_EMPTY" and ready: "tx_ready body h cs f"
  shows "\<exists>cs'. apply_tx_checked_deferred_root body h cs = Inr cs' \<and> tx_applied body h cs f cs'"
proof -
  let ?s = "cs_state cs" let ?m = "length (live_inputs body)" let ?n = "length (live_outputs body)" let ?c = "cs_alloc_counter cs"
  let ?deltas = "tx_deltas body h ?c"
  have h: "tx_is_coinbase body \<longrightarrow> h \<noteq> None" and dis: "slots_disjoint body"
    and ins: "\<forall>x \<in> set (live_inputs body). unat (in_slot_index (snd x)) < num_slots ?s \<and> resident ?s (unat (in_slot_index (snd x))) \<and>
        f (unat (in_slot_index (snd x))) = input_value body (snd x)"
    and outs: "\<forall>x \<in> set (live_outputs body). unat (out_slot_index (snd x)) < num_slots ?s \<and> resident ?s (unat (out_slot_index (snd x))) \<and>
        f (unat (out_slot_index (snd x))) = SLOT_EMPTY"
    and nat: "\<forall>(_, input) \<in> set (live_inputs body). \<not> (native_at h \<and> and (in_creation_id input) (push_bit 62 3) = NATIVE_CREATION_TAG)"
    and bound: "unat ?c + ?n < (if native_at h then 2 ^ 62 else 2 ^ 63)"
    using ready unfolding tx_ready_def by (auto simp: case_prod_beta)
  have len: "?m \<le> 8" "?n \<le> 2" using length_live_inputs [OF typed] length_live_outputs [OF typed] by simp_all
  have cnts: "unat (of_nat (live_input_count body) :: u64) = ?m" "unat (of_nat (live_output_count body) :: u64) = ?n"
    using len live_output_count_length [OF typed] live_input_count_length [OF typed] by (simp_all add: unat_of_nat)
  have bound64: "unat ?c + ?n < 2 ^ 64" using bound by (simp split: if_splits)
  have active: "unat (cs_active_slot_count cs) = live_slots f (num_slots ?s)" "unat (cs_circulating_supply cs) = live_amount f (num_slots ?s)"
    using cnt by (simp_all add: counters_ok_def)
  have "live_slots f (num_slots ?s) \<le> card {..<num_slots ?s}" unfolding live_slots_def by (rule card_mono) auto
  then have small: "unat (cs_active_slot_count cs) \<le> 2 ^ 32" using active(1) geometry_facts(7) [OF representsD(1) [OF rep]] by simp
  have "?m \<le> unat (cs_active_slot_count cs)" unfolding active(1) by (rule live_inputs_occupy [OF rep dis]) (use ins claims in auto)
  then have le: "of_nat (live_input_count body) \<le> cs_active_slot_count cs" by (simp only: word_le_nat_alt cnts)
  define a1 where "a1 = cs_active_slot_count cs - of_nat (live_input_count body)"
  have a1: "checked_sub (cs_active_slot_count cs) (of_nat (live_input_count body)) = Some a1" using le by (simp add: checked_sub_def a1_def)
  then have a1': "unat (cs_active_slot_count cs) = unat a1 + ?m" unfolding checked_sub_eq_Some cnts .
  obtain a2 where a2: "checked_add a1 (of_nat (live_output_count body)) = Some a2" "unat a2 = unat a1 + ?n"
    using a1' small len cnts(2) by (simp add: checked_add_def unat_add_exact)
  obtain al where al: "checked_add ?c (of_nat (live_output_count body)) = Some al" "unat al = unat ?c + ?n"
    using bound64 cnts(2) by (simp add: checked_add_def unat_add_exact)
  have tag: "\<not> is_coinbase_creation_id al" "\<not> (native_at h \<and> al > NATIVE_SEQUENCE_MAX)"
    unfolding coinbase_tag_iff native_max_iff al(2) using bound by (auto split: if_splits)
  have prim: "is_primary_coinbase_shape body \<longrightarrow> h \<noteq> None" using h by (simp add: is_primary_coinbase_shape_def)
  have sp: "rmap (spend_delta ?s body) (live_inputs body) = Inr (spent body)"
    unfolding spend_deltas_iff [OF rep] spent_def using ins by blast
  have mint: "rfold (mint_delta ?s body h) (?c, spent body) (live_outputs body) = Inr (?c + of_nat ?n, ?deltas)"
    unfolding mint_deltas_iff [OF rep prim bound64] tx_deltas_def using outs by blast
  have keys: "\<forall>d \<in> set ?deltas. unat (fst d) < num_slots ?s \<and> resident ?s (unat (fst d))"
  proof
    fix d assume "d \<in> set ?deltas"
    then have "fst d \<in> set (map fst ?deltas)" by simp
    then show "unat (fst d) < num_slots ?s \<and> resident ?s (unat (fst d))" unfolding tx_delta_keys using ins outs by auto
  qed
  obtain s' where s': "apply_delta_in_place ?s ?deltas = Inr s'" using apply_delta_represents [OF rep keys] by blast
  obtain t where t: "supply_after_slot_updates cs ?deltas = Inr t" "unat t = live_amount (write_all f ?deltas) (2 ^ 32)"
    using supply_after_exact [OF rep active(2), of ?deltas] keys by blast
  have col: "\<exists>seen. rbind (collect_input_slots (native_at h) body) (\<lambda>ins. collect_output_slots ins body) = Inr seen"
    unfolding collect_slots_iff using dis nat by blast
  let ?cs = "cs\<lparr>cs_state := s', cs_active_slot_count := a2, cs_alloc_counter := al, cs_circulating_supply := t\<rparr>"
  have "apply_tx_checked_deferred_root body h cs = Inr ?cs"
    unfolding apply_tx_checked_eq using h col sp a1 a2(1) al(1) tag mint t(1) s' by blast
  moreover have "tx_applied body h cs f ?cs" using s' al(2) a1' a2(2) t(2) by (simp add: tx_applied_def)
  ultimately show ?thesis by blast
qed

lemma apply_tx_checked_exact:
  assumes "represents (cs_state cs) f" "counters_ok cs f" "tx_body_typed body" "\<forall>x \<in> set (live_inputs body). input_value body (snd x) \<noteq> SLOT_EMPTY"
  shows "(\<exists>cs'. apply_tx_checked_deferred_root body h cs = Inr cs') \<longleftrightarrow> tx_ready body h cs f"
    "apply_tx_checked_deferred_root body h cs = Inr cs' \<Longrightarrow> tx_applied body h cs f cs'"
proof -
  show "(\<exists>cs'. apply_tx_checked_deferred_root body h cs = Inr cs') \<longleftrightarrow> tx_ready body h cs f"
    using apply_tx_checked_ready [OF assms(1,3)] apply_tx_checked_applies [OF assms] by blast
  assume ap: "apply_tx_checked_deferred_root body h cs = Inr cs'"
  then show "tx_applied body h cs f cs'"
    using apply_tx_checked_applies [OF assms apply_tx_checked_ready [OF assms(1,3) ap]] by auto
qed

lemma tx_delta_sums:
  assumes ready: "tx_ready body h cs f" and claims: "\<forall>x \<in> set (live_inputs body). input_value body (snd x) \<noteq> SLOT_EMPTY"
  defines "ds \<equiv> tx_deltas body h (cs_alloc_counter cs)"
  shows "distinct (map fst ds)" "\<forall>d \<in> set ds. unat (fst d) < num_slots (cs_state cs) \<and> resident (cs_state cs) (unat (fst d))"
    "live_amount (write_all f ds) (2 ^ 32) + input_total body = live_amount f (2 ^ 32) + output_total body"
    "live_slots (write_all f ds) (2 ^ 32) + length (live_inputs body) = live_slots f (2 ^ 32) + length (live_outputs body)"
proof -
  have ins: "\<forall>x \<in> set (live_inputs body). unat (in_slot_index (snd x)) < num_slots (cs_state cs) \<and>
        resident (cs_state cs) (unat (in_slot_index (snd x))) \<and> f (unat (in_slot_index (snd x))) = input_value body (snd x)"
    and outs: "\<forall>x \<in> set (live_outputs body). unat (out_slot_index (snd x)) < num_slots (cs_state cs) \<and>
        resident (cs_state cs) (unat (out_slot_index (snd x))) \<and> f (unat (out_slot_index (snd x))) = SLOT_EMPTY"
    and bound: "unat (cs_alloc_counter cs) + length (live_outputs body) < 2 ^ 64"
    using ready unfolding tx_ready_def by (auto simp: case_prod_beta split: if_splits)
  show dist: "distinct (map fst ds)" using ready unfolding ds_def tx_delta_keys tx_ready_def slots_disjoint_def by blast
  show "\<forall>d \<in> set ds. unat (fst d) < num_slots (cs_state cs) \<and> resident (cs_state cs) (unat (fst d))"
  proof
    fix d assume "d \<in> set ds"
    then have "fst d \<in> set (map fst ds)" by simp
    then show "unat (fst d) < num_slots (cs_state cs) \<and> resident (cs_state cs) (unat (fst d))" unfolding ds_def tx_delta_keys using ins outs by auto
  qed
  have split: "(\<Sum>d \<leftarrow> ds. h (f (unat (fst d)))) = (\<Sum>x \<leftarrow> live_inputs body. h (input_value body (snd x))) + (\<Sum>x \<leftarrow> live_outputs body. h SLOT_EMPTY)"
    for h :: "slot_value \<Rightarrow> nat"
  proof -
    have "(\<Sum>d \<leftarrow> ds. h (f (unat (fst d)))) = (\<Sum>k \<leftarrow> map fst ds. h (f (unat k)))" by (simp add: comp_def)
    also have "\<dots> = (\<Sum>x \<leftarrow> live_inputs body. h (f (unat (in_slot_index (snd x))))) + (\<Sum>x \<leftarrow> live_outputs body. h (f (unat (out_slot_index (snd x)))))"
      unfolding ds_def tx_delta_keys by (simp add: comp_def)
    also have "\<dots> = (\<Sum>x \<leftarrow> live_inputs body. h (input_value body (snd x))) + (\<Sum>x \<leftarrow> live_outputs body. h SLOT_EMPTY)"
      using ins outs by (simp cong: map_cong)
    finally show ?thesis .
  qed
  note mv = minted_values [OF bound, of body h]
  show "live_amount (write_all f ds) (2 ^ 32) + input_total body = live_amount f (2 ^ 32) + output_total body"
    using sum_write_all [OF dist, of "\<lambda>v. unat (slot_amount v)" f] split [of "\<lambda>v. unat (slot_amount v)"] mv(2)
    by (simp add: live_amount_def ds_def tx_deltas_def spent_def input_value_def comp_def input_total_def output_total_def case_prod_unfold)
  have "(\<Sum>x \<leftarrow> live_inputs body. of_bool (input_value body (snd x) \<noteq> SLOT_EMPTY)) = length (live_inputs body)"
    using claims by (simp add: sum_list_triv cong: map_cong)
  then show "live_slots (write_all f ds) (2 ^ 32) + length (live_inputs body) = live_slots f (2 ^ 32) + length (live_outputs body)"
    using sum_write_all [OF dist, of "\<lambda>v. of_bool (v \<noteq> SLOT_EMPTY)" f] split [of "\<lambda>v. of_bool (v \<noteq> SLOT_EMPTY)"] mv(1)
    by (simp add: live_slots_sum ds_def tx_deltas_def spent_def comp_def)
qed

lemma tx_applied_invariant:
  assumes rep: "represents (cs_state cs) f" and cnt: "counters_ok cs f"
    and claims: "\<forall>x \<in> set (live_inputs body). input_value body (snd x) \<noteq> SLOT_EMPTY"
    and ready: "tx_ready body h cs f" and ap: "tx_applied body h cs f cs'"
  defines "f' \<equiv> write_all f (tx_deltas body h (cs_alloc_counter cs))"
  shows "represents (cs_state cs') f'" "counters_ok cs' f'" "ss_evicted (cs_state cs') = ss_evicted (cs_state cs)"
    "ss_log_slots (cs_state cs') = ss_log_slots (cs_state cs)" "ss_effective_log_seg (cs_state cs') = ss_effective_log_seg (cs_state cs)"
    "unat (cs_circulating_supply cs') + input_total body = unat (cs_circulating_supply cs) + output_total body"
proof -
  note d = tx_delta_sums [OF ready claims]
  have res: "\<forall>d \<in> set (tx_deltas body h (cs_alloc_counter cs)). resident (cs_state cs) (unat (fst d))" using d(2) by blast
  have ad: "apply_delta_in_place (cs_state cs) (tx_deltas body h (cs_alloc_counter cs)) = Inr (cs_state cs')" using ap by (simp add: tx_applied_def)
  note w = apply_delta_resident [OF rep ad res, folded f'_def]
  show rep': "represents (cs_state cs') f'" by (rule w(1))
  show "ss_evicted (cs_state cs') = ss_evicted (cs_state cs)" "ss_log_slots (cs_state cs') = ss_log_slots (cs_state cs)"
    "ss_effective_log_seg (cs_state cs') = ss_effective_log_seg (cs_state cs)" by (rule w)+
  note n = live_amount_represents [OF rep] and n' = live_amount_represents [OF rep']
  have sup: "unat (cs_circulating_supply cs') = live_amount f' (2 ^ 32)" using ap by (simp only: tx_applied_def f'_def)
  show "unat (cs_circulating_supply cs') + input_total body = unat (cs_circulating_supply cs) + output_total body"
    using d(3) cnt n(1) sup by (simp only: counters_ok_def f'_def)
  have "unat (cs_active_slot_count cs') + length (live_inputs body) = unat (cs_active_slot_count cs) + length (live_outputs body)"
    using ap by (simp only: tx_applied_def)
  moreover have "unat (cs_active_slot_count cs) = live_slots f (2 ^ 32)" using cnt n(2) by (simp only: counters_ok_def)
  ultimately have "unat (cs_active_slot_count cs') = live_slots f' (2 ^ 32)" using d(4) unfolding f'_def by linarith
  then show "counters_ok cs' f'" using sup n' by (simp only: counters_ok_def)
qed

subsection \<open>The exact root\<close>

lemma roots_okD:
  assumes "roots_ok perm s roots f"
  shows "root_cache_ok perm roots" "rc_log_slots roots = ss_log_slots s" "sid \<in> ss_exact_dirty s \<Longrightarrow> unat sid < ss_num_segments s"
    "k < ss_num_segments s \<Longrightarrow> of_nat k \<notin> ss_exact_dirty s \<Longrightarrow>
      rc_segment_roots roots ! k = tree_node perm (slot_hashes perm f) (ss_effective_log_seg s) k"
  using assms unfolding roots_ok_def by blast+

lemma roots_geometry:
  assumes "geometry s" "root_cache_ok perm roots" "rc_log_slots roots = ss_log_slots s"
  shows "rc_effective_log_seg roots = ss_effective_log_seg s" "length (rc_segment_roots roots) = ss_num_segments s"
  using assms(1,2) unfolding geometry_def root_cache_ok_def assms(3) by simp_all

lemma exact_root_of_segments:
  assumes "geometry s" "root_cache_ok perm roots" "rc_log_slots roots = ss_log_slots s"
    and "\<And>k. k < ss_num_segments s \<Longrightarrow> rc_segment_roots roots ! k = tree_node perm (slot_hashes perm f) (ss_effective_log_seg s) k"
  shows "rc_root roots = tree_node perm (slot_hashes perm f) (ss_log_slots s) 0"
proof -
  let ?e = "ss_effective_log_seg s" let ?u = "ss_log_slots s - ?e"
  have num: "ss_num_segments s = 2 ^ ?u" using assms(1) by (simp add: geometry_def)
  have "rc_root roots = tree_node perm ((!) (rc_segment_roots roots)) ?u 0"
    using rc_root_ok [OF assms(2)] roots_geometry(1) [OF assms(1-3)] assms(3) by simp
  also have "\<dots> = tree_node perm (tree_node perm (slot_hashes perm f) ?e) ?u 0"
    by (rule tree_node_cong) (use assms(4) num in \<open>simp add: div_eq_0_iff\<close>)
  also have "\<dots> = tree_node perm (slot_hashes perm f) (ss_log_slots s) 0"
    unfolding tree_node_trees using geometry_facts(2) [OF assms(1)] by simp
  finally show ?thesis .
qed

lemma write_slot_dirty:
  assumes "represents s f" "unat idx < num_slots s" "resident s (unat idx)"
  shows "ss_exact_dirty (write_slot s (idx, v)) =
    (if f (unat idx) = v then ss_exact_dirty s else insert (of_nat (unat idx div 2 ^ ss_effective_log_seg s)) (ss_exact_dirty s))"
    "ss_num_segments (write_slot s (idx, v)) = ss_num_segments s"
proof -
  note id = unat_seg_id [OF representsD(1) [OF assms(1)] assms(2)] and old = slot_represents [OF assms]
  have ev: "seg_id_of s idx \<notin> ss_evicted s" using assms(3) id(2) by (simp add: resident_def)
  have "ss_exact_dirty (write_slot s (idx, v)) =
      (if f (unat idx) = v then ss_exact_dirty s else insert (of_nat (unat idx div 2 ^ ss_effective_log_seg s)) (ss_exact_dirty s)) \<and>
    ss_num_segments (write_slot s (idx, v)) = ss_num_segments s"
  proof (cases "slot s idx = v")
    case True
    then show ?thesis using old by (simp add: write_slot_def Let_def)
  next
    case False
    then show ?thesis using write_slot_eq [OF ev False] old id(2) by (simp add: Let_def mark_dirty_def)
  qed
  then show "ss_exact_dirty (write_slot s (idx, v)) =
      (if f (unat idx) = v then ss_exact_dirty s else insert (of_nat (unat idx div 2 ^ ss_effective_log_seg s)) (ss_exact_dirty s))"
    "ss_num_segments (write_slot s (idx, v)) = ss_num_segments s" by blast+
qed

lemma roots_ok_write_slot:
  assumes rep: "represents s f" and ok: "roots_ok perm s roots f" and idx: "unat idx < num_slots s" "resident s (unat idx)"
  shows "roots_ok perm (write_slot s (idx, v)) roots (f(unat idx := v))"
proof (cases "f (unat idx) = v")
  case True
  then have "write_slot s (idx, v) = s" "f(unat idx := v) = f" using slot_represents [OF rep idx] by (auto simp: write_slot_def Let_def)
  then show ?thesis using ok by simp
next
  case False
  let ?k = "unat idx div 2 ^ ss_effective_log_seg s" let ?s = "write_slot s (idx, v)"
  note g = representsD(1) [OF rep] and w = write_slot_represents [OF rep idx, of v] and dirty = write_slot_dirty [OF rep idx, of v]
  have k: "?k < ss_num_segments s" by (rule seg_index_lt [OF g idx(1)])
  then have uk: "unat (of_nat ?k :: u16) = ?k" using geometry_facts(6) [OF g] by (intro unat_u16_of_nat) linarith
  have d: "ss_exact_dirty ?s = insert (of_nat ?k) (ss_exact_dirty s)" using dirty(1) False by simp
  show ?thesis unfolding roots_ok_def w dirty(2) d
  proof (intro conjI allI impI)
    show "root_cache_ok perm roots" "rc_log_slots roots = ss_log_slots s" by (rule roots_okD [OF ok])+
    show "\<forall>sid \<in> insert (of_nat ?k) (ss_exact_dirty s). unat sid < ss_num_segments s" using roots_okD(3) [OF ok] uk k by auto
    fix j
    assume j: "j < ss_num_segments s" "of_nat j \<notin> insert (of_nat ?k) (ss_exact_dirty s)"
    then have "j \<noteq> ?k" by auto
    have "tree_node perm (slot_hashes perm (f(unat idx := v))) (ss_effective_log_seg s) j = tree_node perm (slot_hashes perm f) (ss_effective_log_seg s) j"
      by (rule tree_node_cong) (use \<open>j \<noteq> ?k\<close> in \<open>auto simp: slot_hashes_def\<close>)
    then show "rc_segment_roots roots ! j = tree_node perm (slot_hashes perm (f(unat idx := v))) (ss_effective_log_seg s) j"
      using roots_okD(4) [OF ok j(1)] j(2) by simp
  qed
qed

lemma roots_ok_write_all:
  assumes "represents s f" "roots_ok perm s roots f" "\<forall>d \<in> set ds. unat (fst d) < num_slots s \<and> resident s (unat (fst d))"
  shows "roots_ok perm (foldl write_slot s ds) roots (write_all f ds)"
  using assms
proof (induction ds arbitrary: s f)
  case (Cons d ds)
  obtain i v where d: "d = (i, v)" by (cases d)
  have i: "unat i < num_slots s" "resident s (unat i)" using Cons.prems d by simp_all
  note w = write_slot_represents [OF Cons.prems(1) i, of v]
  have "\<forall>d \<in> set ds. unat (fst d) < num_slots (write_slot s (i, v)) \<and> resident (write_slot s (i, v)) (unat (fst d))"
    using Cons.prems(3) by (simp add: num_slots_def resident_def w(2-4))
  from Cons.IH [OF w(1) roots_ok_write_slot [OF Cons.prems(1,2) i] this] show ?case unfolding d foldl_Cons write_all_simps fst_conv snd_conv .
qed simp

lemma roots_ok_apply_delta:
  assumes "represents s f" "roots_ok perm s roots f" "apply_delta_in_place s ds = Inr s'" "\<forall>d \<in> set ds. resident s (unat (fst d))"
  shows "roots_ok perm s' roots (write_all f ds)"
proof -
  have "\<not> (\<exists>d \<in> set ds. num_slots s \<le> unat (fst d))" using assms(3) apply_delta_rejects [of ds s] by auto
  then have "\<forall>d \<in> set ds. unat (fst d) < num_slots s \<and> resident s (unat (fst d))" using assms(4) by (meson not_le)
  moreover have "s' = foldl write_slot s ds" using assms(3) by (simp add: apply_delta_in_place_def split: if_splits)
  ultimately show ?thesis using roots_ok_write_all [OF assms(1,2)] by simp
qed

lemma refresh_segment_exact:
  assumes "represents s f" "unat sid < ss_num_segments s" "sid \<notin> ss_evicted s"
  shows "refresh_segment perm s roots sid =
    Inr (set_segment_root perm sid (tree_node perm (slot_hashes perm f) (ss_effective_log_seg s) (unat sid)) roots)"
  using assms(3) exact_segment_root_represents [OF assms] by (simp add: refresh_segment_def is_evicted_def)

lemma refresh_fold:
  assumes rep: "represents s f" and "\<forall>sid \<in> set ids. unat sid < ss_num_segments s \<and> sid \<notin> ss_evicted s"
    and "root_cache_ok perm roots" "rc_log_slots roots = ss_log_slots s"
  shows "\<exists>roots'. rfold (refresh_segment perm s) roots ids = Inr roots' \<and> root_cache_ok perm roots' \<and> rc_log_slots roots' = ss_log_slots s \<and>
    (\<forall>k < ss_num_segments s. rc_segment_roots roots' ! k =
       (if of_nat k \<in> set ids then tree_node perm (slot_hashes perm f) (ss_effective_log_seg s) k else rc_segment_roots roots ! k))"
  using assms(2-4)
proof (induction ids arbitrary: roots)
  case (Cons sid ids)
  note g = representsD(1) [OF rep]
  let ?r = "set_segment_root perm sid (tree_node perm (slot_hashes perm f) (ss_effective_log_seg s) (unat sid)) roots"
  have sid: "unat sid < ss_num_segments s" "sid \<notin> ss_evicted s" using Cons.prems(1) by simp_all
  note len = roots_geometry(2) [OF g Cons.prems(2,3)]
  have lt: "unat sid < length (rc_segment_roots roots)" using len sid(1) by simp
  note set = set_segment_root_ok [OF Cons.prems(2) lt, of "tree_node perm (slot_hashes perm f) (ss_effective_log_seg s) (unat sid)"]
  have log: "rc_log_slots ?r = ss_log_slots s" using set(3) Cons.prems(3) by simp
  obtain roots' where r': "rfold (refresh_segment perm s) ?r ids = Inr roots'" "root_cache_ok perm roots'" "rc_log_slots roots' = ss_log_slots s"
    "\<And>k. k < ss_num_segments s \<Longrightarrow> rc_segment_roots roots' ! k =
       (if of_nat k \<in> set ids then tree_node perm (slot_hashes perm f) (ss_effective_log_seg s) k else rc_segment_roots ?r ! k)"
    using Cons.IH [OF _ set(1) log] Cons.prems(1) by auto
  have "rc_segment_roots roots' ! k =
      (if of_nat k \<in> set (sid # ids) then tree_node perm (slot_hashes perm f) (ss_effective_log_seg s) k else rc_segment_roots roots ! k)"
    if k: "k < ss_num_segments s" for k
  proof -
    have "of_nat k = sid \<longleftrightarrow> k = unat sid" using of_nat_u16_inject [OF g k sid(1)] by simp
    then show ?thesis using r'(4) [OF k] set(2) lt by (simp add: nth_list_update)
  qed
  then show ?case using r'(1-3) refresh_segment_exact [OF rep sid, of perm roots] by simp
qed simp

lemma refresh_fold_evicted:
  assumes rep: "represents s f" and "\<forall>sid \<in> set ids. unat sid < ss_num_segments s" "\<exists>sid \<in> set ids. sid \<in> ss_evicted s"
  shows "\<exists>sid \<in> set ids \<inter> ss_evicted s. rfold (refresh_segment perm s) roots ids = Inl (Failed (EvictedSegment sid))"
  using assms(2,3)
proof (induction ids arbitrary: roots)
  case (Cons sid ids)
  show ?case
  proof (cases "sid \<in> ss_evicted s")
    case True
    then show ?thesis by (simp add: refresh_segment_def is_evicted_def)
  next
    case False
    then have "refresh_segment perm s roots sid =
        Inr (set_segment_root perm sid (tree_node perm (slot_hashes perm f) (ss_effective_log_seg s) (unat sid)) roots)"
      using refresh_segment_exact [OF rep _ False] Cons.prems(1) by simp
    then show ?thesis using Cons.IH Cons.prems False by fastforce
  qed
qed simp

lemma align_same: "rc_log_slots roots = log_slots \<Longrightarrow> align_roots perm log_slots roots = roots"
  by (simp add: align_roots_def)

lemma try_state_root_exact:
  assumes rep: "represents (cs_state cs) f" and ok: "roots_ok perm (cs_state cs) (align_roots perm (ss_log_slots (cs_state cs)) (cs_exact_roots cs)) f"
    and iter: "iterates iter" and res: "ss_exact_dirty (cs_state cs) \<inter> ss_evicted (cs_state cs) = {}"
  defines "root \<equiv> tree_node perm (slot_hashes perm f) (ss_log_slots (cs_state cs)) 0"
  shows "\<exists>roots. try_state_root perm iter cs = Inr (root, cs\<lparr>cs_state := clear_exact_dirty (cs_state cs), cs_exact_roots := roots, cs_utxo_root := root\<rparr>) \<and>
    roots_ok perm (clear_exact_dirty (cs_state cs)) roots f \<and> rc_root roots = root"
proof -
  let ?s = "cs_state cs" let ?ids = "iter (ss_exact_dirty ?s)"
  note g = representsD(1) [OF rep]
  have ids: "set ?ids = ss_exact_dirty ?s" using iter by (simp add: iterates_def)
  have "\<forall>sid \<in> set ?ids. unat sid < ss_num_segments ?s \<and> sid \<notin> ss_evicted ?s" using roots_okD(3) [OF ok] res unfolding ids by blast
  from refresh_fold [OF rep this roots_okD(1,2) [OF ok]] obtain roots where
    r: "rfold (refresh_segment perm ?s) (align_roots perm (ss_log_slots ?s) (cs_exact_roots cs)) ?ids = Inr roots" "root_cache_ok perm roots"
      "rc_log_slots roots = ss_log_slots ?s"
      "\<forall>k < ss_num_segments ?s. rc_segment_roots roots ! k = (if of_nat k \<in> set ?ids then tree_node perm (slot_hashes perm f) (ss_effective_log_seg ?s) k
         else rc_segment_roots (align_roots perm (ss_log_slots ?s) (cs_exact_roots cs)) ! k)" by blast
  have seg: "rc_segment_roots roots ! k = tree_node perm (slot_hashes perm f) (ss_effective_log_seg ?s) k" if "k < ss_num_segments ?s" for k
    using r(4) that roots_okD(4) [OF ok that] unfolding ids by simp
  have root: "rc_root roots = root" unfolding root_def by (rule exact_root_of_segments [OF g r(2,3) seg])
  moreover have "roots_ok perm (clear_exact_dirty ?s) roots f" using r(2,3) seg by (simp add: roots_ok_def clear_exact_dirty_def)
  moreover have "try_state_root perm iter cs = Inr (root, cs\<lparr>cs_state := clear_exact_dirty ?s, cs_exact_roots := roots, cs_utxo_root := root\<rparr>)"
    unfolding try_state_root_def Let_def r(1) rbind_simps root ..
  ultimately show ?thesis by blast
qed

lemma try_state_root_unavailable:
  assumes "represents (cs_state cs) f" "roots_ok perm (cs_state cs) (align_roots perm (ss_log_slots (cs_state cs)) (cs_exact_roots cs)) f"
    "iterates iter" "ss_exact_dirty (cs_state cs) \<inter> ss_evicted (cs_state cs) \<noteq> {}"
  shows "\<exists>sid \<in> ss_exact_dirty (cs_state cs) \<inter> ss_evicted (cs_state cs). try_state_root perm iter cs = Inl (Failed (EvictedSegment sid))"
proof -
  have ids: "set (iter (ss_exact_dirty (cs_state cs))) = ss_exact_dirty (cs_state cs)" using assms(3) by (simp add: iterates_def)
  have "\<forall>sid \<in> ss_exact_dirty (cs_state cs). unat sid < ss_num_segments (cs_state cs)" "\<exists>sid \<in> ss_exact_dirty (cs_state cs). sid \<in> ss_evicted (cs_state cs)"
    using roots_okD(3) [OF assms(2)] assms(4) by blast+
  from refresh_fold_evicted [OF assms(1), of "iter (ss_exact_dirty (cs_state cs))", unfolded ids, OF this]
  obtain sid where sid: "sid \<in> ss_exact_dirty (cs_state cs) \<inter> ss_evicted (cs_state cs)"
    "rfold (refresh_segment perm (cs_state cs)) (align_roots perm (ss_log_slots (cs_state cs)) (cs_exact_roots cs)) (iter (ss_exact_dirty (cs_state cs))) =
      Inl (Failed (EvictedSegment sid))" by blast
  show ?thesis by (rule bexI [OF _ sid(1)]) (simp only: try_state_root_def Let_def sid(2) rbind_simps)
qed

lemma chain_okD:
  assumes "chain_ok perm cs f"
  shows "represents (cs_state cs) f" "counters_ok cs f" "roots_ok perm (cs_state cs) (cs_exact_roots cs) f"
    "ss_exact_dirty (cs_state cs) \<inter> ss_evicted (cs_state cs) = {}"
  using assms by (simp_all add: chain_ok_def)

lemma foldl_write_dirty:
  assumes "represents s f" "\<forall>d \<in> set ds. unat (fst d) < num_slots s \<and> resident s (unat (fst d))" "ss_exact_dirty s \<inter> ss_evicted s = {}"
  shows "ss_exact_dirty (foldl write_slot s ds) \<inter> ss_evicted s = {}"
  using assms
proof (induction ds arbitrary: s f)
  case (Cons d ds)
  obtain i v where d: "d = (i, v)" by (cases d)
  have i: "unat i < num_slots s" "resident s (unat i)" using Cons.prems d by simp_all
  note w = write_slot_represents [OF Cons.prems(1) i, of v]
  have "\<forall>d \<in> set ds. unat (fst d) < num_slots (write_slot s (i, v)) \<and> resident (write_slot s (i, v)) (unat (fst d))"
    using Cons.prems(2) by (simp add: num_slots_def resident_def w(2-4))
  moreover have "ss_exact_dirty (write_slot s (i, v)) \<inter> ss_evicted (write_slot s (i, v)) = {}"
    using Cons.prems(3) i(2) write_slot_dirty(1) [OF Cons.prems(1) i, of v] by (simp add: w(2) resident_def)
  ultimately show ?case using Cons.IH [OF w(1)] unfolding d foldl_Cons w(2) by blast
qed simp

lemma apply_delta_dirty:
  assumes "represents s f" "apply_delta_in_place s ds = Inr s'" "\<forall>d \<in> set ds. resident s (unat (fst d))" "ss_exact_dirty s \<inter> ss_evicted s = {}"
  shows "ss_exact_dirty s' \<inter> ss_evicted s' = {}"
proof -
  have "\<not> (\<exists>d \<in> set ds. num_slots s \<le> unat (fst d))" using assms(2) apply_delta_rejects [of ds s] by auto
  then have "\<forall>d \<in> set ds. unat (fst d) < num_slots s \<and> resident s (unat (fst d))" using assms(3) by (meson not_le)
  moreover have "s' = foldl write_slot s ds" using assms(2) by (simp add: apply_delta_in_place_def split: if_splits)
  ultimately show ?thesis using foldl_write_dirty [OF assms(1) _ assms(4)] apply_delta_resident(2) [OF assms(1-3)] by simp
qed

lemma chain_ok_tx_applied:
  assumes ok: "chain_ok perm cs f" and claims: "\<forall>x \<in> set (live_inputs body). input_value body (snd x) \<noteq> SLOT_EMPTY"
    and ready: "tx_ready body h cs f" and ap: "tx_applied body h cs f cs'"
  shows "chain_ok perm cs' (write_all f (tx_deltas body h (cs_alloc_counter cs)))"
proof -
  note o = chain_okD [OF ok]
  note inv = tx_applied_invariant [OF o(1,2) claims ready ap]
  have ad: "apply_delta_in_place (cs_state cs) (tx_deltas body h (cs_alloc_counter cs)) = Inr (cs_state cs')"
    and roots: "cs_exact_roots cs' = cs_exact_roots cs" using ap by (simp_all add: tx_applied_def)
  have res: "\<forall>d \<in> set (tx_deltas body h (cs_alloc_counter cs)). resident (cs_state cs) (unat (fst d))" using tx_delta_sums(2) [OF ready claims] by blast
  show ?thesis unfolding chain_ok_def roots
    using inv(1,2) roots_ok_apply_delta [OF o(1,3) ad res] apply_delta_dirty [OF o(1) ad res o(4)] by blast
qed

lemma chain_ok_try_state_root:
  assumes ok: "chain_ok perm cs f" and iter: "iterates iter"
  shows "\<exists>cs'. try_state_root perm iter cs = Inr (tree_node perm (slot_hashes perm f) (ss_log_slots (cs_state cs)) 0, cs') \<and>
    chain_ok perm cs' f \<and> sealed perm cs' f \<and> cs_alloc_counter cs' = cs_alloc_counter cs \<and> cs_active_slot_count cs' = cs_active_slot_count cs \<and>
    cs_circulating_supply cs' = cs_circulating_supply cs \<and> cs_state cs' = clear_exact_dirty (cs_state cs)"
proof -
  let ?s = "cs_state cs"
  note o = chain_okD [OF ok]
  have "roots_ok perm ?s (align_roots perm (ss_log_slots ?s) (cs_exact_roots cs)) f" using o(3) align_same [OF roots_okD(2) [OF o(3)]] by simp
  from try_state_root_exact [OF o(1) this iter o(4)] obtain roots where r:
    "try_state_root perm iter cs = Inr (tree_node perm (slot_hashes perm f) (ss_log_slots ?s) 0,
       cs\<lparr>cs_state := clear_exact_dirty ?s, cs_exact_roots := roots, cs_utxo_root := tree_node perm (slot_hashes perm f) (ss_log_slots ?s) 0\<rparr>)"
    "roots_ok perm (clear_exact_dirty ?s) roots f" by blast
  have "represents (clear_exact_dirty ?s) f" by (rule represents_flags [OF o(1)]) (simp_all add: clear_exact_dirty_def)
  then show ?thesis using r o(2) by (simp add: chain_ok_def sealed_def counters_ok_def num_slots_def clear_exact_dirty_def)
qed

lemma apply_tx_inner_exact:
  fixes h :: "u64 option"
  assumes ok: "chain_ok perm cs f" and iter: "iterates iter" and typed: "tx_body_typed body"
    and claims: "\<forall>x \<in> set (live_inputs body). input_value body (snd x) \<noteq> SLOT_EMPTY"
  defines "f' \<equiv> write_all f (tx_deltas body h (cs_alloc_counter cs))"
  shows "(\<exists>r. apply_tx_inner perm iter body h cs = Inr r) \<longleftrightarrow> tx_ready body h cs f"
    "apply_tx_inner perm iter body h cs = Inr (root, cs') \<Longrightarrow>
      root = tree_node perm (slot_hashes perm f') (ss_log_slots (cs_state cs)) 0 \<and> chain_ok perm cs' f' \<and> sealed perm cs' f' \<and>
      unat (cs_alloc_counter cs') = unat (cs_alloc_counter cs) + length (live_outputs body) \<and>
      unat (cs_circulating_supply cs') + input_total body = unat (cs_circulating_supply cs) + output_total body"
proof -
  note o = chain_okD [OF ok]
  note ex = apply_tx_checked_exact [OF o(1,2) typed claims]
  have step: "\<exists>cs2. apply_tx_inner perm iter body h cs = Inr (tree_node perm (slot_hashes perm f') (ss_log_slots (cs_state cs)) 0, cs2) \<and>
      chain_ok perm cs2 f' \<and> sealed perm cs2 f' \<and>
      unat (cs_alloc_counter cs2) = unat (cs_alloc_counter cs) + length (live_outputs body) \<and>
      unat (cs_circulating_supply cs2) + input_total body = unat (cs_circulating_supply cs) + output_total body"
    if ap: "apply_tx_checked_deferred_root body h cs = Inr cs1" for cs1
  proof -
    have ready: "tx_ready body h cs f" using ex(1) ap by blast
    note app = ex(2) [OF ap]
    have ok1: "chain_ok perm cs1 f'" unfolding f'_def by (rule chain_ok_tx_applied [OF ok claims ready app])
    note inv = tx_applied_invariant [OF o(1,2) claims ready app]
    have "unat (cs_alloc_counter cs1) = unat (cs_alloc_counter cs) + length (live_outputs body)" using app by (simp add: tx_applied_def)
    then show ?thesis using chain_ok_try_state_root [OF ok1 iter] inv(4,6) ap by (auto simp: apply_tx_inner_def)
  qed
  have fail: "apply_tx_inner perm iter body h cs \<noteq> Inr r" if "\<not> tx_ready body h cs f" for r
    using ex(1) that by (cases "apply_tx_checked_deferred_root body h cs") (auto simp: apply_tx_inner_def)
  show "(\<exists>r. apply_tx_inner perm iter body h cs = Inr r) \<longleftrightarrow> tx_ready body h cs f" using ex(1) step fail by blast
  assume ap: "apply_tx_inner perm iter body h cs = Inr (root, cs')"
  then obtain cs1 where "apply_tx_checked_deferred_root body h cs = Inr cs1" using fail ex(1) by blast
  from step [OF this] ap show "root = tree_node perm (slot_hashes perm f') (ss_log_slots (cs_state cs)) 0 \<and> chain_ok perm cs' f' \<and> sealed perm cs' f' \<and>
      unat (cs_alloc_counter cs') = unat (cs_alloc_counter cs) + length (live_outputs body) \<and>
      unat (cs_circulating_supply cs') + input_total body = unat (cs_circulating_supply cs) + output_total body" by auto
qed

subsection \<open>Sequences of transactions\<close>

lemma tree_node_empty:
  assumes "\<And>i. i div 2 ^ level = k \<Longrightarrow> f i = SLOT_EMPTY"
  shows "tree_node perm (slot_hashes perm f) level k = zero_slot_roots perm level ! level"
  unfolding zero_slot_roots_nth [OF order_refl, of perm level k] by (rule tree_node_cong) (use assms in \<open>simp add: slot_hashes_def\<close>)

lemma chain_ok_start:
  assumes "1 \<le> log_slots" "log_slots \<le> 32"
  obtains cs where "with_log_slots perm log_slots = Some cs" "chain_ok perm cs (\<lambda>_. SLOT_EMPTY)" "sealed perm cs (\<lambda>_. SLOT_EMPTY)"
    "cs_alloc_counter cs = 0" "cs_circulating_supply cs = 0" "ss_log_slots (cs_state cs) = log_slots" "ss_evicted (cs_state cs) = {}"
proof -
  obtain s where s: "new_empty log_slots = Some s" "represents s (\<lambda>_. SLOT_EMPTY)" "ss_log_slots s = log_slots" "ss_evicted s = {}"
    using new_empty_represents [OF assms] .
  have d: "ss_exact_dirty s = {}" using s(1) by (auto simp: new_empty_def Let_def split: if_splits)
  have geo: "ss_effective_log_seg s = min log_slots LOG_SEGMENT_SIZE" "ss_num_segments s = 2 ^ (log_slots - min log_slots LOG_SEGMENT_SIZE)"
    using s(1) by (auto simp: new_empty_def Let_def min_def split: if_splits)
  have "roots_ok perm s (root_cache_empty perm log_slots) (\<lambda>_. SLOT_EMPTY)"
    unfolding roots_ok_def using root_cache_empty_ok [of perm log_slots] d s(3) geo
    by (simp add: root_cache_empty_def empty_with_segment_log_def Let_def tree_node_empty)
  then show ?thesis using that s d
    by (simp add: with_log_slots_def chain_ok_def sealed_def counters_ok_def live_slots_def live_amount_def tree_node_empty)
qed

lemma write_all_cases: "write_all f ds i = f i \<or> (\<exists>d \<in> set ds. write_all f ds i = snd d)"
  by (induction ds rule: rev_induct) (auto simp: write_all_snoc)

lemma coinbase_creation_id_tagged: "2 ^ 63 \<le> unat (coinbase_creation_id height)"
  unfolding coinbase_tag_iff [symmetric] is_coinbase_creation_id_def COINBASE_CREATION_TAG_def and_push_bit_one coinbase_creation_id_def bit_or_iff
  by (simp add: bit_push_bit_iff)

lemma minted_fresh:
  assumes "d \<in> set (minted body h c outs)" "unat c + length outs < 2 ^ 63"
  shows "unat c < unat (slot_creation_id (snd d))"
  using assms
proof (induction outs arbitrary: c)
  case (Cons out outs)
  have "unat (c + 1) = unat c + 1" using Cons.prems(2) by (simp add: unat_word_ariths)
  moreover have "2 ^ 63 \<le> unat (coinbase_creation_id (the h))" by (rule coinbase_creation_id_tagged)
  ultimately show ?case using Cons.IH [of "c + 1"] Cons.prems by (auto split: if_splits)
qed simp

lemma apply_step:
  assumes ok: "chain_ok perm cs f" and typed: "tx_body_typed body" and claims: "real_claims body"
    and ap: "apply_tx_checked_deferred_root body h cs = Inr cs'"
  defines "f' \<equiv> write_all f (tx_deltas body h (cs_alloc_counter cs))"
  shows "tx_ready body h cs f" "chain_ok perm cs' f'"
    "unat (cs_circulating_supply cs') + input_total body = unat (cs_circulating_supply cs) + output_total body"
    "unat (cs_alloc_counter cs') = unat (cs_alloc_counter cs) + length (live_outputs body)" "unat (cs_alloc_counter cs') < 2 ^ 63"
    "ss_evicted (cs_state cs') = ss_evicted (cs_state cs)" "ss_log_slots (cs_state cs') = ss_log_slots (cs_state cs)"
proof -
  note o = chain_okD [OF ok] and c = claims [unfolded real_claims_def]
  note ex = apply_tx_checked_exact [OF o(1,2) typed c]
  show ready: "tx_ready body h cs f" using ex(1) ap by blast
  note app = ex(2) [OF ap]
  show "chain_ok perm cs' f'" unfolding f'_def by (rule chain_ok_tx_applied [OF ok c ready app])
  note inv = tx_applied_invariant [OF o(1,2) c ready app]
  show "unat (cs_circulating_supply cs') + input_total body = unat (cs_circulating_supply cs) + output_total body"
    "ss_evicted (cs_state cs') = ss_evicted (cs_state cs)" "ss_log_slots (cs_state cs') = ss_log_slots (cs_state cs)" by (rule inv)+
  show al: "unat (cs_alloc_counter cs') = unat (cs_alloc_counter cs) + length (live_outputs body)" using app by (simp add: tx_applied_def)
  have "unat (cs_alloc_counter cs) + length (live_outputs body) < (if native_at h then 2 ^ 62 else 2 ^ 63)" using ready unfolding tx_ready_def by blast
  then show "unat (cs_alloc_counter cs') < 2 ^ 63" unfolding al by (simp split: if_splits)
qed

lemma coinbase_live_inputs:
  assumes "is_primary_coinbase_shape body \<or> is_development_payout_shape body"
  shows "live_inputs body = []"
proof -
  have "\<not> bit (output_bitmap_bit j) k" if "k < 8" for j k
    using that unfolding output_bitmap_bit_def tx_const_defs bit_push_bit_iff by simp
  then have "\<not> input_is_live body k" for k
    using assms unfolding input_is_live_bit is_primary_coinbase_shape_def is_development_payout_shape_def by (auto simp only: bit_or_iff)
  then show ?thesis by (simp add: live_inputs_def filter_empty_conv case_prod_beta)
qed

lemma canonical_balance:
  "canonical_body body \<Longrightarrow> tx_body_typed body \<Longrightarrow>
   input_total body + (if tx_is_coinbase body then output_total body else 0) = output_total body + unat (tx_fee body)"
  by (auto simp: canonical_body_def input_total_def coinbase_live_inputs split: if_splits)

lemma apply_txs_simps [simp]:
  "apply_txs [] cs = Inr cs"
  "apply_txs (tx # txs) cs = rbind (apply_tx_checked_deferred_root (fst tx) (Some (snd tx)) cs) (apply_txs txs)"
  by (simp_all add: apply_txs_def [abs_def] case_prod_beta)

lemma apply_txs_invariant:
  assumes "chain_ok perm cs f" "\<forall>tx \<in> set txs. tx_body_typed (fst tx) \<and> canonical_body (fst tx) \<and> real_claims (fst tx)"
    and "apply_txs txs cs = Inr cs'"
  shows "\<exists>f'. chain_ok perm cs' f' \<and> unat (cs_circulating_supply cs') + fees_paid txs = unat (cs_circulating_supply cs) + coins_minted txs"
  using assms
proof (induction txs arbitrary: cs f)
  case (Cons tx txs)
  obtain cs1 where s: "apply_tx_checked_deferred_root (fst tx) (Some (snd tx)) cs = Inr cs1" "apply_txs txs cs1 = Inr cs'"
    using Cons.prems(3) by (auto simp: rbind_eq_Inr)
  have tx: "tx_body_typed (fst tx)" "canonical_body (fst tx)" "real_claims (fst tx)" using Cons.prems(2) by simp_all
  note st = apply_step [OF Cons.prems(1) tx(1,3) s(1)]
  obtain f' where "chain_ok perm cs' f'" "unat (cs_circulating_supply cs') + fees_paid txs = unat (cs_circulating_supply cs1) + coins_minted txs"
    using Cons.IH [OF st(2) _ s(2)] Cons.prems(2) by auto
  then show ?case using st(3) canonical_balance [OF tx(2,1)] by (intro exI [of _ f']) (simp add: fees_paid_def coins_minted_def case_prod_beta)
qed (auto simp: fees_paid_def coins_minted_def)

lemma absent_step:
  assumes "tx_ready body h cs f" "f i \<noteq> v" "v \<noteq> SLOT_EMPTY" "unat (slot_creation_id v) \<le> unat (cs_alloc_counter cs)"
  shows "write_all f (tx_deltas body h (cs_alloc_counter cs)) i \<noteq> v"
proof
  assume eq: "write_all f (tx_deltas body h (cs_alloc_counter cs)) i = v"
  have "unat (cs_alloc_counter cs) + length (live_outputs body) < (if native_at h then 2 ^ 62 else 2 ^ 63)" using assms(1) unfolding tx_ready_def by blast
  then have bound: "unat (cs_alloc_counter cs) + length (live_outputs body) < 2 ^ 63" by (simp split: if_splits)
  obtain d where d: "d \<in> set (tx_deltas body h (cs_alloc_counter cs))" "v = snd d"
    using write_all_cases [of f "tx_deltas body h (cs_alloc_counter cs)" i] assms(2) eq by auto
  then have "d \<in> set (minted body h (cs_alloc_counter cs) (live_outputs body))" using assms(3) by (auto simp: tx_deltas_def spent_def)
  from minted_fresh [OF this bound] show False using assms(4) d(2) by simp
qed

lemma apply_txs_absent:
  assumes "chain_ok perm cs f" "\<forall>tx \<in> set txs. tx_body_typed (fst tx) \<and> real_claims (fst tx)" "apply_txs txs cs = Inr cs'"
    and "f i \<noteq> v" "v \<noteq> SLOT_EMPTY" "unat (slot_creation_id v) \<le> unat (cs_alloc_counter cs)"
  shows "\<exists>f'. chain_ok perm cs' f' \<and> f' i \<noteq> v"
  using assms
proof (induction txs arbitrary: cs f)
  case (Cons tx txs)
  obtain cs1 where s: "apply_tx_checked_deferred_root (fst tx) (Some (snd tx)) cs = Inr cs1" "apply_txs txs cs1 = Inr cs'"
    using Cons.prems(3) by (auto simp: rbind_eq_Inr)
  have tx: "tx_body_typed (fst tx)" "real_claims (fst tx)" using Cons.prems(2) by simp_all
  note st = apply_step [OF Cons.prems(1) tx s(1)]
  show ?case by (rule Cons.IH [OF st(2) _ s(2) absent_step [OF st(1) Cons.prems(4-6)] Cons.prems(5)]) (use Cons.prems(2,6) st(4) in auto)
qed auto

lemma spent_is_absent:
  assumes ok: "chain_ok perm cs f" and typed: "tx_body_typed body" and claims: "real_claims body"
    and ap: "apply_tx_checked_deferred_root body h cs = Inr cs'" and x: "x \<in> set (live_inputs body)"
  shows "write_all f (tx_deltas body h (cs_alloc_counter cs)) (unat (in_slot_index (snd x))) = SLOT_EMPTY"
proof -
  let ?ds = "tx_deltas body h (cs_alloc_counter cs)"
  have "slots_disjoint body" using apply_step(1) [OF ok typed claims ap] unfolding tx_ready_def by blast
  then have "distinct (map fst ?ds)" by (simp add: tx_delta_keys slots_disjoint_def)
  moreover have "(in_slot_index (snd x), SLOT_EMPTY) \<in> set ?ds" using x by (auto simp: tx_deltas_def spent_def)
  ultimately show ?thesis unfolding write_all_at by (simp add: map_of_rev_distinct)
qed

lemma mismatched_claim_refused:
  assumes ok: "chain_ok perm cs f" and typed: "tx_body_typed body"
    and x: "x \<in> set (live_inputs body)" "f (unat (in_slot_index (snd x))) \<noteq> input_value body (snd x)"
  shows "apply_tx_checked_deferred_root body h cs \<noteq> Inr cs'"
proof
  assume "apply_tx_checked_deferred_root body h cs = Inr cs'"
  from apply_tx_checked_ready [OF chain_okD(1) [OF ok] typed this] show False using x unfolding tx_ready_def by auto
qed

subsection \<open>Sample transactions\<close>

lemma sample_lives:
  "live_inputs sample_body = [(0, \<lparr>in_slot_index = 4, in_amount = 10, in_creation_id = 1\<rparr>)]"
  "live_outputs sample_body = [(0, \<lparr>out_slot_index = 6, out_amount = 7, out_owner = 8\<rparr>)]"
  "live_inputs fund_body = []"
  "live_outputs fund_body = [(0, \<lparr>out_slot_index = 4, out_amount = 10, out_owner = 9\<rparr>), (1, \<lparr>out_slot_index = 5, out_amount = 20, out_owner = 7\<rparr>)]"
  by code_simp+

lemma sample_facts:
  "tx_body_typed fund_body" "real_claims fund_body" "real_claims sample_body" "tx_is_coinbase fund_body" "\<not> tx_is_coinbase sample_body"
  "tx_input_owner sample_body = 9" "slots_disjoint fund_body" "slots_disjoint sample_body" "canonical_body fund_body" "\<not> is_primary_coinbase_shape fund_body"
  "\<not> is_primary_coinbase_shape sample_body" "tx_fee fund_body = 0" "tx_fee sample_body = 3"
  by code_simp+

lemma sample_iterates: "iterates sample_iter"
  by (simp add: iterates_def sample_iter_def)

lemma funded_chain:
  obtains cs0 cs1 f1 where "with_log_slots id 3 = Some cs0" "chain_ok id cs0 (\<lambda>_. SLOT_EMPTY)" "cs_circulating_supply cs0 = 0"
    "apply_tx_checked_deferred_root fund_body (Some 1) cs0 = Inr cs1" "chain_ok id cs1 f1" "cs_alloc_counter cs1 = 2"
    "tx_ready sample_body (Some 2) cs1 f1" "ss_log_slots (cs_state cs1) = 3"
proof -
  obtain cs0 where cs0: "with_log_slots id 3 = Some cs0" "chain_ok id cs0 (\<lambda>_. SLOT_EMPTY)" "cs_alloc_counter cs0 = 0"
    "cs_circulating_supply cs0 = 0" "ss_log_slots (cs_state cs0) = 3" "ss_evicted (cs_state cs0) = {}"
    using chain_ok_start [of 3 id] by auto
  note o = chain_okD [OF cs0(2)]
  have "tx_ready fund_body (Some 1) cs0 (\<lambda>_. SLOT_EMPTY)"
    unfolding tx_ready_def sample_lives by (simp add: sample_facts num_slots_def resident_def cs0)
  then obtain cs1 where cs1: "apply_tx_checked_deferred_root fund_body (Some 1) cs0 = Inr cs1"
    using apply_tx_checked_exact(1) [OF o(1,2) sample_facts(1) sample_facts(2) [unfolded real_claims_def]] by blast
  let ?f = "write_all (\<lambda>_. SLOT_EMPTY) (tx_deltas fund_body (Some 1) (cs_alloc_counter cs0))"
  note st = apply_step [OF cs0(2) sample_facts(1,2) cs1]
  have al: "unat (cs_alloc_counter cs1) = 2" using st(4) cs0(3) by (simp add: sample_lives)
  have f: "?f 4 = slot_with_owner_fields 10 1 (digest_fields 9)" "?f 6 = SLOT_EMPTY"
    by (simp_all add: tx_deltas_def spent_def sample_lives cs0(3) sample_facts)
  have "tx_ready sample_body (Some 2) cs1 ?f"
    unfolding tx_ready_def sample_lives using f
    by (simp add: sample_facts num_slots_def resident_def cs0 st(6,7) al input_value_def NATIVE_CREATION_TAG_def v2_1_active_def native_at_def)
  moreover have "cs_alloc_counter cs1 = 2" using al by (simp add: word_unat_eq_iff)
  ultimately show ?thesis using that cs0 cs1 st(2,7) by simp
qed

section \<open>Properties\<close>

text \<open>C1: On a state whose store represents the slots \<open>f\<close>, whose counters count them and whose fresh segment roots are theirs, a
  transaction none of whose live inputs claims the all-zero value of an empty slot applies at a height exactly when it is ready: its live slots are distinct, in range and in memory, every spent slot holds
  the output its input claims and, where native operations are active, no native one, every minted slot is empty, and the allocation
  counter stays below its namespace bound. The result represents \<open>f\<close> with the spent slots emptied and the outputs written under the next
  creation ids, keeps every invariant, advances the allocation counter by the outputs, moves the supply by outputs less inputs, and
  returns the root of the whole tree over the new slots, with no segment left stale.\<close>

theorem transaction_applies_exactly:
  assumes "chain_ok perm cs f" "iterates iter" "tx_body_typed body" "real_claims body"
  shows "((\<exists>r. apply_tx_at perm iter body h cs = Inr r) \<longleftrightarrow> tx_ready body (Some h) cs f) \<and>
    (\<forall>root cs'. apply_tx_at perm iter body h cs = Inr (root, cs') \<longrightarrow>
      (let f' = write_all f (tx_deltas body (Some h) (cs_alloc_counter cs)) in
       root = tree_node perm (slot_hashes perm f') (ss_log_slots (cs_state cs)) 0 \<and> chain_ok perm cs' f' \<and> sealed perm cs' f' \<and>
       unat (cs_alloc_counter cs') = unat (cs_alloc_counter cs) + length (live_outputs body) \<and>
       unat (cs_circulating_supply cs') + input_total body = unat (cs_circulating_supply cs) + output_total body))"
  unfolding apply_tx_at_def Let_def
  using apply_tx_inner_exact [OF assms(1-3) assms(4) [unfolded real_claims_def]] by blast

theorem transaction_applies_exactly_witness:
  "\<exists>cs root cs'. apply_tx_at id sample_iter sample_body 2 cs = Inr (root, cs') \<and> cs_alloc_counter cs = 2 \<and> unat (cs_alloc_counter cs') = 3"
proof -
  obtain cs f where cs: "chain_ok id cs f" "cs_alloc_counter cs = 2" "tx_ready sample_body (Some 2) cs f" using funded_chain by metis
  note p = transaction_applies_exactly [OF cs(1) sample_iterates sample_body_typed sample_facts(3)]
  obtain root cs' where r: "apply_tx_at id sample_iter sample_body 2 cs = Inr (root, cs')" using p [of 2] cs(3) by (metis surj_pair)
  then have "unat (cs_alloc_counter cs') = 3" using p [of 2] cs(2) by (simp add: Let_def sample_lives)
  then show ?thesis using r cs(2) by blast
qed

text \<open>C5: Over any sequence of canonical transactions that apply one after the other, none of whose live inputs claims the all-zero value
  of an empty slot, the circulating supply stays the sum of the
  amounts in the live slots, and it ends at its start plus what the coinbases mint less the fees the user transactions pay.\<close>

theorem supply_follows_fees_and_coinbases:
  assumes "chain_ok perm cs f" "\<forall>tx \<in> set txs. tx_body_typed (fst tx) \<and> canonical_body (fst tx) \<and> real_claims (fst tx)"
    and "apply_txs txs cs = Inr cs'"
  shows "unat (cs_circulating_supply cs') + fees_paid txs = unat (cs_circulating_supply cs) + coins_minted txs \<and>
    (\<exists>f'. represents (cs_state cs') f' \<and> unat (cs_circulating_supply cs') = live_amount f' (num_slots (cs_state cs')) \<and>
       unat (cs_active_slot_count cs') = live_slots f' (num_slots (cs_state cs')))"
  using apply_txs_invariant [OF assms] unfolding chain_ok_def counters_ok_def by blast

theorem supply_follows_fees_and_coinbases_witness:
  "\<exists>cs cs'. with_log_slots id 3 = Some cs \<and> apply_txs [(fund_body, 1), (sample_body, 2)] cs = Inr cs' \<and> unat (cs_circulating_supply cs') = 27"
proof -
  obtain cs0 cs1 f1 where c: "with_log_slots id 3 = Some cs0" "chain_ok id cs0 (\<lambda>_. SLOT_EMPTY)" "cs_circulating_supply cs0 = 0"
    "apply_tx_checked_deferred_root fund_body (Some 1) cs0 = Inr cs1" "chain_ok id cs1 f1" "tx_ready sample_body (Some 2) cs1 f1"
    using funded_chain by metis
  note o = chain_okD [OF c(5)]
  obtain cs2 where "apply_tx_checked_deferred_root sample_body (Some 2) cs1 = Inr cs2"
    using apply_tx_checked_exact(1) [OF o(1,2) sample_body_typed sample_facts(3) [unfolded real_claims_def]] c(6) by blast
  then have run: "apply_txs [(fund_body, 1), (sample_body, 2)] cs0 = Inr cs2" using c(4) by simp
  have "canonical_body sample_body" by code_simp
  then have "\<forall>tx \<in> set [(fund_body, 1), (sample_body, 2)]. tx_body_typed (fst tx) \<and> canonical_body (fst tx) \<and> real_claims (fst tx)"
    using sample_facts sample_body_typed by simp
  from supply_follows_fees_and_coinbases [OF c(2) this run]
  have "unat (cs_circulating_supply cs2) = 27"
    using c(3) by (simp add: fees_paid_def coins_minted_def sample_facts output_total_def sample_lives)
  then show ?thesis using c(1) run by blast
qed

text \<open>C4: A spent output never returns, as long as no applied transaction has a live input that claims the all-zero value of an empty slot.
  Once a transaction has spent an output whose creation id the allocation counter has reached, no transaction that claims the same slot with the same amount, creation id and owner applies to the resulting state, nor to any state that
  further transactions lead to.\<close>

theorem spent_output_never_returns:
  assumes "chain_ok perm cs f" "tx_body_typed body" "real_claims body" "apply_tx_checked_deferred_root body h cs = Inr cs1"
    and "x \<in> set (live_inputs body)" "unat (in_creation_id (snd x)) \<le> unat (cs_alloc_counter cs)"
    and "\<forall>tx \<in> set txs. tx_body_typed (fst tx) \<and> real_claims (fst tx)" "apply_txs txs cs1 = Inr cs2"
    and "tx_body_typed body'" "y \<in> set (live_inputs body')" "snd y = snd x" "tx_input_owner body' = tx_input_owner body"
  shows "apply_tx_checked_deferred_root body' h' cs2 \<noteq> Inr cs3"
proof -
  note st = apply_step [OF assms(1-4)]
  let ?i = "unat (in_slot_index (snd x))" and ?v = "input_value body (snd x)"
  have v: "?v \<noteq> SLOT_EMPTY" using assms(3,5) by (simp add: real_claims_def)
  have "write_all f (tx_deltas body h (cs_alloc_counter cs)) ?i \<noteq> ?v" using spent_is_absent [OF assms(1-5)] v by simp
  from apply_txs_absent [OF st(2) assms(7,8) this v] obtain f' where f': "chain_ok perm cs2 f'" "f' ?i \<noteq> ?v"
    using assms(6) st(4) by (auto simp: input_value_def)
  show ?thesis by (rule mismatched_claim_refused [OF f'(1) assms(9,10)]) (use f'(2) assms(11,12) in \<open>simp add: input_value_def\<close>)
qed

theorem spent_output_never_returns_witness:
  "\<exists>cs cs1. apply_tx_checked_deferred_root sample_body (Some 2) cs = Inr cs1 \<and> (\<forall>cs3. apply_tx_checked_deferred_root sample_body (Some 3) cs1 \<noteq> Inr cs3)"
proof -
  obtain cs f where cs: "chain_ok id cs f" "cs_alloc_counter cs = 2" "tx_ready sample_body (Some 2) cs f" using funded_chain by metis
  note o = chain_okD [OF cs(1)]
  obtain cs1 where a: "apply_tx_checked_deferred_root sample_body (Some 2) cs = Inr cs1"
    using apply_tx_checked_exact(1) [OF o(1,2) sample_body_typed sample_facts(3) [unfolded real_claims_def]] cs(3) by blast
  have "apply_tx_checked_deferred_root sample_body (Some 3) cs1 \<noteq> Inr cs3" for cs3
    by (rule spent_output_never_returns [OF cs(1) sample_body_typed sample_facts(3) a, of "hd (live_inputs sample_body)" "[]" cs1 sample_body
          "hd (live_inputs sample_body)"]) (simp_all add: sample_lives cs(2) sample_body_typed)
  then show ?thesis using a by blast
qed

end
