(* ===== verification/Transition.thy ===== *)
theory Transition
imports ChainState
begin

section \<open>Verified transitions, undo logs and reorganisation\<close>

text \<open>
  The state transition of a block whose updates are already known, from \<open>noid_chain/src/state.rs\<close>: the read-only derivation of the child
  root, its comparison with the header, and the installation of updates, growth and counters; the sibling frontier that authenticates
  touched slots. From \<open>consensus/da_prune.rs\<close> and \<open>consensus/reorg.rs\<close> come the undo log of a block and its reversal, in the order in
  which the reorganisation of \<open>storage/mdbx_context.rs\<close> runs them.

  Ordered maps are lists sorted by their keys. Where the code prefers a cached array tree, for a dirty segment, for a segment with pending
  updates and for a sibling inside a segment, the model takes the branch of a cache miss, which hashes the columns; theory \<open>ExactRoots\<close>
  shows that the array tree of these columns gives the same roots. The page-stream validation that supplies the transaction ids of an undo
  log is an argument, and so is the parent header of a reversal, which the code reads from its store. The reversal starts after
  \<open>preload_segments_for_undo_in_state\<close> has brought the segments named by the undo log into memory; that disk read is not modelled.

  The theorems show that the derived root is the root of the tree with the updates written, that a transition that is accepted leaves
  exactly these slots under that root, that the sibling frontier reconstructs the root for the current and for any new leaves, and that
  reverting a block restores the slots, the counters, the supply and the root of its parent.
\<close>

subsection \<open>The root after pending updates\<close>

definition updates_by_segment :: "nat \<Rightarrow> (u32 \<times> slot_value) list \<Rightarrow> (u16 \<times> (nat \<times> slot_value) list) list" where
  "updates_by_segment e slot_updates =
     (let segment = (\<lambda>index. ucast (drop_bit e index) :: u16); local_mask = push_bit e 1 - 1
      in map (\<lambda>segment_id. (segment_id, map (\<lambda>(local, value). (unat local, value)) (canonical_updates
             (map (\<lambda>(index, value). (and index local_mask, value)) (filter (\<lambda>(index, _). segment index = segment_id) slot_updates)))))
           (sort (remdups (map (\<lambda>(index, _). segment index) slot_updates))))"

definition preview_segment_root ::
  "permutation \<Rightarrow> segmented \<Rightarrow> root_cache \<Rightarrow> u16 \<Rightarrow> apply_exact_transition_error failure + root_cache" where
  "preview_segment_root perm state exact_roots segment_id =
     (if is_evicted state segment_id then Inl (Failed (ExactStateRead (EvictedSegment segment_id)))
      else
        rbind (map_sum (\<lambda>_. Panicked) id
                 (exact_segment_root_with_updates perm (ss_effective_log_seg state) (try_get_segment_columns state segment_id) [])) (\<lambda>root.
        Inr (set_segment_root perm segment_id root exact_roots)))"

definition update_segment_root ::
  "permutation \<Rightarrow> segmented \<Rightarrow> nat \<Rightarrow> root_cache \<Rightarrow> u16 \<times> (nat \<times> slot_value) list \<Rightarrow> apply_exact_transition_error failure + root_cache" where
  "update_segment_root perm state e exact_roots = (\<lambda>(segment_id, local_updates).
     rbind (if unat segment_id \<ge> ss_num_segments state then Inr None
            else if is_evicted state segment_id then Inl (Failed (ExactStateRead (EvictedSegment segment_id)))
            else Inr (try_get_segment_columns state segment_id)) (\<lambda>columns.
     rbind (map_sum (\<lambda>_. Panicked) id (exact_segment_root_with_updates perm e columns local_updates)) (\<lambda>root.
     Inr (set_segment_root perm segment_id root exact_roots))))"

definition exact_utxo_root_after_slot_updates ::
  "permutation \<Rightarrow> (u16 set \<Rightarrow> u16 list) \<Rightarrow> chain_state \<Rightarrow> nat \<Rightarrow> (u32 \<times> slot_value) list \<Rightarrow> apply_exact_transition_error failure + digest" where
  "exact_utxo_root_after_slot_updates perm iter cs log_slots slot_updates =
     (let state = cs_state cs; current_depth = ss_log_slots state; e = min log_slots LOG_SEGMENT_SIZE in
      if log_slots < current_depth \<or> log_slots > current_depth + 1 \<or> log_slots \<ge> 64 then Inl (Failed HeaderLogSlotsMismatch)
      else if \<exists>(index, _) \<in> set slot_updates. unat index \<ge> 2 ^ log_slots then Inl (Failed ExactSlotOutOfRange)
      else
        rbind (rfold (preview_segment_root perm state) (cs_exact_roots cs) (iter (ss_exact_dirty state))) (\<lambda>exact_roots.
        rbind (ensure (rc_root exact_roots = cs_utxo_root cs) (Failed CachedRootMismatch)) (\<lambda>_.
        let exact_roots = (if log_slots > current_depth then rc_expand_one perm exact_roots else exact_roots) in
        rbind (rfold (update_segment_root perm state e) exact_roots (updates_by_segment e slot_updates)) (\<lambda>exact_roots.
        Inr (rc_root exact_roots)))))"

definition expand_for_child :: "permutation \<Rightarrow> chain_state \<Rightarrow> apply_exact_transition_error failure + chain_state" where
  "expand_for_child perm cs =
     (if ss_log_slots (cs_state cs) \<ge> LOG_SEGMENT_SIZE
      then map_sum (\<lambda>_. Failed HeaderLogSlotsMismatch) id (chain_expand_exact_metadata perm cs)
      else ok_or Panicked (chain_expand_one perm cs))"

definition apply_verified_exact_transition ::
  "permutation \<Rightarrow> (u16 set \<Rightarrow> u16 list) \<Rightarrow> nat \<Rightarrow> digest \<Rightarrow> (u32 \<times> slot_value) list \<Rightarrow> u64 \<Rightarrow> u64 \<Rightarrow> chain_state \<Rightarrow>
     apply_exact_transition_error failure + digest \<times> chain_state" where
  "apply_verified_exact_transition perm iter log_slots child_state_root slot_updates active_slot_count alloc_counter cs =
     (let current_log_slots = ss_log_slots (cs_state cs) in
      if log_slots < current_log_slots \<or> log_slots > current_log_slots + 1 \<or> log_slots \<ge> 64 then Inl (Failed HeaderLogSlotsMismatch)
      else if \<exists>(slot_index, _) \<in> set slot_updates. unat slot_index \<ge> 2 ^ log_slots then Inl (Failed ExactSlotOutOfRange)
      else
        rbind (exact_utxo_root_after_slot_updates perm iter cs log_slots slot_updates) (\<lambda>computed_child.
        rbind (ensure (computed_child = child_state_root) (Failed CachedRootMismatch)) (\<lambda>_.
        rbind (map_sum (\<lambda>_. Failed ExactCirculatingSupplyInvariant) id (supply_after_slot_updates cs slot_updates)) (\<lambda>circulating_supply.
        rbind (if log_slots = current_log_slots + 1 then expand_for_child perm cs else Inr cs) (\<lambda>cs.
        rbind (map_sum (\<lambda>_. Failed ExactSlotOutOfRange) id (apply_delta_in_place (cs_state cs) slot_updates)) (\<lambda>state.
        rbind (map_sum (map_failure ExactStateRead) id (try_state_root perm iter (cs\<lparr>cs_state := state\<rparr>))) (\<lambda>(applied_root, cs).
        Inr (applied_root, cs\<lparr>cs_active_slot_count := active_slot_count, cs_alloc_counter := alloc_counter,
                              cs_circulating_supply := circulating_supply\<rparr>))))))))"

subsection \<open>The sibling frontier\<close>

datatype exact_frontier_error =
    FrontierSparseMerkle sparse_merkle_error
  | FrontierStateRead exact_state_read_error
  | CompactRootMismatch

definition frontier_sibling :: "permutation \<Rightarrow> chain_state \<Rightarrow> frontier_position \<Rightarrow> exact_frontier_error failure + digest" where
  "frontier_sibling perm cs position =
     (let state = cs_state cs; effective_log = ss_effective_log_seg state; level = fp_level position; node_index = fp_node_index position in
      if level \<ge> effective_log then
        ok_or (Failed CompactRootMismatch) (segment_node_hash (cs_exact_roots cs) (level - effective_log) node_index)
      else
        let nodes_per_segment_shift = effective_log - level;
            segment_id = of_nat (drop_bit nodes_per_segment_shift node_index) :: u16;
            local_node_mask = 2 ^ nodes_per_segment_shift - 1;
            local_node = and node_index local_node_mask
        in if is_evicted state segment_id then Inl (Failed (FrontierStateRead (EvictedSegment segment_id)))
           else map_sum (\<lambda>_. Panicked) id
                  (exact_local_subtree_root perm (try_get_segment_columns state segment_id) (push_bit level local_node) level))"

definition exact_frontier_siblings ::
  "permutation \<Rightarrow> chain_state \<Rightarrow> u32 list \<Rightarrow> nat \<Rightarrow> exact_frontier_error failure + digest list" where
  "exact_frontier_siblings perm cs touched_indices depth =
     (if depth \<noteq> ss_log_slots (cs_state cs) \<or> rc_log_slots (cs_exact_roots cs) \<noteq> ss_log_slots (cs_state cs)
      then Inl (Failed (FrontierSparseMerkle (CacheDepthMismatch (rc_log_slots (cs_exact_roots cs)) depth)))
      else if ss_exact_dirty (cs_state cs) \<noteq> {} \<or> rc_root (cs_exact_roots cs) \<noteq> cs_utxo_root cs then Inl (Failed CompactRootMismatch)
      else
        rbind (map_sum (\<lambda>err. Failed (FrontierSparseMerkle err)) id (frontier_sibling_positions touched_indices depth)) (\<lambda>positions.
        rmap (frontier_sibling perm cs) positions))"

subsection \<open>Undo logs\<close>

record block_undo_log =
  ul_block_height :: u64
  ul_log_slots_before :: nat
  ul_active_slot_count_before :: u64
  ul_alloc_counter_before :: u64
  ul_slot_changes :: "(u32 \<times> slot_value) list"
  ul_tx_hashes :: "digest list"

type_synonym undo_trace = "u32 set \<times> (u32 \<times> slot_value) list"

definition record_input :: "segmented \<Rightarrow> undo_trace \<Rightarrow> nat \<times> tx_input \<Rightarrow> undo_trace" where
  "record_input state = (\<lambda>(touched_slots, slot_changes) (_, inp).
     if unat (in_slot_index inp) < num_slots state \<and> in_slot_index inp \<notin> touched_slots
     then (insert (in_slot_index inp) touched_slots, slot_changes @ [(in_slot_index inp, slot state (in_slot_index inp))])
     else (touched_slots, slot_changes))"

definition record_output :: "segmented \<Rightarrow> nat \<Rightarrow> undo_trace \<Rightarrow> nat \<times> tx_output \<Rightarrow> undo_trace" where
  "record_output state log_slots = (\<lambda>(touched_slots, slot_changes) (_, out).
     let slot_index = out_slot_index out in
     if slot_index \<in> touched_slots then (touched_slots, slot_changes)
     else
       (insert slot_index touched_slots,
        if unat slot_index < num_slots state then slot_changes @ [(slot_index, slot state slot_index)]
        else
          let parent_slots = num_slots state;
              child_slots = (if log_slots = ss_log_slots state + 1 then (if parent_slots * 2 < 2 ^ 64 then parent_slots * 2 else parent_slots)
                             else parent_slots)
          in if unat slot_index < child_slots then slot_changes @ [(slot_index, SLOT_EMPTY)] else slot_changes))"

definition record_tx :: "segmented \<Rightarrow> nat \<Rightarrow> undo_trace \<Rightarrow> tx_body \<Rightarrow> undo_trace" where
  "record_tx state log_slots trace body =
     foldl (record_output state log_slots) (foldl (record_input state) trace (live_inputs body)) (live_outputs body)"

definition build_undo_log ::
  "(tx_body list \<Rightarrow> u64 \<Rightarrow> 'e + digest list) \<Rightarrow> chain_state \<Rightarrow> u64 \<Rightarrow> nat \<Rightarrow> tx_body list \<Rightarrow> 'e + block_undo_log" where
  "build_undo_log logical_txids state_before height log_slots transactions =
     rbind (logical_txids transactions height) (\<lambda>tx_hashes.
     Inr \<lparr>ul_block_height = height, ul_log_slots_before = ss_log_slots (cs_state state_before),
          ul_active_slot_count_before = cs_active_slot_count state_before, ul_alloc_counter_before = cs_alloc_counter state_before,
          ul_slot_changes = snd (foldl (record_tx (cs_state state_before) log_slots) ({}, []) transactions), ul_tx_hashes = tx_hashes\<rparr>)"

definition revert_block :: "block_undo_log \<Rightarrow> chain_state \<Rightarrow> apply_error + chain_state" where
  "revert_block undo cs =
     rbind (map_sum (\<lambda>_. CirculatingSupplyInvariant) id (supply_after_slot_updates cs (ul_slot_changes undo))) (\<lambda>circulating_supply.
     let restored_slots = filter (\<lambda>(slot_index, _). unat slot_index < num_slots (cs_state cs)) (rev (ul_slot_changes undo)) in
     rbind (map_sum (\<lambda>_. TxSlotOutOfRange) id (apply_delta_in_place (cs_state cs) restored_slots)) (\<lambda>state.
     Inr (cs\<lparr>cs_state := state, cs_circulating_supply := circulating_supply\<rparr>)))"

definition restore_state_counters :: "block_undo_log \<Rightarrow> chain_state \<Rightarrow> chain_state" where
  "restore_state_counters undo cs =
     cs\<lparr>cs_active_slot_count := ul_active_slot_count_before undo, cs_alloc_counter := ul_alloc_counter_before undo\<rparr>"

definition UNDO_RETENTION_DEPTH :: u64 where "UNDO_RETENTION_DEPTH = CONSENSUS_FINALITY_DEPTH * 2"

definition prune_undo_logs :: "(u64 \<rightharpoonup> block_undo_log) \<Rightarrow> u64 \<Rightarrow> (u64 \<rightharpoonup> block_undo_log)" where
  "prune_undo_logs logs current_height =
     (let cutoff = saturating_sub current_height UNDO_RETENTION_DEPTH
      in (\<lambda>h. if h > cutoff then logs h else None))"

datatype reorg_error = SupplyRollbackFailed | StateShrinkFailed | RootRebuildFailed | ParentStateMismatch

definition revert_reorg_block ::
  "permutation \<Rightarrow> (u16 set \<Rightarrow> u16 list) \<Rightarrow> block_header \<Rightarrow> block_undo_log \<Rightarrow> chain_state \<Rightarrow> reorg_error failure + chain_state" where
  "revert_reorg_block perm iter parent_header undo cs =
     rbind (map_sum (\<lambda>_. Failed SupplyRollbackFailed) id (revert_block undo cs)) (\<lambda>cs.
     rbind (map_sum (\<lambda>err. case err of ResizeError _ \<Rightarrow> Failed StateShrinkFailed | FlushPanic \<Rightarrow> Panicked) id
              (shrink_to_log_slots (ul_log_slots_before undo) (cs_state cs))) (\<lambda>state.
     let cs = restore_state_counters undo (cs\<lparr>cs_state := state\<rparr>) in
     rbind (map_sum (map_failure (\<lambda>_. RootRebuildFailed)) id (try_state_root perm iter cs)) (\<lambda>(_, cs).
     rbind (ensure (ul_log_slots_before undo = unat (bh_log_slots parent_header) \<and> ss_log_slots (cs_state cs) = unat (bh_log_slots parent_header) \<and>
                    cs_utxo_root cs = bh_state_root parent_header \<and> cs_active_slot_count cs = bh_active_slot_count parent_header \<and>
                    cs_alloc_counter cs = bh_alloc_counter parent_header) (Failed ParentStateMismatch)) (\<lambda>_.
     Inr cs))))"

subsection \<open>Reference notions\<close>

text \<open>A cache in which every segment root is the one of its segment.\<close>

definition roots_exact :: "permutation \<Rightarrow> root_cache \<Rightarrow> (nat \<Rightarrow> slot_value) \<Rightarrow> bool" where
  "roots_exact perm c f \<longleftrightarrow> root_cache_ok perm c \<and>
     (\<forall>k < length (rc_segment_roots c). rc_segment_roots c ! k = tree_node perm (slot_hashes perm f) (rc_effective_log_seg c) k)"

text \<open>Updates a child may apply: it keeps the depth or grows by one, and the updated slots are in its range and in memory.\<close>

definition child_ready :: "segmented \<Rightarrow> nat \<Rightarrow> (u32 \<times> slot_value) list \<Rightarrow> bool" where
  "child_ready s L us \<longleftrightarrow>
     (L = ss_log_slots s \<or> L = ss_log_slots s + 1) \<and> L \<le> 32 \<and>
     (\<forall>d \<in> set us. unat (fst d) < 2 ^ L \<and> of_nat (unat (fst d) div 2 ^ min L 16) \<notin> ss_evicted s) \<and>
     (L \<noteq> ss_log_slots s \<and> ss_log_slots s < 16 \<longrightarrow> ss_evicted s = {})"

text \<open>What a recorded trace holds: each named slot once, with its value before the block.\<close>

definition input_slots :: "tx_body list \<Rightarrow> u32 set" where
  "input_slots bodies = (\<Union>b \<in> set bodies. (\<lambda>x. in_slot_index (snd x)) ` set (live_inputs b))"

definition output_slots :: "tx_body list \<Rightarrow> u32 set" where
  "output_slots bodies = (\<Union>b \<in> set bodies. (\<lambda>x. out_slot_index (snd x)) ` set (live_outputs b))"

definition child_slots :: "segmented \<Rightarrow> nat \<Rightarrow> nat" where
  "child_slots s L = (if L = ss_log_slots s + 1 then num_slots s * 2 else num_slots s)"

definition trace_ok :: "segmented \<Rightarrow> nat \<Rightarrow> (nat \<Rightarrow> slot_value) \<Rightarrow> u32 set \<Rightarrow> undo_trace \<Rightarrow> bool" where
  "trace_ok s L f T trace \<longleftrightarrow> fst trace = T \<and> distinct (map fst (snd trace)) \<and>
     fst ` set (snd trace) = {i \<in> T. unat i < child_slots s L} \<and> (\<forall>d \<in> set (snd trace). snd d = f (unat (fst d)))"

definition undoes :: "chain_state \<Rightarrow> (nat \<Rightarrow> slot_value) \<Rightarrow> block_undo_log \<Rightarrow> bool" where
  "undoes cs f undo \<longleftrightarrow> distinct (map fst (ul_slot_changes undo)) \<and> (\<forall>d \<in> set (ul_slot_changes undo). snd d = f (unat (fst d))) \<and>
     ul_log_slots_before undo = ss_log_slots (cs_state cs) \<and> ul_active_slot_count_before undo = cs_active_slot_count cs \<and>
     ul_alloc_counter_before undo = cs_alloc_counter cs"

definition header_matches :: "chain_state \<Rightarrow> block_header \<Rightarrow> bool" where
  "header_matches cs hdr \<longleftrightarrow> unat (bh_log_slots hdr) = ss_log_slots (cs_state cs) \<and> bh_state_root hdr = cs_utxo_root cs \<and>
     bh_active_slot_count hdr = cs_active_slot_count cs \<and> bh_alloc_counter hdr = cs_alloc_counter cs"

definition block_ready :: "segmented \<Rightarrow> nat \<Rightarrow> tx_body list \<Rightarrow> bool" where
  "block_ready s L bodies \<longleftrightarrow> child_ready s L (map (\<lambda>i. (i, SLOT_EMPTY)) (sorted_list_of_set (input_slots bodies \<union> output_slots bodies)))"

definition parent_of :: "chain_state \<Rightarrow> block_header" where
  "parent_of cs = \<lparr>bh_prev_block_hash = 0, bh_state_root = cs_utxo_root cs, bh_tx_root = 0, bh_timestamp = 0, bh_height = 0, bh_miner_address = 0,
     bh_nonce = 0, bh_difficulty_target = [], bh_log_slots = of_nat (ss_log_slots (cs_state cs)),
     bh_active_slot_count = cs_active_slot_count cs, bh_alloc_counter = cs_alloc_counter cs\<rparr>"

section \<open>Lemmas\<close>

subsection \<open>Exact segment roots\<close>

lemma roots_exactD:
  assumes "roots_exact perm c f"
  shows "root_cache_ok perm c" "k < length (rc_segment_roots c) \<Longrightarrow> rc_segment_roots c ! k = tree_node perm (slot_hashes perm f) (rc_effective_log_seg c) k"
  using assms unfolding roots_exact_def by blast+

lemma roots_exact_root:
  assumes "roots_exact perm c f"
  shows "rc_root c = tree_node perm (slot_hashes perm f) (rc_log_slots c) 0"
proof -
  note ok = roots_exactD(1) [OF assms] and len = root_cache_length [OF roots_exactD(1) [OF assms]]
  have "rc_root c = tree_node perm ((!) (rc_segment_roots c)) (rc_log_slots c - rc_effective_log_seg c) 0" by (rule rc_root_ok [OF ok])
  also have "\<dots> = tree_node perm (tree_node perm (slot_hashes perm f) (rc_effective_log_seg c)) (rc_log_slots c - rc_effective_log_seg c) 0"
    by (rule tree_node_cong) (use roots_exactD(2) [OF assms] len in \<open>simp add: div_eq_0_iff\<close>)
  also have "\<dots> = tree_node perm (slot_hashes perm f) (rc_log_slots c) 0"
    unfolding tree_node_trees using root_cache_effective [OF ok] by simp
  finally show ?thesis .
qed

lemma roots_exact_iff:
  assumes "geometry s" "roots_ok perm s c f" "ss_exact_dirty s = {}"
  shows "roots_exact perm c f"
  using roots_okD [OF assms(2)] roots_geometry [OF assms(1) roots_okD(1,2) [OF assms(2)]] assms(3) by (simp add: roots_exact_def)

lemma roots_exact_expand:
  assumes ex: "roots_exact perm c f" and em: "\<And>i. 2 ^ rc_log_slots c \<le> i \<Longrightarrow> f i = SLOT_EMPTY"
  shows "roots_exact perm (rc_expand_one perm c) f"
proof -
  note ok = roots_exactD(1) [OF ex] and len = root_cache_length [OF roots_exactD(1) [OF ex]]
  let ?g = "rc_log_slots c" let ?e = "rc_effective_log_seg c"
  note e = root_cache_effective [OF ok]
  have "\<forall>k < length (rc_segment_roots (rc_expand_one perm c)).
      rc_segment_roots (rc_expand_one perm c) ! k = tree_node perm (slot_hashes perm f) (rc_effective_log_seg (rc_expand_one perm c)) k"
  proof (cases "Suc ?g \<le> LOG_SEGMENT_SIZE")
    case True
    then have one: "?e = ?g" "length (rc_segment_roots c) = 1" using e len by auto
    have right: "tree_node perm (slot_hashes perm f) ?g 1 = zero_slot_roots perm ?g ! ?g"
      by (rule tree_node_empty) (metis em div_less not_le zero_neq_one)
    have "state_node_hash perm (rc_root c) (zero_slot_roots perm ?g ! ?g) = tree_node perm (slot_hashes perm f) (Suc ?g) 0"
      using roots_exact_root [OF ex] right by simp
    moreover have "rc_segment_roots (rc_expand_one perm c) = (rc_segment_roots c)[0 := state_node_hash perm (rc_root c) (zero_slot_roots perm ?g ! ?g)]"
      "rc_effective_log_seg (rc_expand_one perm c) = Suc ?g" using True by (simp_all add: rc_expand_one_def Let_def)
    ultimately show ?thesis using one(2) by simp
  next
    case False
    then have e': "?e = LOG_SEGMENT_SIZE" "LOG_SEGMENT_SIZE \<le> ?g" using e by auto
    let ?n = "length (rc_segment_roots c)"
    have x: "rc_segment_roots (rc_expand_one perm c) = rc_segment_roots c @ replicate ?n (zero_slot_roots perm ?e ! ?e)"
      "rc_effective_log_seg (rc_expand_one perm c) = ?e" using False by (simp_all add: rc_expand_one_def Let_def)
    have zero: "tree_node perm (slot_hashes perm f) ?e k = zero_slot_roots perm ?e ! ?e" if "?n \<le> k" for k
    proof (rule tree_node_empty)
      fix i :: nat assume "i div 2 ^ ?e = k"
      then have "?n * 2 ^ ?e \<le> i" using that div_times_less_eq_dividend [of i "2 ^ ?e"] by (metis le_trans mult_le_mono1)
      moreover have "?n * 2 ^ ?e = 2 ^ ?g" using e' by (simp add: len power_add [symmetric])
      ultimately show "f i = SLOT_EMPTY" using em by simp
    qed
    show ?thesis unfolding x using roots_exactD(2) [OF ex] zero by (simp add: nth_append)
  qed
  then show ?thesis using rc_expand_one_ok(1) [OF ok] by (simp add: roots_exact_def)
qed

subsection \<open>Grouping updates by segment\<close>

lemma segment_of_index:
  fixes i :: u32
  assumes "unat i < 2 ^ log" "e = min log 16" "log \<le> 32"
  shows "unat (ucast (drop_bit e i) :: u16) = unat i div 2 ^ e" "unat i div 2 ^ e < 2 ^ (log - e)"
proof -
  have "2 ^ log = 2 ^ (log - e) * (2 ^ e :: nat)" using assms(2) by (simp add: power_add [symmetric])
  then show lt: "unat i div 2 ^ e < 2 ^ (log - e)" using assms(1) by (simp add: less_mult_imp_div_less)
  have "(2 :: nat) ^ (log - e) \<le> 2 ^ 16" by (rule power_increasing) (use assms(2,3) in auto)
  then show "unat (ucast (drop_bit e i) :: u16) = unat i div 2 ^ e" using lt by (simp add: u32_parts)
qed

lemma map_of_rekeyed:
  assumes "P i" "\<And>x. P x \<Longrightarrow> h x = h i \<Longrightarrow> x = i"
  shows "map_of (map (\<lambda>(x, v). (h x, v)) (filter (\<lambda>(x, _). P x) xs)) (h i) = map_of xs i"
proof (induction xs)
  case (Cons d xs)
  obtain x v where d: "d = (x, v)" by (cases d)
  show ?case
  proof (cases "x = i")
    case True
    then show ?thesis using assms(1) by (simp add: d)
  next
    case False
    then have "P x \<Longrightarrow> h i \<noteq> h x" using assms(2) [of x] by metis
    then show ?thesis using Cons.IH False by (simp add: d)
  qed
qed simp

lemma map_of_unat: "map_of (map (\<lambda>(x, v). (unat x, v)) xs) (unat k) = map_of xs k" for k :: u32
  by (induction xs) (auto simp: word_unat_eq_iff)

lemma updates_by_segment_keys:
  "distinct (map fst (updates_by_segment e us))"
  "fst ` set (updates_by_segment e us) = (\<lambda>d. ucast (drop_bit e (fst d))) ` set us"
  by (simp_all add: updates_by_segment_def Let_def comp_def case_prod_beta image_image)

lemma updates_by_segment_lookup:
  fixes us :: "(u32 \<times> slot_value) list"
  assumes item: "(sid, local) \<in> set (updates_by_segment e us)" and i: "unat i div 2 ^ e = unat sid" "ucast (drop_bit e i) = sid"
    and ran: "\<And>d. d \<in> set us \<Longrightarrow> unat (ucast (drop_bit e (fst d)) :: u16) = unat (fst d) div 2 ^ e"
  shows "map_of local (unat i mod 2 ^ e) = map_of (rev us) i"
proof -
  let ?P = "\<lambda>x. ucast (drop_bit e x) = sid \<and> unat x div 2 ^ e = unat sid" let ?h = "\<lambda>x. and x (push_bit e 1 - 1) :: u32"
  have P: "filter (\<lambda>(x, _). ucast (drop_bit e x) = sid) us = filter (\<lambda>(x, _). ?P x) us"
    by (rule filter_cong [OF refl]) (use ran in force)
  have local: "local = map (\<lambda>(x, v). (unat x, v)) (canonical_updates (map (\<lambda>(x, v). (?h x, v)) (filter (\<lambda>(x, _). ?P x) us)))"
    using item unfolding P [symmetric] by (auto simp: updates_by_segment_def Let_def)
  have inj: "x = i" if "?P x" "?h x = ?h i" for x
  proof -
    have "unat x mod 2 ^ e = unat i mod 2 ^ e" using arg_cong [OF that(2), of unat] by (simp only: u32_parts)
    then show ?thesis using that(1) i(1) div_mult_mod_eq [of "unat x" "2 ^ e"] div_mult_mod_eq [of "unat i" "2 ^ e"] by (simp add: word_unat_eq_iff)
  qed
  have "map_of local (unat (?h i)) = map_of (rev (map (\<lambda>(x, v). (?h x, v)) (filter (\<lambda>(x, _). ?P x) us))) (?h i)"
    unfolding local map_of_unat map_of_canonical ..
  also have "\<dots> = map_of (rev us) i"
    unfolding rev_map rev_filter by (rule map_of_rekeyed [of ?P i ?h]) (use i inj in blast)+
  finally show ?thesis by (simp only: u32_parts)
qed

lemma segment_root_view:
  assumes "d < 64" "\<And>j. j < 2 ^ d \<Longrightarrow>
    (case columns of None \<Rightarrow> SLOT_EMPTY | Some c \<Rightarrow> if length (sg_values c) \<le> j then SLOT_EMPTY else column_slot c j) = g j"
  shows "exact_segment_root_with_updates perm d columns us = Inr (tree_node perm (slot_hashes perm (override g us)) d 0)"
  unfolding exact_segment_root_with_updates_def stream_slots_exact [OF assms(1)]
  by (rule arg_cong [where f = Inr], rule tree_node_cong) (simp add: slot_hashes_def override_def assms(2) div_eq_0_iff cong: option.case_cong)

lemma segment_columns_view:
  assumes rep: "represents s f" and L: "L = ss_log_slots s \<or> L = Suc (ss_log_slots s)" and e: "e = min L 16"
    and res: "unat sid < ss_num_segments s \<Longrightarrow> sid \<notin> ss_evicted s" and j: "j < 2 ^ e"
  shows "(case (if ss_num_segments s \<le> unat sid then None else try_get_segment_columns s sid) of None \<Rightarrow> SLOT_EMPTY
      | Some c \<Rightarrow> if length (sg_values c) \<le> j then SLOT_EMPTY else column_slot c j) = f (unat sid * 2 ^ e + j)"
proof -
  let ?n = "ss_num_segments s" let ?e = "ss_effective_log_seg s" let ?k = "unat sid"
  note g = representsD(1) [OF rep] and gf = geometry_facts [OF representsD(1) [OF rep]]
  have se: "?e = min (ss_log_slots s) 16" "?n = 2 ^ (ss_log_slots s - ?e)" using g by (simp_all add: geometry_def LOG_SEGMENT_SIZE_def)
  have cases: "?e = e \<or> (e = Suc ?e \<and> ?n = 1)" using L se e by (auto simp: min_def)
  have above: "f (?k * 2 ^ e + j) = SLOT_EMPTY" if "?n \<le> ?k"
  proof (rule representsD(3) [OF rep])
    have "?n * 2 ^ ?e \<le> ?k * 2 ^ e" using that cases by (intro mult_le_mono) (auto intro: power_increasing)
    then show "num_slots s \<le> ?k * 2 ^ e + j" using gf(5) by simp
  qed
  show ?thesis
  proof (cases "?n \<le> ?k")
    case False
    then have k: "?k < ?n" by simp
    have col: "try_get_segment_columns s sid = ss_segments s ! ?k" by (simp add: try_get_segment_columns_def)
    have one: "e \<noteq> ?e \<Longrightarrow> ?k = 0 \<and> num_slots s = 2 ^ ?e" using cases k gf(5) by auto
    have emp: "f (?k * 2 ^ e + j) = SLOT_EMPTY" if "2 ^ ?e \<le> j"
      using that one j by (cases "e = ?e") (auto intro: representsD(3) [OF rep])
    show ?thesis
    proof (cases "ss_segments s ! ?k")
      case None
      then have "seg_live f ?e ?k = 0" using segment_repD(4) [OF rep k None] res k by simp
      then have "f (?k * 2 ^ e + j) = SLOT_EMPTY" if "j < 2 ^ ?e" using that one unfolding seg_live_0 by (cases "e = ?e") auto
      then show ?thesis using emp col None k by (cases "j < 2 ^ ?e") auto
    next
      case (Some c)
      have "length (sg_values c) = 2 ^ ?e" using segment_repD(2) [OF rep k Some] by (simp add: columns_length_def)
      moreover have "column_slot c j = f (?k * 2 ^ e + j)" if "j < 2 ^ ?e" using segment_repD(3) [OF rep k Some that] one by (cases "e = ?e") auto
      ultimately show ?thesis using emp col Some k by (cases "j < 2 ^ ?e") auto
    qed
  qed (simp add: above)
qed

lemma unat_u32_of_nat: "n < 2 ^ 32 \<Longrightarrow> unat (of_nat n :: u32) = n"
  by (simp add: unat_of_nat)

lemma update_segment_root_exact:
  assumes rep: "represents s f" and L: "L = ss_log_slots s \<or> L = Suc (ss_log_slots s)" "L \<le> 32" and e: "e = min L 16"
    and ran: "\<forall>d \<in> set us. unat (fst d) < 2 ^ L" and item: "(sid, local) \<in> set (updates_by_segment e us)"
    and res: "unat sid < ss_num_segments s \<Longrightarrow> sid \<notin> ss_evicted s"
  shows "update_segment_root perm s e c (sid, local) =
      Inr (set_segment_root perm sid (tree_node perm (slot_hashes perm (write_all f us)) e (unat sid)) c)"
    "unat sid < 2 ^ (L - e)"
proof -
  let ?g = "\<lambda>j. f (unat sid * 2 ^ e + j)"
  note seg = segment_of_index [OF _ e L(2)]
  have ran': "unat (ucast (drop_bit e (fst d)) :: u16) = unat (fst d) div 2 ^ e" "unat (fst d) div 2 ^ e < 2 ^ (L - e)" if "d \<in> set us" for d
    using seg [of "fst d"] ran that by blast+
  have "sid \<in> fst ` set (updates_by_segment e us)" using item by force
  then obtain d where "d \<in> set us" "sid = ucast (drop_bit e (fst d))" unfolding updates_by_segment_keys(2) by blast
  then show k: "unat sid < 2 ^ (L - e)" using ran' by metis
  have eL: "e \<le> L" "e < 64" "e \<le> 16" using e L(2) by auto
  have over: "override ?g local j = write_all f us (unat sid * 2 ^ e + j)" if j: "j < 2 ^ e" for j
  proof -
    have "Suc (unat sid) * 2 ^ e \<le> 2 ^ (L - e) * 2 ^ e" using k by (intro mult_le_mono1) simp
    then have "unat sid * 2 ^ e + j < 2 ^ (L - e) * 2 ^ e" using j by simp
    then have n: "unat sid * 2 ^ e + j < 2 ^ L" using eL(1) by (simp add: power_add [symmetric])
    have "(2 :: nat) ^ L \<le> 2 ^ 32" by (rule power_increasing) (use L(2) in auto)
    with n have "unat sid * 2 ^ e + j < 2 ^ 32" by linarith
    then obtain i :: u32 where ui: "unat i = unat sid * 2 ^ e + j" using unat_u32_of_nat by blast
    have q: "unat i div 2 ^ e = unat sid" "unat i mod 2 ^ e = j" using j by (simp_all add: ui)
    have "unat i < 2 ^ L" using n ui by simp
    from seg(1) [OF this] have "unat (ucast (drop_bit e i) :: u16) = unat sid" using q(1) by simp
    then have "ucast (drop_bit e i) = sid" by (simp add: word_unat_eq_iff)
    from updates_by_segment_lookup [OF item q(1) this ran'(1)] have "map_of local j = map_of (rev us) i" by (simp add: q(2))
    then show ?thesis using write_all_at [of f us i] by (simp add: override_def ui cong: option.case_cong)
  qed
  have "tree_node perm (slot_hashes perm (override ?g local)) e 0 = tree_node perm (\<lambda>j. slot_hashes perm (write_all f us) (unat sid * 2 ^ e + j)) e 0"
    by (rule tree_node_cong) (simp add: slot_hashes_def over div_eq_0_iff)
  also have "\<dots> = tree_node perm (slot_hashes perm (write_all f us)) e (unat sid)" using tree_node_shift [of e e] by simp
  finally have root: "exact_segment_root_with_updates perm e (if ss_num_segments s \<le> unat sid then None else try_get_segment_columns s sid) local =
      Inr (tree_node perm (slot_hashes perm (write_all f us)) e (unat sid))"
    using segment_root_view [OF eL(2) segment_columns_view [OF rep L(1) e res]] by metis
  show "update_segment_root perm s e c (sid, local) =
      Inr (set_segment_root perm sid (tree_node perm (slot_hashes perm (write_all f us)) e (unat sid)) c)"
    using root res by (auto simp: update_segment_root_def is_evicted_def)
qed

lemma set_root_fold:
  assumes "\<And>c item. item \<in> set items \<Longrightarrow> step c item = Inr (set_segment_root perm (fst item) (T (unat (fst item))) c)"
    and "\<And>item. item \<in> set items \<Longrightarrow> unat (fst item) < length (rc_segment_roots c)" and "root_cache_ok perm c"
  shows "\<exists>c'. rfold step c items = Inr c' \<and> root_cache_ok perm c' \<and> rc_log_slots c' = rc_log_slots c \<and>
    rc_effective_log_seg c' = rc_effective_log_seg c \<and> length (rc_segment_roots c') = length (rc_segment_roots c) \<and>
    (\<forall>k < length (rc_segment_roots c). rc_segment_roots c' ! k = (if k \<in> (\<lambda>x. unat (fst x)) ` set items then T k else rc_segment_roots c ! k))"
  using assms
proof (induction items arbitrary: c)
  case (Cons item items)
  let ?c = "set_segment_root perm (fst item) (T (unat (fst item))) c"
  have lt: "unat (fst item) < length (rc_segment_roots c)" using Cons.prems(2) by simp
  note set = set_segment_root_ok [OF Cons.prems(3) lt, of "T (unat (fst item))"]
  have "\<And>x. x \<in> set items \<Longrightarrow> unat (fst x) < length (rc_segment_roots ?c)" using Cons.prems(2) set(2) by simp
  from Cons.IH [OF _ this set(1)] Cons.prems(1) obtain c' where c': "rfold step ?c items = Inr c'" "root_cache_ok perm c'"
    "rc_log_slots c' = rc_log_slots c" "rc_effective_log_seg c' = rc_effective_log_seg c" "length (rc_segment_roots c') = length (rc_segment_roots c)"
    "\<And>k. k < length (rc_segment_roots c) \<Longrightarrow> rc_segment_roots c' ! k = (if k \<in> (\<lambda>x. unat (fst x)) ` set items then T k else rc_segment_roots ?c ! k)"
    unfolding set(2-4) length_list_update by (metis list.set_intros(2))
  have "rc_segment_roots c' ! k = (if k \<in> (\<lambda>x. unat (fst x)) ` set (item # items) then T k else rc_segment_roots c ! k)" if "k < length (rc_segment_roots c)" for k
    using c'(6) [OF that] lt unfolding set(2) by (auto simp: nth_list_update)
  then show ?case using c'(1-5) Cons.prems(1) [of item] by simp
qed simp

lemma preview_segment_root_exact:
  assumes rep: "represents s f" and k: "unat sid < ss_num_segments s" and res: "sid \<notin> ss_evicted s"
  shows "preview_segment_root perm s c sid =
    Inr (set_segment_root perm sid (tree_node perm (slot_hashes perm f) (ss_effective_log_seg s) (unat sid)) c)"
proof -
  let ?e = "ss_effective_log_seg s"
  have e: "?e = min (ss_log_slots s) 16" using representsD(1) [OF rep] by (simp add: geometry_def LOG_SEGMENT_SIZE_def)
  have "tree_node perm (slot_hashes perm (override (\<lambda>j. f (unat sid * 2 ^ ?e + j)) [])) ?e 0 =
      tree_node perm (\<lambda>j. slot_hashes perm f (unat sid * 2 ^ ?e + j)) ?e 0"
    by (rule tree_node_cong) (simp add: slot_hashes_def override_def)
  also have "\<dots> = tree_node perm (slot_hashes perm f) ?e (unat sid)" using tree_node_shift [of ?e ?e] by simp
  finally have "exact_segment_root_with_updates perm ?e (if ss_num_segments s \<le> unat sid then None else try_get_segment_columns s sid) [] =
      Inr (tree_node perm (slot_hashes perm f) ?e (unat sid))"
    using segment_root_view [OF _ segment_columns_view [OF rep _ e res]] e by auto
  then show ?thesis using k res by (simp add: preview_segment_root_def is_evicted_def)
qed

lemma preview_fold:
  assumes "represents s f" "\<forall>sid \<in> set ids. unat sid < ss_num_segments s \<and> sid \<notin> ss_evicted s"
    and "rfold (refresh_segment perm s) c ids = Inr c'"
  shows "rfold (preview_segment_root perm s) c ids = Inr c'"
proof -
  let ?h = "\<lambda>c sid. set_segment_root perm sid (tree_node perm (slot_hashes perm f) (ss_effective_log_seg s) (unat sid)) c"
  have "rfold (preview_segment_root perm s) c ids = Inr (foldl ?h c ids)"
    by (rule rfold_pure) (use assms(2) preview_segment_root_exact [OF assms(1)] in blast)
  moreover have "rfold (refresh_segment perm s) c ids = Inr (foldl ?h c ids)"
    by (rule rfold_pure) (use assms(2) refresh_segment_exact [OF assms(1)] in blast)
  ultimately show ?thesis using assms(3) by simp
qed
lemma refreshed_roots:
  assumes ok: "chain_ok perm cs f" and iter: "iterates iter"
  obtains roots where "rfold (preview_segment_root perm (cs_state cs)) (cs_exact_roots cs) (iter (ss_exact_dirty (cs_state cs))) = Inr roots"
    "roots_exact perm roots f" "rc_log_slots roots = ss_log_slots (cs_state cs)"
proof -
  let ?s = "cs_state cs" let ?ids = "iter (ss_exact_dirty ?s)"
  note o = chain_okD [OF ok]
  have ids: "set ?ids = ss_exact_dirty ?s" using iter by (simp add: iterates_def)
  have dirty: "\<forall>sid \<in> set ?ids. unat sid < ss_num_segments ?s \<and> sid \<notin> ss_evicted ?s" using roots_okD(3) [OF o(3)] o(4) unfolding ids by blast
  from refresh_fold [OF o(1) dirty roots_okD(1,2) [OF o(3)]] obtain roots where
    r: "rfold (refresh_segment perm ?s) (cs_exact_roots cs) ?ids = Inr roots" "root_cache_ok perm roots" "rc_log_slots roots = ss_log_slots ?s"
      "\<forall>k < ss_num_segments ?s. rc_segment_roots roots ! k = (if of_nat k \<in> set ?ids then tree_node perm (slot_hashes perm f) (ss_effective_log_seg ?s) k
         else rc_segment_roots (cs_exact_roots cs) ! k)" by blast
  have "rc_segment_roots roots ! k = tree_node perm (slot_hashes perm f) (ss_effective_log_seg ?s) k" if "k < ss_num_segments ?s" for k
    using r(4) that roots_okD(4) [OF o(3) that] unfolding ids by simp
  then have "roots_exact perm roots f" using r(2) roots_geometry [OF representsD(1) [OF o(1)] r(2,3)] by (simp add: roots_exact_def)
  then show ?thesis using that preview_fold [OF o(1) dirty r(1)] r(3) by blast
qed

lemma child_readyD:
  assumes "child_ready s L us"
  shows "L = ss_log_slots s \<or> L = Suc (ss_log_slots s)" "L \<le> 32" "d \<in> set us \<Longrightarrow> unat (fst d) < 2 ^ L"
    "d \<in> set us \<Longrightarrow> of_nat (unat (fst d) div 2 ^ min L 16) \<notin> ss_evicted s" "L \<noteq> ss_log_slots s \<Longrightarrow> ss_log_slots s < 16 \<Longrightarrow> ss_evicted s = {}"
  using assms by (auto simp: child_ready_def)

lemma child_guards:
  assumes "child_ready s L us"
  shows "\<not> (L < ss_log_slots s \<or> L > ss_log_slots s + 1 \<or> L \<ge> 64)" "\<not> (\<exists>(index, _) \<in> set us. unat index \<ge> 2 ^ L)"
proof -
  show "\<not> (L < ss_log_slots s \<or> L > ss_log_slots s + 1 \<or> L \<ge> 64)" using child_readyD(1,2) [OF assms] by auto
  show "\<not> (\<exists>(index, _) \<in> set us. unat index \<ge> 2 ^ L)" using child_readyD(3) [OF assms] by (fastforce simp: not_le)
qed

lemma child_ready_resident:
  assumes "geometry s" "child_ready s L us" "d \<in> set us"
  shows "resident s (unat (fst d))"
proof (cases "L \<noteq> ss_log_slots s \<and> ss_log_slots s < 16")
  case False
  then have "min L 16 = ss_effective_log_seg s" using child_readyD(1) [OF assms(2)] assms(1) by (auto simp: geometry_def LOG_SEGMENT_SIZE_def)
  then show ?thesis using child_readyD(4) [OF assms(2,3)] by (simp add: resident_def)
qed (use child_readyD(5) [OF assms(2)] in \<open>simp add: resident_def\<close>)

lemma updated_roots_exact:
  assumes rep: "represents s f" and ready: "child_ready s L us" and e: "e = min L 16"
    and c: "roots_exact perm c f" "rc_log_slots c = L"
  shows "\<exists>c'. rfold (update_segment_root perm s e) c (updates_by_segment e us) = Inr c' \<and> roots_exact perm c' (write_all f us) \<and> rc_log_slots c' = L"
proof -
  let ?f = "write_all f us" let ?items = "updates_by_segment e us" let ?T = "tree_node perm (slot_hashes perm (write_all f us)) e"
  note ok = roots_exactD(1) [OF c(1)] and r = child_readyD [OF ready]
  have eff: "rc_effective_log_seg c = e" "length (rc_segment_roots c) = 2 ^ (L - e)"
    using root_cache_effective [OF ok] root_cache_length [OF ok] by (simp_all add: c(2) e LOG_SEGMENT_SIZE_def)
  have seg: "unat (ucast (drop_bit e (fst d)) :: u16) = unat (fst d) div 2 ^ e" if "d \<in> set us" for d
    using segment_of_index(1) [OF r(3) [OF that] e r(2)] .
  have avail: "fst item \<notin> ss_evicted s" if item: "item \<in> set ?items" for item
  proof -
    have "fst item \<in> fst ` set ?items" using item by blast
    then obtain d where d: "d \<in> set us" "fst item = ucast (drop_bit e (fst d))" unfolding updates_by_segment_keys(2) by blast
    have "fst item = of_nat (unat (fst d) div 2 ^ e)" using arg_cong [OF seg [OF d(1)], of "of_nat :: nat \<Rightarrow> u16"] d(2) by simp
    then show ?thesis using r(4) [OF d(1)] e by simp
  qed
  have step: "update_segment_root perm s e c item = Inr (set_segment_root perm (fst item) (?T (unat (fst item))) c)" "unat (fst item) < 2 ^ (L - e)"
    if "item \<in> set ?items" for item c
    using update_segment_root_exact [OF rep r(1,2) e, of us "fst item" "snd item"] r(3) avail that by auto
  have lt: "unat (fst item) < length (rc_segment_roots c)" if "item \<in> set ?items" for item using step(2) [OF that] eff(2) by simp
  obtain c' where c': "rfold (update_segment_root perm s e) c ?items = Inr c'" "root_cache_ok perm c'" "rc_log_slots c' = L" "rc_effective_log_seg c' = e"
    "length (rc_segment_roots c') = 2 ^ (L - e)"
    "\<And>k. k < 2 ^ (L - e) \<Longrightarrow> rc_segment_roots c' ! k = (if k \<in> (\<lambda>x. unat (fst x)) ` set ?items then ?T k else rc_segment_roots c ! k)"
    using set_root_fold [of ?items "update_segment_root perm s e" perm ?T c, OF step(1) lt ok] unfolding eff c(2) by blast
  have "rc_segment_roots c' ! k = ?T k" if k: "k < 2 ^ (L - e)" for k
  proof (cases "k \<in> (\<lambda>x. unat (fst x)) ` set ?items")
    case False
    have "write_all f us i = f i" if "i div 2 ^ e = k" for i
    proof (rule write_all_other)
      fix d assume d: "d \<in> set us"
      have "ucast (drop_bit e (fst d)) \<in> fst ` set ?items" unfolding updates_by_segment_keys(2) using d by blast
      then have "unat (ucast (drop_bit e (fst d)) :: u16) \<in> (\<lambda>x. unat (fst x)) ` set ?items" by force
      then show "unat (fst d) \<noteq> i" using False that unfolding seg [OF d] by blast
    qed
    then have "?T k = tree_node perm (slot_hashes perm f) e k" by (intro tree_node_cong) (simp add: slot_hashes_def)
    then show ?thesis using c'(6) [OF k] False roots_exactD(2) [OF c(1)] k eff by simp
  qed (simp add: c'(6) [OF k])
  then show ?thesis using c'(1-5) by (auto simp: roots_exact_def)
qed

lemma root_after_updates_exact:
  assumes ok: "chain_ok perm cs f" and iter: "iterates iter" and ready: "child_ready (cs_state cs) L us"
    and root: "cs_utxo_root cs = tree_node perm (slot_hashes perm f) (ss_log_slots (cs_state cs)) 0"
  shows "exact_utxo_root_after_slot_updates perm iter cs L us = Inr (tree_node perm (slot_hashes perm (write_all f us)) L 0)"
proof -
  let ?s = "cs_state cs"
  note o = chain_okD [OF ok] and r = child_readyD [OF ready]
  obtain c where c: "rfold (preview_segment_root perm ?s) (cs_exact_roots cs) (iter (ss_exact_dirty ?s)) = Inr c" "roots_exact perm c f"
    "rc_log_slots c = ss_log_slots ?s" by (rule refreshed_roots [OF ok iter])
  let ?c = "if L > ss_log_slots ?s then rc_expand_one perm c else c"
  have em: "\<And>i. 2 ^ rc_log_slots c \<le> i \<Longrightarrow> f i = SLOT_EMPTY" using representsD(3) [OF o(1)] c(3) by (simp add: num_slots_def)
  have c2: "roots_exact perm ?c f" "rc_log_slots ?c = L"
    using c(2,3) r(1) roots_exact_expand [OF c(2) em] rc_expand_one_ok(2) [OF roots_exactD(1) [OF c(2)]] by auto
  obtain c' where c': "rfold (update_segment_root perm ?s (min L 16)) ?c (updates_by_segment (min L 16) us) = Inr c'"
    "roots_exact perm c' (write_all f us)" "rc_log_slots c' = L"
    using updated_roots_exact [OF o(1) ready refl c2] by blast
  have "rc_root c = cs_utxo_root cs" using roots_exact_root [OF c(2)] c(3) root by simp
  moreover have "rc_root c' = tree_node perm (slot_hashes perm (write_all f us)) L 0" using roots_exact_root [OF c'(2)] c'(3) by simp
  moreover note child_guards [OF ready]
  ultimately show ?thesis
    unfolding exact_utxo_root_after_slot_updates_def Let_def LOG_SEGMENT_SIZE_def using c(1) c'(1) by (simp add: ensure_def)
qed

subsection \<open>Verified transitions\<close>

lemma counters_beyond:
  assumes "counters_ok cs f" "represents (cs_state cs) f" "represents (cs_state cs') f"
    "cs_active_slot_count cs' = cs_active_slot_count cs" "cs_circulating_supply cs' = cs_circulating_supply cs"
  shows "counters_ok cs' f"
  using assms(1) live_amount_represents [OF assms(2)] live_amount_represents [OF assms(3)] by (simp add: counters_ok_def assms(4,5))

lemma roots_ok_exact:
  assumes "geometry s" "roots_exact perm c f" "rc_log_slots c = ss_log_slots s" "ss_exact_dirty s = {}"
  shows "roots_ok perm s c f"
  using assms(4) roots_exactD [OF assms(2)] roots_geometry [OF assms(1) roots_exactD(1) [OF assms(2)] assms(3)] by (simp add: roots_ok_def assms(3))

lemma sealed_roots:
  assumes "chain_ok perm cs f" "sealed perm cs f"
  shows "roots_exact perm (cs_exact_roots cs) f" "rc_log_slots (cs_exact_roots cs) = ss_log_slots (cs_state cs)"
    "rc_root (cs_exact_roots cs) = cs_utxo_root cs"
proof -
  note o = chain_okD [OF assms(1)]
  show ex: "roots_exact perm (cs_exact_roots cs) f"
    using roots_exact_iff [OF representsD(1) [OF o(1)] o(3)] assms(2) by (simp add: sealed_def)
  show log: "rc_log_slots (cs_exact_roots cs) = ss_log_slots (cs_state cs)" by (rule roots_okD(2) [OF o(3)])
  show "rc_root (cs_exact_roots cs) = cs_utxo_root cs" using roots_exact_root [OF ex] log assms(2) by (simp add: sealed_def)
qed

lemma grown_root:
  assumes "represents s f"
  shows "state_node_hash perm (tree_node perm (slot_hashes perm f) (ss_log_slots s) 0) (zero_slot_roots perm (ss_log_slots s) ! ss_log_slots s) =
    tree_node perm (slot_hashes perm f) (Suc (ss_log_slots s)) 0"
proof -
  have "tree_node perm (slot_hashes perm f) (ss_log_slots s) 1 = zero_slot_roots perm (ss_log_slots s) ! ss_log_slots s"
    by (rule tree_node_empty) (metis representsD(3) [OF assms] num_slots_def div_less not_le zero_neq_one)
  then show ?thesis by simp
qed

lemma grown_chain:
  assumes ok: "chain_ok perm cs f" and sea: "sealed perm cs f"
    and s': "represents s' f" "ss_log_slots s' = Suc (ss_log_slots (cs_state cs))" "ss_exact_dirty s' = {}" "ss_evicted s' = ss_evicted (cs_state cs)"
  defines "cs' \<equiv> cs\<lparr>cs_state := s', cs_exact_roots := rc_expand_one perm (cs_exact_roots cs),
    cs_utxo_root := state_node_hash perm (cs_utxo_root cs) (zero_slot_roots perm (ss_log_slots (cs_state cs)) ! ss_log_slots (cs_state cs))\<rparr>"
  shows "chain_ok perm cs' f" "sealed perm cs' f"
proof -
  note o = chain_okD [OF ok] and se = sealed_roots [OF ok sea]
  have em: "\<And>i. 2 ^ rc_log_slots (cs_exact_roots cs) \<le> i \<Longrightarrow> f i = SLOT_EMPTY" using representsD(3) [OF o(1)] se(2) by (simp add: num_slots_def)
  have "roots_ok perm s' (rc_expand_one perm (cs_exact_roots cs)) f"
    by (rule roots_ok_exact [OF representsD(1) [OF s'(1)] roots_exact_expand [OF se(1) em]])
      (simp_all add: rc_expand_one_ok(2) [OF roots_exactD(1) [OF se(1)]] se(2) s')
  moreover have "counters_ok cs' f" by (rule counters_beyond [OF o(2,1)]) (simp_all add: cs'_def s')
  ultimately show "chain_ok perm cs' f" by (simp add: chain_ok_def cs'_def s')
  show "sealed perm cs' f" using sea grown_root [OF o(1), of perm] by (simp add: sealed_def cs'_def s')
qed

lemma expand_for_child_ok:
  assumes ok: "chain_ok perm cs f" and sea: "sealed perm cs f" and log: "ss_log_slots (cs_state cs) < 32"
    and small: "ss_log_slots (cs_state cs) < 16 \<Longrightarrow> ss_evicted (cs_state cs) = {}"
  shows "\<exists>cs'. expand_for_child perm cs = Inr cs' \<and> chain_ok perm cs' f \<and> sealed perm cs' f \<and>
    ss_log_slots (cs_state cs') = Suc (ss_log_slots (cs_state cs)) \<and> ss_evicted (cs_state cs') = ss_evicted (cs_state cs) \<and>
    (ss_dirty (cs_state cs) \<inter> ss_evicted (cs_state cs) = {} \<longrightarrow> ss_dirty (cs_state cs') \<inter> ss_evicted (cs_state cs') = {})"
proof -
  let ?s = "cs_state cs"
  note o = chain_okD [OF ok] and se = sealed_roots [OF ok sea]
  have clean: "ss_exact_dirty ?s = {}" using sea by (simp add: sealed_def)
  show ?thesis
  proof (cases "16 \<le> ss_log_slots ?s")
    case True
    from expand_large [OF o(1) True log] obtain s' where s': "expand ?s = Some s'" "represents s' f" "ss_log_slots s' = Suc (ss_log_slots ?s)"
      "ss_evicted s' = ss_evicted ?s" by blast
    have d: "ss_exact_dirty s' = {}" "ss_dirty s' = ss_dirty ?s" using s'(1) True clean by (auto simp: expand_def Let_def LOG_SEGMENT_SIZE_def)
    have "expand_for_child perm cs = Inr (cs\<lparr>cs_state := s', cs_exact_roots := rc_expand_one perm (cs_exact_roots cs),
        cs_utxo_root := state_node_hash perm (cs_utxo_root cs) (zero_slot_roots perm (ss_log_slots ?s) ! ss_log_slots ?s)\<rparr>)"
      using True log s'(1) expand_exact_metadata_is_expand [OF o(1)] by (simp add: expand_for_child_def chain_expand_exact_metadata_def LOG_SEGMENT_SIZE_def Let_def)
    then show ?thesis using grown_chain [OF ok sea s'(2,3) d(1) s'(4)] s'(3,4) d(2) by auto
  next
    case False
    then have ev: "ss_evicted ?s = {}" using small by simp
    then obtain s' where s': "expand ?s = Some s'" using False by (auto simp: expand_def flush_all_dirty_def Let_def LOG_SEGMENT_SIZE_def)
    note e = expand_represents [OF o(1) log s']
    have c: "represents (clear_exact_dirty s') f" by (rule represents_flags [OF e(1)]) (simp_all add: clear_exact_dirty_def)
    have "expand_for_child perm cs = Inr (cs\<lparr>cs_state := clear_exact_dirty s', cs_exact_roots := rc_expand_one perm (cs_exact_roots cs),
        cs_utxo_root := state_node_hash perm (cs_utxo_root cs) (zero_slot_roots perm (ss_log_slots ?s) ! ss_log_slots ?s)\<rparr>)"
      using False s' clean se by (simp add: expand_for_child_def chain_expand_one_def LOG_SEGMENT_SIZE_def Let_def)
    then show ?thesis using grown_chain [OF ok sea c] e(2,3) ev by (simp add: clear_exact_dirty_def)
  qed
qed

lemma write_slot_raw_dirty:
  assumes "represents s f" "unat idx < num_slots s" "resident s (unat idx)" "ss_dirty s \<inter> ss_evicted s = {}"
  shows "ss_dirty (write_slot s (idx, v)) \<inter> ss_evicted (write_slot s (idx, v)) = {}"
proof (cases "slot s idx = v")
  case True
  then show ?thesis using assms(4) by (simp add: write_slot_def Let_def)
next
  case False
  note id = unat_seg_id [OF representsD(1) [OF assms(1)] assms(2)]
  have ev: "seg_id_of s idx \<notin> ss_evicted s" using assms(3) id(2) by (simp add: resident_def)
  then show ?thesis using write_slot_eq [OF ev False] assms(4) by (auto simp: Let_def mark_dirty_def)
qed

lemma apply_delta_raw_dirty:
  assumes "represents s f" "apply_delta_in_place s ds = Inr s'" "\<forall>d \<in> set ds. resident s (unat (fst d))" "ss_dirty s \<inter> ss_evicted s = {}"
  shows "ss_dirty s' \<inter> ss_evicted s' = {}"
proof -
  have fold: "ss_dirty (foldl write_slot s ds) \<inter> ss_evicted (foldl write_slot s ds) = {}"
    if "represents s f" "\<forall>d \<in> set ds. unat (fst d) < num_slots s \<and> resident s (unat (fst d))" "ss_dirty s \<inter> ss_evicted s = {}" for s f
    using that
  proof (induction ds arbitrary: s f)
    case (Cons d ds)
    obtain i v where d: "d = (i, v)" by (cases d)
    have i: "unat i < num_slots s" "resident s (unat i)" using Cons.prems(2) d by simp_all
    note w = write_slot_represents [OF Cons.prems(1) i, of v]
    have "\<forall>d \<in> set ds. unat (fst d) < num_slots (write_slot s (i, v)) \<and> resident (write_slot s (i, v)) (unat (fst d))"
      using Cons.prems(2) by (simp add: num_slots_def resident_def w(2-4))
    from Cons.IH [OF w(1) this write_slot_raw_dirty [OF Cons.prems(1) i Cons.prems(3)]] show ?case by (simp add: d)
  qed simp
  have "\<not> (\<exists>d \<in> set ds. num_slots s \<le> unat (fst d))" using assms(2) apply_delta_rejects [of ds s] by auto
  then have "\<forall>d \<in> set ds. unat (fst d) < num_slots s \<and> resident s (unat (fst d))" using assms(3) by (meson not_le)
  moreover have "s' = foldl write_slot s ds" using assms(2) by (simp add: apply_delta_in_place_def split: if_splits)
  ultimately show ?thesis using fold [OF assms(1) _ assms(4)] by simp
qed

lemma delta_and_root:
  assumes ok: "chain_ok perm cs f" and iter: "iterates iter"
    and ran: "\<forall>d \<in> set us. unat (fst d) < num_slots (cs_state cs) \<and> resident (cs_state cs) (unat (fst d))"
  defines "f' \<equiv> write_all f us" defines "root \<equiv> tree_node perm (slot_hashes perm f') (ss_log_slots (cs_state cs)) 0"
  shows "\<exists>s' cs'. apply_delta_in_place (cs_state cs) us = Inr s' \<and> try_state_root perm iter (cs\<lparr>cs_state := s'\<rparr>) = Inr (root, cs') \<and>
    represents (cs_state cs') f' \<and> roots_ok perm (cs_state cs') (cs_exact_roots cs') f' \<and> sealed perm cs' f' \<and>
    ss_log_slots (cs_state cs') = ss_log_slots (cs_state cs) \<and> ss_evicted (cs_state cs') = ss_evicted (cs_state cs) \<and>
    (ss_dirty (cs_state cs) \<inter> ss_evicted (cs_state cs) = {} \<longrightarrow> ss_dirty (cs_state cs') \<inter> ss_evicted (cs_state cs') = {})"
proof -
  let ?s = "cs_state cs"
  note o = chain_okD [OF ok]
  have "\<not> (\<exists>(idx, _) \<in> set us. num_slots ?s \<le> unat idx)" using ran by (fastforce simp: not_le)
  then obtain s' where s': "apply_delta_in_place ?s us = Inr s'" by (simp add: apply_delta_in_place_def)
  have res: "\<forall>d \<in> set us. resident ?s (unat (fst d))" using ran by blast
  note w = apply_delta_resident [OF o(1) s' res]
  have roots: "roots_ok perm s' (cs_exact_roots cs) f'" unfolding f'_def by (rule roots_ok_apply_delta [OF o(1,3) s' res])
  have dirty: "ss_exact_dirty s' \<inter> ss_evicted s' = {}" by (rule apply_delta_dirty [OF o(1) s' res o(4)])
  let ?cs = "cs\<lparr>cs_state := s'\<rparr>"
  have "roots_ok perm (cs_state ?cs) (align_roots perm (ss_log_slots (cs_state ?cs)) (cs_exact_roots ?cs)) f'"
    using roots align_same [OF roots_okD(2) [OF roots]] by simp
  moreover have rep: "represents (cs_state ?cs) f'" using w(1) by (simp add: f'_def)
  moreover have "ss_exact_dirty (cs_state ?cs) \<inter> ss_evicted (cs_state ?cs) = {}" using dirty by simp
  ultimately obtain r where r: "try_state_root perm iter ?cs = Inr (root, ?cs\<lparr>cs_state := clear_exact_dirty s', cs_exact_roots := r, cs_utxo_root := root\<rparr>)"
    "roots_ok perm (clear_exact_dirty s') r f'"
    using try_state_root_exact [of ?cs f' perm iter] iter w(3) by (auto simp: root_def)
  have "represents (clear_exact_dirty s') f'" by (rule represents_flags [of s']) (use rep in \<open>simp_all add: clear_exact_dirty_def\<close>)
  moreover have "ss_dirty ?s \<inter> ss_evicted ?s = {} \<longrightarrow> ss_dirty s' \<inter> ss_evicted s' = {}" using apply_delta_raw_dirty [OF o(1) s' res] by blast
  ultimately show ?thesis using s' r w(2,3) by (simp add: sealed_def root_def) (simp add: clear_exact_dirty_def)
qed

lemma verified_transition:
  assumes ok: "chain_ok perm cs f" and sea: "sealed perm cs f" and iter: "iterates iter" and ready: "child_ready (cs_state cs) L us"
  defines "f' \<equiv> write_all f us" defines "root \<equiv> tree_node perm (slot_hashes perm f') L 0"
  shows "child \<noteq> root \<Longrightarrow> apply_verified_exact_transition perm iter L child us active alloc cs = Inl (Failed CachedRootMismatch)"
    "\<exists>cs'. apply_verified_exact_transition perm iter L root us active alloc cs = Inr (root, cs') \<and>
      represents (cs_state cs') f' \<and> roots_ok perm (cs_state cs') (cs_exact_roots cs') f' \<and> sealed perm cs' f' \<and>
      ss_log_slots (cs_state cs') = L \<and> ss_evicted (cs_state cs') = ss_evicted (cs_state cs) \<and> cs_active_slot_count cs' = active \<and>
      cs_alloc_counter cs' = alloc \<and> unat (cs_circulating_supply cs') = live_amount f' (2 ^ L) \<and>
      (ss_dirty (cs_state cs) \<inter> ss_evicted (cs_state cs) = {} \<longrightarrow> ss_dirty (cs_state cs') \<inter> ss_evicted (cs_state cs') = {})"
proof -
  let ?s = "cs_state cs"
  note o = chain_okD [OF ok] and r = child_readyD [OF ready] and guards = child_guards [OF ready]
  have computed: "exact_utxo_root_after_slot_updates perm iter cs L us = Inr root"
    using root_after_updates_exact [OF ok iter ready] sea by (simp add: sealed_def root_def f'_def)
  show "apply_verified_exact_transition perm iter L child us active alloc cs = Inl (Failed CachedRootMismatch)" if "child \<noteq> root"
    unfolding apply_verified_exact_transition_def Let_def using guards computed that by (simp add: ensure_def)
  have "unat (cs_circulating_supply cs) = live_amount f (num_slots ?s)" using o(2) by (simp add: counters_ok_def)
  from supply_after_exact [OF o(1) this] child_ready_resident [OF representsD(1) [OF o(1)] ready]
  obtain t where t: "supply_after_slot_updates cs us = Inr t" "unat t = live_amount f' (2 ^ 32)" unfolding f'_def by blast
  obtain cs1 where c1: "(if L = ss_log_slots ?s + 1 then expand_for_child perm cs else Inr cs) = Inr cs1" "chain_ok perm cs1 f" "sealed perm cs1 f"
    "ss_log_slots (cs_state cs1) = L" "ss_evicted (cs_state cs1) = ss_evicted ?s"
    "ss_dirty ?s \<inter> ss_evicted ?s = {} \<longrightarrow> ss_dirty (cs_state cs1) \<inter> ss_evicted ?s = {}"
    using expand_for_child_ok [OF ok sea] ok sea r(1,2,5) by (cases "L = ss_log_slots ?s") auto
  have geo: "ss_effective_log_seg (cs_state cs1) = min L 16"
    using representsD(1) [OF chain_okD(1) [OF c1(2)]] c1(4) by (simp add: geometry_def LOG_SEGMENT_SIZE_def)
  have "\<forall>d \<in> set us. unat (fst d) < num_slots (cs_state cs1) \<and> resident (cs_state cs1) (unat (fst d))"
    using r(3,4) by (simp add: num_slots_def resident_def c1(4,5) geo)
  from delta_and_root [OF c1(2) iter this] obtain s2 cs2 where c2: "apply_delta_in_place (cs_state cs1) us = Inr s2"
    "try_state_root perm iter (cs1\<lparr>cs_state := s2\<rparr>) = Inr (root, cs2)" "represents (cs_state cs2) f'" "roots_ok perm (cs_state cs2) (cs_exact_roots cs2) f'"
    "sealed perm cs2 f'" "ss_log_slots (cs_state cs2) = L" "ss_evicted (cs_state cs2) = ss_evicted ?s"
    "ss_dirty (cs_state cs1) \<inter> ss_evicted ?s = {} \<longrightarrow> ss_dirty (cs_state cs2) \<inter> ss_evicted ?s = {}"
    unfolding root_def f'_def c1(4,5) by blast
  have "live_amount f' (2 ^ 32) = live_amount f' (2 ^ L)" using live_amount_represents(1) [OF c2(3)] c2(6) by (simp add: num_slots_def)
  then show "\<exists>cs'. apply_verified_exact_transition perm iter L root us active alloc cs = Inr (root, cs') \<and>
      represents (cs_state cs') f' \<and> roots_ok perm (cs_state cs') (cs_exact_roots cs') f' \<and> sealed perm cs' f' \<and>
      ss_log_slots (cs_state cs') = L \<and> ss_evicted (cs_state cs') = ss_evicted (cs_state cs) \<and> cs_active_slot_count cs' = active \<and>
      cs_alloc_counter cs' = alloc \<and> unat (cs_circulating_supply cs') = live_amount f' (2 ^ L) \<and>
      (ss_dirty (cs_state cs) \<inter> ss_evicted (cs_state cs) = {} \<longrightarrow> ss_dirty (cs_state cs') \<inter> ss_evicted (cs_state cs') = {})"
    unfolding apply_verified_exact_transition_def Let_def using guards computed t c1(1,6) c2 by (simp add: ensure_def sealed_def)
qed

subsection \<open>Undo logs\<close>

lemma record_input_ok:
  assumes rep: "represents s f" and ok: "trace_ok s L f T trace" and res: "unat (in_slot_index (snd x)) < num_slots s \<longrightarrow> resident s (unat (in_slot_index (snd x)))"
  shows "trace_ok s L f (T \<union> {i. i = in_slot_index (snd x) \<and> unat i < num_slots s}) (record_input s trace x)"
proof (cases "unat (in_slot_index (snd x)) < num_slots s \<and> in_slot_index (snd x) \<notin> T")
  case True
  let ?i = "in_slot_index (snd x)"
  have "slot s ?i = f (unat ?i)" using slot_represents [OF rep, of ?i] res True by simp
  moreover have "unat ?i < child_slots s L" using True by (simp add: child_slots_def)
  ultimately show ?thesis using ok True by (cases trace; cases x) (auto simp: trace_ok_def record_input_def)
next
  case False
  then have "T \<union> {i. i = in_slot_index (snd x) \<and> unat i < num_slots s} = T" by auto
  moreover have "record_input s trace x = trace" using ok False by (cases trace; cases x) (auto simp: trace_ok_def record_input_def)
  ultimately show ?thesis using ok by simp
qed

lemma record_output_ok:
  assumes rep: "represents s f" and ok: "trace_ok s L f T trace" and res: "unat (out_slot_index (snd x)) < num_slots s \<longrightarrow> resident s (unat (out_slot_index (snd x)))"
  shows "trace_ok s L f (insert (out_slot_index (snd x)) T) (record_output s L trace x)"
proof -
  let ?i = "out_slot_index (snd x)"
  have "num_slots s * 2 < 2 ^ 64" using geometry_facts(7) [OF representsD(1) [OF rep]] by simp
  then have child: "(if L = ss_log_slots s + 1 then if num_slots s * 2 < 2 ^ 64 then num_slots s * 2 else num_slots s else num_slots s) = child_slots s L"
    by (simp add: child_slots_def)
  have le: "num_slots s \<le> child_slots s L" by (simp add: child_slots_def)
  have "unat ?i < num_slots s \<Longrightarrow> slot s ?i = f (unat ?i)" using slot_represents [OF rep, of ?i] res by simp
  moreover have "\<not> unat ?i < num_slots s \<Longrightarrow> f (unat ?i) = SLOT_EMPTY" using representsD(3) [OF rep] by simp
  ultimately show ?thesis using ok le
    unfolding record_output_def case_prod_beta Let_def child trace_ok_def by (cases "?i \<in> T") (auto simp: insert_absorb)
qed

lemma foldl_record_input:
  assumes "represents s f" "trace_ok s L f T trace" "\<forall>x \<in> set xs. unat (in_slot_index (snd x)) < num_slots s \<longrightarrow> resident s (unat (in_slot_index (snd x)))"
  shows "trace_ok s L f (T \<union> {i \<in> (\<lambda>x. in_slot_index (snd x)) ` set xs. unat i < num_slots s}) (foldl (record_input s) trace xs)"
  using assms(2,3)
proof (induction xs arbitrary: T trace)
  case (Cons x xs)
  note st = record_input_ok [OF assms(1) Cons.prems(1), of x]
  have "T \<union> {i \<in> (\<lambda>x. in_slot_index (snd x)) ` set (x # xs). unat i < num_slots s} =
      T \<union> {i. i = in_slot_index (snd x) \<and> unat i < num_slots s} \<union> {i \<in> (\<lambda>x. in_slot_index (snd x)) ` set xs. unat i < num_slots s}" by auto
  then show ?case using Cons.IH [OF st] Cons.prems(2) by simp
qed simp

lemma foldl_record_output:
  assumes "represents s f" "trace_ok s L f T trace" "\<forall>x \<in> set xs. unat (out_slot_index (snd x)) < num_slots s \<longrightarrow> resident s (unat (out_slot_index (snd x)))"
  shows "trace_ok s L f (T \<union> (\<lambda>x. out_slot_index (snd x)) ` set xs) (foldl (record_output s L) trace xs)"
  using assms(2,3)
proof (induction xs arbitrary: T trace)
  case (Cons x xs)
  note st = record_output_ok [OF assms(1) Cons.prems(1), of x]
  show ?case using Cons.IH [OF st] Cons.prems(2) by simp
qed simp

lemma foldl_record_tx:
  assumes "represents s f" "trace_ok s L f T trace"
    and "\<forall>i \<in> input_slots bodies \<union> output_slots bodies. unat i < num_slots s \<longrightarrow> resident s (unat i)"
  shows "trace_ok s L f (T \<union> {i \<in> input_slots bodies. unat i < num_slots s} \<union> output_slots bodies) (foldl (record_tx s L) trace bodies)"
  using assms(2,3)
proof (induction bodies arbitrary: T trace)
  case (Cons b bodies)
  let ?ins = "{i \<in> (\<lambda>x. in_slot_index (snd x)) ` set (live_inputs b). unat i < num_slots s}" let ?outs = "(\<lambda>x. out_slot_index (snd x)) ` set (live_outputs b)"
  have "trace_ok s L f (T \<union> ?ins \<union> ?outs) (record_tx s L trace b)" unfolding record_tx_def
    by (rule foldl_record_output [OF assms(1) foldl_record_input [OF assms(1) Cons.prems(1)]])
      (use Cons.prems(2) in \<open>auto simp: input_slots_def output_slots_def\<close>)
  moreover have "T \<union> {i \<in> input_slots (b # bodies). unat i < num_slots s} \<union> output_slots (b # bodies) =
      T \<union> ?ins \<union> ?outs \<union> {i \<in> input_slots bodies. unat i < num_slots s} \<union> output_slots bodies"
    by (auto simp: input_slots_def output_slots_def)
  moreover have "\<forall>i \<in> input_slots bodies \<union> output_slots bodies. unat i < num_slots s \<longrightarrow> resident s (unat i)"
  proof -
    have "input_slots bodies \<union> output_slots bodies \<subseteq> input_slots (b # bodies) \<union> output_slots (b # bodies)"
      by (auto simp: input_slots_def output_slots_def)
    then show ?thesis using Cons.prems(2) by blast
  qed
  ultimately show ?case using Cons.IH by simp
qed (simp add: input_slots_def output_slots_def)

lemma undo_log_records:
  assumes rep: "represents (cs_state cs) f" and res: "\<forall>i \<in> input_slots bodies \<union> output_slots bodies. unat i < num_slots (cs_state cs) \<longrightarrow> resident (cs_state cs) (unat i)"
    and undo: "build_undo_log txids cs height L bodies = Inr undo"
  shows "distinct (map fst (ul_slot_changes undo))" "\<forall>d \<in> set (ul_slot_changes undo). snd d = f (unat (fst d))"
    "fst ` set (ul_slot_changes undo) = {i \<in> input_slots bodies. unat i < num_slots (cs_state cs)} \<union> {i \<in> output_slots bodies. unat i < child_slots (cs_state cs) L}"
    "ul_log_slots_before undo = ss_log_slots (cs_state cs)" "ul_active_slot_count_before undo = cs_active_slot_count cs"
    "ul_alloc_counter_before undo = cs_alloc_counter cs"
proof -
  have u: "ul_slot_changes undo = snd (foldl (record_tx (cs_state cs) L) ({}, []) bodies)" "ul_log_slots_before undo = ss_log_slots (cs_state cs)"
    "ul_active_slot_count_before undo = cs_active_slot_count cs" "ul_alloc_counter_before undo = cs_alloc_counter cs"
    using undo by (auto simp: build_undo_log_def rbind_eq_Inr)
  have "trace_ok (cs_state cs) L f {} ({}, [])" by (simp add: trace_ok_def)
  note t = foldl_record_tx [OF rep this res, unfolded trace_ok_def, folded u(1)]
  have "num_slots (cs_state cs) \<le> child_slots (cs_state cs) L" by (simp add: child_slots_def)
  then show "fst ` set (ul_slot_changes undo) = {i \<in> input_slots bodies. unat i < num_slots (cs_state cs)} \<union> {i \<in> output_slots bodies. unat i < child_slots (cs_state cs) L}"
    using t by auto
  show "distinct (map fst (ul_slot_changes undo))" "\<forall>d \<in> set (ul_slot_changes undo). snd d = f (unat (fst d))" using t by blast+
  show "ul_log_slots_before undo = ss_log_slots (cs_state cs)" "ul_active_slot_count_before undo = cs_active_slot_count cs"
    "ul_alloc_counter_before undo = cs_alloc_counter cs" by (rule u)+
qed

subsection \<open>Shrinking back\<close>

lemma rc_shrink_small:
  assumes "root_cache_ok perm c" "rc_log_slots c = Suc d" "Suc d \<le> 16"
  shows "root_cache_ok perm (rc_shrink_to perm d c)" "rc_log_slots (rc_shrink_to perm d c) = d"
proof -
  have "rc_shrink_to perm d c = c\<lparr>rc_log_slots := d, rc_effective_log_seg := d, rc_segment_roots := [zero_slot_roots perm d ! d],
      rc_tree := build_tree perm [zero_slot_roots perm d ! d]\<rparr>"
    using assms(2,3) by (subst rc_shrink_to.simps) (simp add: Let_def LOG_SEGMENT_SIZE_def rc_shrink_to.simps)
  then show "root_cache_ok perm (rc_shrink_to perm d c)" "rc_log_slots (rc_shrink_to perm d c) = d"
    using assms(3) by (simp_all add: root_cache_ok_def LOG_SEGMENT_SIZE_def)
qed

lemma rc_shrink_large:
  assumes ok: "root_cache_ok perm c" and log: "rc_log_slots c = Suc d" "16 \<le> d"
  shows "root_cache_ok perm (rc_shrink_to perm d c)" "rc_log_slots (rc_shrink_to perm d c) = d"
    "rc_segment_roots (rc_shrink_to perm d c) = take (2 ^ (d - 16)) (rc_segment_roots c)"
proof -
  have e: "rc_effective_log_seg c = 16" "length (rc_segment_roots c) = 2 * 2 ^ (d - 16)"
    using root_cache_effective [OF ok] root_cache_length [OF ok] log le_Suc_ex [OF log(2)] by (auto simp: LOG_SEGMENT_SIZE_def)
  then have half: "length (rc_segment_roots c) div 2 = 2 ^ (d - 16)" by simp
  let ?roots = "take (2 ^ (d - 16)) (rc_segment_roots c)"
  have x: "rc_shrink_to perm d c = c\<lparr>rc_log_slots := d, rc_segment_roots := ?roots, rc_tree := build_tree perm ?roots\<rparr>"
    using log half by (subst rc_shrink_to.simps) (simp add: Let_def LOG_SEGMENT_SIZE_def rc_shrink_to.simps)
  have len: "length ?roots = 2 ^ (d - 16)" using e(2) by simp
  then show "root_cache_ok perm (rc_shrink_to perm d c)"
    using e(1) log(2) build_tree_ok [of ?roots "d - 16" perm] by (simp add: x root_cache_ok_def LOG_SEGMENT_SIZE_def)
  show "rc_log_slots (rc_shrink_to perm d c) = d" "rc_segment_roots (rc_shrink_to perm d c) = ?roots" by (simp_all add: x)
qed

lemma shrink_single_dirty:
  assumes "shrink_single s = Inr s'"
  shows "ss_exact_dirty s' = insert 0 (ss_exact_dirty s)" "ss_num_segments s' = ss_num_segments s"
  using assms by (auto simp: shrink_single_def rbind_eq_Inr flush_all_dirty_def mark_dirty_def ok_or_def Let_def split: if_splits option.splits)

lemma aligned_after_shrink:
  assumes rep: "represents s f" and roots: "roots_ok perm s c f" and dirty: "ss_exact_dirty s \<inter> ss_evicted s = {}"
    and t: "1 \<le> t" "t = ss_log_slots s \<or> Suc t = ss_log_slots s" and sh: "shrink_to_log_slots t s = Inr s'"
  shows "roots_ok perm s' (align_roots perm (ss_log_slots s') c) f" "ss_exact_dirty s' \<inter> ss_evicted s' = {}"
proof -
  have "roots_ok perm s' (align_roots perm (ss_log_slots s') c) f \<and> ss_exact_dirty s' \<inter> ss_evicted s' = {}"
  proof (cases "t = ss_log_slots s")
    case True
    then have "s' = s" using shrink_same t(1) sh by simp
    then show ?thesis using roots dirty align_same [OF roots_okD(2) [OF roots]] by simp
  next
    case False
    then have suc: "ss_log_slots s = Suc t" "t < ss_log_slots s" using t(2) by auto
    note ok = roots_okD [OF roots] and s' = shrink_success [OF rep sh]
    have rdy: "ss_dirty s \<inter> ss_evicted s = {}" using shrink_to_represents(1) [OF rep t(1) suc(2)] sh by blast
    have align: "align_roots perm t c = rc_shrink_to perm t c" using ok(2) suc(1) by (simp add: align_roots_def)
    have log: "rc_log_slots c = Suc t" using ok(2) suc(1) by simp
    show ?thesis
    proof (cases "16 \<le> t")
      case True
      obtain s1 where s1: "shrink_exact_metadata_to_log_slots t s = Inr s1" "s' = s1\<lparr>ss_dirty := {}\<rparr>"
        using shrink_exact_is_shrink(2) [OF rep True suc(2)] sh by blast
      have "s1 = truncate_segments (2 ^ (t - 16)) (s\<lparr>ss_log_slots := t\<rparr>)" using s1(1) unfolding shrink_exact_is_shrink(1) [OF rep True suc(2)] by blast
      then have x: "s' = truncate_segments (2 ^ (t - 16)) (s\<lparr>ss_log_slots := t\<rparr>)\<lparr>ss_dirty := {}\<rparr>" using s1(2) by (simp only:)
      have flags: "ss_exact_dirty s' = retain_below (2 ^ (t - 16)) (ss_exact_dirty s)" "ss_num_segments s' = 2 ^ (t - 16)"
        "ss_effective_log_seg s' = ss_effective_log_seg s" "ss_evicted s' = retain_below (2 ^ (t - 16)) (ss_evicted s)"
        by (simp_all add: x truncate_segments_def)
      note c = rc_shrink_large [OF ok(1) log True]
      have small: "(2 :: nat) ^ (t - 16) \<le> ss_num_segments s"
        using representsD(1) [OF rep] suc(1) True by (auto simp: geometry_def LOG_SEGMENT_SIZE_def intro: power_increasing)
      have "rc_segment_roots (rc_shrink_to perm t c) ! k = tree_node perm (slot_hashes perm f) (ss_effective_log_seg s') k"
        if k: "k < ss_num_segments s'" "of_nat k \<notin> ss_exact_dirty s'" for k
      proof -
        have lt: "k < 2 ^ (t - 16)" "k < ss_num_segments s" using k(1) small unfolding flags by simp_all
        then have "unat (of_nat k :: u16) = k" using geometry_facts(6) [OF representsD(1) [OF rep]] by (intro unat_u16_of_nat) linarith
        then have "of_nat k \<notin> ss_exact_dirty s" using k(2) lt(1) unfolding flags by (simp add: retain_below_def)
        then show ?thesis using ok(4) [OF lt(2)] lt(1) by (simp add: c(3) flags(3))
      qed
      then show ?thesis using c(1,2) dirty unfolding align roots_ok_def s'(2) flags(1,2,4) by (auto simp: retain_below_def flags)
    next
      case False
      have "shrink_single (s\<lparr>ss_dirty := {}\<rparr>) = Inr s'"
        using sh t(1) suc(1) False rdy by (simp add: shrink_to_log_slots_def shrink_step_eq LOG_SEGMENT_SIZE_def rbind_eq_Inr)
      note d = shrink_single_dirty [OF this] and r = shrink_single_represents(2) [OF flush_represents [OF rep] _ _ this]
      have ev: "ss_evicted s' = {}" using r suc(1) t(1) False by simp
      have one: "ss_num_segments s = 1" using representsD(1) [OF rep] suc(1) False by (simp add: geometry_def LOG_SEGMENT_SIZE_def)
      have "\<forall>sid \<in> ss_exact_dirty s'. unat sid < ss_num_segments s'" using d ok(3) one by auto
      moreover have "of_nat k \<in> ss_exact_dirty s'" if "k < ss_num_segments s'" for k using that d one by simp
      ultimately show ?thesis using rc_shrink_small [OF ok(1) log] False unfolding align roots_ok_def s'(2) ev by auto
    qed
  qed
  then show "roots_ok perm s' (align_roots perm (ss_log_slots s') c) f" "ss_exact_dirty s' \<inter> ss_evicted s' = {}" by blast+
qed

subsection \<open>Reverting a block\<close>

lemma write_all_restores:
  assumes "distinct (map fst ch)" "\<forall>d \<in> set ch. snd d = f (unat (fst d))" "\<And>i. g i \<noteq> f i \<Longrightarrow> i \<in> (\<lambda>d. unat (fst d)) ` set ch"
  shows "write_all g ch = f" "write_all g (rev ch) = f"
proof -
  have "write_all g xs i = f i" if "map_of (rev xs) = map_of ch" "set xs = set ch" for xs i
  proof (cases "i \<in> (\<lambda>d. unat (fst d)) ` set ch")
    case True
    then obtain d where d: "d \<in> set ch" "i = unat (fst d)" by blast
    have "d = (fst d, f i)" using assms(2) d by (simp add: prod_eq_iff)
    then have "map_of ch (fst d) = Some (f i)" using assms(1) d(1) by (metis map_of_is_SomeI)
    then show ?thesis using that(1) by (simp add: write_all_at d(2))
  next
    case False
    have "write_all g xs i = g i" by (rule write_all_other) (use False that(2) in auto)
    moreover have "g i = f i" using assms(3) False by blast
    ultimately show ?thesis by simp
  qed
  then show "write_all g ch = f" "write_all g (rev ch) = f" using map_of_rev_distinct [OF assms(1)] by (auto intro!: ext)
qed

lemma block_reverted:
  assumes par: "chain_ok perm cs0 f" "sealed perm cs0 f" "header_matches cs0 hdr" "undoes cs0 f undo" and iter: "iterates iter"
    and rep: "represents (cs_state cs) g" and roots: "roots_ok perm (cs_state cs) (cs_exact_roots cs) g"
    and dirty: "ss_exact_dirty (cs_state cs) \<inter> ss_evicted (cs_state cs) = {}" and sup: "unat (cs_circulating_supply cs) = live_amount g (num_slots (cs_state cs))"
    and log: "ss_log_slots (cs_state cs) = ss_log_slots (cs_state cs0) \<or> ss_log_slots (cs_state cs) = Suc (ss_log_slots (cs_state cs0))"
    and agree: "\<And>i. g i \<noteq> f i \<Longrightarrow> i \<in> (\<lambda>d. unat (fst d)) ` set (ul_slot_changes undo)"
    and keys: "\<forall>d \<in> set (ul_slot_changes undo). unat (fst d) < num_slots (cs_state cs) \<and> resident (cs_state cs) (unat (fst d))"
    and shr: "ss_log_slots (cs_state cs) \<noteq> ss_log_slots (cs_state cs0) \<Longrightarrow>
      ss_dirty (cs_state cs) \<inter> ss_evicted (cs_state cs) = {} \<and> evicted_within (cs_state cs) (ss_log_slots (cs_state cs0))"
  shows "\<exists>cs'. revert_reorg_block perm iter hdr undo cs = Inr cs' \<and> chain_ok perm cs' f \<and> sealed perm cs' f \<and>
    ss_log_slots (cs_state cs') = ss_log_slots (cs_state cs0) \<and> cs_utxo_root cs' = cs_utxo_root cs0 \<and> cs_active_slot_count cs' = cs_active_slot_count cs0 \<and>
    cs_alloc_counter cs' = cs_alloc_counter cs0 \<and> cs_circulating_supply cs' = cs_circulating_supply cs0"
proof -
  let ?s = "cs_state cs" let ?ch = "ul_slot_changes undo" let ?l = "ss_log_slots (cs_state cs0)"
  note o = chain_okD [OF par(1)] and u = par(4) [unfolded undoes_def] and h = par(3) [unfolded header_matches_def]
  have u2: "distinct (map fst ?ch)" "\<forall>d \<in> set ?ch. snd d = f (unat (fst d))" using u by blast+
  have restored: "write_all g ?ch = f" "write_all g (rev ?ch) = f" by (rule write_all_restores [OF u2]; use agree in blast)+
  have res: "\<forall>d \<in> set (rev ?ch). resident ?s (unat (fst d))" using keys by simp
  obtain t where t: "supply_after_slot_updates cs ?ch = Inr t" "unat t = live_amount f (2 ^ 32)"
    using supply_after_exact [OF rep sup, of ?ch, unfolded restored(1)] keys by blast
  have filt: "filter (\<lambda>(i, _). unat i < num_slots ?s) (rev ?ch) = rev ?ch" using keys by (intro filter_True) auto
  have "\<not> (\<exists>(idx, _) \<in> set (rev ?ch). num_slots ?s \<le> unat idx)" using keys by (fastforce simp: not_le)
  then obtain s1 where s1: "apply_delta_in_place ?s (rev ?ch) = Inr s1" by (simp add: apply_delta_in_place_def)
  note w = apply_delta_resident [OF rep s1 res, unfolded restored(2)]
  have r1: "roots_ok perm s1 (cs_exact_roots cs) f" using roots_ok_apply_delta [OF rep roots s1 res] by (simp only: restored(2))
  have d1: "ss_exact_dirty s1 \<inter> ss_evicted s1 = {}" by (rule apply_delta_dirty [OF rep s1 res dirty])
  have l1: "1 \<le> ?l" "?l = ss_log_slots s1 \<or> Suc ?l = ss_log_slots s1" using geometry_facts(4) [OF representsD(1) [OF o(1)]] log w(3) by auto
  obtain s2 where s2: "shrink_to_log_slots ?l s1 = Inr s2"
  proof (cases "?l = ss_log_slots s1")
    case True
    then show thesis using that shrink_same l1(1) by metis
  next
    case False
    then have lt: "?l < ss_log_slots s1" "ss_log_slots ?s \<noteq> ?l" using l1(2) w(3) by auto
    have "ss_dirty s1 \<inter> ss_evicted s1 = {}" by (rule apply_delta_raw_dirty [OF rep s1 res]) (use shr [OF lt(2)] in blast)
    moreover have "evicted_within s1 ?l" using shr [OF lt(2)] by (simp add: evicted_within_def w(2,4))
    moreover have "empty_above f ?l" using representsD(3) [OF o(1)] by (simp add: empty_above_def num_slots_def)
    ultimately show thesis using that shrink_to_represents(1) [OF w(1) l1(1) lt(1)] by blast
  qed
  note rep2 = shrink_success [OF w(1) s2] and al = aligned_after_shrink [OF w(1) r1 d1 l1 s2]
  let ?cs2 = "restore_state_counters undo (cs\<lparr>cs_state := s1, cs_circulating_supply := t\<rparr>\<lparr>cs_state := s2\<rparr>)"
  have c2: "cs_state ?cs2 = s2" "cs_exact_roots ?cs2 = cs_exact_roots cs" "cs_active_slot_count ?cs2 = cs_active_slot_count cs0"
    "cs_alloc_counter ?cs2 = cs_alloc_counter cs0" "cs_circulating_supply ?cs2 = t" using u by (simp_all add: restore_state_counters_def)
  let ?root = "tree_node perm (slot_hashes perm f) ?l 0"
  obtain roots3 where r3: "try_state_root perm iter ?cs2 = Inr (?root, ?cs2\<lparr>cs_state := clear_exact_dirty s2, cs_exact_roots := roots3, cs_utxo_root := ?root\<rparr>)"
    "roots_ok perm (clear_exact_dirty s2) roots3 f"
    using try_state_root_exact [of ?cs2 f perm iter] rep2 al iter unfolding c2(1,2) by auto
  let ?cs3 = "?cs2\<lparr>cs_state := clear_exact_dirty s2, cs_exact_roots := roots3, cs_utxo_root := ?root\<rparr>"
  have rep3: "represents (clear_exact_dirty s2) f" by (rule represents_flags [OF rep2(1)]) (simp_all add: clear_exact_dirty_def)
  have root0: "cs_utxo_root cs0 = ?root" using par(2) by (simp add: sealed_def)
  have log3: "ss_log_slots (clear_exact_dirty s2) = ?l" using rep2(2) by (simp add: clear_exact_dirty_def)
  have "unat t = unat (cs_circulating_supply cs0)" using t(2) o(2) live_amount_represents(1) [OF o(1)] by (simp add: counters_ok_def)
  then have sup3: "t = cs_circulating_supply cs0" by (simp add: word_unat_eq_iff)
  have "revert_reorg_block perm iter hdr undo cs = Inr ?cs3"
    unfolding revert_reorg_block_def revert_block_def Let_def filt using t(1) s1 s2 r3(1) u h root0 log3 c2 by (simp add: ensure_def)
  moreover have "counters_ok ?cs3 f" by (rule counters_beyond [OF o(2,1)]) (use u in \<open>simp_all add: rep3 sup3 restore_state_counters_def\<close>)
  moreover have "ss_exact_dirty (clear_exact_dirty s2) = {}" by (simp add: clear_exact_dirty_def)
  ultimately show ?thesis using rep3 r3(2) log3 root0 sup3 c2 by (intro exI [of _ ?cs3]) (use u in \<open>simp add: chain_ok_def sealed_def restore_state_counters_def\<close>)
qed

lemma block_readyD:
  assumes "block_ready s L bodies"
  shows "fst ` set us \<subseteq> input_slots bodies \<union> output_slots bodies \<Longrightarrow> child_ready s L us"
  using assms unfolding block_ready_def child_ready_def by fastforce

lemma transition_reverted:
  assumes par: "chain_ok perm cs f" "sealed perm cs f" "header_matches cs hdr" and iter: "iterates iter"
    and ready: "block_ready (cs_state cs) L bodies" and undo: "build_undo_log txids cs height L bodies = Inr undo"
    and us: "fst ` set us \<subseteq> {i \<in> input_slots bodies. unat i < num_slots (cs_state cs)} \<union> output_slots bodies"
    and raw: "L \<noteq> ss_log_slots (cs_state cs) \<Longrightarrow> ss_dirty (cs_state cs) \<inter> ss_evicted (cs_state cs) = {}"
    and ap: "apply_verified_exact_transition perm iter L child us active alloc cs = Inr (root, cs1)"
  shows "\<exists>cs'. revert_reorg_block perm iter hdr undo cs1 = Inr cs' \<and> chain_ok perm cs' f \<and> sealed perm cs' f \<and>
    ss_log_slots (cs_state cs') = ss_log_slots (cs_state cs) \<and> cs_utxo_root cs' = cs_utxo_root cs \<and> cs_active_slot_count cs' = cs_active_slot_count cs \<and>
    cs_alloc_counter cs' = cs_alloc_counter cs \<and> cs_circulating_supply cs' = cs_circulating_supply cs"
proof -
  let ?s = "cs_state cs" let ?g = "write_all f us" let ?ch = "ul_slot_changes undo"
  note o = chain_okD [OF par(1)] and g = representsD(1) [OF chain_okD(1) [OF par(1)]]
  have all: "child_ready ?s L us" using block_readyD [OF ready, of us] us by blast
  have slots: "unat i < 2 ^ L" "resident ?s (unat i)" if "i \<in> input_slots bodies \<union> output_slots bodies" for i
    using block_readyD [OF ready, of "[(i, SLOT_EMPTY)]"] that child_readyD(3) child_ready_resident [OF g] by fastforce+
  note log = child_readyD [OF all]
  have child: "child_slots ?s L = 2 ^ L" using log(1) by (auto simp: child_slots_def num_slots_def)
  have "\<forall>i \<in> input_slots bodies \<union> output_slots bodies. unat i < num_slots ?s \<longrightarrow> resident ?s (unat i)" using slots(2) by blast
  note u = undo_log_records [OF o(1) this undo]
  have ukeys: "fst ` set ?ch = {i \<in> input_slots bodies. unat i < num_slots ?s} \<union> output_slots bodies" using u(3) slots(1) unfolding child by blast
  have ch: "child_ready ?s L ?ch" using block_readyD [OF ready, of ?ch] ukeys by blast
  note v = verified_transition [OF par(1,2) iter all]
  have root: "child = tree_node perm (slot_hashes perm ?g) L 0" using v(1) ap by fastforce
  have cs1': "represents (cs_state cs1) ?g" "roots_ok perm (cs_state cs1) (cs_exact_roots cs1) ?g" "sealed perm cs1 ?g" "ss_log_slots (cs_state cs1) = L"
    "ss_evicted (cs_state cs1) = ss_evicted ?s" "unat (cs_circulating_supply cs1) = live_amount ?g (2 ^ L)"
    "ss_dirty ?s \<inter> ss_evicted ?s = {} \<Longrightarrow> ss_dirty (cs_state cs1) \<inter> ss_evicted (cs_state cs1) = {}"
    using v(2) [of active alloc] ap unfolding root by auto
  note g1 = representsD(1) [OF cs1'(1)]
  have e1: "ss_effective_log_seg (cs_state cs1) = min L 16" using g1 cs1'(4) by (simp add: geometry_def LOG_SEGMENT_SIZE_def)
  show ?thesis
  proof (rule block_reverted [OF par _ iter cs1'(1,2)])
    show "undoes cs f undo" using u(1,2,4-6) by (simp add: undoes_def)
    show "ss_exact_dirty (cs_state cs1) \<inter> ss_evicted (cs_state cs1) = {}" using cs1'(3) by (simp add: sealed_def)
    show "unat (cs_circulating_supply cs1) = live_amount ?g (num_slots (cs_state cs1))" using cs1'(4,6) by (simp add: num_slots_def)
    show "ss_log_slots (cs_state cs1) = ss_log_slots ?s \<or> ss_log_slots (cs_state cs1) = Suc (ss_log_slots ?s)" using cs1'(4) log(1) by simp
    show "\<forall>d \<in> set ?ch. unat (fst d) < num_slots (cs_state cs1) \<and> resident (cs_state cs1) (unat (fst d))"
      using child_readyD(3,4) [OF ch] by (simp add: num_slots_def resident_def cs1'(4,5) e1)
    fix i assume "?g i \<noteq> f i"
    then obtain d where d: "d \<in> set us" "unat (fst d) = i" using write_all_other [of us i f] by blast
    then have "fst d \<in> fst ` set ?ch" unfolding ukeys using us by blast
    then obtain d' where "d' \<in> set ?ch" "fst d = fst d'" by blast
    then show "i \<in> (\<lambda>d. unat (fst d)) ` set ?ch" using d(2) by (intro image_eqI [of _ _ d']) simp_all
  next
    assume ne: "ss_log_slots (cs_state cs1) \<noteq> ss_log_slots ?s"
    have "evicted_within (cs_state cs1) (ss_log_slots ?s)"
    proof (cases "ss_log_slots ?s < 16")
      case True
      then show ?thesis using log(5) ne cs1'(4,5) by (simp add: evicted_within_def)
    next
      case False
      have e: "ss_effective_log_seg ?s = 16" "min L 16 = 16" using g False log(1) by (auto simp: geometry_def LOG_SEGMENT_SIZE_def)
      have "(unat sid + 1) * 2 ^ 16 \<le> 2 ^ ss_log_slots ?s" if "sid \<in> ss_evicted ?s" for sid
      proof -
        have "unat sid < ss_num_segments ?s" using g that unfolding geometry_def by blast
        then have "unat sid + 1 \<le> ss_num_segments ?s" by simp
        then have "(unat sid + 1) * 2 ^ 16 \<le> ss_num_segments ?s * 2 ^ 16" by (rule mult_le_mono1)
        then show ?thesis using geometry_facts(5) [OF g] by (simp add: e(1) num_slots_def)
      qed
      then show ?thesis by (simp add: evicted_within_def cs1'(5) e1 e(2))
    qed
    then show "ss_dirty (cs_state cs1) \<inter> ss_evicted (cs_state cs1) = {} \<and> evicted_within (cs_state cs1) (ss_log_slots ?s)"
      using cs1'(7) raw ne cs1'(4) by simp
  qed
qed

subsection \<open>The sibling frontier\<close>

lemma frontier_touched:
  assumes "pos \<in> set (frontier n level ps)"
  shows "\<exists>p \<in> set ps. level \<le> fp_level pos \<and> fp_node_index pos div 2 = p div 2 ^ Suc (fp_level pos - level)"
  using assms
proof (induction n arbitrary: level ps)
  case (Suc n)
  from Suc.prems consider p where "p \<in> set (missing ps)" "pos = \<lparr>fp_level = level, fp_node_index = p\<rparr>"
    | "pos \<in> set (frontier n (Suc level) (parents ps))" by auto
  then show ?case
  proof cases
    case 1
    then show ?thesis using missing_facts(2) [OF 1(1)] by (auto simp: parents_def)
  next
    case 2
    from Suc.IH [OF this] obtain q where q: "q \<in> set ps" "Suc level \<le> fp_level pos"
      "fp_node_index pos div 2 = q div 2 div 2 ^ Suc (fp_level pos - Suc level)" by (auto simp: parents_def)
    have "q div 2 div 2 ^ Suc (fp_level pos - Suc level) = q div 2 ^ Suc (fp_level pos - level)"
      using q(2) by (simp add: div_mult2_eq [symmetric] Suc_diff_Suc)
    then show ?thesis using q by (intro bexI [of _ q]) auto
  qed
qed simp

lemma ilog2_exp: "ilog2 (2 ^ u) = u"
  by (induction u) (subst ilog2.simps, simp)+

lemma drop_bit_exp: "l \<le> u \<Longrightarrow> drop_bit l ((2 :: nat) ^ u) = 2 ^ (u - l)"
  by (simp add: drop_bit_eq_div power_diff)

lemma segment_node_hash_exact:
  assumes ex: "roots_exact perm c f" and l: "l \<le> rc_log_slots c - rc_effective_log_seg c" and n: "n < 2 ^ (rc_log_slots c - rc_effective_log_seg c - l)"
  shows "segment_node_hash c l n = Some (tree_node perm (slot_hashes perm f) (rc_effective_log_seg c + l) n)"
proof -
  let ?u = "rc_log_slots c - rc_effective_log_seg c"
  note ok = roots_exactD(1) [OF ex] and len = root_cache_length [OF roots_exactD(1) [OF ex]]
  have half: "drop_bit l ((2 :: nat) ^ ?u) = 2 ^ (?u - l)" by (rule drop_bit_exp [OF l])
  have "(2 :: nat) ^ (?u - l) \<le> 2 ^ ?u" by (rule power_increasing) simp_all
  then have lt: "n < 2 ^ ?u" using n by linarith
  have trees: "tree_node perm ((!) (rc_segment_roots c)) l n = tree_node perm (slot_hashes perm f) (rc_effective_log_seg c + l) n"
  proof -
    have "tree_node perm ((!) (rc_segment_roots c)) l n = tree_node perm (tree_node perm (slot_hashes perm f) (rc_effective_log_seg c)) l n"
    proof (rule tree_node_cong)
      fix j assume "j div 2 ^ l = n"
      then have "j < 2 ^ (?u - l) * 2 ^ l" using n div_less_iff_less_mult [of "2 ^ l" j "2 ^ (?u - l)"] by simp
      then have "j < length (rc_segment_roots c)" using l by (simp only: len power_add [symmetric] le_add_diff_inverse2)
      then show "rc_segment_roots c ! j = tree_node perm (slot_hashes perm f) (rc_effective_log_seg c) j" by (rule roots_exactD(2) [OF ex])
    qed
    then show ?thesis by (simp only: tree_node_trees)
  qed
  show ?thesis
  proof (cases "l = 0")
    case True
    then show ?thesis using trees lt half by (simp add: segment_node_hash_def len ilog2_exp)
  next
    case False
    then have "rc_log_slots c \<noteq> rc_effective_log_seg c" using l by auto
    note heap = root_cache_heap(1) [OF ok this, unfolded heap_ok_def]
    have node: "rc_tree c ! (2 ^ (?u - l) + n) = tree_node perm ((!) (rc_segment_roots c)) l n" using heap l n by blast
    have "(2 :: nat) ^ (?u - l) \<le> 2 ^ ?u" by (rule power_increasing) simp_all
    moreover have "length (rc_tree c) = 2 * 2 ^ ?u" using heap by blast
    ultimately have "2 ^ (?u - l) + n < length (rc_tree c)" using lt by linarith
    then show ?thesis using node False l n half trees unfolding segment_node_hash_def len ilog2_exp Let_def by simp
  qed
qed

lemma local_subtree_exact:
  assumes rep: "represents s f" and k: "k < ss_num_segments s" and res: "of_nat k \<notin> ss_evicted s"
    and level: "level \<le> ss_effective_log_seg s" and loc: "loc < 2 ^ (ss_effective_log_seg s - level)"
  shows "exact_local_subtree_root perm (ss_segments s ! k) (loc * 2 ^ level) level =
    Inr (tree_node perm (slot_hashes perm f) level (k * 2 ^ (ss_effective_log_seg s - level) + loc))"
proof -
  let ?e = "ss_effective_log_seg s" let ?n = "k * 2 ^ (?e - level) + loc"
  have split: "(2 :: nat) ^ (?e - level) * 2 ^ level = 2 ^ ?e" using level by (simp add: power_add [symmetric])
  have lt: "loc * 2 ^ level + j < 2 ^ ?e" if "j < 2 ^ level" for j
  proof -
    have "Suc loc * 2 ^ level \<le> 2 ^ (?e - level) * 2 ^ level" using loc by (intro mult_le_mono1) simp
    then show ?thesis using that split by simp
  qed
  have pos: "?n * 2 ^ level + j = k * 2 ^ ?e + (loc * 2 ^ level + j)" for j by (simp add: algebra_simps split [symmetric])
  have e: "level < 64" using level geometry_facts(1) [OF representsD(1) [OF rep]] by simp
  show ?thesis
  proof (cases "ss_segments s ! k")
    case None
    then have emp: "seg_live f ?e k = 0" using segment_repD(4) [OF rep k None] res by simp
    have "tree_node perm (slot_hashes perm f) level ?n = zero_slot_roots perm level ! level"
    proof (rule tree_node_empty)
      fix i :: nat assume "i div 2 ^ level = ?n"
      then have "i = ?n * 2 ^ level + i mod 2 ^ level" by (metis div_mult_mod_eq)
      then show "f i = SLOT_EMPTY" using emp lt [of "i mod 2 ^ level"] unfolding seg_live_0 pos by (metis mod_less_divisor zero_less_numeral zero_less_power)
    qed
    then show ?thesis using None by (simp add: exact_local_subtree_root_def)
  next
    case (Some cols)
    have "tree_node perm (slot_hashes perm (\<lambda>j. column_slot cols (loc * 2 ^ level + j))) level 0 =
        tree_node perm (\<lambda>j. slot_hashes perm f (?n * 2 ^ level + j)) level 0"
      by (rule tree_node_cong) (simp only: slot_hashes_def pos segment_repD(3) [OF rep k Some lt] div_eq_0_iff power_not_zero, simp add: segment_repD(3) [OF rep k Some lt])
    also have "\<dots> = tree_node perm (slot_hashes perm f) level ?n" using tree_node_shift [of level level perm "slot_hashes perm f" ?n 0] by simp
    finally show ?thesis using Some stream_slots_exact [OF e] by (simp add: exact_local_subtree_root_def)
  qed
qed

lemma rmap_exact: "(\<And>x. x \<in> set xs \<Longrightarrow> h x = Inr (k x)) \<Longrightarrow> rmap h xs = Inr (map k xs)"
  by (induction xs) simp_all

lemma frontier_sibling_exact:
  assumes ok: "chain_ok perm cs f" and sea: "sealed perm cs f" and ps: "\<forall>p \<in> set ps. p < num_slots (cs_state cs) \<and> resident (cs_state cs) p"
    and pos: "pos \<in> set (frontier (ss_log_slots (cs_state cs)) 0 ps)"
  shows "frontier_sibling perm cs pos = Inr (tree_node perm (slot_hashes perm f) (fp_level pos) (fp_node_index pos))"
proof -
  let ?s = "cs_state cs" let ?e = "ss_effective_log_seg (cs_state cs)" let ?l = "fp_level pos" let ?n = "fp_node_index pos"
  note o = chain_okD [OF ok] and g = representsD(1) [OF chain_okD(1) [OF ok]] and se = sealed_roots [OF ok sea]
  have b: "?l < ss_log_slots ?s" "?n < 2 ^ (ss_log_slots ?s - ?l)" using frontier_bounds [OF _ pos] ps by (auto simp: num_slots_def)
  show ?thesis
  proof (cases "?e \<le> ?l")
    case True
    have c: "rc_effective_log_seg (cs_exact_roots cs) = ?e" using roots_geometry(1) [OF g roots_exactD(1) [OF se(1)] se(2)] .
    have "ss_log_slots ?s - ?e - (?l - ?e) = ss_log_slots ?s - ?l" using True b(1) by simp
    then have "segment_node_hash (cs_exact_roots cs) (?l - ?e) ?n = Some (tree_node perm (slot_hashes perm f) (?e + (?l - ?e)) ?n)"
      using segment_node_hash_exact [OF se(1), of "?l - ?e" ?n] b True by (simp add: c se(2))
    then show ?thesis using True by (simp add: frontier_sibling_def)
  next
    case False
    then have lt: "?l < ?e" by simp
    let ?sh = "?e - ?l" let ?k = "?n div 2 ^ ?sh"
    obtain p where p: "p \<in> set ps" "?n div 2 = p div 2 ^ Suc ?l" using frontier_touched [OF pos] by auto
    have "?k = ?n div 2 div 2 ^ (?sh - 1)" using Suc_diff_Suc [OF lt] by (simp add: div_mult2_eq [symmetric] power_Suc [symmetric] del: power_Suc)
    also have "\<dots> = p div 2 ^ ?e" unfolding p(2) using lt by (simp add: div_mult2_eq [symmetric] power_add [symmetric] del: power_Suc)
    finally have seg: "?k = p div 2 ^ ?e" .
    then have k: "?k < ss_num_segments ?s" "of_nat ?k \<notin> ss_evicted ?s" using ps p(1) seg_index_lt [OF g] by (auto simp: resident_def)
    then have uk: "unat (of_nat ?k :: u16) = ?k" using geometry_facts(6) [OF g] by (intro unat_u16_of_nat) linarith
    have loc: "and ?n (2 ^ ?sh - 1) = ?n mod 2 ^ ?sh" by (simp only: mask_eq_exp_minus_1 [symmetric] take_bit_eq_mask [symmetric] take_bit_eq_mod)
    have "exact_local_subtree_root perm (ss_segments ?s ! ?k) (?n mod 2 ^ ?sh * 2 ^ ?l) ?l = Inr (tree_node perm (slot_hashes perm f) ?l (?k * 2 ^ ?sh + ?n mod 2 ^ ?sh))"
      by (rule local_subtree_exact [OF o(1) k less_imp_le [OF lt]]) simp
    then show ?thesis using lt k(2) uk
      by (simp add: frontier_sibling_def Let_def is_evicted_def drop_bit_eq_div push_bit_eq_mult loc [unfolded One_nat_def] try_get_segment_columns_def div_mult_mod_eq)
  qed
qed

lemma frontier_siblings_exact:
  assumes ok: "chain_ok perm cs f" and sea: "sealed perm cs f" and ps: "validate_indices indices (ss_log_slots (cs_state cs)) = Inr ps"
    and res: "\<forall>i \<in> set indices. resident (cs_state cs) (unat i)"
  shows "exact_frontier_siblings perm cs indices (ss_log_slots (cs_state cs)) =
    Inr (map (\<lambda>pos. tree_node perm (slot_hashes perm f) (fp_level pos) (fp_node_index pos)) (frontier (ss_log_slots (cs_state cs)) 0 ps))"
proof -
  note se = sealed_roots [OF ok sea]
  have "\<forall>p \<in> set ps. p < num_slots (cs_state cs) \<and> resident (cs_state cs) p" using ps res by (auto simp: validate_indices_Inr num_slots_def)
  from rmap_exact [OF frontier_sibling_exact [OF ok sea this]] show ?thesis
    using frontier_sibling_positions_frontier [OF ps] se sea by (simp add: exact_frontier_siblings_def sealed_def)
qed

subsection \<open>Retention of undo logs\<close>

lemma undo_logs_cover_reorg:
  assumes "reorg_allowed n" "n \<le> current" "current - n < h"
  shows "prune_undo_logs logs current h = logs h"
proof -
  have "unat n \<le> 18" "unat n \<le> unat current" using assms(1,2) by (simp_all add: reorg_allowed_def CONSENSUS_FINALITY_DEPTH_def word_le_nat_alt)
  moreover have "unat current - unat n < unat h" using assms(2,3) by (simp add: word_less_nat_alt word_le_nat_alt unat_sub)
  ultimately have "unat (saturating_sub current UNDO_RETENTION_DEPTH) < unat h"
    unfolding unat_saturating_sub by (simp add: UNDO_RETENTION_DEPTH_def CONSENSUS_FINALITY_DEPTH_def)
  then show ?thesis by (simp add: prune_undo_logs_def word_less_nat_alt)
qed

section \<open>Properties\<close>

text \<open>C2: On a sealed state whose touched segments are in memory, the root that the read-only derivation computes for pending updates, with
  or without a growth of the domain, is the root of the whole tree with the updates written. A verified transition under any other
  header root is refused. Under this root it succeeds and leaves a sealed store that represents the updated slots at the new
  depth, with the counters of the header and the supply that sums the live amounts.\<close>

theorem verified_transition_exact:
  assumes "chain_ok perm cs f" "sealed perm cs f" "iterates iter" "child_ready (cs_state cs) L us"
  shows "let f' = write_all f us; root = tree_node perm (slot_hashes perm f') L 0 in
    exact_utxo_root_after_slot_updates perm iter cs L us = Inr root \<and>
    (\<forall>child. child \<noteq> root \<longrightarrow> apply_verified_exact_transition perm iter L child us active alloc cs = Inl (Failed CachedRootMismatch)) \<and>
    (\<exists>cs'. apply_verified_exact_transition perm iter L root us active alloc cs = Inr (root, cs') \<and>
       represents (cs_state cs') f' \<and> sealed perm cs' f' \<and> ss_log_slots (cs_state cs') = L \<and> cs_active_slot_count cs' = active \<and>
       cs_alloc_counter cs' = alloc \<and> unat (cs_circulating_supply cs') = live_amount f' (2 ^ L))"
  using root_after_updates_exact [OF assms(1,3,4)] assms(2) verified_transition [OF assms, where active = active and alloc = alloc]
  unfolding Let_def sealed_def by blast

theorem verified_transition_exact_witness:
  "\<exists>cs root cs'. with_log_slots id 3 = Some cs \<and> apply_verified_exact_transition id sample_iter 4 root [(9, sample_slot)] 1 1 cs = Inr (root, cs') \<and>
     ss_log_slots (cs_state cs') = 4"
proof -
  obtain cs where cs: "with_log_slots id 3 = Some cs" "chain_ok id cs (\<lambda>_. SLOT_EMPTY)" "sealed id cs (\<lambda>_. SLOT_EMPTY)"
    "ss_log_slots (cs_state cs) = 3" "ss_evicted (cs_state cs) = {}" using chain_ok_start [of 3 id] by auto
  have "child_ready (cs_state cs) 4 [(9, sample_slot)]" by (simp add: child_ready_def cs)
  from verified_transition_exact [OF cs(2,3) sample_iterates this, of 1 1] show ?thesis using cs(1) unfolding Let_def by blast
qed

text \<open>C12: The sibling frontier that a sealed state supplies for valid touched indices authenticates any change of these slots against its root:
  with whatever new leaves, reconstruction from the siblings gives the root of the tree with exactly those leaves replaced. The siblings
  come partly from segment columns and partly from the upper tree of segment roots.\<close>

theorem frontier_authenticates_updates:
  assumes "chain_ok perm cs f" "sealed perm cs f" "validate_indices indices (ss_log_slots (cs_state cs)) = Inr ps"
    and "\<forall>i \<in> set indices. resident (cs_state cs) (unat i)" "length leaves = length indices"
  shows "\<exists>siblings. exact_frontier_siblings perm cs indices (ss_log_slots (cs_state cs)) = Inr siblings \<and>
    reconstruct_root perm indices leaves siblings (ss_log_slots (cs_state cs)) =
      Inr (tree_node perm (update_leaves indices leaves (slot_hashes perm f)) (ss_log_slots (cs_state cs)) 0)"
  using frontier_siblings_exact [OF assms(1-4)] reconstruct_root_tree [OF assms(3,5) refl] by blast

theorem frontier_authenticates_updates_witness:
  "\<exists>cs siblings. with_log_slots id 3 = Some cs \<and> exact_frontier_siblings id cs [4, 6] 3 = Inr siblings \<and>
     reconstruct_root id [4, 6] [10, 20] siblings 3 = Inr (tree_node id (update_leaves [4, 6] [10, 20] (slot_hashes id (\<lambda>_. SLOT_EMPTY))) 3 0)"
proof -
  obtain cs where cs: "with_log_slots id 3 = Some cs" "chain_ok id cs (\<lambda>_. SLOT_EMPTY)" "sealed id cs (\<lambda>_. SLOT_EMPTY)"
    "ss_log_slots (cs_state cs) = 3" "ss_evicted (cs_state cs) = {}" using chain_ok_start [of 3 id] by auto
  have "validate_indices [4, 6] (ss_log_slots (cs_state cs)) = Inr [4, 6]" by (simp add: cs validate_indices_Inr)
  from frontier_authenticates_updates [OF cs(2,3) this, of "[10, 20]"] show ?thesis using cs by (simp add: resident_def)
qed

text \<open>C3: Reverting a block undoes its verified transition. When the undo log was recorded from the parent, every updated slot is a live input slot
  of the parent or a live output slot of the block, and, for a block that grew the domain, no segment with a stale raw commitment is
  evicted, the reversal with the counters and the root check of the reorganisation succeeds. It restores the depth, the slots, the
  supply, both counters and the state root of the parent.\<close>

theorem revert_restores_parent:
  assumes "chain_ok perm cs f" "sealed perm cs f" "header_matches cs parent_header" "iterates iter" "block_ready (cs_state cs) L bodies"
    and "build_undo_log txids cs height L bodies = Inr undo"
    and "fst ` set us \<subseteq> {i \<in> input_slots bodies. unat i < num_slots (cs_state cs)} \<union> output_slots bodies"
    and "L \<noteq> ss_log_slots (cs_state cs) \<Longrightarrow> ss_dirty (cs_state cs) \<inter> ss_evicted (cs_state cs) = {}"
    and "apply_verified_exact_transition perm iter L child us active alloc cs = Inr (root, cs1)"
  shows "\<exists>cs'. revert_reorg_block perm iter parent_header undo cs1 = Inr cs' \<and> chain_ok perm cs' f \<and> sealed perm cs' f \<and>
    ss_log_slots (cs_state cs') = ss_log_slots (cs_state cs) \<and> cs_utxo_root cs' = cs_utxo_root cs \<and> cs_active_slot_count cs' = cs_active_slot_count cs \<and>
    cs_alloc_counter cs' = cs_alloc_counter cs \<and> cs_circulating_supply cs' = cs_circulating_supply cs"
  by (rule transition_reverted [OF assms(1-7) _ assms(9)]) (use assms(8) in blast)

theorem revert_restores_parent_witness:
  "\<exists>cs cs1 undo cs'. with_log_slots id 3 = Some cs \<and> build_undo_log (\<lambda>_ _. Inr [] :: unit + digest list) cs 1 4 [fund_body] = Inr undo \<and>
     (\<exists>root. apply_verified_exact_transition id sample_iter 4 root (tx_deltas fund_body (Some 1) 0) 2 2 cs = Inr (root, cs1)) \<and>
     revert_reorg_block id sample_iter (parent_of cs) undo cs1 = Inr cs' \<and> cs_utxo_root cs' = cs_utxo_root cs"
proof -
  obtain cs where cs: "with_log_slots id 3 = Some cs" "chain_ok id cs (\<lambda>_. SLOT_EMPTY)" "sealed id cs (\<lambda>_. SLOT_EMPTY)"
    "ss_log_slots (cs_state cs) = 3" "ss_evicted (cs_state cs) = {}" using chain_ok_start [of 3 id] by auto
  let ?us = "tx_deltas fund_body (Some 1) 0"
  have slots: "input_slots [fund_body] = {}" "output_slots [fund_body] = {4, 5}" by (simp_all add: input_slots_def output_slots_def sample_lives)
  have ready: "block_ready (cs_state cs) 4 [fund_body]" by (simp add: block_ready_def child_ready_def cs slots)
  have us: "fst ` set ?us \<subseteq> {i \<in> input_slots [fund_body]. unat i < num_slots (cs_state cs)} \<union> output_slots [fund_body]"
    by (simp add: slots tx_deltas_def spent_def sample_lives)
  obtain undo where undo: "build_undo_log (\<lambda>_ _. Inr [] :: unit + digest list) cs 1 4 [fund_body] = Inr undo" by (simp add: build_undo_log_def)
  have hdr: "header_matches cs (parent_of cs)" by (simp add: header_matches_def parent_of_def cs)
  obtain root cs1 where ap: "apply_verified_exact_transition id sample_iter 4 root ?us 2 2 cs = Inr (root, cs1)"
    using verified_transition(2) [OF cs(2,3) sample_iterates block_readyD [OF ready], of ?us "2 :: u64" "2 :: u64"] us by blast
  obtain cs' where "revert_reorg_block id sample_iter (parent_of cs) undo cs1 = Inr cs'" "cs_utxo_root cs' = cs_utxo_root cs"
    using revert_restores_parent [OF cs(2,3) hdr sample_iterates ready undo us _ ap] cs(5) by auto
  then show ?thesis using cs(1) undo ap by blast
qed

end
