(* ===== verification/Spec2Isabelle.thy ===== *)
theory Spec2Isabelle
imports Applications Transition
begin

text \<open>
  \<^bold>\<open>Verification of the transaction, contract and consensus rules of the Paranoid node.\<close>

  The program keeps a ledger of unspent outputs in numbered slots. A transaction body names up to eight input slots and two output
  slots; larger spends are groups of such pages; an output may be the deposit of a small integer contract. A block header commits to
  the root of a binary tree over all slots, and the chain of headers carries proof of work with an adjusting target. The
  node holds the slots in segments that may be evicted to a database, keeps the root up to date, and reverts blocks with undo logs when
  a heavier chain appears. The theories follow these layers from the bottom to the top; file names are below \<open>src/\<close>.

  \<^bold>\<open>Shared.\<close> \<open>Prelude\<close>: Rust integers as words, results as sums with the error on the left, byte views, and the lemma collections that move
  words to naturals. \<open>Codec\<close>: readers of fixed layouts and the locale of a format with both round trips.

  \<^bold>\<open>Transactions and contracts\<close> (\<open>noid_poseidon2b\<close>, \<open>noid_tx\<close>).
  \<^item> \<open>Sponge\<close> models \<open>native/compression.rs\<close>, \<open>native/domain.rs\<close> and the digest helpers of \<open>primitives.rs\<close> over an arbitrary permutation. Absorption does
    not depend on how a message is cut, and the byte-hash framing determines its pieces.
  \<^item> \<open>Transaction\<close> models \<open>types.rs\<close>, \<open>public_logic.rs\<close>, \<open>body_hash.rs\<close> and \<open>claims.rs\<close>. The validator accepts exactly the canonical bodies, accepted spends
    conserve value, and the hash leaves determine the body.
  \<^item> \<open>Wire\<close> (\<open>wire.rs\<close>) and \<open>PagedSpend\<close> (\<open>paged_spend.rs\<close>): byte formats that decode exactly their encodings, and groups of pages that
    conserve value over pairwise different slots.
  \<^item> \<open>IntegerProgram\<close> and \<open>ContractObject\<close> (\<open>experimental_object.rs\<close> and its submodules): execution equals that of the same program over
    unbounded integers while it stays in range, and fails with exactly the error the first bad step deserves; an admitted call obeys the rules of its object, and a call that obeys them can be built.
  \<^item> \<open>Applications\<close> (\<open>experimental_object/applications.rs\<close>): the six contract templates, with bounds over whole histories of admitted calls.

  \<^bold>\<open>Consensus\<close> (\<open>noid_chain/src/consensus\<close>, \<open>block_header.rs\<close>).
  \<^item> \<open>Economics\<close>: forks, emission, development allocation, fees and slot expansion; issuance stays within the block rewards.
  \<^item> \<open>Difficulty\<close>: both target rules and chain work, with their limb and byte arithmetic shown exact.
  \<^item> \<open>HeaderChain\<close>: header digests, proof of work, timestamps, header rules, epoch anchors, fork choice, and the bounded header window of
    \<open>noid_node/src/snapshot_header_staging.rs\<close>, which accepts exactly what the unbounded rules accept.

  \<^bold>\<open>State\<close> (\<open>noid_chain/src\<close>).
  \<^item> \<open>SparseMerkle\<close> (\<open>sparse_merkle.rs\<close>, \<open>exact_state_hash.rs\<close>, \<open>fri_state.rs\<close>): the node cache, multiproofs and structural plans against the complete tree
    \<open>tree_node\<close>, which is the reference for every root below.
  \<^item> \<open>ExactRoots\<close> (\<open>state.rs\<close>, \<open>exact_segment_cache.rs\<close>): the three computations of a segment root agree, and the two-level cache holds the
    tree above them.
  \<^item> \<open>Segments\<close> (\<open>segmented_state.rs\<close>): the record \<open>segmented\<close> and its reads, writes, evictions, restorations, summaries, growth and shrinking. The relation
    \<open>represents\<close> ties a store to a map of slots, and every reachable store represents the map of its writes.
  \<^item> \<open>ChainState\<close> (\<open>state.rs\<close>): the record \<open>chain_state\<close>, the application of a transaction with each error, and the refresh of the root. The
    invariant \<open>chain_ok\<close> says that the counters count the slots and that fresh segment roots are theirs. A transaction applies exactly when
    \<open>tx_ready\<close> holds, the supply follows coinbases and fees, and a spent output never returns.
  \<^item> \<open>Transition\<close> (\<open>state.rs\<close>, \<open>consensus/da_prune.rs\<close>, \<open>consensus/reorg.rs\<close>, the reverting loop of \<open>storage/mdbx_context.rs\<close>): the transition of a
    verified block, the sibling frontier, undo logs and the reversal of a block, which restores the state of its parent.

  \<^bold>\<open>How the components meet.\<close> Contract calls are paged spends of transaction bodies; a transaction applies to the segmented store, whose
  segment roots feed the root cache, whose upper nodes and local subtrees form the frontier that multiproof reconstruction consumes; the
  undo log is recorded from the parent state and undoes the verified transition. Interfaces are locales with interpretations on
  the model: \<open>stream_absorber\<close> for the sponge, \<open>codec\<close> for every byte format, \<open>paced_schedule\<close> for the contracts that keep a due height.

  \<^bold>\<open>Arguments of the model.\<close> The Poseidon2b permutation, the packed multi-nonce hasher, the header store and the boundary
  and parent header read from it, the page-stream validation that
  yields the transaction ids of an undo log, the slot that an overlap error names, and the iteration order of hash sets. Hypotheses on them state
  only what the code documents: an iteration lists the elements of its set, a hasher agrees with the scalar digest.
  No theorem assumes a hash to be injective; where a digest binds a value the theorem is about the absorbed input.

  \<^bold>\<open>Bounds and termination.\<close> No definition runs on fuel: loops are structural recursions over lists and levels, or functions with a
  measure. Depths are at most 32, as the geometry of the store requires and the expansion rule enforces. Constants are those of the release
  profile without the isolated-testnet feature. Where the code may use a cached array tree, the model takes the branch of a cache miss. A panic is \<open>None\<close>, \<open>Panicked\<close> or \<open>FlushPanic\<close>, so that its absence is part of a theorem. The application theorems take the
  claimed outputs of a body as different from the empty slot, since the code compares a claim with the stored value only.

  \<^bold>\<open>Not modelled.\<close> The proof systems and their verifiers, owner authorization, native assets and their markets, the permutation itself, block
  templates and full block validation, miner policy (conflict resolution, ordering, slot hints), the database, snapshots and
  the driver of a reorganisation, the raw segment commitments and the cache of hot array trees, mempool, networking, RPC, miners, the contract
  compiler and the wallet. They are cryptographic arguments, input and output, or services over the rules verified here.
\<close>

end
